(* ===== verification/C_Prelude.thy ===== *)
theory C_Prelude
  imports Main "HOL-Library.Word" "HOL-Library.Multiset"
begin

text \<open>
  Shared vocabulary of the development: the C integer types the programs use, C strings,
  the named theorem collections, and the generic facts on words and lists that the
  component theories share.

  A C \<open>int\<close> and an \<open>unsigned int\<close> are both a 32-bit word; the signed reading is
  \<open>sint\<close>, a signed right shift is \<open>signed_drop_bit\<close> (the programs are built with gcc on a
  two's complement machine), an unsigned one \<open>drop_bit\<close>, and a left shift \<open>push_bit\<close>.
  A C string is the list of its characters before the terminating NUL: reading through a
  pointer at the end of the list yields NUL.
\<close>

unbundle bit_operations_syntax

named_theorems field_simps_c \<open>extraction of bit fields from instruction words\<close>
named_theorems c_string_simps \<open>unfolding of the C string helpers\<close>

type_synonym u8 = "8 word"
type_synonym u32 = "32 word"
type_synonym i32 = "32 word"
type_synonym u64 = "64 word"
type_synonym cstring = string

text \<open>Dereferencing a \<open>char *\<close>: NUL at the end of the string.\<close>

definition deref :: "cstring \<Rightarrow> char" where
  "deref s = (case s of [] \<Rightarrow> CHR 0x00 | c # _ \<Rightarrow> c)"

lemma deref_simps [simp]:
  "deref [] = CHR 0x00" "deref (c # s) = c"
  by (simp_all add: deref_def)

text \<open>The numeric value of a character, as used in comparisons such as \<open>*p > 47\<close>.\<close>

definition ord :: "char \<Rightarrow> nat" where
  "ord c = of_char c"

text \<open>C's truth values.\<close>

definition c_bool :: "bool \<Rightarrow> i32" where
  "c_bool b = (if b then 1 else 0)"

lemma c_bool_simps [simp]:
  "c_bool True = 1" "c_bool False = 0" "c_bool b = 0 \<longleftrightarrow> \<not> b" "c_bool b \<noteq> 0 \<longleftrightarrow> b"
  "c_bool b = 1 \<longleftrightarrow> b"
  by (simp_all add: c_bool_def)

section \<open>Generic facts on words\<close>

text \<open>A 32-bit word that is an \<open>n\<close>-bit two's complement number.\<close>

definition fits_signed :: "nat \<Rightarrow> i32 \<Rightarrow> bool" where
  "fits_signed n a \<longleftrightarrow> - (2 ^ (n - 1)) \<le> sint a \<and> sint a < 2 ^ (n - 1)"

lemma fits_signed_bit:
  assumes "fits_signed n a" "0 < n" "n - 1 \<le> k" "k < 32"
  shows "bit a k \<longleftrightarrow> bit a (n - 1)"
proof -
  have n: "n - 1 < 32" using assms by simp
  have "signed_take_bit (n - 1) (sint a) = sint a"
    using assms(1) by (simp add: fits_signed_def signed_take_bit_int_eq_self)
  then have "bit (sint a) k \<longleftrightarrow> bit (signed_take_bit (n - 1) (sint a)) k" by simp
  also have "\<dots> \<longleftrightarrow> bit (sint a) (n - 1)"
    using assms(3) by (simp add: bit_signed_take_bit_iff min_def)
  finally show ?thesis
    using assms n by (simp add: bit_sint_iff min_def)
qed

lemma less_exp_bit:
  assumes "unat (a :: i32) < 2 ^ k" "bit a n"
  shows "n < k"
proof -
  have "take_bit k (unat a) = unat a" using assms(1) by (simp add: take_bit_nat_eq_self)
  moreover have "bit (unat a) n" using assms(2) by (simp add: bit_unsigned_iff)
  ultimately show ?thesis by (metis bit_take_bit_iff)
qed

lemma take_bit_diff_word:
  assumes "take_bit m q = 0" "m \<le> 32"
  shows "take_bit m (a - q) = take_bit m (a :: i32)"
proof -
  have q: "take_bit m (uint q) = 0"
    using arg_cong [OF assms(1), of uint] assms(2) by (simp add: unsigned_take_bit_eq)
  have "uint (take_bit m (a - q)) = take_bit m (uint a - uint q)"
    using assms(2) by (simp add: unsigned_take_bit_eq uint_word_arith_bintrs min_def)
  also have "\<dots> = take_bit m (take_bit m (uint a) - take_bit m (uint q))"
    by (simp only: take_bit_diff)
  also have "\<dots> = uint (take_bit m a)"
    by (simp add: q unsigned_take_bit_eq)
  finally show ?thesis by (rule unsigned_word_eqI)
qed

lemma aligned4_bit:
  fixes d :: i32
  assumes "d AND 3 = 0" "n < 2"
  shows "\<not> bit d n"
proof -
  have "bit (d AND 3) n \<longleftrightarrow> bit d n"
    using assms(2) by (auto simp: bit_simps less_2_cases_iff)
  with assms(1) show ?thesis by simp
qed

lemma sign_bit: "signed_drop_bit n (v :: i32) AND 1 \<noteq> 0 \<longleftrightarrow> bit (signed_drop_bit n v) 0"
  by (simp add: and_one_eq bit_0 odd_iff_mod_2_eq_one)

lemma sint_small:
  assumes "uint (r :: i32) < 2 ^ 31"
  shows "sint r = uint r"
proof -
  have "\<not> bit (uint r) 31"
    using assms take_bit_int_eq_self [of "uint r" 31] bit_take_bit_iff [of 31 "uint r" 31] by simp
  then show ?thesis
    using assms by (simp add: sint_uint signed_take_bit_eq_if_positive take_bit_int_eq_self)
qed

text \<open>The 32-bit word with the given bytes, most significant first.\<close>

definition be32 :: "u8 \<Rightarrow> u8 \<Rightarrow> u8 \<Rightarrow> u8 \<Rightarrow> u32" where
  "be32 a b c d = push_bit 24 (ucast a) OR push_bit 16 (ucast b) OR push_bit 8 (ucast c) OR ucast d"

lemma bit_be32:
  assumes "n < 32"
  shows "bit (be32 a b c d) n \<longleftrightarrow>
    (if n < 8 then bit d n else if n < 16 then bit c (n - 8)
     else if n < 24 then bit b (n - 16) else bit a (n - 24))"
  using assms by (auto simp: be32_def bit_simps dest: bit_imp_le_length)

text \<open>The bytes of a word, least significant first.\<close>

definition byte_of :: "nat \<Rightarrow> u32 \<Rightarrow> u8" where
  "byte_of i w = ucast (drop_bit (8 * i) w)"

lemma bit_byte_of: "bit (byte_of i w) n \<longleftrightarrow> n < 8 \<and> bit w (8 * i + n)"
  by (simp add: byte_of_def bit_simps)

lemma be32_bytes: "be32 (byte_of 3 w) (byte_of 2 w) (byte_of 1 w) (byte_of 0 w) = w"
  by (rule bit_word_eqI) (auto simp: bit_be32 bit_byte_of not_less)

lemma byte_of_be32: "byte_of 0 (be32 a b c d) = d" "byte_of 1 (be32 a b c d) = c"
  "byte_of 2 (be32 a b c d) = b" "byte_of 3 (be32 a b c d) = a"
  by (rule bit_word_eqI, simp add: bit_byte_of bit_be32)+

lemma ord_inject [simp]: "ord c = ord d \<longleftrightarrow> c = d"
  by (simp add: ord_def)

end
