(* ===== verification/Mips_Tables.thy ===== *)
theory Mips_Tables
  imports C_Prelude
begin

text \<open>
  The instruction tables of the MIPS converter (\<open>MIPS Convertor/src/instr_table.c\<close>) with
  the types of \<open>MIPS Convertor/include/instruction.h\<close>: opcodes, instruction types, argument
  sources, the entry that describes an instruction, and the three tables.
\<close>

section \<open>Types of instruction.h\<close>

datatype (plugins only: code size) Opcode =
    OP_0 | OP_ADD | OP_ADDI | OP_ADDIU | OP_ADDU | OP_AND
  | OP_ANDI | OP_BEQ | OP_BGEZ | OP_BGEZAL | OP_BGTZ | OP_BLEZ
  | OP_BLTZ | OP_BLTZAL | OP_BNE | OP_15 | OP_DIV | OP_DIVU
  | OP_J | OP_JAL | OP_JALR | OP_JR | OP_LB | OP_LBU
  | OP_LH | OP_LHU | OP_LUI | OP_LW | OP_LWL | OP_LWR
  | OP_30 | OP_MFHI | OP_MFLO | OP_33 | OP_MTHI | OP_MTLO
  | OP_MULT | OP_MULTU | OP_NOR | OP_OR | OP_ORI | OP_RFE
  | OP_SB | OP_SH | OP_SLL | OP_SLLV | OP_SLT | OP_SLTI
  | OP_SLTIU | OP_SLTU | OP_SRA | OP_SRAV | OP_SRL | OP_SRLV
  | OP_SUB | OP_SUBU | OP_SW | OP_SWL | OP_SWR | OP_XOR
  | OP_XORI | OP_SYSCALL | OP_BREAK | OP_UNIMP | SPECIAL | BCOND
  | ILLEGL

datatype Type = NTYP | ITYP | JTYP | RTYP

datatype Source = NSRC | SRC_RS | SRC_RT | SRC_RD | EXTRA

record Instr_info =
  ii_opcode :: Opcode
  ii_type :: Type
  ii_srcs :: "Source list"
  ii_format :: cstring

text \<open>
  The pointer \<open>info\<close> is \<open>None\<close> when it is null; \<open>regs\<close> and \<open>args\<close> are the
  arrays of three elements.
\<close>

record Instruction =
  i_value :: i32
  i_info :: "Instr_info option"
  i_regs :: "u8 list"
  i_extra :: i32
  i_args :: "i32 list"

definition mk_info :: "Opcode \<Rightarrow> Type \<Rightarrow> Source list \<Rightarrow> cstring \<Rightarrow> Instr_info" where
  "mk_info oc ty ss fm = \<lparr>ii_opcode = oc, ii_type = ty, ii_srcs = ss, ii_format = fm\<rparr>"

section \<open>The tables of instr\_table.c\<close>

definition opcodeTable :: "Opcode list" where
  "opcodeTable =
    [
     SPECIAL, BCOND, OP_J, OP_JAL, OP_BEQ, OP_BNE, OP_BLEZ, OP_BGTZ,
     OP_ADDI, OP_ADDIU, OP_SLTI, OP_SLTIU, OP_ANDI, OP_ORI, OP_XORI, OP_LUI,
     OP_UNIMP, OP_UNIMP, OP_UNIMP, OP_UNIMP, ILLEGL, ILLEGL, ILLEGL, ILLEGL,
     ILLEGL, ILLEGL, ILLEGL, ILLEGL, ILLEGL, ILLEGL, ILLEGL, ILLEGL,
     OP_LB, OP_LH, OP_LWL, OP_LW, OP_LBU, OP_LHU, OP_LWR, ILLEGL,
     OP_SB, OP_SH, OP_SWL, OP_SW, ILLEGL, ILLEGL, OP_SWR, ILLEGL,
     OP_UNIMP, OP_UNIMP, OP_UNIMP, OP_UNIMP, ILLEGL, ILLEGL, ILLEGL, ILLEGL,
     OP_UNIMP, OP_UNIMP, OP_UNIMP, OP_UNIMP, ILLEGL, ILLEGL, ILLEGL, ILLEGL]"

definition specialTable :: "Opcode list" where
  "specialTable =
    [
     OP_SLL, ILLEGL, OP_SRL, OP_SRA, OP_SLLV, ILLEGL, OP_SRLV, OP_SRAV,
     OP_JR, OP_JALR, ILLEGL, ILLEGL, OP_SYSCALL, OP_BREAK, ILLEGL, ILLEGL,
     OP_MFHI, OP_MTHI, OP_MFLO, OP_MTLO, ILLEGL, ILLEGL, ILLEGL, ILLEGL,
     OP_MULT, OP_MULTU, OP_DIV, OP_DIVU, ILLEGL, ILLEGL, ILLEGL, ILLEGL,
     OP_ADD, OP_ADDU, OP_SUB, OP_SUBU, OP_AND, OP_OR, OP_XOR, OP_NOR,
     ILLEGL, ILLEGL, OP_SLT, OP_SLTU, ILLEGL, ILLEGL, ILLEGL, ILLEGL,
     ILLEGL, ILLEGL, ILLEGL, ILLEGL, ILLEGL, ILLEGL, ILLEGL, ILLEGL,
     ILLEGL, ILLEGL, ILLEGL, ILLEGL, ILLEGL, ILLEGL, ILLEGL, ILLEGL]"

definition instrTable :: "Instr_info list" where
  "instrTable =
    [
     mk_info ILLEGL NTYP [NSRC, NSRC, NSRC] ''ILLEGAL'',
     mk_info OP_ADD RTYP [SRC_RD, SRC_RS, SRC_RT] ''add $%d,$%d,$%d'',
     mk_info OP_ADDI ITYP [SRC_RT, SRC_RS, EXTRA] ''addi $%d,$%d,%d'',
     mk_info OP_ADDIU ITYP [SRC_RT, SRC_RS, EXTRA] ''addiu $%d,$%d,%d'',
     mk_info OP_ADDU RTYP [SRC_RD, SRC_RS, SRC_RT] ''addu $%d,$%d,$%d'',
     mk_info OP_AND RTYP [SRC_RD, SRC_RS, SRC_RT] ''and $%d,$%d,$%d'',
     mk_info OP_ANDI ITYP [SRC_RT, SRC_RS, EXTRA] ''andi $%d,$%d,0x%x'',
     mk_info OP_BEQ ITYP [SRC_RS, SRC_RT, EXTRA] ''beq $%d,$%d,%d'',
     mk_info OP_BGEZ ITYP [SRC_RS, EXTRA, NSRC] ''bgez $%d,%d'',
     mk_info OP_BGEZAL ITYP [SRC_RS, EXTRA, NSRC] ''bgezal $%d,%d'',
     mk_info OP_BGTZ ITYP [SRC_RS, EXTRA, NSRC] ''bgtz $%d,%d'',
     mk_info OP_BLEZ ITYP [SRC_RS, EXTRA, NSRC] ''blez $%d,%d'',
     mk_info OP_BLTZ ITYP [SRC_RS, EXTRA, NSRC] ''bltz $%d,%d'',
     mk_info OP_BLTZAL ITYP [SRC_RS, EXTRA, NSRC] ''bltzal $%d,%d'',
     mk_info OP_BNE ITYP [SRC_RS, SRC_RT, EXTRA] ''bne $%d,$%d,%d'',
     mk_info ILLEGL NTYP [NSRC, NSRC, NSRC] ''ILLEGAL'',
     mk_info OP_DIV RTYP [SRC_RS, SRC_RT, NSRC] ''div $%d,$%d'',
     mk_info OP_DIVU RTYP [SRC_RS, SRC_RT, NSRC] ''divu $%d,$%d'',
     mk_info OP_J JTYP [EXTRA, NSRC, NSRC] ''j 0x%x'',
     mk_info OP_JAL JTYP [EXTRA, NSRC, NSRC] ''jal 0x%x'',
     mk_info OP_JALR RTYP [SRC_RD, SRC_RS, NSRC] ''jalr $%d,$%d'',
     mk_info OP_JR RTYP [SRC_RS, NSRC, NSRC] ''jr $%d'',
     mk_info OP_LB ITYP [SRC_RT, EXTRA, SRC_RS] ''lb $%d,%d($%d)'',
     mk_info OP_LBU ITYP [SRC_RT, EXTRA, SRC_RS] ''lbu $%d,%d($%d)'',
     mk_info OP_LH ITYP [SRC_RT, EXTRA, SRC_RS] ''lh $%d,%d($%d)'',
     mk_info OP_LHU ITYP [SRC_RT, EXTRA, SRC_RS] ''lhu $%d,%d($%d)'',
     mk_info OP_LUI ITYP [SRC_RT, EXTRA, NSRC] ''lui $%d,0x%x'',
     mk_info OP_LW ITYP [SRC_RT, EXTRA, SRC_RS] ''lw $%d,%d($%d)'',
     mk_info OP_LWL ITYP [SRC_RT, EXTRA, SRC_RS] ''lwl $%d,%d($%d)'',
     mk_info OP_LWR ITYP [SRC_RT, EXTRA, SRC_RS] ''lwr $%d,%d($%d)'',
     mk_info ILLEGL NTYP [NSRC, NSRC, NSRC] ''ILLEGAL'',
     mk_info OP_MFHI RTYP [SRC_RD, NSRC, NSRC] ''mfhi $%d'',
     mk_info OP_MFLO RTYP [SRC_RD, NSRC, NSRC] ''mflo $%d'',
     mk_info ILLEGL NTYP [NSRC, NSRC, NSRC] ''ILLEGAL'',
     mk_info OP_MTHI RTYP [SRC_RS, NSRC, NSRC] ''mthi $%d'',
     mk_info OP_MTLO RTYP [SRC_RS, NSRC, NSRC] ''mtlo $%d'',
     mk_info OP_MULT RTYP [SRC_RS, SRC_RT, NSRC] ''mult $%d,$%d'',
     mk_info OP_MULTU RTYP [SRC_RS, SRC_RT, NSRC] ''multu $%d,$%d'',
     mk_info OP_NOR RTYP [SRC_RD, SRC_RS, SRC_RT] ''nor $%d,$%d,$%d'',
     mk_info OP_OR RTYP [SRC_RD, SRC_RS, SRC_RT] ''or $%d,$%d,$%d'',
     mk_info OP_ORI ITYP [SRC_RT, SRC_RS, EXTRA] ''ori $%d,$%d,0x%x'',
     mk_info OP_RFE NTYP [NSRC, NSRC, NSRC] ''rfe'',
     mk_info OP_SB ITYP [SRC_RT, EXTRA, SRC_RS] ''sb $%d,%d($%d)'',
     mk_info OP_SH ITYP [SRC_RT, EXTRA, SRC_RS] ''sh $%d,%d($%d)'',
     mk_info OP_SLL RTYP [SRC_RD, SRC_RT, EXTRA] ''sll $%d,$%d,%d'',
     mk_info OP_SLLV RTYP [SRC_RD, SRC_RT, SRC_RS] ''sllv $%d,$%d,$%d'',
     mk_info OP_SLT RTYP [SRC_RD, SRC_RS, SRC_RT] ''slt $%d,$%d,$%d'',
     mk_info OP_SLTI ITYP [SRC_RT, SRC_RS, EXTRA] ''slti $%d,$%d,%d'',
     mk_info OP_SLTIU ITYP [SRC_RT, SRC_RS, EXTRA] ''sltiu $%d,$%d,%d'',
     mk_info OP_SLTU RTYP [SRC_RD, SRC_RS, SRC_RT] ''sltu $%d,$%d,$%d'',
     mk_info OP_SRA RTYP [SRC_RD, SRC_RT, EXTRA] ''sra $%d,$%d,%d'',
     mk_info OP_SRAV RTYP [SRC_RD, SRC_RT, SRC_RS] ''srav $%d,$%d,$%d'',
     mk_info OP_SRL RTYP [SRC_RD, SRC_RT, EXTRA] ''srl $%d,$%d,%d'',
     mk_info OP_SRLV RTYP [SRC_RD, SRC_RT, SRC_RS] ''srlv $%d,$%d,$%d'',
     mk_info OP_SUB RTYP [SRC_RD, SRC_RS, SRC_RT] ''sub $%d,$%d,$%d'',
     mk_info OP_SUBU RTYP [SRC_RD, SRC_RS, SRC_RT] ''subu $%d,$%d,$%d'',
     mk_info OP_SW ITYP [SRC_RT, EXTRA, SRC_RS] ''sw $%d,%d($%d)'',
     mk_info OP_SWL ITYP [SRC_RT, EXTRA, SRC_RS] ''swl $%d,%d($%d)'',
     mk_info OP_SWR ITYP [SRC_RT, EXTRA, SRC_RS] ''swr $%d,%d($%d)'',
     mk_info OP_XOR RTYP [SRC_RD, SRC_RS, SRC_RT] ''xor $%d,$%d,$%d'',
     mk_info OP_XORI ITYP [SRC_RT, SRC_RS, EXTRA] ''xori $%d,$%d,0x%x'',
     mk_info OP_SYSCALL RTYP [NSRC, NSRC, NSRC] ''syscall'',
     mk_info OP_BREAK RTYP [EXTRA, NSRC, NSRC] ''break 0x%x'',
     mk_info OP_UNIMP NTYP [NSRC, NSRC, NSRC] ''Unimplemented'']"

text \<open>\<open>NUM_ELEM\<close> of \<open>hw1.h\<close> is the common length of the three tables.\<close>

definition NUM_ELEM :: nat where
  "NUM_ELEM = 64"

end
