(* ===== verification/Mips_Codec.thy ===== *)
theory Mips_Codec
  imports Mips_Tables
begin

text \<open>
  The instruction codec of the MIPS converter (\<open>MIPS Convertor/src/hw1.c\<close>):
  \<open>bigEndian\<close>, the table searches, \<open>encode\<close> and \<open>decode\<close>.
\<close>

section \<open>Byte order\<close>

definition bigEndian :: "u32 \<Rightarrow> i32" where
  "bigEndian num0 =
    (let temp1 = push_bit 24 num0;
         temp2 = drop_bit 24 num0;
         num = num0 AND 0x00FFFF00;
         num = num OR temp1;
         num = num OR temp2;
         temp1 = drop_bit 8 num;
         temp2 = push_bit 8 num;
         temp1 = temp1 AND 0x0000FF00;
         temp2 = temp2 AND 0x00FF0000;
         num = num AND 0xFF0000FF;
         num = num OR temp1;
         num = num OR temp2
     in num)"

section \<open>Searching the tables\<close>

text \<open>The loops \<open>for(i=0; i < NUM_ELEM; i++) if(table[i] == x)\<close>: the first index that matches.\<close>

fun first_idx :: "('a \<Rightarrow> bool) \<Rightarrow> 'a list \<Rightarrow> nat option" where
  "first_idx p [] = None"
| "first_idx p (x # xs) = (if p x then Some 0 else map_option Suc (first_idx p xs))"

definition hasSpecial :: bool where
  "hasSpecial = (case first_idx (\<lambda>oc. oc = SPECIAL) (take NUM_ELEM opcodeTable) of
     Some i \<Rightarrow> True | None \<Rightarrow> False)"

definition isSpecial :: "Instr_info \<Rightarrow> Instruction \<Rightarrow> bool \<times> Instruction" where
  "isSpecial ent ip =
    (case first_idx (\<lambda>oc. oc = ii_opcode ent) (take NUM_ELEM specialTable) of
       Some i \<Rightarrow>
         if \<not> hasSpecial then (False, ip)
         else (True, ip\<lparr>i_value := i_value ip OR of_nat i\<rparr>)
     | None \<Rightarrow> (False, ip))"

definition isNotSpecial :: "Instr_info \<Rightarrow> Instruction \<Rightarrow> bool \<times> Instruction" where
  "isNotSpecial ent ip =
    (case first_idx (\<lambda>oc. oc = ii_opcode ent) (take NUM_ELEM opcodeTable) of
       Some i \<Rightarrow> (True, ip\<lparr>i_value := push_bit 26 (of_nat i)\<rparr>)
     | None \<Rightarrow> (False, ip))"

definition isBranch :: "Instr_info \<Rightarrow> bool" where
  "isBranch ent =
    (case ii_opcode ent of
       OP_BEQ \<Rightarrow> True | OP_BGEZ \<Rightarrow> True | OP_BGEZAL \<Rightarrow> True | OP_BGTZ \<Rightarrow> True
     | OP_BLEZ \<Rightarrow> True | OP_BLTZ \<Rightarrow> True | OP_BLTZAL \<Rightarrow> True | OP_BNE \<Rightarrow> True
     | _ \<Rightarrow> False)"

definition findBcond :: "Instruction \<Rightarrow> bool \<times> Instruction" where
  "findBcond ip =
    (case first_idx (\<lambda>oc. oc = BCOND) (take NUM_ELEM opcodeTable) of
       Some i \<Rightarrow> (True, ip\<lparr>i_value := i_value ip OR push_bit 26 (of_nat i)\<rparr>)
     | None \<Rightarrow> (False, ip))"

section \<open>encode\<close>

text \<open>
  The opcode part of \<open>encode\<close>. A disjunct of the if-chain that calls \<open>findBcond\<close> and
  fails leaves the instruction as it was, so the last branch starts from \<open>ip\<close>.
\<close>

definition encode_opcode :: "Instr_info \<Rightarrow> Instruction \<Rightarrow> bool \<times> Instruction" where
  "encode_opcode ent ip =
    (let (b, bp) = findBcond ip;
         oc = ii_opcode ent
     in if oc = OP_BGEZ \<and> b then (True, bp\<lparr>i_value := i_value bp OR 0x10000\<rparr>)
        else if oc = OP_BLTZAL \<and> b then (True, bp\<lparr>i_value := i_value bp OR 0x100000\<rparr>)
        else if oc = OP_BGEZAL \<and> b then (True, bp\<lparr>i_value := i_value bp OR 0x110000\<rparr>)
        else if oc = OP_BLTZ \<and> b then (True, bp)
        else (case isSpecial ent ip of
                (True, ip1) \<Rightarrow> (True, ip1)
              | (False, ip1) \<Rightarrow> isNotSpecial ent ip1))"

text \<open>
  The bits contributed by an \<open>EXTRA\<close> argument \<open>a\<close>; \<open>None\<close> is the early return 0.
\<close>

definition encode_extra :: "Instr_info \<Rightarrow> Instruction \<Rightarrow> u32 \<Rightarrow> i32 \<Rightarrow> i32 option" where
  "encode_extra ent ip addr a =
    (if ii_opcode ent = OP_BREAK then Some (signed_drop_bit 6 (push_bit 12 a))
     else case ii_type ent of
       RTYP \<Rightarrow> Some (push_bit 6 (a AND 0x1F))
     | ITYP \<Rightarrow>
         (let e = (if isBranch ent then signed_drop_bit 2 (a - (addr + 4)) else a)
          in if e \<noteq> i_extra ip then None else Some (e AND 0xFFFF))
     | JTYP \<Rightarrow>
         (let myPC = i_extra ip AND 0xF0000000;
              addrPC = addr AND 0xF0000000;
              pc = (addr - 4) AND 0xF0000000
          in if myPC \<noteq> addrPC then None
             else Some (signed_drop_bit 2 (a - pc) AND 0x3FFFFFF))
     | NTYP \<Rightarrow> Some a)"

text \<open>A register argument: out of range is the early return 0.\<close>

definition encode_reg :: "nat \<Rightarrow> i32 \<Rightarrow> i32 \<Rightarrow> i32 option" where
  "encode_reg sh msk r =
    (if sint r > 31 \<or> sint r < 0 then None else Some (push_bit sh r AND msk))"

text \<open>One iteration of the loop over the three arguments.\<close>

definition encode_arg :: "Instr_info \<Rightarrow> u32 \<Rightarrow> nat \<Rightarrow> Instruction \<Rightarrow> bool \<times> Instruction" where
  "encode_arg ent addr i ip =
    (let a = i_args ip ! i;
         put = (\<lambda>b. case b of None \<Rightarrow> (False, ip)
                  | Some w \<Rightarrow> (True, ip\<lparr>i_value := i_value ip OR w\<rparr>))
     in case ii_srcs ent ! i of
       EXTRA \<Rightarrow> put (encode_extra ent ip addr a)
     | SRC_RS \<Rightarrow> put (encode_reg 21 0x3E00000 a)
     | SRC_RT \<Rightarrow> put (encode_reg 16 0x1F0000 a)
     | SRC_RD \<Rightarrow> put (encode_reg 11 0xF800 a)
     | NSRC \<Rightarrow> (a = 0, ip))"

text \<open>\<open>for(i=0; i<3; i++)\<close> with an early return.\<close>

fun for_args :: "(nat \<Rightarrow> Instruction \<Rightarrow> bool \<times> Instruction) \<Rightarrow> nat list \<Rightarrow> Instruction
    \<Rightarrow> bool \<times> Instruction" where
  "for_args body [] ip = (True, ip)"
| "for_args body (i # is) ip =
    (case body i ip of (True, ip1) \<Rightarrow> for_args body is ip1 | (False, ip1) \<Rightarrow> (False, ip1))"

text \<open>\<open>None\<close>: the null pointer \<open>ip->info\<close> is dereferenced.\<close>

definition encode :: "Instruction \<Rightarrow> u32 \<Rightarrow> (bool \<times> Instruction) option" where
  "encode ip addr =
    (case i_info ip of
       None \<Rightarrow> None
     | Some ent \<Rightarrow> Some
        (if ii_type ent = NTYP then (False, ip)
         else case encode_opcode ent (ip\<lparr>i_value := 0\<rparr>) of
           (False, ip1) \<Rightarrow> (False, ip1)
         | (True, ip1) \<Rightarrow> for_args (encode_arg ent addr) [0, 1, 2] ip1))"

section \<open>decode\<close>

text \<open>The opcode of an instruction word; \<open>None\<close> is the early return 0.\<close>

definition decode_opcode :: "i32 \<Rightarrow> Opcode option" where
  "decode_opcode v =
    (let op = unat (drop_bit 26 v) in
     if opcodeTable ! op = SPECIAL then
       (let op = unat (v AND 0x3F) in
        if specialTable ! op = ILLEGL then None else Some (specialTable ! op))
     else if opcodeTable ! op = BCOND then
       (let op = signed_drop_bit 16 v AND 0x1F in
        if op = 0 then Some OP_BLTZ
        else if op = 1 then Some OP_BGEZ
        else if op = 16 then Some OP_BLTZAL
        else if op = 17 then Some OP_BGEZAL
        else None)
     else if opcodeTable ! op \<noteq> ILLEGL then Some (opcodeTable ! op)
     else None)"

text \<open>The value of an \<open>EXTRA\<close> argument; \<open>None\<close> is the early return 0.\<close>

definition decode_extra :: "Instr_info \<Rightarrow> Opcode \<Rightarrow> u32 \<Rightarrow> i32 \<Rightarrow> i32 option" where
  "decode_extra ent oc addr v =
    (if oc = OP_BREAK then Some (signed_drop_bit 6 v AND 0x000FFFFF)
     else case ii_type ent of
       RTYP \<Rightarrow> Some (signed_drop_bit 6 v AND 0x0000001F)
     | ITYP \<Rightarrow>
         (let sign = signed_drop_bit 15 v AND 0x00000001;
              e = (if sign \<noteq> 0 then v OR 0xFFFF0000 else v AND 0x0000FFFF)
          in Some (if isBranch ent then push_bit 2 e + (addr + 4) else e))
     | JTYP \<Rightarrow> Some (push_bit 2 (v AND 0x03FFFFFF) + ((addr + 4) AND 0xF0000000))
     | NTYP \<Rightarrow> None)"

text \<open>
  One iteration of the argument loop. The early return 0 of the \<open>EXTRA\<close> case happens after
  \<open>ip->extra = ip->value\<close>.
\<close>

definition decode_arg :: "Instr_info \<Rightarrow> Opcode \<Rightarrow> u32 \<Rightarrow> nat \<Rightarrow> Instruction \<Rightarrow> bool \<times> Instruction" where
  "decode_arg ent oc addr i ip =
    (let v = i_value ip;
         put = (\<lambda>w. ip\<lparr>i_args := (i_args ip)[i := w]\<rparr>)
     in case ii_srcs ent ! i of
       EXTRA \<Rightarrow>
         (case decode_extra ent oc addr v of
            None \<Rightarrow> (False, ip\<lparr>i_extra := v\<rparr>)
          | Some e \<Rightarrow> (True, ip\<lparr>i_extra := e, i_args := (i_args ip)[i := e]\<rparr>))
     | SRC_RS \<Rightarrow> (True, put (signed_drop_bit 21 v AND 0x1F))
     | SRC_RT \<Rightarrow> (True, put (signed_drop_bit 16 v AND 0x1F))
     | SRC_RD \<Rightarrow> (True, put (signed_drop_bit 11 v AND 0x1F))
     | NSRC \<Rightarrow> (True, put 0))"

text \<open>The loop that copies the first table entry with the opcode; the old pointer stays if
  there is none.\<close>

definition lookup_info :: "Opcode \<Rightarrow> Instr_info option \<Rightarrow> Instr_info option" where
  "lookup_info oc old =
    (case find (\<lambda>ent. oc = ii_opcode ent) (take NUM_ELEM instrTable) of
       Some ent \<Rightarrow> Some ent | None \<Rightarrow> old)"

definition decode :: "Instruction \<Rightarrow> u32 \<Rightarrow> (bool \<times> Instruction) option" where
  "decode ip addr =
    (case decode_opcode (i_value ip) of
       None \<Rightarrow> Some (False, ip)
     | Some oc \<Rightarrow>
        (case lookup_info oc (i_info ip) of
           None \<Rightarrow> None
         | Some ent \<Rightarrow>
            (let v = i_value ip;
                 ip1 = ip\<lparr>i_info := Some ent,
                          i_regs := [ucast (drop_bit 21 (v AND 0x03e00000)),
                                     ucast (drop_bit 16 (v AND 0x001f0000)),
                                     ucast (drop_bit 11 (v AND 0x0000f800))]\<rparr>
             in Some (for_args (decode_arg ent oc addr) [0, 1, 2] ip1))))"

definition zero_instr :: Instruction where
  "zero_instr = \<lparr>i_value = 0, i_info = None, i_regs = [0, 0, 0], i_extra = 0, i_args = [0, 0, 0]\<rparr>"

section \<open>Operands as bit fields\<close>

text \<open>The masks of the source as bit ranges, so that bit lookups reduce to comparisons.\<close>

lemma mask_ranges:
  "(0x1F :: i32) = mask 5" "(0x3F :: i32) = mask 6" "(0xFFFF :: i32) = mask 16"
  "(0x3E00000 :: i32) = push_bit 21 (mask 5)" "(0x1F0000 :: i32) = push_bit 16 (mask 5)"
  "(0xF800 :: i32) = push_bit 11 (mask 5)" "(0x7C0 :: i32) = push_bit 6 (mask 5)"
  "(0x3FFFFFF :: i32) = mask 26" "(0xFFFFF :: i32) = mask 20"
  "(0x3FFFFC0 :: i32) = push_bit 6 (mask 20)"
  "(0xFFFF0000 :: i32) = push_bit 16 (mask 16)" "(0xF0000000 :: i32) = push_bit 28 (mask 4)"
  "(0xFC00003F :: i32) = push_bit 26 (mask 6) OR mask 6"
  "(0xFC1F0000 :: i32) = push_bit 26 (mask 6) OR push_bit 16 (mask 5)"
  "(0xFC000000 :: i32) = push_bit 26 (mask 6)"
  by (simp_all add: mask_eq_exp_minus_1)


text \<open>The bits of the instruction word that hold the operand of a source.\<close>

definition field_mask :: "Instr_info \<Rightarrow> Source \<Rightarrow> i32" where
  "field_mask ent s =
    (case s of
       NSRC \<Rightarrow> 0
     | SRC_RS \<Rightarrow> 0x3E00000
     | SRC_RT \<Rightarrow> 0x1F0000
     | SRC_RD \<Rightarrow> 0xF800
     | EXTRA \<Rightarrow>
        (if ii_opcode ent = OP_BREAK then 0x3FFFFC0
         else case ii_type ent of RTYP \<Rightarrow> 0x7C0 | ITYP \<Rightarrow> 0xFFFF | JTYP \<Rightarrow> 0x3FFFFFF | NTYP \<Rightarrow> -1))"

text \<open>What \<open>encode\<close> puts into the word for an operand and what \<open>decode\<close> reads back.\<close>

definition encode_field :: "Instr_info \<Rightarrow> Instruction \<Rightarrow> u32 \<Rightarrow> Source \<Rightarrow> i32 \<Rightarrow> i32 option" where
  "encode_field ent ip addr s a =
    (case s of
       EXTRA \<Rightarrow> encode_extra ent ip addr a
     | SRC_RS \<Rightarrow> encode_reg 21 0x3E00000 a
     | SRC_RT \<Rightarrow> encode_reg 16 0x1F0000 a
     | SRC_RD \<Rightarrow> encode_reg 11 0xF800 a
     | NSRC \<Rightarrow> if a = 0 then Some 0 else None)"

definition decode_field :: "Instr_info \<Rightarrow> u32 \<Rightarrow> Source \<Rightarrow> i32 \<Rightarrow> i32 option" where
  "decode_field ent addr s v =
    (case s of
       EXTRA \<Rightarrow> decode_extra ent (ii_opcode ent) addr v
     | SRC_RS \<Rightarrow> Some (signed_drop_bit 21 v AND 0x1F)
     | SRC_RT \<Rightarrow> Some (signed_drop_bit 16 v AND 0x1F)
     | SRC_RD \<Rightarrow> Some (signed_drop_bit 11 v AND 0x1F)
     | NSRC \<Rightarrow> Some 0)"

text \<open>
  The operands the word can represent: a branch target is word aligned and at most 17 bits
  away from the next instruction, a jump target shares the upper four bits with it, an
  immediate is a signed 16-bit number, a shift amount has 5 bits. The code of \<open>break\<close> is
  limited to 19 bits: see \<open>encode_break_corrupts_opcode\<close>.
\<close>

definition operand_fits :: "Instr_info \<Rightarrow> u32 \<Rightarrow> Source \<Rightarrow> i32 \<Rightarrow> bool" where
  "operand_fits ent addr s a =
    (case s of
       EXTRA \<Rightarrow>
        (if ii_opcode ent = OP_BREAK then a < 0x80000
         else case ii_type ent of
           RTYP \<Rightarrow> a < 32
         | ITYP \<Rightarrow> if isBranch ent then (a - (addr + 4)) AND 3 = 0 \<and> fits_signed 18 (a - (addr + 4))
                   else fits_signed 16 a
         | JTYP \<Rightarrow> a AND 3 = 0 \<and> a AND 0xF0000000 = (addr + 4) AND 0xF0000000
         | NTYP \<Rightarrow> False)
     | _ \<Rightarrow> True)"

text \<open>
  The contract between an encoder and a decoder of one operand: an encoded operand stays
  inside its mask, the decoder only looks at those bits, and it recovers the operand.
\<close>

locale field_codec =
  fixes enc :: "i32 \<Rightarrow> i32 option"
    and dec :: "i32 \<Rightarrow> i32 option"
    and msk :: i32
    and ok :: "i32 \<Rightarrow> bool"
  assumes enc_masked: "ok a \<Longrightarrow> enc a = Some w \<Longrightarrow> w AND msk = w"
    and dec_masked: "dec v = dec (v AND msk)"
    and dec_enc: "ok a \<Longrightarrow> enc a = Some w \<Longrightarrow> dec w = Some a"
begin

lemma dec_field:
  assumes "ok a" "enc a = Some w" "v AND msk = w"
  shows "dec v = Some a"
  using dec_enc [OF assms(1,2)] dec_masked [of v] assms(3) by simp

end

subsection \<open>Register operands\<close>

lemma reg_range_bit:
  assumes "\<not> (sint r > 31 \<or> sint r < 0)" "bit (r :: i32) n"
  shows "n < 5"
proof (rule ccontr)
  assume "\<not> n < 5"
  moreover have "n < 32" using assms(2) bit_imp_le_length by force
  moreover have "take_bit 5 (sint r) = sint r"
    using assms(1) by (simp add: take_bit_int_eq_self_iff)
  ultimately show False
    using assms(2) by (metis bit_sint_iff bit_take_bit_iff)
qed

lemma reg_field:
  assumes "encode_reg sh (push_bit sh (mask 5)) a = Some w" "sh \<le> 21"
  shows "w AND push_bit sh (mask 5) = w" "signed_drop_bit sh w AND 0x1F = a"
proof -
  from assms(1) have r: "\<not> (sint a > 31 \<or> sint a < 0)"
    and w: "w = push_bit sh a AND push_bit sh (mask 5)"
    by (auto simp: encode_reg_def split: if_splits)
  show "w AND push_bit sh (mask 5) = w" by (simp add: w ac_simps)
  show "signed_drop_bit sh w AND 0x1F = a"
  proof (rule bit_word_eqI)
    fix n assume "n < LENGTH(32)"
    then show "bit (signed_drop_bit sh w AND 0x1F) n = bit a n"
      unfolding w mask_ranges using assms(2) reg_range_bit [OF r, of n]
      by (cases "n < 5") (auto simp: bit_simps)
  qed
qed

lemma reg_dec_masked:
  "sh \<le> 21 \<Longrightarrow> signed_drop_bit sh v AND 0x1F = signed_drop_bit sh (v AND push_bit sh (mask 5)) AND (0x1F :: i32)"
  unfolding mask_ranges by (intro bit_word_eqI) (auto simp: bit_simps)

subsection \<open>Immediate, shift, jump and break operands\<close>

text \<open>The sign extension in \<open>decode\<close> and the two facts that matter about it.\<close>

definition sext16 :: "i32 \<Rightarrow> i32" where
  "sext16 v = (if signed_drop_bit 15 v AND 1 \<noteq> 0 then v OR 0xFFFF0000 else v AND 0xFFFF)"

lemma bit_sext16: "n < 32 \<Longrightarrow> bit (sext16 v) n = bit v (min n 15)"
  by (auto simp: sext16_def sign_bit mask_ranges bit_simps min_def simp del: bit_0)

lemma sext16_masked: "sext16 (v AND 0xFFFF) = sext16 v"
  by (rule bit_word_eqI) (auto simp: bit_sext16 mask_ranges bit_simps min_def)

lemma sext16_fits:
  assumes "fits_signed 16 e"
  shows "sext16 e = e"
proof (rule bit_word_eqI)
  fix n assume "n < LENGTH(32)"
  then show "bit (sext16 e) n = bit e n"
    using fits_signed_bit [OF assms, of n] by (simp add: bit_sext16 min_def)
qed

lemma decode_extra_ITYP:
  "ii_type ent = ITYP \<Longrightarrow> oc \<noteq> OP_BREAK \<Longrightarrow>
   decode_extra ent oc addr v = Some (if isBranch ent then push_bit 2 (sext16 v) + (addr + 4) else sext16 v)"
  by (simp add: decode_extra_def sext16_def Let_def)

lemma branch_offset:
  assumes "d AND 3 = 0" "fits_signed 18 d"
  shows "push_bit 2 (sext16 (signed_drop_bit 2 d)) = d"
proof (rule bit_word_eqI)
  fix n assume n: "n < LENGTH(32)"
  show "bit (push_bit 2 (sext16 (signed_drop_bit 2 d))) n = bit d n"
  proof (cases "n < 2")
    case True
    then show ?thesis using aligned4_bit [OF assms(1) True] by (simp add: bit_simps)
  next
    case False
    then obtain m where m: "n = m + 2" using le_Suc_ex [of 2 n] by (auto simp: ac_simps)
    then show ?thesis
      using n fits_signed_bit [OF assms(2), of n] by (simp add: bit_simps bit_sext16 min_def)
  qed
qed

lemma shamt_field:
  assumes "a < 32"
  shows "signed_drop_bit 6 (push_bit 6 (a AND 0x1F)) AND 0x1F = (a :: i32)"
proof (rule bit_word_eqI)
  fix n assume "n < LENGTH(32)"
  moreover have "unat a < 2 ^ 5" using assms by (simp add: word_less_nat_alt)
  ultimately show "bit (signed_drop_bit 6 (push_bit 6 (a AND 0x1F)) AND 0x1F) n = bit a n"
    using less_exp_bit [of a 5 n]
    by (cases "n < 5") (auto simp: mask_ranges bit_simps)
qed

lemma break_field:
  assumes "a < 0x80000"
  shows "signed_drop_bit 6 (push_bit 12 a) = push_bit 6 (a :: i32)"
proof (rule bit_word_eqI)
  fix n assume n: "n < LENGTH(32)"
  have b: "k < 19" if "bit a k" for k
    using less_exp_bit [of a 19 k] that assms by (simp add: word_less_nat_alt)
  have "\<not> bit a 19" and "bit a (n - 6) \<Longrightarrow> n < 25"
    using b [of 19] b [of "n - 6"] by auto
  with n show "bit (signed_drop_bit 6 (push_bit 12 a)) n = bit (push_bit 6 a) n"
    by (auto simp: bit_simps)
qed

lemma break_decode:
  assumes "a < 0x80000"
  shows "signed_drop_bit 6 (push_bit 6 a) AND 0xFFFFF = (a :: i32)"
proof (rule bit_word_eqI)
  fix n assume "n < LENGTH(32)"
  moreover have "unat a < 2 ^ 19" using assms by (simp add: word_less_nat_alt)
  ultimately show "bit (signed_drop_bit 6 (push_bit 6 a) AND 0xFFFFF) n = bit a n"
    using less_exp_bit [of a 19 n]
    by (cases "n < 20") (auto simp: mask_ranges bit_simps)
qed

lemma jump_index:
  "signed_drop_bit 2 (a - (q AND 0xF0000000)) AND 0x3FFFFFF = signed_drop_bit 2 (a :: i32) AND 0x3FFFFFF"
proof -
  have "take_bit 28 (q AND 0xF0000000) = 0"
    unfolding mask_ranges by (intro bit_word_eqI) (auto simp: bit_simps)
  then have "take_bit 28 (a - (q AND 0xF0000000)) = take_bit 28 a"
    by (rule take_bit_diff_word) simp
  then have "bit (a - (q AND 0xF0000000)) n = bit a n" if "n < 28" for n
    using that by (metis bit_take_bit_iff)
  then show ?thesis
    by (intro bit_word_eqI) (auto simp: mask_ranges bit_simps)
qed

lemma jump_field:
  assumes "a AND 3 = 0" "a AND 0xF0000000 = p AND 0xF0000000"
  shows "push_bit 2 (signed_drop_bit 2 a AND 0x3FFFFFF) + (p AND 0xF0000000) = (a :: i32)"
proof -
  have "push_bit 2 (signed_drop_bit 2 a AND 0x3FFFFFF) + (a AND 0xF0000000) =
    push_bit 2 (signed_drop_bit 2 a AND 0x3FFFFFF) OR (a AND 0xF0000000)"
    unfolding mask_ranges by (rule disjunctive_add) (auto simp: bit_simps)
  also have "\<dots> = a"
  proof (rule bit_word_eqI)
    fix n assume n: "n < LENGTH(32)"
    show "bit (push_bit 2 (signed_drop_bit 2 a AND 0x3FFFFFF) OR (a AND 0xF0000000)) n = bit a n"
    proof (cases "n < 2")
      case True
      then show ?thesis using aligned4_bit [OF assms(1) True] by (auto simp: mask_ranges bit_simps)
    next
      case False
      then obtain m where m: "n = m + 2" using le_Suc_ex [of 2 n] by (auto simp: ac_simps)
      then show ?thesis using n by (auto simp: mask_ranges bit_simps)
    qed
  qed
  finally show ?thesis by (simp add: assms(2))
qed

subsection \<open>Every operand satisfies the contract\<close>

lemmas operand_defs = field_mask_def encode_field_def decode_field_def operand_fits_def

lemma encode_extra_masked:
  assumes "operand_fits ent addr EXTRA a" "encode_extra ent ip addr a = Some w"
  shows "w AND field_mask ent EXTRA = w"
proof (cases "ii_opcode ent = OP_BREAK")
  case True
  with assms have a: "a < 0x80000" and w: "w = push_bit 6 a"
    by (simp_all add: operand_fits_def encode_extra_def break_field)
  have "n < 19" if "bit a n" for n
    using less_exp_bit [of a 19 n] that a by (simp add: word_less_nat_alt)
  then have "push_bit 6 a AND push_bit 6 (mask 20) = push_bit 6 a"
    by (intro bit_word_eqI) (fastforce simp: bit_simps)
  with True show ?thesis by (simp add: w field_mask_def mask_ranges)
next
  case False
  with assms show ?thesis
    by (cases "ii_type ent")
      (auto simp: operand_defs encode_extra_def Let_def ac_simps mask_ranges push_bit_and
        split: if_splits)
qed

lemma decode_extra_masked:
  "decode_extra ent (ii_opcode ent) addr v =
   decode_extra ent (ii_opcode ent) addr (v AND field_mask ent EXTRA)"
proof -
  have "signed_drop_bit 6 v AND 0xFFFFF = signed_drop_bit 6 (v AND 0x3FFFFC0) AND (0xFFFFF :: i32)"
    "signed_drop_bit 6 v AND 0x1F = signed_drop_bit 6 (v AND 0x7C0) AND (0x1F :: i32)"
    unfolding mask_ranges by (rule bit_word_eqI, auto simp: bit_simps)+
  then show ?thesis
    by (cases "ii_type ent"; cases "ii_opcode ent = OP_BREAK")
      (simp_all add: field_mask_def decode_extra_ITYP sext16_masked, simp_all add: decode_extra_def)
qed

lemma decode_encode_extra:
  assumes "operand_fits ent addr EXTRA a" "encode_extra ent ip addr a = Some w"
  shows "decode_extra ent (ii_opcode ent) addr w = Some a"
proof (cases "ii_opcode ent = OP_BREAK")
  case True
  with assms show ?thesis
    by (auto simp: operand_fits_def encode_extra_def decode_extra_def break_field break_decode)
next
  case False
  show ?thesis
  proof (cases "ii_type ent")
    case NTYP
    with False assms show ?thesis by (simp add: operand_fits_def)
  next
    case ITYP
    with False assms branch_offset [of "a - (addr + 4)"] show ?thesis
      by (auto simp: operand_fits_def encode_extra_def decode_extra_ITYP sext16_masked sext16_fits
          Let_def split: if_splits)
  next
    case JTYP
    with False assms jump_field [of a "addr + 4"] show ?thesis
      by (auto simp: operand_fits_def encode_extra_def decode_extra_def jump_index
          and.assoc Let_def split: if_splits)
  next
    case RTYP
    with False assms shamt_field [of a] show ?thesis
      by (auto simp: operand_fits_def encode_extra_def decode_extra_def)
  qed
qed

interpretation operand: field_codec "encode_field ent ip addr s" "decode_field ent addr s"
  "field_mask ent s" "operand_fits ent addr s"
  for ent ip addr s
proof
  fix a w v
  let ?E = "encode_field ent ip addr s a = Some w" and ?O = "operand_fits ent addr s a"
  show "?O \<Longrightarrow> ?E \<Longrightarrow> w AND field_mask ent s = w"
    using encode_extra_masked [of ent addr a ip w] reg_field(1) [of _ a w]
    by (cases s) (auto simp: field_mask_def encode_field_def mask_ranges split: if_splits)
  show "decode_field ent addr s v = decode_field ent addr s (v AND field_mask ent s)"
    using decode_extra_masked [of ent addr v]
      reg_dec_masked [of 21 v] reg_dec_masked [of 16 v] reg_dec_masked [of 11 v]
    by (cases s) (simp_all add: decode_field_def field_mask_def mask_ranges)
  show "?O \<Longrightarrow> ?E \<Longrightarrow> decode_field ent addr s w = Some a"
    using decode_encode_extra [of ent addr a ip w] reg_field(2) [of _ a w]
    by (cases s) (auto simp: decode_field_def encode_field_def mask_ranges split: if_splits)
qed

section \<open>The opcode bits of an instruction word\<close>

definition opcode_bits :: "Instr_info \<Rightarrow> i32 option" where
  "opcode_bits ent =
    (let (b, ip) = encode_opcode ent zero_instr in if b then Some (i_value ip) else None)"

text \<open>The bits \<open>decode_opcode\<close> looks at, by the class of the opcode field.\<close>

definition opcode_mask :: "i32 \<Rightarrow> i32" where
  "opcode_mask v =
    (if opcodeTable ! unat (drop_bit 26 v) = SPECIAL then 0xFC00003F
     else if opcodeTable ! unat (drop_bit 26 v) = BCOND then 0xFC1F0000
     else 0xFC000000)"

lemma encode_opcode_bits:
  "encode_opcode ent (ip\<lparr>i_value := 0\<rparr>) =
    (case opcode_bits ent of
       Some c \<Rightarrow> (True, ip\<lparr>i_value := c\<rparr>)
     | None \<Rightarrow> (False, ip\<lparr>i_value := 0\<rparr>))"
  unfolding opcode_bits_def encode_opcode_def findBcond_def isSpecial_def isNotSpecial_def
  by (auto simp: Let_def zero_instr_def split: option.splits bool.splits if_splits)

lemma drop_opcode_mask: "drop_bit 26 (v AND opcode_mask w) = drop_bit 26 v"
  by (rule bit_word_eqI)
    (auto simp: opcode_mask_def mask_ranges bit_simps dest: bit_imp_le_length)

lemma decode_opcode_masked: "decode_opcode (v AND opcode_mask v) = decode_opcode v"
proof -
  have s: "(v AND 0xFC00003F) AND 0x3F = v AND (0x3F :: i32)"
    and b: "signed_drop_bit 16 (v AND 0xFC1F0000) AND 0x1F = signed_drop_bit 16 v AND (0x1F :: i32)"
    unfolding mask_ranges by (rule bit_word_eqI, auto simp: bit_simps)+
  show ?thesis
    unfolding decode_opcode_def drop_opcode_mask Let_def
    by (simp add: opcode_mask_def s b)
qed

lemma decode_opcode_of_bits:
  assumes "v AND opcode_mask c = c"
  shows "decode_opcode v = decode_opcode c"
proof -
  have "drop_bit 26 v = drop_bit 26 c"
    using drop_opcode_mask [of v c] assms by simp
  then have "opcode_mask v = opcode_mask c" by (simp add: opcode_mask_def)
  then show ?thesis using decode_opcode_masked [of v] assms by simp
qed

section \<open>The tables are consistent\<close>

lemma table_lengths:
  "length opcodeTable = 64" "length specialTable = 64" "length instrTable = 64"
  "take NUM_ELEM opcodeTable = opcodeTable" "take NUM_ELEM specialTable = specialTable"
  "take NUM_ELEM instrTable = instrTable"
  by (simp_all add: NUM_ELEM_def opcodeTable_def specialTable_def instrTable_def)

lemma first_idx_Some: "first_idx p xs = Some i \<Longrightarrow> i < length xs \<and> p (xs ! i)"
  by (induction p xs arbitrary: i rule: first_idx.induct) (auto split: if_splits)

lemma first_idx_None: "first_idx p xs = None \<longleftrightarrow> (\<forall>x \<in> set xs. \<not> p x)"
  by (induction p xs rule: first_idx.induct) auto

definition bcond_opcodes :: "Opcode list" where
  "bcond_opcodes = [OP_BLTZ, OP_BGEZ, OP_BLTZAL, OP_BGEZAL]"

text \<open>
  The bits that select the row of an instruction: its \<open>SPECIAL\<close> index, its \<open>BCOND\<close>
  selector or its opcode field.
\<close>

definition entry_mask :: "Instr_info \<Rightarrow> i32" where
  "entry_mask ent =
    (if ii_type ent = RTYP then 0xFC00003F
     else if ii_opcode ent \<in> set bcond_opcodes then 0xFC1F0000
     else 0xFC000000)"

definition disjoint_fields :: "i32 list \<Rightarrow> bool" where
  "disjoint_fields ms \<longleftrightarrow> sorted_wrt (\<lambda>a b. a AND b = 0) ms"

definition entry_consistent :: "Instr_info \<Rightarrow> bool" where
  "entry_consistent ent \<longleftrightarrow>
     (ii_opcode ent \<in> set specialTable \<longleftrightarrow> ii_type ent = RTYP)
     \<and> ii_opcode ent \<notin> {SPECIAL, BCOND, ILLEGL, OP_UNIMP}
     \<and> (ii_opcode ent \<in> set bcond_opcodes \<longrightarrow> ii_type ent \<noteq> RTYP)
     \<and> length (ii_srcs ent) = 3
     \<and> disjoint_fields (entry_mask ent # map (field_mask ent) (ii_srcs ent))"

lemma instrTable_consistent:
  "list_all (\<lambda>ent. ii_type ent \<noteq> NTYP \<longrightarrow> entry_consistent ent) instrTable"
  unfolding instrTable_def mk_info_def
  by (simp add: entry_consistent_def entry_mask_def bcond_opcodes_def specialTable_def
      disjoint_fields_def field_mask_def)

lemma instrTable_opcodes_distinct:
  "distinct (map ii_opcode (filter (\<lambda>ent. ii_opcode ent \<noteq> ILLEGL) instrTable))"
  by (simp add: instrTable_def mk_info_def)

lemma table_entry:
  assumes "ent \<in> set instrTable" "ii_type ent \<noteq> NTYP"
  shows "entry_consistent ent"
  using instrTable_consistent assms by (auto simp: list_all_iff)

lemma lookup_info_entry:
  assumes "ent \<in> set instrTable" "ii_opcode ent \<noteq> ILLEGL"
  shows "lookup_info (ii_opcode ent) old = Some ent"
proof -
  obtain e where e: "find (\<lambda>x. ii_opcode ent = ii_opcode x) instrTable = Some e"
    using assms(1) by (cases "find (\<lambda>x. ii_opcode ent = ii_opcode x) instrTable")
      (auto simp: find_None_iff)
  then have "e \<in> set instrTable" "ii_opcode e = ii_opcode ent"
    by (auto simp: find_Some_iff)
  then have "e = ent"
    using instrTable_opcodes_distinct assms by (auto simp: distinct_map inj_on_def)
  with e show ?thesis by (simp add: lookup_info_def table_lengths)
qed

lemma six_bit_word:
  fixes w :: i32
  assumes b: "\<And>n. bit w n \<Longrightarrow> n < 6"
  shows "w AND 0x3F = w" "drop_bit 26 w = 0" "w AND 0xFC00003F = w"
    "drop_bit 26 (push_bit 26 w) = w" "push_bit 26 w AND 0xFC000000 = push_bit 26 w"
proof -
  have "\<not> bit w (n + 26)" for n using b [of "n + 26"] by auto
  then show "drop_bit 26 w = 0" by (intro bit_word_eqI) (simp add: bit_simps ac_simps)
  show "w AND 0x3F = w" "w AND 0xFC00003F = w"
    unfolding mask_ranges by (rule bit_word_eqI, auto simp: bit_simps dest: b)+
  show "drop_bit 26 (push_bit 26 w) = w" "push_bit 26 w AND 0xFC000000 = push_bit 26 w"
    unfolding mask_ranges by (rule bit_word_eqI, auto simp: bit_simps dest: b)+
qed

lemma word_index:
  assumes "i < 64"
  shows "unat (of_nat i :: i32) = i" "(of_nat i :: i32) AND 0x3F = of_nat i"
    "drop_bit 26 (of_nat i :: i32) = 0" "(of_nat i :: i32) AND 0xFC00003F = of_nat i"
    "drop_bit 26 (push_bit 26 (of_nat i)) = (of_nat i :: i32)"
    "push_bit 26 (of_nat i) AND 0xFC000000 = (push_bit 26 (of_nat i) :: i32)"
proof -
  show u: "unat (of_nat i :: i32) = i"
    using assms by (simp add: unat_of_nat)
  have "n < 6" if "bit (of_nat i :: i32) n" for n
    using less_exp_bit [of "of_nat i" 6 n] that assms u by simp
  note w = six_bit_word [OF this]
  show "(of_nat i :: i32) AND 0x3F = of_nat i" "drop_bit 26 (of_nat i :: i32) = 0"
    "(of_nat i :: i32) AND 0xFC00003F = of_nat i"
    "drop_bit 26 (push_bit 26 (of_nat i)) = (of_nat i :: i32)"
    "push_bit 26 (of_nat i) AND 0xFC000000 = (push_bit 26 (of_nat i) :: i32)"
    using w by simp_all
qed

lemma findBcond_zero: "findBcond zero_instr = (True, zero_instr\<lparr>i_value := 0x4000000\<rparr>)"
  by (simp add: findBcond_def zero_instr_def opcodeTable_def NUM_ELEM_def)

lemma hasSpecial_True: "hasSpecial"
  by (simp add: opcodeTable_def hasSpecial_def NUM_ELEM_def)

lemma opcode_bits_entry:
  assumes ok: "entry_consistent ent" and c: "opcode_bits ent = Some c"
  shows "opcode_mask c = entry_mask ent \<and> c AND entry_mask ent = c
    \<and> decode_opcode c = Some (ii_opcode ent)"
proof (cases "ii_opcode ent \<in> set bcond_opcodes")
  case True
  then have "c = (case ii_opcode ent of OP_BGEZ \<Rightarrow> 0x4010000 | OP_BLTZAL \<Rightarrow> 0x4100000
      | OP_BGEZAL \<Rightarrow> 0x4110000 | _ \<Rightarrow> 0x4000000)"
    using c by (auto simp: bcond_opcodes_def opcode_bits_def encode_opcode_def Let_def
        findBcond_zero)
  with True ok show ?thesis
    by (auto simp: entry_consistent_def bcond_opcodes_def entry_mask_def opcode_mask_def
        decode_opcode_def opcodeTable_def)
next
  case nb: False
  note len = table_lengths
  have special: "opcodeTable ! 0 = SPECIAL" "hasSpecial"
    by (simp_all add: opcodeTable_def hasSpecial_True)
  show ?thesis
  proof (cases "ii_type ent = RTYP")
    case True
    with ok obtain i where i: "first_idx (\<lambda>oc. oc = ii_opcode ent) specialTable = Some i"
      by (cases "first_idx (\<lambda>oc. oc = ii_opcode ent) specialTable")
        (auto simp: entry_consistent_def first_idx_None)
    then have "i < 64" "specialTable ! i = ii_opcode ent"
      using first_idx_Some [OF i] len by simp_all
    moreover have "c = of_nat i"
      using c nb i special by (auto simp: opcode_bits_def encode_opcode_def isSpecial_def len
          bcond_opcodes_def zero_instr_def Let_def split: prod.splits if_splits)
    ultimately show ?thesis
      using True ok special word_index [of i]
      by (simp add: entry_mask_def opcode_mask_def decode_opcode_def entry_consistent_def Let_def)
  next
    case False
    with ok have none: "first_idx (\<lambda>oc. oc = ii_opcode ent) specialTable = None"
      by (auto simp: entry_consistent_def first_idx_None)
    obtain i where i: "first_idx (\<lambda>oc. oc = ii_opcode ent) opcodeTable = Some i"
      and ci: "c = push_bit 26 (of_nat i)"
      using c nb none by (auto simp: opcode_bits_def encode_opcode_def isSpecial_def isNotSpecial_def
          len bcond_opcodes_def zero_instr_def Let_def split: prod.splits if_splits option.splits)
    have "i < 64" "opcodeTable ! i = ii_opcode ent"
      using first_idx_Some [OF i] len by simp_all
    with False nb ok ci show ?thesis
      using word_index [of i]
      by (simp add: entry_mask_def opcode_mask_def decode_opcode_def entry_consistent_def Let_def)
  qed
qed

section \<open>Encoding, then decoding\<close>

lemma encode_arg_field:
  "encode_arg ent addr i ip =
    (case encode_field ent ip addr (ii_srcs ent ! i) (i_args ip ! i) of
       None \<Rightarrow> (False, ip)
     | Some w \<Rightarrow> (True, ip\<lparr>i_value := i_value ip OR w\<rparr>))"
  by (cases "ii_srcs ent ! i") (simp_all add: encode_arg_def encode_field_def Let_def)

lemma encode_field_value [simp]:
  "encode_field ent (ip\<lparr>i_value := v\<rparr>) = encode_field ent ip"
  by (intro ext, cases "ii_type ent")
    (simp_all add: encode_field_def encode_extra_def split: Source.splits)

text \<open>Encoding succeeds exactly when every operand does, and ORs the fields together.\<close>

lemma encode_success:
  assumes "i_info ip = Some ent" "ii_type ent \<noteq> NTYP"
  shows "encode ip addr = Some (True, ip') \<longleftrightarrow>
    (\<exists>c w0 w1 w2. opcode_bits ent = Some c
      \<and> encode_field ent ip addr (ii_srcs ent ! 0) (i_args ip ! 0) = Some w0
      \<and> encode_field ent ip addr (ii_srcs ent ! 1) (i_args ip ! 1) = Some w1
      \<and> encode_field ent ip addr (ii_srcs ent ! 2) (i_args ip ! 2) = Some w2
      \<and> ip' = ip\<lparr>i_value := c OR w0 OR w1 OR w2\<rparr>)"
  using assms
  by (auto simp: encode_def encode_opcode_bits encode_arg_field ac_simps split: option.splits)

lemma decode_arg_field:
  assumes "decode_field ent addr (ii_srcs ent ! i) (i_value ip) = Some a"
  shows "\<exists>e. decode_arg ent (ii_opcode ent) addr i ip =
    (True, ip\<lparr>i_extra := e, i_args := (i_args ip)[i := a]\<rparr>)"
proof (cases "ii_srcs ent ! i = EXTRA")
  case True
  with assms show ?thesis
    by (intro exI [of _ a]) (simp add: decode_field_def decode_arg_def Let_def)
next
  case False
  with assms show ?thesis
    by (intro exI [of _ "i_extra ip"], cases "ii_srcs ent ! i")
      (auto simp: decode_field_def decode_arg_def Let_def)
qed

lemma decode_success:
  assumes oc: "decode_opcode (i_value ip) = Some (ii_opcode ent)"
    and info: "lookup_info (ii_opcode ent) (i_info ip) = Some ent"
    and len: "length (i_args ip) = 3"
    and a: "decode_field ent addr (ii_srcs ent ! 0) (i_value ip) = Some a0"
      "decode_field ent addr (ii_srcs ent ! 1) (i_value ip) = Some a1"
      "decode_field ent addr (ii_srcs ent ! 2) (i_value ip) = Some a2"
  shows "\<exists>ip'. decode ip addr = Some (True, ip') \<and> i_info ip' = Some ent
    \<and> i_args ip' = [a0, a1, a2] \<and> i_value ip' = i_value ip"
proof -
  let ?D = "decode_arg ent (ii_opcode ent) addr"
  obtain ip1 where ip1: "decode ip addr = Some (for_args ?D [0, 1, 2] ip1)"
    and f: "i_value ip1 = i_value ip" "i_info ip1 = Some ent" "i_args ip1 = i_args ip"
    using oc info by (simp add: decode_def Let_def)
  obtain x y z where args: "i_args ip = [x, y, z]"
    using len by (auto simp: length_Suc_conv numeral_3_eq_3)
  obtain e0 where e0: "?D 0 ip1 = (True, ip1\<lparr>i_extra := e0, i_args := [a0, y, z]\<rparr>)"
    using decode_arg_field [of ent addr 0 ip1 a0] a f args by auto
  let ?i1 = "ip1\<lparr>i_extra := e0, i_args := [a0, y, z]\<rparr>"
  obtain e1 where e1: "?D 1 ?i1 = (True, ?i1\<lparr>i_extra := e1, i_args := [a0, a1, z]\<rparr>)"
    using decode_arg_field [of ent addr 1 ?i1 a1] a f by auto
  let ?i2 = "?i1\<lparr>i_extra := e1, i_args := [a0, a1, z]\<rparr>"
  obtain e2 where e2: "?D 2 ?i2 = (True, ?i2\<lparr>i_extra := e2, i_args := [a0, a1, a2]\<rparr>)"
    using decode_arg_field [of ent addr 2 ?i2 a2] a f by (auto simp: numeral_2_eq_2)
  show ?thesis
    by (rule exI [of _ "?i2\<lparr>i_extra := e2, i_args := [a0, a1, a2]\<rparr>"])
      (use ip1 e0 e1 e2 f in simp)
qed

lemma field_of_or:
  fixes c w0 w1 w2 :: i32
  assumes "disjoint_fields [m, m0, m1, m2]"
    and "c AND m = c" "w0 AND m0 = w0" "w1 AND m1 = w1" "w2 AND m2 = w2"
  shows "(c OR w0 OR w1 OR w2) AND m = c" "(c OR w0 OR w1 OR w2) AND m0 = w0"
    "(c OR w0 OR w1 OR w2) AND m1 = w1" "(c OR w0 OR w1 OR w2) AND m2 = w2"
proof -
  have z: "a AND q = 0" if "a AND p = a" "p AND q = 0" for a p q :: i32
    using that by (metis and.assoc and_zero_eq)
  have d: "m AND m0 = 0" "m AND m1 = 0" "m AND m2 = 0" "m0 AND m1 = 0" "m0 AND m2 = 0" "m1 AND m2 = 0"
    using assms(1) by (simp_all add: disjoint_fields_def)
  have "c AND m0 = 0" "c AND m1 = 0" "c AND m2 = 0" "w0 AND m1 = 0" "w0 AND m2 = 0" "w1 AND m2 = 0"
    "w0 AND m = 0" "w1 AND m = 0" "w2 AND m = 0" "w1 AND m0 = 0" "w2 AND m0 = 0" "w2 AND m1 = 0"
    by (rule z, fact, use d in \<open>simp add: and.commute\<close>)+
  then show "(c OR w0 OR w1 OR w2) AND m = c" "(c OR w0 OR w1 OR w2) AND m0 = w0"
    "(c OR w0 OR w1 OR w2) AND m1 = w1" "(c OR w0 OR w1 OR w2) AND m2 = w2"
    using assms(2-5) by (simp_all add: bit.conj_disj_distrib2)
qed

text \<open>
  C1. Encoding an instruction of the table whose operands fit, and decoding the resulting
  word at the same address, gives back the table entry and the three arguments.
\<close>

theorem decode_encode:
  assumes "ent \<in> set instrTable" "i_info ip = Some ent" "length (i_args ip) = 3"
    and fits: "\<forall>i < 3. operand_fits ent addr (ii_srcs ent ! i) (i_args ip ! i)"
    and enc: "encode ip addr = Some (True, ip')"
    and "length (i_args jp) = 3"
  shows "\<exists>jp'. decode (jp\<lparr>i_value := i_value ip'\<rparr>) addr = Some (True, jp')
    \<and> i_info jp' = Some ent \<and> i_args jp' = i_args ip"
proof -
  have ty: "ii_type ent \<noteq> NTYP" using enc assms(2) by (auto simp: encode_def)
  with assms(1) have ok: "entry_consistent ent" by (rule table_entry)
  obtain c w0 w1 w2 where c: "opcode_bits ent = Some c"
    and w: "encode_field ent ip addr (ii_srcs ent ! 0) (i_args ip ! 0) = Some w0"
      "encode_field ent ip addr (ii_srcs ent ! 1) (i_args ip ! 1) = Some w1"
      "encode_field ent ip addr (ii_srcs ent ! 2) (i_args ip ! 2) = Some w2"
    and ip': "ip' = ip\<lparr>i_value := c OR w0 OR w1 OR w2\<rparr>"
    using enc unfolding encode_success [OF assms(2) ty] by blast
  obtain s0 s1 s2 where s: "ii_srcs ent = [s0, s1, s2]"
    using ok c by (auto simp: entry_consistent_def length_Suc_conv numeral_3_eq_3)
  have f: "operand_fits ent addr s0 (i_args ip ! 0)" "operand_fits ent addr s1 (i_args ip ! 1)"
    "operand_fits ent addr s2 (i_args ip ! 2)"
    using fits [rule_format, of 0] fits [rule_format, of 1] fits [rule_format, of 2] s by simp_all
  have w': "encode_field ent ip addr s0 (i_args ip ! 0) = Some w0"
      "encode_field ent ip addr s1 (i_args ip ! 1) = Some w1"
      "encode_field ent ip addr s2 (i_args ip ! 2) = Some w2"
    using w s by simp_all
  let ?v = "c OR w0 OR w1 OR w2"
  have cm: "c AND opcode_mask c = c" and dc: "decode_opcode c = Some (ii_opcode ent)"
    and d: "disjoint_fields [opcode_mask c, field_mask ent s0, field_mask ent s1, field_mask ent s2]"
    using opcode_bits_entry [OF ok c] ok s by (simp_all add: entry_consistent_def)
  have li: "lookup_info (ii_opcode ent) old = Some ent" for old
    using ok assms(1) by (intro lookup_info_entry) (simp_all add: entry_consistent_def)
  note v = field_of_or [OF d cm operand.enc_masked [OF f(1) w'(1)]
      operand.enc_masked [OF f(2) w'(2)] operand.enc_masked [OF f(3) w'(3)]]
  have "decode_field ent addr s0 ?v = Some (i_args ip ! 0)"
    "decode_field ent addr s1 ?v = Some (i_args ip ! 1)"
    "decode_field ent addr s2 ?v = Some (i_args ip ! 2)"
    using operand.dec_field f w' v(2-4) by blast+
  moreover have "i_args ip = [i_args ip ! 0, i_args ip ! 1, i_args ip ! 2]"
    using assms(3) by (auto simp: length_Suc_conv numeral_3_eq_3)
  moreover have "decode_opcode ?v = Some (ii_opcode ent)"
    using decode_opcode_of_bits [OF v(1)] dc by simp
  ultimately show ?thesis
    using decode_success [of "jp\<lparr>i_value := ?v\<rparr>" ent addr "i_args ip ! 0" "i_args ip ! 1"
        "i_args ip ! 2"] li s assms(6) ip'
    by auto
qed

theorem decode_encode_witness:
  "\<exists>jp'. decode (zero_instr\<lparr>i_value := 0x10effc1f\<rparr>) 0x1000 = Some (True, jp')
    \<and> i_info jp' = Some (instrTable ! 7) \<and> i_args jp' = [7, 15, 128]"
proof -
  let ?ip = "zero_instr\<lparr>i_info := Some (instrTable ! 7), i_extra := 0xfffffc1f, i_args := [7, 15, 128]\<rparr>"
  have "encode ?ip 0x1000 = Some (True, ?ip\<lparr>i_value := 0x10effc1f\<rparr>)" by code_simp
  moreover have "instrTable ! 7 \<in> set instrTable" by (simp add: instrTable_def)
  moreover have "\<forall>i < 3. operand_fits (instrTable ! 7) 0x1000 (ii_srcs (instrTable ! 7) ! i) (i_args ?ip ! i)"
    by code_simp
  ultimately show ?thesis
    using decode_encode [of "instrTable ! 7" ?ip "0x1000" "?ip\<lparr>i_value := 0x10effc1f\<rparr>" zero_instr]
    by (simp add: zero_instr_def)
qed

text \<open>
  C39. The code of a \<open>break\<close> instruction has 20 bits, but the arithmetic right shift in
  \<open>encode\<close> copies its top bit into the opcode field: every \<open>break\<close> whose code has bit 19
  set is encoded as a word that \<open>decode\<close> rejects.
\<close>

theorem encode_break_corrupts_opcode:
  assumes "bit a 19" "a < 0x100000"
  shows "\<exists>ip'. encode (zero_instr\<lparr>i_info := Some (instrTable ! 62), i_args := [a, 0, 0]\<rparr>) addr = Some (True, ip')
    \<and> decode (jp\<lparr>i_value := i_value ip'\<rparr>) addr' = Some (False, jp\<lparr>i_value := i_value ip'\<rparr>)"
proof -
  let ?ent = "instrTable ! 62"
  let ?ip = "zero_instr\<lparr>i_info := Some ?ent, i_args := [a, 0, 0]\<rparr>"
  let ?v = "13 OR signed_drop_bit 6 (push_bit 12 a)"
  have ent: "?ent = mk_info OP_BREAK RTYP [EXTRA, NSRC, NSRC] ''break 0x%x''"
    by (simp add: instrTable_def)
  have "opcode_bits ?ent = Some 13" unfolding ent by code_simp
  then have "encode ?ip addr = Some (True, ?ip\<lparr>i_value := ?v\<rparr>)"
    by (subst encode_success [of ?ip ?ent])
      (simp_all add: ent mk_info_def encode_field_def encode_extra_def numeral_2_eq_2)
  moreover have "drop_bit 26 ?v = 63"
  proof (rule bit_word_eqI)
    fix n assume n: "n < LENGTH(32)"
    have m: "(63 :: i32) = mask 6" "(13 :: i32) = push_bit 2 (mask 2) OR mask 1"
      by (simp_all add: mask_eq_exp_minus_1)
    show "bit (drop_bit 26 ?v) n = bit (63 :: i32) n"
      unfolding m using assms(1) n by (auto simp: bit_simps)
  qed
  then have "decode_opcode ?v = None"
    by (simp add: decode_opcode_def opcodeTable_def)
  ultimately show ?thesis by (simp add: decode_def)
qed

section \<open>Decoding, then encoding\<close>

text \<open>
  The \<open>extra\<close> field \<open>encode\<close> expects: the word offset for a branch, the argument otherwise.
\<close>

definition extra_expected :: "Instr_info \<Rightarrow> u32 \<Rightarrow> i32 \<Rightarrow> i32" where
  "extra_expected ent addr a =
    (if ii_type ent = ITYP \<and> isBranch ent then signed_drop_bit 2 (a - (addr + 4)) else a)"

text \<open>
  Words whose operand can be encoded again: bit 25 of a \<open>break\<close> is clear, and a jump does
  not sit at the end of a 256 MB region.
\<close>

definition reencodable :: "Instr_info \<Rightarrow> u32 \<Rightarrow> i32 \<Rightarrow> bool" where
  "reencodable ent addr v \<longleftrightarrow>
    (ii_opcode ent = OP_BREAK \<longrightarrow> \<not> bit v 25)
    \<and> (ii_type ent = JTYP \<longrightarrow> (addr + 4) AND 0xF0000000 = addr AND 0xF0000000)"

lemma encode_reg_decoded:
  assumes "sh \<le> 21"
  shows "encode_reg sh (push_bit sh (mask 5)) (signed_drop_bit sh v AND 0x1F) =
    Some (v AND push_bit sh (mask 5))"
proof -
  let ?r = "signed_drop_bit sh v AND 0x1F :: i32"
  have "?r \<le> 0x1F" by (simp add: word_and_le1)
  then have "uint ?r \<le> 31" by (simp add: word_le_def)
  then have "\<not> (sint ?r > 31 \<or> sint ?r < 0)" using sint_small [of ?r] by simp
  moreover have "push_bit sh ?r AND push_bit sh (mask 5) = v AND push_bit sh (mask 5)"
    unfolding mask_ranges using assms by (intro bit_word_eqI) (auto simp: bit_simps)
  ultimately show ?thesis by (simp add: encode_reg_def)
qed

lemma branch_reencode: "signed_drop_bit 2 (push_bit 2 (sext16 v)) AND 0xFFFF = v AND 0xFFFF"
  unfolding mask_ranges by (intro bit_word_eqI) (auto simp: bit_simps bit_sext16 min_def)

lemma sext16_low: "sext16 v AND 0xFFFF = v AND 0xFFFF"
  unfolding mask_ranges by (intro bit_word_eqI) (auto simp: bit_simps bit_sext16 min_def)

lemma jump_reencode:
  "signed_drop_bit 2 (push_bit 2 (v AND 0x3FFFFFF) + (p AND 0xF0000000)) AND 0x3FFFFFF
    = v AND (0x3FFFFFF :: i32)"
  "(push_bit 2 (v AND 0x3FFFFFF) + (p AND 0xF0000000)) AND 0xF0000000 = p AND (0xF0000000 :: i32)"
proof -
  have "push_bit 2 (v AND 0x3FFFFFF) + (p AND 0xF0000000) =
    push_bit 2 (v AND 0x3FFFFFF) OR (p AND (0xF0000000 :: i32))"
    unfolding mask_ranges by (rule disjunctive_add) (auto simp: bit_simps)
  then show "signed_drop_bit 2 (push_bit 2 (v AND 0x3FFFFFF) + (p AND 0xF0000000)) AND 0x3FFFFFF
      = v AND (0x3FFFFFF :: i32)"
    "(push_bit 2 (v AND 0x3FFFFFF) + (p AND 0xF0000000)) AND 0xF0000000 = p AND (0xF0000000 :: i32)"
    by (simp_all only: mask_ranges) (rule bit_word_eqI, auto simp: bit_simps)+
qed

lemma break_reencode:
  assumes "\<not> bit v 25"
  shows "signed_drop_bit 6 (push_bit 12 (signed_drop_bit 6 v AND 0xFFFFF)) = v AND (0x3FFFFC0 :: i32)"
proof (rule bit_word_eqI)
  fix n assume n: "n < LENGTH(32)"
  show "bit (signed_drop_bit 6 (push_bit 12 (signed_drop_bit 6 v AND 0xFFFFF))) n =
    bit (v AND (0x3FFFFC0 :: i32)) n"
  proof (cases "n < 6")
    case True
    then show ?thesis by (simp add: mask_ranges bit_simps)
  next
    case False
    then obtain m where "n = m + 6" using le_Suc_ex [of 6 n] by (auto simp: ac_simps)
    then show ?thesis
      using n assms by (auto simp: mask_ranges bit_simps ac_simps)
  qed
qed

lemma encode_decoded_extra:
  assumes "decode_extra ent (ii_opcode ent) addr v = Some a" "reencodable ent addr v"
    and "i_extra ip = extra_expected ent addr a" "ii_type ent \<noteq> NTYP"
  shows "encode_extra ent ip addr a = Some (v AND field_mask ent EXTRA)"
proof (cases "ii_opcode ent = OP_BREAK")
  case True
  with assms break_reencode [of v] show ?thesis
    by (auto simp: reencodable_def decode_extra_def encode_extra_def field_mask_def)
next
  case False
  show ?thesis
  proof (cases "ii_type ent")
    case NTYP
    with assms show ?thesis by simp
  next
    case ITYP
    with assms False show ?thesis
      by (auto simp: decode_extra_ITYP encode_extra_def extra_expected_def field_mask_def
          branch_reencode sext16_low)
  next
    case JTYP
    with assms False jump_reencode [of v "addr + 4"] show ?thesis
      by (auto simp: decode_extra_def encode_extra_def extra_expected_def field_mask_def
          reencodable_def jump_index Let_def)
  next
    case RTYP
    have "push_bit 6 ((signed_drop_bit 6 v AND 0x1F) AND 0x1F) = v AND (0x7C0 :: i32)"
      unfolding mask_ranges by (rule bit_word_eqI) (auto simp: bit_simps)
    with RTYP assms False show ?thesis
      by (auto simp: decode_extra_def encode_extra_def field_mask_def)
  qed
qed

lemma encode_decoded_field:
  assumes "decode_field ent addr s v = Some a" "reencodable ent addr v"
    and "s = EXTRA \<longrightarrow> i_extra ip = extra_expected ent addr a" "ii_type ent \<noteq> NTYP"
  shows "encode_field ent ip addr s a = Some (v AND field_mask ent s)"
  using assms encode_decoded_extra [of ent addr v a ip]
    encode_reg_decoded [of 21 v] encode_reg_decoded [of 16 v] encode_reg_decoded [of 11 v]
  by (cases s) (auto simp: decode_field_def encode_field_def field_mask_def mask_ranges)

lemma decodable_opcodes_in_table:
  "list_all (\<lambda>oc. oc \<in> {SPECIAL, BCOND, ILLEGL} \<or> oc \<in> set (map ii_opcode instrTable))
    (opcodeTable @ specialTable @ bcond_opcodes)"
  unfolding instrTable_def mk_info_def opcodeTable_def specialTable_def bcond_opcodes_def by simp

lemma SPECIAL_not_special: "list_all (\<lambda>oc. oc \<noteq> SPECIAL \<and> oc \<noteq> BCOND) specialTable"
  by (simp add: specialTable_def)

lemma unat_six_bits: "unat (drop_bit 26 (v :: i32)) < 64" "unat (v AND (0x3F :: i32)) < 64"
proof -
  have "drop_bit 26 v = drop_bit 26 v AND 0x3F"
    unfolding mask_ranges
    by (rule bit_word_eqI) (auto simp: bit_simps dest: bit_imp_le_length)
  then have "drop_bit 26 v \<le> 0x3F" by (metis word_and_le1)
  then show "unat (drop_bit 26 v) < 64" by (simp add: word_le_nat_alt)
  have "v AND 0x3F \<le> 0x3F" by (rule word_and_le1)
  then show "unat (v AND 0x3F) < 64" by (simp add: word_le_nat_alt)
qed

lemma decode_opcode_Some:
  assumes "decode_opcode v = Some oc"
  shows "oc \<notin> {SPECIAL, BCOND, ILLEGL} \<and> (\<exists>ent \<in> set instrTable. ii_opcode ent = oc)"
proof -
  let ?o = "opcodeTable ! unat (drop_bit 26 v)" and ?s = "specialTable ! unat (v AND 0x3F)"
  have mem: "?o \<in> set opcodeTable" "?s \<in> set specialTable"
    using unat_six_bits [of v] table_lengths by simp_all
  consider (special) "?o = SPECIAL" | (bcond) "?o = BCOND" | (other) "?o \<noteq> SPECIAL" "?o \<noteq> BCOND"
    by blast
  then have "oc \<in> set (opcodeTable @ specialTable @ bcond_opcodes) \<and> oc \<notin> {SPECIAL, BCOND, ILLEGL}"
  proof cases
    case special
    with assms have "oc = ?s" "oc \<noteq> ILLEGL"
      by (simp_all add: decode_opcode_def Let_def split: if_splits)
    then show ?thesis using mem SPECIAL_not_special by (simp add: list_all_iff)
  next
    case bcond
    with assms have "oc \<in> set bcond_opcodes"
      by (simp add: decode_opcode_def Let_def bcond_opcodes_def split: if_splits)
    then show ?thesis by (auto simp: bcond_opcodes_def)
  next
    case other
    with assms have "oc = ?o" "oc \<noteq> ILLEGL"
      by (simp_all add: decode_opcode_def Let_def split: if_splits)
    then show ?thesis using mem other by simp
  qed
  moreover from this have "oc \<in> set (map ii_opcode instrTable)"
    using decodable_opcodes_in_table unfolding list_all_iff by blast
  ultimately show ?thesis by auto
qed

lemma NTYP_rows: "list_all (\<lambda>ent. ii_type ent = NTYP \<longrightarrow> ii_srcs ent = [NSRC, NSRC, NSRC]) instrTable"
  by (simp add: instrTable_def mk_info_def)

lemma decode_field_total:
  assumes "ent \<in> set instrTable" "i < 3"
  shows "\<exists>a. decode_field ent addr (ii_srcs ent ! i) v = Some a"
proof (cases "ii_type ent = NTYP")
  case True
  then have "ii_srcs ent ! i = NSRC"
    using NTYP_rows assms by (auto simp: list_all_iff less_Suc_eq numeral_3_eq_3)
  then show ?thesis by (simp add: decode_field_def)
next
  case False
  then show ?thesis
    by (cases "ii_srcs ent ! i"; cases "ii_type ent") (auto simp: decode_field_def decode_extra_def Let_def)
qed

lemma decode_accepted:
  assumes "length (i_args ip) = 3"
  shows "case decode_opcode (i_value ip) of
      None \<Rightarrow> decode ip addr = Some (False, ip)
    | Some oc \<Rightarrow> \<exists>ent ip'. decode ip addr = Some (True, ip') \<and> ent \<in> set instrTable
        \<and> ii_opcode ent = oc \<and> i_info ip' = Some ent \<and> i_value ip' = i_value ip
        \<and> (\<forall>i < 3. decode_field ent addr (ii_srcs ent ! i) (i_value ip) = Some (i_args ip' ! i))"
proof (cases "decode_opcode (i_value ip)")
  case None
  then show ?thesis by (simp add: decode_def)
next
  case (Some oc)
  then obtain ent where ent: "ent \<in> set instrTable" "ii_opcode ent = oc" and "oc \<noteq> ILLEGL"
    using decode_opcode_Some by blast
  then have li: "lookup_info (ii_opcode ent) (i_info ip) = Some ent"
    by (intro lookup_info_entry) auto
  obtain a0 a1 a2 where a: "decode_field ent addr (ii_srcs ent ! 0) (i_value ip) = Some a0"
      "decode_field ent addr (ii_srcs ent ! 1) (i_value ip) = Some a1"
      "decode_field ent addr (ii_srcs ent ! 2) (i_value ip) = Some a2"
    using decode_field_total [OF ent(1), of 0 addr "i_value ip"]
      decode_field_total [OF ent(1), of 1 addr "i_value ip"]
      decode_field_total [OF ent(1), of 2 addr "i_value ip"] by auto
  from decode_success [OF _ li assms a] Some ent(2) obtain ip' where
    "decode ip addr = Some (True, ip')" "i_info ip' = Some ent" "i_args ip' = [a0, a1, a2]"
    "i_value ip' = i_value ip" by auto
  with Some ent a show ?thesis
    by (auto simp: less_Suc_eq numeral_3_eq_3 numeral_2_eq_2 intro!: bexI [of _ ent] exI [of _ ent])
qed

text \<open>
  \<open>decode\<close> accepts a word exactly when its opcode bits select a legal opcode; it never
  follows a null \<open>info\<close> pointer, keeps the word, and leaves a rejected instruction as it was.
\<close>

theorem decode_accepts:
  assumes "length (i_args ip) = 3"
  shows "case decode_opcode (i_value ip) of
      None \<Rightarrow> decode ip addr = Some (False, ip)
    | Some oc \<Rightarrow> \<exists>ent ip'. decode ip addr = Some (True, ip') \<and> ent \<in> set instrTable
        \<and> ii_opcode ent = oc \<and> i_info ip' = Some ent \<and> i_value ip' = i_value ip
        \<and> (\<forall>i < 3. decode_field ent addr (ii_srcs ent ! i) (i_value ip) = Some (i_args ip' ! i))"
  using assms by (rule decode_accepted)

text \<open>The bits of a word that its instruction uses.\<close>

definition used_bits :: "Instr_info \<Rightarrow> i32" where
  "used_bits ent = foldr (\<lambda>s m. field_mask ent s OR m) (ii_srcs ent) (entry_mask ent)"

lemma tables_injective:
  "distinct (filter (\<lambda>oc. oc \<noteq> ILLEGL) specialTable)"
  "distinct (filter (\<lambda>oc. oc \<noteq> ILLEGL \<and> oc \<noteq> OP_UNIMP) opcodeTable)"
  by (simp_all add: specialTable_def opcodeTable_def)

lemma first_idx_distinct:
  assumes "distinct (filter P xs)" "i < length xs" "P (xs ! i)"
  shows "first_idx (\<lambda>x. x = xs ! i) xs = Some i"
  using assms
proof (induction xs arbitrary: i)
  case (Cons x xs)
  then show ?case
  proof (cases i)
    case (Suc j)
    with Cons.prems have "x \<noteq> xs ! j" by (auto split: if_splits)
    with Cons Suc show ?thesis by (auto split: if_splits)
  qed simp
qed simp

lemma opcodeTable_disjoint:
  "list_all (\<lambda>oc. oc = ILLEGL \<or> oc \<notin> set (specialTable @ bcond_opcodes)) opcodeTable"
  unfolding opcodeTable_def specialTable_def bcond_opcodes_def by simp

lemma opcodeTable_index:
  assumes "i < 64" "opcodeTable ! i \<noteq> ILLEGL" "opcodeTable ! i \<noteq> OP_UNIMP"
  shows "first_idx (\<lambda>oc. oc = opcodeTable ! i) opcodeTable = Some i"
  using first_idx_distinct [OF tables_injective(2)] assms table_lengths by simp

lemma opcodeTable_SPECIAL: "i < 64 \<Longrightarrow> opcodeTable ! i = SPECIAL \<Longrightarrow> i = 0"
  using opcodeTable_index [of i] by (simp add: opcodeTable_def)

lemma opcodeTable_BCOND: "i < 64 \<Longrightarrow> opcodeTable ! i = BCOND \<Longrightarrow> i = 1"
  using opcodeTable_index [of i] by (simp add: opcodeTable_def)

lemma opcode_field_bits:
  "v AND 0xFC000000 = push_bit 26 (drop_bit 26 (v :: i32))"
  "v AND 0xFC00003F = push_bit 26 (drop_bit 26 v) OR (v AND 0x3F)"
  "v AND 0xFC1F0000 = push_bit 26 (drop_bit 26 v) OR push_bit 16 (signed_drop_bit 16 v AND 0x1F)"
  unfolding mask_ranges
  by (rule bit_word_eqI, auto simp: bit_simps dest: bit_imp_le_length)+

lemma opcode_bits_decoded:
  assumes "ent \<in> set instrTable" "ii_type ent \<noteq> NTYP" "decode_opcode v = Some (ii_opcode ent)"
  shows "opcode_bits ent = Some (v AND entry_mask ent)"
proof -
  have ok: "entry_consistent ent" using assms(1,2) by (rule table_entry)
  let ?o = "opcodeTable ! unat (drop_bit 26 v)" and ?s = "specialTable ! unat (v AND 0x3F)"
  have oc: "ii_opcode ent \<notin> {SPECIAL, BCOND, ILLEGL}"
    using decode_opcode_Some [OF assms(3)] by simp
  have i: "unat (drop_bit 26 v) < 64" "unat (v AND 0x3F) < 64" by (rule unat_six_bits)+
  consider (special) "?o = SPECIAL" "ii_opcode ent = ?s" "?s \<noteq> ILLEGL"
    | (bcond) "?o = BCOND" "ii_opcode ent \<in> set bcond_opcodes"
    | (other) "?o \<noteq> SPECIAL" "?o \<noteq> BCOND" "?o \<noteq> ILLEGL" "ii_opcode ent = ?o"
    using assms(3)
    by (auto simp: decode_opcode_def Let_def bcond_opcodes_def split: if_splits)
  then show ?thesis
  proof cases
    case special
    have f: "first_idx (\<lambda>oc. oc = ii_opcode ent) specialTable = Some (unat (v AND 0x3F))"
      using first_idx_distinct [OF tables_injective(1), of "unat (v AND 0x3F)"] special i table_lengths
      by simp
    have "ii_opcode ent \<in> set specialTable" using special i table_lengths by simp
    then have r: "ii_type ent = RTYP" "ii_opcode ent \<notin> set bcond_opcodes"
      using ok by (auto simp: entry_consistent_def)
    have "drop_bit 26 v = 0"
      using opcodeTable_SPECIAL [OF i(1) special(1)] by (simp add: unat_eq_0)
    then show ?thesis
      using r f opcode_field_bits(2) [of v]
      by (auto simp: entry_mask_def opcode_bits_def encode_opcode_def isSpecial_def hasSpecial_True
          table_lengths bcond_opcodes_def zero_instr_def Let_def split: prod.splits)
  next
    case bcond
    have "drop_bit 26 v = 1"
      using opcodeTable_BCOND [OF i(1) bcond(1)] by (metis unat_1 word_unat_eq_iff)
    moreover define sel where "sel = signed_drop_bit 16 v AND 0x1F"
    ultimately have m: "v AND 0xFC1F0000 = 0x4000000 OR push_bit 16 sel"
      using opcode_field_bits(3) [of v] unfolding sel_def by simp
    have "(ii_opcode ent, sel) \<in> {(OP_BLTZ, 0), (OP_BGEZ, 1), (OP_BLTZAL, 16), (OP_BGEZAL, 17)}"
      using assms(3) bcond(1) unfolding decode_opcode_def sel_def [symmetric] Let_def
      by (auto split: if_splits)
    moreover have "entry_mask ent = 0xFC1F0000"
      using bcond(2) ok by (auto simp: entry_mask_def entry_consistent_def)
    ultimately show ?thesis
      using m by (auto simp: opcode_bits_def encode_opcode_def findBcond_zero)
  next
    case other
    have "?o \<in> set opcodeTable" using i table_lengths by simp
    then have n: "?o \<notin> set specialTable" "?o \<notin> set bcond_opcodes"
      using opcodeTable_disjoint other unfolding list_all_iff by auto
    then have "first_idx (\<lambda>oc. oc = ?o) specialTable = None" "ii_type ent \<noteq> RTYP"
      using ok other(4) by (auto simp: first_idx_None entry_consistent_def)
    moreover have "first_idx (\<lambda>oc. oc = ?o) opcodeTable = Some (unat (drop_bit 26 v))"
      using opcodeTable_index [OF i(1)] other ok by (simp add: entry_consistent_def)
    ultimately show ?thesis
      using n other(4) opcode_field_bits(1) [of v]
      by (auto simp: entry_mask_def opcode_bits_def encode_opcode_def isSpecial_def isNotSpecial_def
          table_lengths bcond_opcodes_def zero_instr_def Let_def split: prod.splits)
  qed
qed

lemma encode_decoded:
  assumes "decode ip addr = Some (True, ip')" "i_info ip' = Some ent" "ii_type ent \<noteq> NTYP"
    and "length (i_args ip) = 3" "reencodable ent addr (i_value ip)"
    and "i_info jp = Some ent" "i_args jp = i_args ip'"
    and "\<forall>i < 3. ii_srcs ent ! i = EXTRA \<longrightarrow> i_extra jp = extra_expected ent addr (i_args ip' ! i)"
  shows "encode jp addr = Some (True, jp\<lparr>i_value := i_value ip AND used_bits ent\<rparr>)"
proof -
  let ?v = "i_value ip"
  obtain oc where oc: "decode_opcode ?v = Some oc"
    using assms(1) by (auto simp: decode_def split: option.splits)
  with decode_accepted [OF assms(4), of addr] assms(1,2) have
    ent: "ent \<in> set instrTable" "ii_opcode ent = oc" and
    f: "\<And>i. i < 3 \<Longrightarrow> decode_field ent addr (ii_srcs ent ! i) ?v = Some (i_args ip' ! i)"
    by auto
  have e: "encode_field ent jp addr (ii_srcs ent ! i) (i_args jp ! i) =
      Some (?v AND field_mask ent (ii_srcs ent ! i))" if "i < 3" for i
    using encode_decoded_field [OF f [OF that] assms(5) _ assms(3)] assms(7,8) that by simp
  have c: "opcode_bits ent = Some (?v AND entry_mask ent)"
    using opcode_bits_decoded [OF ent(1) assms(3)] oc ent(2) by simp
  have "length (ii_srcs ent) = 3"
    using table_entry [OF ent(1) assms(3)] by (simp add: entry_consistent_def)
  then obtain s0 s1 s2 where s: "ii_srcs ent = [s0, s1, s2]"
    by (auto simp: length_Suc_conv numeral_3_eq_3)
  have "i_value ip AND used_bits ent = (?v AND entry_mask ent) OR (?v AND field_mask ent s0)
      OR (?v AND field_mask ent s1) OR (?v AND field_mask ent s2)"
    by (simp add: used_bits_def s bit.conj_disj_distrib ac_simps)
  then show ?thesis
    using c e [of 0] e [of 1] e [of 2] s
    by (auto simp: encode_success [OF assms(6,3)])
qed

text \<open>
  C2. Decoding a word and encoding the decoded instruction at the same address gives back the word with its unused
  bits cleared, provided that the \<open>extra\<close> field is set to what \<open>encode\<close> wants: the operand, but for a branch the offset in words from
  the next instruction, where \<open>decode\<close> leaves the target address. Excluded are the words that no field value
  encodes: the entries without a type (\<open>OP_UNIMP\<close>), a \<open>break\<close> whose bit 25 is set, and a jump that is the last
  instruction of a 256 MB region.
\<close>

theorem encode_decode:
  assumes "decode ip addr = Some (True, ip')" "i_info ip' = Some ent" "ii_type ent \<noteq> NTYP"
    and "length (i_args ip) = 3" "reencodable ent addr (i_value ip)"
    and "i_info jp = Some ent" "i_args jp = i_args ip'"
    and "\<forall>i < 3. ii_srcs ent ! i = EXTRA \<longrightarrow> i_extra jp = extra_expected ent addr (i_args ip' ! i)"
  shows "encode jp addr = Some (True, jp\<lparr>i_value := i_value ip AND used_bits ent\<rparr>)"
  using assms by (rule encode_decoded)

theorem encode_decode_witness:
  "\<exists>ip'. decode (zero_instr\<lparr>i_value := 0x8cc50007\<rparr>) 0 = Some (True, ip')
    \<and> encode (ip'\<lparr>i_extra := 7\<rparr>) 0 = Some (True, ip'\<lparr>i_extra := 7, i_value := 0x8cc50007\<rparr>)"
proof -
  let ?ent = "instrTable ! 27"
  let ?ip' = "zero_instr\<lparr>i_value := 0x8cc50007, i_info := Some ?ent, i_regs := [6, 5, 0],
     i_extra := 7, i_args := [5, 7, 6]\<rparr>"
  have d: "decode (zero_instr\<lparr>i_value := 0x8cc50007\<rparr>) 0 = Some (True, ?ip')"
    by code_simp
  have "ii_type ?ent \<noteq> NTYP" "reencodable ?ent 0 0x8cc50007" "used_bits ?ent = 0xFFFFFFFF"
    "\<forall>i < 3. ii_srcs ?ent ! i = EXTRA \<longrightarrow> (7 :: i32) = extra_expected ?ent 0 ([5, 7, 6] ! i)"
    by code_simp+
  then have "encode (?ip'\<lparr>i_extra := 7\<rparr>) 0 = Some (True, ?ip'\<lparr>i_extra := 7, i_value := 0x8cc50007\<rparr>)"
    using encode_decode [OF d, of ?ent "?ip'\<lparr>i_extra := 7\<rparr>"] by (simp add: zero_instr_def)
  with d show ?thesis by blast
qed

theorem encode_break_witness:
  "\<exists>ip'. encode (zero_instr\<lparr>i_info := Some (instrTable ! 62), i_args := [0x80000, 0, 0]\<rparr>) 0 = Some (True, ip')
    \<and> decode (zero_instr\<lparr>i_value := i_value ip'\<rparr>) 0 = Some (False, zero_instr\<lparr>i_value := i_value ip'\<rparr>)"
  by (rule encode_break_corrupts_opcode) simp_all

section \<open>Byte order, proved\<close>

lemma bit_bigEndian:
  assumes "n < 32"
  shows "bit (bigEndian v) n \<longleftrightarrow>
    bit v (if n < 8 then n + 24 else if n < 16 then n + 8 else if n < 24 then n - 8 else n - 24)"
proof -
  have m: "(0x00FFFF00 :: i32) = push_bit 8 (mask 16)" "(0x0000FF00 :: i32) = push_bit 8 (mask 8)"
    "(0x00FF0000 :: i32) = push_bit 16 (mask 8)" "(0xFF0000FF :: i32) = push_bit 24 (mask 8) OR mask 8"
    by (simp_all add: mask_eq_exp_minus_1)
  show ?thesis
    unfolding bigEndian_def m Let_def using assms
    by (auto simp: bit_simps ac_simps dest: bit_imp_le_length)
qed

text \<open>
  \<open>bigEndian\<close> reverses the four bytes of a word, and is its own inverse.
\<close>

theorem bigEndian_reverses:
  "bigEndian (be32 a b c d) = be32 d c b a
    \<and> bigEndian (bigEndian v) = v"
proof
  show "bigEndian (bigEndian v) = v"
    by (rule bit_word_eqI) (auto simp: bit_bigEndian)
  show "bigEndian (be32 a b c d) = be32 d c b a"
    by (rule bit_word_eqI) (auto simp: bit_bigEndian bit_be32)
qed
end
