(* ===== verification/C_Digits.thy ===== *)
theory C_Digits
  imports C_Prelude
begin

text \<open>
  Digits and the numbers they write, decimal and hexadecimal: the vocabulary in which the
  argument checks of the programs are specified, and the bounds on the values.
\<close>

section \<open>Hexadecimal\<close>

definition hex_char :: "char \<Rightarrow> bool" where
  "hex_char c \<longleftrightarrow> (ord c > 47 \<and> ord c < 58) \<or> (ord c > 96 \<and> ord c < 103)
     \<or> (ord c > 64 \<and> ord c < 71)"

definition hex_digit :: "char \<Rightarrow> nat" where
  "hex_digit c =
    (if ord c > 47 \<and> ord c < 58 then ord c - 48
     else if ord c > 96 \<and> ord c < 103 then ord c - 87 else ord c - 55)"

definition hex_value :: "cstring \<Rightarrow> nat" where
  "hex_value s = foldl (\<lambda>a c. a * 16 + hex_digit c) 0 s"

lemma hex_digit_less: "hex_char c \<Longrightarrow> hex_digit c < 16"
  by (auto simp: hex_char_def hex_digit_def)

lemma hex_digit_0: "hex_char c \<Longrightarrow> hex_digit c = 0 \<longleftrightarrow> c = CHR ''0''"
proof -
  have "ord (CHR ''0'') = 48" by (simp add: ord_def)
  then show "hex_char c \<Longrightarrow> hex_digit c = 0 \<longleftrightarrow> c = CHR ''0''"
    using ord_inject [of c "CHR ''0''"] by (auto simp: hex_char_def hex_digit_def)
qed

lemma hex_value_Nil [simp]: "hex_value [] = 0"
  by (simp add: hex_value_def)

lemma hex_value_snoc [simp]: "hex_value (s @ [c]) = hex_value s * 16 + hex_digit c"
  by (simp add: hex_value_def)

lemma hex_value_append: "hex_value (s @ t) = hex_value s * 16 ^ length t + hex_value t"
proof (induction t rule: rev_induct)
  case (snoc c t)
  then show ?case
    by (simp only: append_assoc [symmetric] hex_value_snoc) (simp add: algebra_simps)
qed simp

lemma hex_value_less: "list_all hex_char s \<Longrightarrow> hex_value s < 16 ^ length s"
proof (induction s rule: rev_induct)
  case (snoc c s)
  then have "hex_value s + 1 \<le> 16 ^ length s" "hex_digit c < 16"
    by (auto intro: hex_digit_less)
  then have "hex_value s * 16 + hex_digit c < (hex_value s + 1) * 16" by simp
  also have "\<dots> \<le> 16 ^ length s * 16"
    using \<open>hex_value s + 1 \<le> 16 ^ length s\<close> by (rule mult_le_mono1)
  finally show ?case by (simp)
qed simp

section \<open>Decimal\<close>

definition dec_value :: "cstring \<Rightarrow> nat" where
  "dec_value s = foldl (\<lambda>a c. a * 10 + (ord c - 48)) 0 s"

definition is_digit :: "char \<Rightarrow> bool" where
  "is_digit c \<longleftrightarrow> 48 \<le> ord c \<and> ord c \<le> 57"

lemma dec_value_less:
  assumes "list_all is_digit s"
  shows "dec_value s < 10 ^ length s"
  using assms
proof (induction s rule: rev_induct)
  case (snoc c s)
  then have "dec_value s + 1 \<le> 10 ^ length s" "ord c - 48 < 10" by (auto simp: is_digit_def)
  then have "dec_value s * 10 + (ord c - 48) < (dec_value s + 1) * 10" by simp
  also have "\<dots> \<le> 10 ^ length s * 10" using \<open>dec_value s + 1 \<le> 10 ^ length s\<close> by (rule mult_le_mono1)
  finally show ?case by (simp add: dec_value_def)
qed (simp add: dec_value_def)

end
