(* ===== verification/Mips_Args.thy ===== *)
theory Mips_Args
  imports C_Digits
begin

text \<open>
  The string helpers and the command line validation of the MIPS converter
  (\<open>MIPS Convertor/src/hw1.c\<close>): \<open>validargs\<close> sets the bitmap \<open>global_options\<close>, whose bit
  0 is the help flag, bit 1 the disassembly flag, bit 2 the big-endian flag and bits 31:12
  the base address. A returned \<open>int\<close> that is only 0 or 1 is a \<open>bool\<close>.
\<close>

section \<open>String helpers\<close>

fun stringEqual :: "cstring \<Rightarrow> cstring \<Rightarrow> bool" where
  "stringEqual [] [] = True"
| "stringEqual (x # xs) [] = (x = CHR 0x0A)"
| "stringEqual [] (y # ys) = False"
| "stringEqual (x # xs) (y # ys) = (if x = y then stringEqual xs ys else False)"

fun countCommas :: "cstring \<Rightarrow> int" where
  "countCommas [] = 0"
| "countCommas (x # xs) =
    (if x = CHR 0x0A then 0
     else if x = CHR '','' then 1 + countCommas xs
     else 0 + countCommas xs)"

fun countDollaSign :: "cstring \<Rightarrow> int" where
  "countDollaSign [] = 0"
| "countDollaSign (x # xs) =
    (if x = CHR 0x0A then 0
     else if x = CHR ''$'' then 1 + countDollaSign xs
     else 0 + countDollaSign xs)"

fun countSpaces :: "cstring \<Rightarrow> int" where
  "countSpaces [] = 0"
| "countSpaces (x # xs) =
    (if x = CHR 0x0A then 0
     else if x = CHR '' '' then 1 + countSpaces xs
     else 0 + countSpaces xs)"

fun sameParenthesis :: "cstring \<Rightarrow> int" where
  "sameParenthesis [] = 0"
| "sameParenthesis (x # xs) =
    (if x = CHR 0x0A then 0
     else if x = CHR ''('' then 1 + sameParenthesis xs
     else if x = CHR '')'' then -1 + sameParenthesis xs
     else sameParenthesis xs)"

fun stringEquals :: "cstring \<Rightarrow> cstring \<Rightarrow> bool" where
  "stringEquals [] [] = True"
| "stringEquals (x # xs) (y # ys) = (if x = y then stringEquals xs ys else False)"
| "stringEquals _ _ = False"

section \<open>Base addresses\<close>

fun all_zero_chars :: "cstring \<Rightarrow> bool" where
  "all_zero_chars [] = True"
| "all_zero_chars (c # cs) = (if c \<noteq> CHR ''0'' then False else all_zero_chars cs)"

definition lastThreeZero :: "cstring \<Rightarrow> int \<Rightarrow> bool" where
  "lastThreeZero num len =
    (if len < 1 then False
     else let num = (if len > 3 then drop (nat (len - 3)) num else num)
          in all_zero_chars num)"

text \<open>The loop of \<open>validBase\<close>: \<open>base\<close> is the start of the string, \<open>num\<close> the current position
  and \<open>i\<close> the loop counter; \<open>num - i\<close> is the start again.\<close>

function validBase_loop :: "cstring \<Rightarrow> nat \<Rightarrow> cstring \<Rightarrow> bool" where
  "validBase_loop base i num =
    (if i < 9 then
       (if deref num = CHR 0x00 then lastThreeZero base (int i)
        else if \<not> hex_char (deref num) then False
        else validBase_loop base (i + 1) (tl num))
     else False)"
  by pat_completeness auto
termination by (relation "measure (\<lambda>(b, i, n). 9 - i)") auto

declare validBase_loop.simps [simp del]

definition validBase :: "cstring \<Rightarrow> bool" where
  "validBase num = validBase_loop num 0 num"

text \<open>\<open>strToI\<close> reads at least one character; the accumulator is an \<open>unsigned int\<close>.\<close>

fun strToI_loop :: "u32 \<Rightarrow> cstring \<Rightarrow> u32" where
  "strToI_loop result [] = 0"
| "strToI_loop result (c # cs) =
    (let n = ord c;
         step = (\<lambda>r. if cs = [] then r else strToI_loop (push_bit 4 r) cs)
     in if n > 47 \<and> n < 58 then step (result + of_nat (n - 48))
        else if n > 96 \<and> n < 103 then step (result + of_nat (n - 87))
        else if n > 64 \<and> n < 71 then step (result + of_nat (n - 55))
        else 0)"

definition strToI :: "cstring \<Rightarrow> u32" where
  "strToI num = strToI_loop 0 num"

section \<open>validargs\<close>

text \<open>The \<open>-a\<close> branch of \<open>validargs\<close>; \<open>argc\<close> is the length of \<open>argv\<close>, \<open>g\<close> the bitmap.\<close>

definition validargs_a :: "cstring list \<Rightarrow> u32 \<Rightarrow> bool \<times> u32" where
  "validargs_a argv g0 =
    (let argc = length argv; g = g0 AND 0 in
     if argc < 3 then (True, g)
     else if argc = 4 \<and> stringEquals ''-b'' (argv ! 2) then
       (if \<not> validBase (argv ! 3) then (False, g)
        else (True, g OR strToI (argv ! 3)))
     else if argc = 4 \<and> stringEquals ''-e'' (argv ! 2) then
       (if stringEquals ''b'' (argv ! 3) then (True, g OR 0x4)
        else if stringEquals ''l'' (argv ! 3) then (True, g)
        else (False, g))
     else if argc = 6 \<and> stringEquals ''-e'' (argv ! 2) \<and> stringEquals ''-b'' (argv ! 4) then
       (let big = stringEquals ''b'' (argv ! 3);
            g1 = (if big then g OR 0x4 else g)
        in if \<not> big \<and> \<not> stringEquals ''l'' (argv ! 3) then (False, g1)
           else if \<not> validBase (argv ! 5) then (False, 0)
           else (True, g1 OR strToI (argv ! 5)))
     else if argc = 6 \<and> stringEquals ''-b'' (argv ! 2) \<and> stringEquals ''-e'' (argv ! 4) then
       (if \<not> validBase (argv ! 3) then (False, g)
        else let g1 = g OR strToI (argv ! 3)
             in if stringEquals ''b'' (argv ! 5) then (True, g1 OR 0x4)
                else if stringEquals ''l'' (argv ! 5) then (True, g1)
                else (False, 0))
     else (False, 0))"

definition validargs_d :: "cstring list \<Rightarrow> bool \<times> u32" where
  "validargs_d argv =
    (let argc = length argv; g = 2 in
     if argc < 3 then (True, g)
     else if argc = 4 \<and> stringEquals ''-b'' (argv ! 2) then
       (if \<not> validBase (argv ! 3) then (False, 0)
        else (True, g OR strToI (argv ! 3)))
     else if argc = 4 \<and> stringEquals ''-e'' (argv ! 2) then
       (if stringEquals ''b'' (argv ! 3) then (True, g OR 0x4)
        else if stringEquals ''l'' (argv ! 3) then (True, g)
        else (False, 0))
     else if argc = 6 \<and> stringEquals ''-e'' (argv ! 2) \<and> stringEquals ''-b'' (argv ! 4) then
       (if \<not> stringEquals ''b'' (argv ! 3) \<and> \<not> stringEquals ''l'' (argv ! 3) then (False, 0)
        else let g1 = (if stringEquals ''b'' (argv ! 3) then g OR 0x4 else g)
             in if \<not> validBase (argv ! 5) then (False, 0)
                else (True, g1 OR strToI (argv ! 5)))
     else if argc = 6 \<and> stringEquals ''-b'' (argv ! 2) \<and> stringEquals ''-e'' (argv ! 4) then
       (if \<not> validBase (argv ! 3) then (False, 0)
        else let g1 = g OR strToI (argv ! 3)
             in if stringEquals ''b'' (argv ! 5) then (True, g1 OR 0x4)
                else if stringEquals ''l'' (argv ! 5) then (True, g1)
                else (False, 0))
     else (False, 0))"

definition validargs :: "cstring list \<Rightarrow> bool \<times> u32" where
  "validargs argv =
    (let argc = length argv; g = 0 in
     if argc < 2 then (False, g)
     else if stringEquals ''-h'' (argv ! 1) then (True, 1)
     else if stringEquals ''-a'' (argv ! 1) then validargs_a argv g
     else if stringEquals ''-d'' (argv ! 1) then validargs_d argv
     else (False, 0))"

section \<open>The helpers compute what they should\<close>

lemma stringEquals_iff [simp]: "stringEquals s t \<longleftrightarrow> t = s"
  by (induction s t rule: stringEquals.induct) auto

text \<open>The text before the first newline, which the counting helpers look at.\<close>

definition line_of :: "cstring \<Rightarrow> cstring" where
  "line_of s = takeWhile (\<lambda>c. c \<noteq> CHR 0x0A) s"

lemma count_helpers:
  "countCommas s = int (count_list (line_of s) (CHR '',''))"
  "countDollaSign s = int (count_list (line_of s) (CHR ''$''))"
  "countSpaces s = int (count_list (line_of s) (CHR '' ''))"
  "sameParenthesis s = int (count_list (line_of s) (CHR ''('')) - int (count_list (line_of s) (CHR '')''))"
  by (induction s) (auto simp: line_of_def)

lemma stringEqual_iff: "stringEqual s t \<longleftrightarrow> s = t \<or> (\<exists>r. s = t @ CHR 0x0A # r)"
  by (induction s t rule: stringEqual.induct) auto

lemma all_zero_chars_iff: "all_zero_chars s \<longleftrightarrow> set s \<subseteq> {CHR ''0''}"
  by (induction s) auto

lemma validBase_loop_iff:
  assumes "CHR 0x00 \<notin> set num" "i \<le> 9"
  shows "validBase_loop base i num \<longleftrightarrow>
    list_all hex_char num \<and> i + length num \<le> 8 \<and> lastThreeZero base (int (i + length num))"
  using assms
proof (induction base i num rule: validBase_loop.induct)
  case (1 base i num)
  show ?case
  proof (cases num)
    case Nil
    with 1 show ?thesis by (auto simp: validBase_loop.simps [of base i "[]"])
  next
    case (Cons c cs)
    with 1 show ?thesis by (auto simp: validBase_loop.simps [of base i "c # cs"])
  qed
qed

lemma hex_value_0: "list_all hex_char s \<Longrightarrow> hex_value s = 0 \<longleftrightarrow> all_zero_chars s"
  by (induction s rule: rev_induct)
    (auto simp: all_zero_chars_iff hex_digit_0)

lemma lastThreeZero_iff:
  assumes "list_all hex_char s"
  shows "lastThreeZero s (int (length s)) \<longleftrightarrow> s \<noteq> [] \<and> 4096 dvd hex_value s"
proof (cases "length s \<le> 3")
  case True
  then have "hex_value s < 4096"
    using hex_value_less [OF assms] power_increasing [OF True, of "16 :: nat"] by simp
  then show ?thesis
    using True hex_value_0 [OF assms] by (cases "s = []") (auto simp: lastThreeZero_def dest: dvd_imp_le)
next
  case False
  let ?t = "drop (length s - 3) s"
  have t: "length ?t = 3" "list_all hex_char ?t"
    using False assms by (auto simp: list_all_iff dest: in_set_dropD)
  have "hex_value s = hex_value (take (length s - 3) s) * 16 ^ length ?t + hex_value ?t"
    by (metis append_take_drop_id hex_value_append)
  moreover have "hex_value ?t < 4096" using hex_value_less [OF t(2)] t(1) by simp
  ultimately have "4096 dvd hex_value s \<longleftrightarrow> hex_value ?t = 0"
    using t(1) by (auto simp: dvd_add_right_iff dest: dvd_imp_le)
  then show ?thesis
    using False hex_value_0 [OF t(2)] by (auto simp: lastThreeZero_def nat_diff_distrib)
qed

lemma validBase_iff:
  assumes "CHR 0x00 \<notin> set s"
  shows "validBase s \<longleftrightarrow> s \<noteq> [] \<and> length s \<le> 8 \<and> list_all hex_char s \<and> 4096 dvd hex_value s"
  using validBase_loop_iff [OF assms, of 0 s] lastThreeZero_iff [of s]
  by (auto simp: validBase_def)

lemma strToI_loop_step:
  "hex_char c \<Longrightarrow> strToI_loop r (c # cs) =
    (let r' = r + of_nat (hex_digit c) in if cs = [] then r' else strToI_loop (push_bit 4 r') cs)"
  by (auto simp: hex_char_def hex_digit_def Let_def)

lemma strToI_loop_value:
  assumes "list_all hex_char s" "s \<noteq> []"
  shows "strToI_loop (of_nat (a * 16)) s = of_nat (foldl (\<lambda>a c. a * 16 + hex_digit c) a s)"
  using assms
proof (induction s arbitrary: a)
  case (Cons c cs)
  have "push_bit 4 (of_nat (a * 16 + hex_digit c)) = (of_nat ((a * 16 + hex_digit c) * 16) :: u32)"
    by (simp add: push_bit_eq_mult)
  moreover have "cs \<noteq> [] \<Longrightarrow> strToI_loop (of_nat ((a * 16 + hex_digit c) * 16)) cs =
      of_nat (foldl (\<lambda>a c. a * 16 + hex_digit c) (a * 16 + hex_digit c) cs)"
    using Cons by (intro Cons.IH) auto
  moreover have "hex_char c" using Cons by simp
  ultimately show ?case
    by (cases "cs = []")
      (simp_all only: strToI_loop_step Let_def of_nat_add [symmetric] foldl.simps
        if_True if_False simp_thms)
qed simp

lemma strToI_value: "list_all hex_char s \<Longrightarrow> s \<noteq> [] \<Longrightarrow> strToI s = of_nat (hex_value s)"
  using strToI_loop_value [of s 0] by (simp add: strToI_def hex_value_def)

section \<open>What validargs accepts\<close>

datatype request = Help | Convert bool bool nat

text \<open>
  The documented command line: a mode, then at most one \<open>-b BASEADDR\<close> and at most one
  \<open>-e ENDIANNESS\<close> in either order.
\<close>

definition base_arg :: "cstring \<Rightarrow> nat option" where
  "base_arg s = (if s \<noteq> [] \<and> length s \<le> 8 \<and> list_all hex_char s \<and> 4096 dvd hex_value s
     then Some (hex_value s) else None)"

definition endian_arg :: "cstring \<Rightarrow> bool option" where
  "endian_arg s = (if s = ''b'' then Some True else if s = ''l'' then Some False else None)"

definition option_args :: "cstring list \<Rightarrow> (bool \<times> nat) option" where
  "option_args rest =
    (case rest of
       [] \<Rightarrow> Some (False, 0)
     | [f, x] \<Rightarrow>
        if f = ''-b'' then map_option (Pair False) (base_arg x)
        else if f = ''-e'' then map_option (\<lambda>e. (e, 0)) (endian_arg x) else None
     | [f, x, f', y] \<Rightarrow>
        if f = ''-e'' \<and> f' = ''-b'' then
          (case (endian_arg x, base_arg y) of (Some e, Some b) \<Rightarrow> Some (e, b) | _ \<Rightarrow> None)
        else if f = ''-b'' \<and> f' = ''-e'' then
          (case (base_arg x, endian_arg y) of (Some b, Some e) \<Rightarrow> Some (e, b) | _ \<Rightarrow> None)
        else None
     | _ \<Rightarrow> None)"

definition command_line :: "cstring list \<Rightarrow> request option" where
  "command_line argv =
    (case argv of
       prog # mode # rest \<Rightarrow>
         if mode = ''-h'' then Some Help
         else if mode = ''-a'' then map_option (\<lambda>(e, b). Convert False e b) (option_args rest)
         else if mode = ''-d'' then map_option (\<lambda>(e, b). Convert True e b) (option_args rest)
         else None
     | _ \<Rightarrow> None)"

definition options_word :: "bool \<Rightarrow> bool \<Rightarrow> nat \<Rightarrow> u32" where
  "options_word dis big base = (if dis then 2 else 0) OR (if big then 4 else 0) OR of_nat base"

lemma validBase_base_arg:
  assumes "CHR 0x00 \<notin> set s"
  shows "validBase s \<longleftrightarrow> base_arg s \<noteq> None"
    and "base_arg s = Some b \<Longrightarrow> strToI s = of_nat b"
  using validBase_iff [OF assms] strToI_value [of s] by (auto simp: base_arg_def split: if_splits)

lemma option_args_cases:
  "option_args rest = Some r \<Longrightarrow> length rest \<in> {0, 2, 4}"
  by (auto simp: option_args_def split: list.splits)

lemma list_cases_upto4:
  obtains "xs = []" | x where "xs = [x]" | x y where "xs = [x, y]"
    | x y z where "xs = [x, y, z]" | x y z w where "xs = [x, y, z, w]"
    | x y z w v vs where "xs = x # y # z # w # v # vs"
  by (metis list.exhaust)

lemma flag_neqs [simp]: "''-e'' \<noteq> ''-b''" "''-b'' \<noteq> ''-e''"
  by simp_all

lemma endian_arg_cases:
  obtains "s = ''b''" "endian_arg s = Some True" | "s = ''l''" "endian_arg s = Some False"
    | "s \<noteq> ''b''" "s \<noteq> ''l''" "endian_arg s = None"
  by (auto simp: endian_arg_def)

lemma validargs_options:
  assumes "\<forall>s \<in> set rest. CHR 0x00 \<notin> set s"
  shows "validargs_a (prog # mode # rest) 0 =
      (case option_args rest of None \<Rightarrow> (False, 0) | Some (e, b) \<Rightarrow> (True, options_word False e b))"
    and "validargs_d (prog # mode # rest) =
      (case option_args rest of None \<Rightarrow> (False, 0) | Some (e, b) \<Rightarrow> (True, options_word True e b))"
proof -
  note defs = validargs_a_def validargs_d_def option_args_def options_word_def Let_def
  have "validargs_a (prog # mode # rest) 0 =
      (case option_args rest of None \<Rightarrow> (False, 0) | Some (e, b) \<Rightarrow> (True, options_word False e b))
    \<and> validargs_d (prog # mode # rest) =
      (case option_args rest of None \<Rightarrow> (False, 0) | Some (e, b) \<Rightarrow> (True, options_word True e b))"
  proof (cases rest rule: list_cases_upto4)
    case (3 x y)
    then have n: "CHR 0x00 \<notin> set y" using assms by simp
    note b = validBase_base_arg [OF n]
    consider "x = ''-b''" | "x = ''-e''" | "x \<noteq> ''-b''" "x \<noteq> ''-e''" by blast
    then show ?thesis
    proof cases
      case 1
      with 3 b show ?thesis by (cases "base_arg y") (simp_all add: defs)
    next
      case 2
      with 3 show ?thesis by (cases y rule: endian_arg_cases) (simp_all add: defs)
    next
      case 3
      with \<open>rest = [x, y]\<close> show ?thesis by (simp add: defs)
    qed
  next
    case (5 x y z w)
    then have n: "CHR 0x00 \<notin> set y" "CHR 0x00 \<notin> set w" using assms by simp_all
    note b_y = validBase_base_arg [OF n(1)] and bw = validBase_base_arg [OF n(2)]
    consider "x = ''-e''" "z = ''-b''" | "x = ''-b''" "z = ''-e''"
      | "\<not> (x = ''-e'' \<and> z = ''-b'')" "\<not> (x = ''-b'' \<and> z = ''-e'')" by blast
    then show ?thesis
    proof cases
      case 1
      with 5 bw show ?thesis
        by (cases y rule: endian_arg_cases; cases "base_arg w") (simp_all add: defs or.assoc [symmetric])
    next
      case 2
      with 5 b_y show ?thesis
        by (cases w rule: endian_arg_cases; cases "base_arg y"; simp add: defs)
          (simp_all only: or.assoc or.commute or.left_commute)
    next
      case 3
      then have "x = ''-e'' \<Longrightarrow> z = ''-b'' \<Longrightarrow> False" "x = ''-b'' \<Longrightarrow> z = ''-e'' \<Longrightarrow> False"
        by blast+
      with \<open>rest = [x, y, z, w]\<close> show ?thesis
        by (simp add: defs cong: conj_cong) blast
    qed
  qed (simp_all add: defs)
  then show "validargs_a (prog # mode # rest) 0 =
      (case option_args rest of None \<Rightarrow> (False, 0) | Some (e, b) \<Rightarrow> (True, options_word False e b))"
    and "validargs_d (prog # mode # rest) =
      (case option_args rest of None \<Rightarrow> (False, 0) | Some (e, b) \<Rightarrow> (True, options_word True e b))"
    by blast+
qed

lemma option_args_base:
  assumes "option_args rest = Some (e, b)" shows "b < 2 ^ 32" "4096 dvd b"
proof -
  have *: "x < 2 ^ 32 \<and> 4096 dvd x" if "base_arg s = Some x" for s x
  proof -
    from that have "list_all hex_char s" "length s \<le> 8" "x = hex_value s" "4096 dvd x"
      by (auto simp: base_arg_def split: if_splits)
    then show ?thesis
      using hex_value_less [of s] power_increasing [of "length s" 8 "16 :: nat"] by simp
  qed
  from assms show "b < 2 ^ 32" "4096 dvd b"
    by (auto simp: option_args_def split: list.splits if_splits option.splits dest: *)
qed

text \<open>What \<open>main\<close> reads out of the bitmap.\<close>

lemma options_word_fields:
  assumes "b < 2 ^ 32" "4096 dvd b"
  shows "bit (options_word d e b) 0 = False" "bit (options_word d e b) 1 = d"
    "bit (options_word d e b) 2 = e" "unat (options_word d e b AND 0xFFFFF000) = b"
proof -
  have low: "\<not> bit b n" if "n < 12" for n
  proof -
    from assms(2) obtain k where "b = push_bit 12 k" by (auto simp: push_bit_eq_mult elim: dvdE)
    with that show ?thesis by (simp add: bit_push_bit_iff)
  qed
  show "bit (options_word d e b) 0 = False" "bit (options_word d e b) 1 = d"
    "bit (options_word d e b) 2 = e"
    by (auto simp: options_word_def bit_simps low)
  have m: "(0xFFFFF000 :: u32) = push_bit 12 (mask 20)" by (simp add: mask_eq_exp_minus_1)
  have four: "bit (4 :: int) n \<longleftrightarrow> n = 2" "bit (4 :: u32) n \<longleftrightarrow> n = 2" for n
    using bit_push_bit_iff [of 2 "1 :: int" n] bit_push_bit_iff [of 2 "1 :: u32" n]
    by (auto simp: bit_simps)
  have "options_word d e b AND 0xFFFFF000 = of_nat b"
    by (rule bit_word_eqI)
      (auto simp: options_word_def bit_simps m low four not_less intro: ccontr dest: low [rotated])
  then show "unat (options_word d e b AND 0xFFFFF000) = b"
    using assms(1) by (simp add: unsigned_of_nat take_bit_nat_eq_self)
qed

lemma validargs_command_line:
  assumes "\<forall>s \<in> set argv. CHR 0x00 \<notin> set s"
  shows "validargs argv =
    (case command_line argv of
       None \<Rightarrow> (False, 0)
     | Some Help \<Rightarrow> (True, 1)
     | Some (Convert dis big base) \<Rightarrow> (True, options_word dis big base))"
proof -
  consider "argv = []" | prog where "argv = [prog]" | prog mode rest where "argv = prog # mode # rest"
    by (metis list.exhaust)
  then show ?thesis
  proof cases
    case (3 prog mode rest)
    with assms have "\<forall>s \<in> set rest. CHR 0x00 \<notin> set s" by simp
    note v = validargs_options [OF this, of prog]
    from 3 show ?thesis
      by (auto simp: validargs_def command_line_def v split: option.splits prod.splits)
  qed (simp_all add: validargs_def command_line_def)
qed

lemma command_line_base:
  assumes "command_line argv = Some (Convert dis big base)"
  shows "base < 2 ^ 32" "4096 dvd base"
  using assms option_args_base
  by (fastforce simp: command_line_def split: list.splits if_splits)+

text \<open>
  C33. \<open>validargs\<close> accepts exactly the documented command lines, whatever the order of the
  two options. On a rejected command line the bitmap is 0; on \<open>-h\<close> its help bit is
  set; on a conversion the four fields that \<open>main\<close> reads back (help bit, mode bit,
  endianness bit and base address) are the ones that were asked for.
\<close>

theorem validargs_request:
  assumes "\<forall>s \<in> set argv. CHR 0x00 \<notin> set s"
  shows "case command_line argv of
      None \<Rightarrow> validargs argv = (False, 0)
    | Some Help \<Rightarrow> fst (validargs argv) \<and> bit (snd (validargs argv)) 0
    | Some (Convert dis big base) \<Rightarrow>
        (let (ok, g) = validargs argv in
         ok \<and> \<not> bit g 0 \<and> bit g 1 = dis \<and> bit g 2 = big \<and> unat (g AND 0xFFFFF000) = base)"
proof (cases "command_line argv")
  case (Some r)
  with validargs_command_line [OF assms] show ?thesis
  proof (cases r)
    case (Convert dis big base)
    with Some have "command_line argv = Some (Convert dis big base)" by simp
    note options_word_fields [OF command_line_base [OF this], of dis big]
    with Convert Some validargs_command_line [OF assms] show ?thesis by simp
  qed simp
qed (use validargs_command_line [OF assms] in simp)

theorem validargs_request_witness:
  "validargs [''bin/hw1'', ''-d'', ''-e'', ''b'', ''-b'', ''40F000''] = (True, 0x40F006)
   \<and> bit (snd (validargs [''bin/hw1'', ''-d'', ''-e'', ''b'', ''-b'', ''40F000''])) 2"
proof -
  let ?a = "[''bin/hw1'', ''-d'', ''-e'', ''b'', ''-b'', ''40F000'']"
  have v: "validargs ?a = (True, 0x40F006)"
    by (simp add: validargs_def validargs_d_def validBase_def validBase_loop.simps hex_char_def
        ord_def lastThreeZero_def strToI_def)
  have c: "command_line ?a = Some (Convert True True 0x40F000)"
    by (simp add: command_line_def option_args_def endian_arg_def base_arg_def hex_char_def
        hex_value_def hex_digit_def ord_def)
  show ?thesis using validargs_request [of ?a] v c by simp
qed

text \<open>
  The validity test and the conversion of a base address agree: a NUL-free string is a
  valid base exactly when it has one to eight hexadecimal digits of either case whose
  value is a multiple of 4096, and then \<open>strToI\<close> returns that value without wrapping
  around.
\<close>

theorem validBase_strToI:
  assumes "CHR 0x00 \<notin> set s"
  shows "(validBase s \<longleftrightarrow> s \<noteq> [] \<and> length s \<le> 8 \<and> list_all hex_char s \<and> 4096 dvd hex_value s)
    \<and> (validBase s \<longrightarrow> unat (strToI s) = hex_value s)"
proof -
  have "unat (strToI s) = hex_value s" if "validBase s"
    using that validBase_iff [OF assms] strToI_value [of s] hex_value_less [of s]
      power_increasing [of "length s" 8 "16 :: nat"]
    by (simp add: unsigned_of_nat take_bit_nat_eq_self)
  then show ?thesis using validBase_iff [OF assms] by blast
qed

theorem validBase_strToI_witness:
  "validBase ''ABcd000'' \<and> unat (strToI ''ABcd000'') = 0xABCD000 \<and> \<not> validBase ''1001''"
proof -
  have h: "hex_value ''ABcd000'' = 0xABCD000" "hex_value ''1001'' = 0x1001"
    "list_all hex_char ''ABcd000''"
    by (simp_all add: hex_value_def hex_digit_def hex_char_def ord_def)
  then show ?thesis
    using validBase_strToI [of "''ABcd000''"] validBase_strToI [of "''1001''"] by simp
qed

end
