(* ===== verification/C_Strings.thy ===== *)
theory C_Strings
  imports C_Digits
begin

text \<open>
  The string and stream functions of the C library that the programs call: \<open>strtok\<close>,
  \<open>strchr\<close>, \<open>strcasecmp\<close>, \<open>atoi\<close>, the conversions \<open>%s\<close> and \<open>%d\<close> of \<open>printf\<close> and
  \<open>sscanf\<close>, and \<open>getline\<close>, with the facts the components share.
\<close>

section \<open>Tokens\<close>

text \<open>\<open>strtok\<close> on what is left of the line: the token, if any, and the rest after it.\<close>

definition strtok :: "char list \<Rightarrow> cstring \<Rightarrow> cstring option \<times> cstring" where
  "strtok delims str =
    (let str = dropWhile (\<lambda>c. c \<in> set delims) str
     in if str = [] then (None, [])
        else (Some (takeWhile (\<lambda>c. c \<notin> set delims) str), drop 1 (dropWhile (\<lambda>c. c \<notin> set delims) str)))"

lemma strtok_shorter: "strtok ds str = (Some t, r) \<Longrightarrow> length r < length str"
proof -
  assume a: "strtok ds str = (Some t, r)"
  let ?s = "dropWhile (\<lambda>c. c \<in> set ds) str"
  have s: "?s \<noteq> []" "r = drop 1 (dropWhile (\<lambda>c. c \<notin> set ds) ?s)"
    using a by (auto simp: strtok_def Let_def split: if_splits)
  have "length (dropWhile (\<lambda>c. c \<notin> set ds) ?s) \<le> length ?s" "length ?s \<le> length str" by (rule length_dropWhile_le)+
  then show ?thesis using s by (cases ?s) (auto simp: Let_def)
qed

text \<open>The words of a string.\<close>

function tokens :: "cstring \<Rightarrow> cstring list" where
  "tokens rest = (case strtok '' '' rest of (None, r) \<Rightarrow> [] | (Some t, r) \<Rightarrow> t # tokens r)"
  by pat_completeness auto
termination by (relation "measure length") (auto dest: strtok_shorter [OF sym])

declare tokens.simps [simp del]

section \<open>Searching and comparing\<close>

text \<open>\<open>strchr\<close>, with the offset of the character in place of a pointer to it.\<close>

fun strchr :: "cstring \<Rightarrow> char \<Rightarrow> nat option" where
  "strchr [] c = None"
| "strchr (x # xs) c = (if x = c then Some 0 else map_option Suc (strchr xs c))"

lemma strchr_None [simp]: "strchr s c = None \<longleftrightarrow> c \<notin> set s"
  by (induction s) auto

lemma strchr_first: "c \<notin> set s \<Longrightarrow> strchr (s @ c # t) c = Some (length s)"
  by (induction s) auto

definition to_lower :: "char \<Rightarrow> char" where
  "to_lower c = (if 65 \<le> ord c \<and> ord c \<le> 90 then char_of (ord c + 32) else c)"

text \<open>\<open>strcasecmp\<close> in the C locale.\<close>

fun strcasecmp :: "cstring \<Rightarrow> cstring \<Rightarrow> int" where
  "strcasecmp [] [] = 0"
| "strcasecmp [] (y # ys) = - int (ord (to_lower y))"
| "strcasecmp (x # xs) [] = int (ord (to_lower x))"
| "strcasecmp (x # xs) (y # ys) =
    (if to_lower x = to_lower y then strcasecmp xs ys
     else int (ord (to_lower x)) - int (ord (to_lower y)))"

lemma to_lower_NUL: "ord (to_lower c) = 0 \<longleftrightarrow> c = CHR 0x00"
proof -
  have "ord (CHR 0x00) = 0" by (simp add: ord_def)
  then show ?thesis
    using ord_inject [of c "CHR 0x00"] by (auto simp: to_lower_def ord_def)
qed

lemma strcasecmp_0:
  assumes "CHR 0x00 \<notin> set s" "CHR 0x00 \<notin> set t"
  shows "strcasecmp s t = 0 \<longleftrightarrow> map to_lower s = map to_lower t"
  using assms by (induction s t rule: strcasecmp.induct) (auto simp: to_lower_NUL)

section \<open>Decimal numbers\<close>

text \<open>\<open>strtol\<close> saturates at the limits of a 64-bit \<open>long\<close>; \<open>atoi\<close> and \<open>%d\<close> keep the low 32 bits.\<close>

definition atoi_digits :: "cstring \<Rightarrow> i32" where
  "atoi_digits s = of_nat (min (dec_value s) (2 ^ 63 - 1))"

definition atoi_minus :: "cstring \<Rightarrow> i32" where
  "atoi_minus s = - of_nat (min (dec_value s) (2 ^ 63))"

definition digit_char :: "nat \<Rightarrow> char" where
  "digit_char d = char_of (48 + d)"

text \<open>The decimal digits that \<open>%d\<close> prints.\<close>

fun show_nat :: "nat \<Rightarrow> cstring" where
  "show_nat n = (if n < 10 then [digit_char n] else show_nat (n div 10) @ [digit_char (n mod 10)])"

declare show_nat.simps [simp del]

definition show_int :: "i32 \<Rightarrow> cstring" where
  "show_int w = (if sint w < 0 then CHR ''-'' # show_nat (nat (- sint w)) else show_nat (nat (sint w)))"

lemma ord_digit_char: "d < 10 \<Longrightarrow> ord (digit_char d) = 48 + d"
  by (simp add: ord_def digit_char_def)

lemma show_nat_digits: "list_all is_digit (show_nat n)"
proof (induction n rule: show_nat.induct)
  case (1 n)
  have d: "is_digit (digit_char d)" if "d < 10" for d
    using that by (simp add: is_digit_def ord_digit_char)
  show ?case by (subst show_nat.simps) (use 1 d in simp)
qed

lemma show_nat_not_Nil [simp]: "show_nat n \<noteq> []"
  by (subst show_nat.simps) simp

lemma dec_value_snoc: "dec_value (s @ [c]) = dec_value s * 10 + (ord c - 48)"
  by (simp add: dec_value_def)

lemma dec_value_show [simp]: "dec_value (show_nat n) = n"
proof (induction n rule: show_nat.induct)
  case (1 n)
  then show ?case
    by (subst show_nat.simps)
      (simp add: dec_value_snoc ord_digit_char, simp add: dec_value_def ord_digit_char)
qed

lemma show_int_of_nat: "n < 2 ^ 31 \<Longrightarrow> show_int (of_nat n) = show_nat n"
proof -
  assume n: "n < 2 ^ 31"
  then have u: "uint (of_nat n :: i32) = int n"
    by (simp add: unsigned_of_nat take_bit_nat_eq_self)
  then have "sint (of_nat n :: i32) = int n" using n by (subst sint_small) simp_all
  then show ?thesis by (simp add: show_int_def)
qed

lemma atoi_show: "n < 2 ^ 31 \<Longrightarrow> atoi_digits (show_nat n) = of_nat n"
  by (simp add: atoi_digits_def min_def)

lemma not_digit: "\<not> is_digit (CHR ''/'')" "\<not> is_digit (CHR '':'')" "\<not> is_digit (CHR '' '')"
  "\<not> is_digit (CHR 0x00)" "\<not> is_digit (CHR ''-'')" "\<not> is_digit (CHR ''+'')"
  by (simp_all add: is_digit_def ord_def)

lemma takeWhile_digits: "list_all is_digit s \<Longrightarrow> \<not> is_digit (deref t) \<Longrightarrow> takeWhile is_digit (s @ t) = s"
  by (induction s) (auto split: list.splits simp: deref_def takeWhile_eq_Nil_iff)

lemma dropWhile_digits: "list_all is_digit s \<Longrightarrow> \<not> is_digit (deref t) \<Longrightarrow> dropWhile is_digit (s @ t) = t"
  by (induction s) (auto split: list.splits simp: deref_def dropWhile_eq_self_iff)

definition isspace :: "char \<Rightarrow> bool" where
  "isspace c \<longleftrightarrow> c = CHR '' '' \<or> (9 \<le> ord c \<and> ord c \<le> 13)"

lemma digit_not_space: "is_digit c \<Longrightarrow> \<not> isspace c"
  by (auto simp: is_digit_def isspace_def ord_def)

lemma digit_not_sign: "is_digit c \<Longrightarrow> c \<noteq> CHR ''-'' \<and> c \<noteq> CHR ''+''"
  using not_digit by auto

section \<open>Lines\<close>

text \<open>
  \<open>getline\<close> on the characters that are still to come: the line with its newline and what
  follows, or nothing at the end of the file.
\<close>

definition getline :: "char list \<Rightarrow> (char list \<times> char list) option" where
  "getline inp =
    (if inp = [] then None
     else let b = dropWhile (\<lambda>c. c \<noteq> CHR 0x0A) inp
       in Some (takeWhile (\<lambda>c. c \<noteq> CHR 0x0A) inp @ take 1 b, drop 1 b))"

end
