(* ===== verification/Mips_Text.thy ===== *)
theory Mips_Text
  imports Mips_Codec Mips_Args C_Strings
begin

text \<open>
  Instructions as text: \<open>printf\<close> and \<open>sscanf\<close> with the formats of \<open>instr_table.c\<close>, which have literal
  characters, \<open>%d\<close> and \<open>%x\<close>, and \<open>fgets\<close>. Scanning a line that was printed with a format gives the arguments
  back, and no earlier format of the table accepts that line.
\<close>

section \<open>Formats\<close>

datatype directive = Lit char | Dec | Hex

fun directives :: "cstring \<Rightarrow> directive list" where
  "directives [] = []"
| "directives [c] = [Lit c]"
| "directives (c # k # f) =
    (if c = CHR ''%'' then (if k = CHR ''d'' then Dec else Hex) # directives f else Lit c # directives (k # f))"

section \<open>printf\<close>

definition hex_digit_char :: "nat \<Rightarrow> char" where
  "hex_digit_char d = (if d < 10 then char_of (48 + d) else char_of (87 + d))"

fun show_hex :: "nat \<Rightarrow> cstring" where
  "show_hex n = (if n < 16 then [hex_digit_char n] else show_hex (n div 16) @ [hex_digit_char (n mod 16)])"

declare show_hex.simps [simp del]

fun print_dirs :: "directive list \<Rightarrow> i32 list \<Rightarrow> cstring" where
  "print_dirs (Lit c # ds) as = c # print_dirs ds as"
| "print_dirs (Dec # ds) (a # as) = show_int a @ print_dirs ds as"
| "print_dirs (Hex # ds) (a # as) = show_hex (unat a) @ print_dirs ds as"
| "print_dirs _ _ = []"

definition printf :: "cstring \<Rightarrow> i32 list \<Rightarrow> cstring" where
  "printf fmt as = print_dirs (directives fmt) as"

section \<open>sscanf\<close>

text \<open>An optional sign: whether it is a minus, and the rest.\<close>

definition scan_sign :: "cstring \<Rightarrow> bool \<times> cstring" where
  "scan_sign s = (if deref s = CHR ''-'' then (True, drop 1 s) else if deref s = CHR ''+'' then (False, drop 1 s) else (False, s))"

definition scan_dec :: "cstring \<Rightarrow> (i32 \<times> cstring) option" where
  "scan_dec s =
    (let (neg, t) = scan_sign s; ds = takeWhile is_digit t
     in if ds = [] then None else Some (if neg then atoi_minus ds else atoi_digits ds, dropWhile is_digit t))"

text \<open>\<open>strtoul\<close> with base 16 saturates at the greatest 64-bit number; \<open>%x\<close> keeps the low 32 bits.\<close>

definition scan_hex :: "cstring \<Rightarrow> (i32 \<times> cstring) option" where
  "scan_hex s =
    (let (neg, t) = scan_sign s;
         prefix = (deref t = CHR ''0'' \<and> deref (drop 1 t) \<in> {CHR ''x'', CHR ''X''});
         t = (if prefix then drop 2 t else t);
         hs = takeWhile hex_char t;
         v = hex_value hs
     in if hs = [] \<and> \<not> prefix then None
        else Some (if 2 ^ 64 \<le> v then -1 else if neg then - of_nat v else of_nat v, dropWhile hex_char t))"

text \<open>The result of an input failure before or after the first conversion.\<close>

definition eof_result :: "nat \<Rightarrow> int" where
  "eof_result k = (if k = 0 then -1 else int k)"

text \<open>\<open>k\<close> conversions are stored so far; the result of \<open>sscanf\<close> and the arguments.\<close>

fun scan_dirs :: "directive list \<Rightarrow> cstring \<Rightarrow> nat \<Rightarrow> i32 list \<Rightarrow> int \<times> i32 list" where
  "scan_dirs [] s k args = (int k, args)"
| "scan_dirs (Lit c # ds) s k args =
    (if isspace c then scan_dirs ds (dropWhile isspace s) k args
     else case s of
       [] \<Rightarrow> (eof_result k, args)
     | x # s' \<Rightarrow> if x = c then scan_dirs ds s' k args else (int k, args))"
| "scan_dirs (d # ds) s k args =
    (let s = dropWhile isspace s
     in if s = [] then (eof_result k, args)
        else case (if d = Hex then scan_hex s else scan_dec s) of
          None \<Rightarrow> (int k, args)
        | Some (v, r) \<Rightarrow> scan_dirs ds r (k + 1) (args[k := v]))"

definition sscanf :: "cstring \<Rightarrow> cstring \<Rightarrow> i32 list \<Rightarrow> int \<times> i32 list" where
  "sscanf s fmt args = scan_dirs (directives fmt) s 0 args"

text \<open>\<open>fgets\<close> with a buffer of \<open>n\<close> bytes: what it stores, and the rest of the input.\<close>

definition fgets :: "nat \<Rightarrow> cstring \<Rightarrow> (cstring \<times> cstring) option" where
  "fgets n inp =
    (if inp = [] then None
     else let line = take (n - 1) (takeWhile (\<lambda>c. c \<noteq> CHR 0x0A) inp @ [CHR 0x0A]);
              s = take (length line) inp
          in Some (s, drop (length line) inp))"

section \<open>Reading back what was printed\<close>

lemma ord_hex_digit_char: "d < 16 \<Longrightarrow> ord (hex_digit_char d) = (if d < 10 then 48 + d else 87 + d)"
  by (simp add: ord_def hex_digit_char_def)

lemma hex_digit_char: "d < 16 \<Longrightarrow> hex_char (hex_digit_char d) \<and> hex_digit (hex_digit_char d) = d"
  by (auto simp: hex_char_def hex_digit_def ord_hex_digit_char)

lemma show_hex_chars: "list_all hex_char (show_hex n)"
proof (induction n rule: show_hex.induct)
  case (1 n)
  then show ?case by (subst show_hex.simps) (simp add: hex_digit_char)
qed

lemma show_hex_not_Nil [simp]: "show_hex n \<noteq> []"
  by (subst show_hex.simps) simp

lemma hex_value_show [simp]: "hex_value (show_hex n) = n"
proof (induction n rule: show_hex.induct)
  case (1 n)
  then show ?case
    by (subst show_hex.simps) (simp add: hex_digit_char, simp add: hex_value_def hex_digit_char)
qed

lemma length_show_hex: "n < 16 ^ k \<Longrightarrow> 0 < k \<Longrightarrow> length (show_hex n) \<le> k"
proof (induction n arbitrary: k rule: show_hex.induct)
  case (1 n)
  show ?case
  proof (cases "n < 16")
    case True
    then show ?thesis using 1 by (subst show_hex.simps) simp
  next
    case False
    then obtain j where j: "k = Suc j" "0 < j" using 1(2,3) by (cases k; cases "k - 1") auto
    have "n div 16 < 16 ^ j" using 1(2) j(1) by (simp add: less_mult_imp_div_less)
    from 1(1) [OF False this j(2)] show ?thesis using False j by (subst show_hex.simps) simp
  qed
qed

lemma length_show_nat: "n < 10 ^ k \<Longrightarrow> 0 < k \<Longrightarrow> length (show_nat n) \<le> k"
proof (induction n arbitrary: k rule: show_nat.induct)
  case (1 n)
  show ?case
  proof (cases "n < 10")
    case True
    then show ?thesis using 1 by (subst show_nat.simps) simp
  next
    case False
    then obtain j where j: "k = Suc j" "0 < j" using 1(2,3) by (cases k; cases "k - 1") auto
    have "n div 10 < 10 ^ j" using 1(2) j(1) by (simp add: less_mult_imp_div_less)
    from 1(1) [OF False this j(2)] show ?thesis using False j by (subst show_nat.simps) simp
  qed
qed

lemma takeWhile_app: "list_all P s \<Longrightarrow> t = [] \<or> \<not> P (hd t) \<Longrightarrow> takeWhile P (s @ t) = s \<and> dropWhile P (s @ t) = t"
  by (induction s) (cases t; auto)+

lemma deref_app: "s \<noteq> [] \<Longrightarrow> deref (s @ t) = hd s"
  by (cases s) simp_all

lemma scan_sign_digits: "list_all hex_char s \<Longrightarrow> s \<noteq> [] \<Longrightarrow> scan_sign (s @ t) = (False, s @ t)"
  by (cases s) (auto simp: scan_sign_def hex_char_def ord_def)

lemma digit_hex: "is_digit c \<Longrightarrow> hex_char c"
  by (auto simp: is_digit_def hex_char_def)

lemma show_nat_hex: "list_all hex_char (show_nat n)"
  using show_nat_digits [of n] by (auto simp: list_all_iff digit_hex)

text \<open>A printed number begins with a digit or a minus.\<close>

definition num_start :: "char \<Rightarrow> bool" where
  "num_start c \<longleftrightarrow> hex_char c \<or> c = CHR ''-''"

lemma num_start_not_space: "num_start c \<Longrightarrow> \<not> isspace c"
  by (auto simp: num_start_def hex_char_def isspace_def ord_def)

lemma show_int_start: "show_int a \<noteq> [] \<and> num_start (hd (show_int a))"
proof -
  have "hex_char (hd (show_nat n))" for n using show_nat_hex [of n] by (cases "show_nat n") simp_all
  then show ?thesis by (auto simp: show_int_def num_start_def)
qed

lemma show_hex_start: "num_start (hd (show_hex n))"
  using show_hex_chars [of n] by (cases "show_hex n") (simp_all add: num_start_def)

lemma scan_dec_print:
  assumes "t = [] \<or> \<not> is_digit (hd t)"
  shows "scan_dec (show_int a @ t) = Some (a, t)"
proof -
  have tw: "takeWhile is_digit (show_nat n @ t) = show_nat n \<and> dropWhile is_digit (show_nat n @ t) = t" for n
    by (rule takeWhile_app [OF show_nat_digits assms])
  have b: "- (2 ^ 31) \<le> sint a" "sint a < 2 ^ 31" using sint_range_size [of a] by (simp_all add: word_size)
  show ?thesis
  proof (cases "sint a < 0")
    case True
    have "nat (- sint a) \<le> 2 ^ 63" using b by simp
    then have "atoi_minus (show_nat (nat (- sint a))) = a"
      using True by (simp add: atoi_minus_def min_def)
    then show ?thesis using True tw by (simp add: scan_dec_def show_int_def scan_sign_def)
  next
    case False
    have "atoi_digits (show_nat (nat (sint a))) = a"
      using False b by (simp add: atoi_show)
    then show ?thesis
      using False tw scan_sign_digits [OF show_nat_hex show_nat_not_Nil, of "nat (sint a)" t]
      by (simp add: scan_dec_def show_int_def)
  qed
qed

lemma scan_hex_print:
  assumes "t = [] \<or> \<not> hex_char (hd t) \<and> hd t \<noteq> CHR ''x'' \<and> hd t \<noteq> CHR ''X''"
  shows "scan_hex (show_hex (unat a) @ t) = Some (a, t)"
proof -
  have x: "\<not> hex_char (CHR ''x'')" "\<not> hex_char (CHR ''X'')" by (simp_all add: hex_char_def ord_def)
  obtain c s where s: "show_hex (unat a) = c # s" by (cases "show_hex (unat a)") auto
  have "deref (drop 1 (show_hex (unat a) @ t)) \<noteq> CHR ''x'' \<and> deref (drop 1 (show_hex (unat a) @ t)) \<noteq> CHR ''X''"
    using show_hex_chars [of "unat a"] assms x s by (cases s; cases t) auto
  moreover have "takeWhile hex_char (show_hex (unat a) @ t) = show_hex (unat a) \<and> dropWhile hex_char (show_hex (unat a) @ t) = t"
    using assms by (intro takeWhile_app [OF show_hex_chars]) auto
  moreover have "\<not> 2 ^ 64 \<le> unat a" using unsigned_less [of a, where 'a = nat] by simp
  ultimately show ?thesis
    using scan_sign_digits [OF show_hex_chars show_hex_not_Nil, of "unat a" t] by (simp add: scan_hex_def Let_def)
qed

section \<open>Scanning a printed line\<close>

text \<open>A format whose numbers are followed by a character that ends them, and whose spaces are followed by no space.\<close>

fun separated :: "directive list \<Rightarrow> bool" where
  "separated [] \<longleftrightarrow> True"
| "separated [d] \<longleftrightarrow> True"
| "separated (Lit c # Lit x # ds) \<longleftrightarrow> (isspace c \<longrightarrow> \<not> isspace x) \<and> separated (Lit x # ds)"
| "separated (Lit c # d # ds) \<longleftrightarrow> separated (d # ds)"
| "separated (d # Lit x # ds) \<longleftrightarrow> \<not> hex_char x \<and> x \<noteq> CHR ''x'' \<and> x \<noteq> CHR ''X'' \<and> separated (Lit x # ds)"
| "separated (d # d' # ds) \<longleftrightarrow> False"

fun conversions :: "directive list \<Rightarrow> nat" where
  "conversions [] = 0"
| "conversions (Lit c # ds) = conversions ds"
| "conversions (d # ds) = Suc (conversions ds)"

text \<open>The end of a line, after which anything may follow.\<close>

definition line_end :: "cstring \<Rightarrow> bool" where
  "line_end t \<longleftrightarrow> t = [] \<or> hd t = CHR 0x0A"

lemma newline_char: "\<not> hex_char (CHR 0x0A)" "isspace (CHR 0x0A)" "\<not> is_digit (CHR 0x0A)" "\<not> num_start (CHR 0x0A)"
  by (simp_all add: hex_char_def isspace_def is_digit_def num_start_def ord_def)

lemma separated_tl: "separated (d # ds) \<Longrightarrow> separated ds"
  by (cases ds; cases d; cases "hd ds") auto

lemma separated_num:
  assumes "separated (d # ds)" "\<forall>c. d \<noteq> Lit c" "line_end t"
  shows "print_dirs ds as @ t = [] \<or> \<not> hex_char (hd (print_dirs ds as @ t)) \<and> hd (print_dirs ds as @ t) \<noteq> CHR ''x''
    \<and> hd (print_dirs ds as @ t) \<noteq> CHR ''X''"
proof (cases ds)
  case Nil
  then show ?thesis using assms(3) newline_char by (auto simp: line_end_def)
next
  case (Cons e es)
  then show ?thesis using assms(1,2) by (cases e; cases d) auto
qed

lemma separated_space:
  assumes "separated (Lit c # ds)" "isspace c" "conversions ds \<le> length as" "ds \<noteq> []"
  shows "dropWhile isspace (print_dirs ds as @ t) = print_dirs ds as @ t"
proof -
  have start: "s \<noteq> [] \<Longrightarrow> num_start (hd s) \<Longrightarrow> dropWhile isspace (s @ u) = s @ u" for s u
    using num_start_not_space by (cases s) auto
  obtain e es where e: "ds = e # es" using assms(4) by (cases ds) auto
  show ?thesis
  proof (cases e)
    case (Lit x)
    then show ?thesis using assms(1,2) e by auto
  next
    case Dec
    then obtain a bs where "as = a # bs" using assms(3) e by (cases as) auto
    then show ?thesis using Dec e start [of "show_int a"] show_int_start [of a] by simp
  next
    case Hex
    then obtain a bs where "as = a # bs" using assms(3) e by (cases as) auto
    then show ?thesis using Hex e start [of "show_hex (unat a)"] show_hex_start by simp
  qed
qed

lemma scan_print:
  assumes "separated ds" "conversions ds \<le> length as" "k + conversions ds \<le> length args" "line_end t"
  shows "scan_dirs ds (print_dirs ds as @ t) k args
    = (int (k + conversions ds), take k args @ take (conversions ds) as @ drop (k + conversions ds) args)"
  using assms
proof (induction ds arbitrary: as k args)
  case (Cons d ds)
  note sep = separated_tl [OF Cons.prems(1)]
  show ?case
  proof (cases d)
    case (Lit c)
    have IH: "scan_dirs ds (print_dirs ds as @ t) k args
      = (int (k + conversions ds), take k args @ take (conversions ds) as @ drop (k + conversions ds) args)"
      using Cons.IH [OF sep] Cons.prems Lit by simp
    show ?thesis
    proof (cases "isspace c")
      case True
      show ?thesis
      proof (cases "ds = []")
        case False
        then show ?thesis using IH True Lit Cons.prems separated_space [of c ds as t] by simp
      qed (use True Lit IH in simp)
    qed (use Lit IH in simp)
  next
    case Dec
    then obtain a bs where as: "as = a # bs" using Cons.prems(2) by (cases as) auto
    have "scan_dec (show_int a @ print_dirs ds bs @ t) = Some (a, print_dirs ds bs @ t)"
      using separated_num [OF Cons.prems(1) _ Cons.prems(4), of bs] Dec digit_hex by (intro scan_dec_print) auto
    moreover have "dropWhile isspace (show_int a @ print_dirs ds bs @ t) = show_int a @ print_dirs ds bs @ t"
      using show_int_start [of a] num_start_not_space by (cases "show_int a") auto
    moreover have "scan_dirs ds (print_dirs ds bs @ t) (k + 1) (args[k := a])
      = (int (k + 1 + conversions ds), take (k + 1) (args[k := a]) @ take (conversions ds) bs @ drop (k + 1 + conversions ds) (args[k := a]))"
      using Cons.IH [OF sep] Cons.prems Dec as by simp
    moreover have "k < length args" using Cons.prems(3) Dec by simp
    ultimately show ?thesis
      using Dec as show_int_start [of a] by (simp add: take_Suc_conv_app_nth)
  next
    case Hex
    then obtain a bs where as: "as = a # bs" using Cons.prems(2) by (cases as) auto
    have "scan_hex (show_hex (unat a) @ print_dirs ds bs @ t) = Some (a, print_dirs ds bs @ t)"
      using separated_num [OF Cons.prems(1) _ Cons.prems(4), of bs] Hex by (intro scan_hex_print) auto
    moreover have "dropWhile isspace (show_hex (unat a) @ print_dirs ds bs @ t) = show_hex (unat a) @ print_dirs ds bs @ t"
      using show_hex_start [of "unat a"] num_start_not_space by (cases "show_hex (unat a)") auto
    moreover have "scan_dirs ds (print_dirs ds bs @ t) (k + 1) (args[k := a])
      = (int (k + 1 + conversions ds), take (k + 1) (args[k := a]) @ take (conversions ds) bs @ drop (k + 1 + conversions ds) (args[k := a]))"
      using Cons.IH [OF sep] Cons.prems Hex as by simp
    moreover have "k < length args" using Cons.prems(3) Hex by simp
    ultimately show ?thesis using Hex as by (simp add: take_Suc_conv_app_nth)
  qed
qed simp

section \<open>Formats that do not match\<close>

text \<open>A format is a mnemonic, alone or followed by a space and a dollar sign or a zero.\<close>

definition letter :: "char \<Rightarrow> bool" where
  "letter c \<longleftrightarrow> (65 \<le> ord c \<and> ord c \<le> 90) \<or> (97 \<le> ord c \<and> ord c \<le> 122)"

definition operands_start :: "cstring \<Rightarrow> bool" where
  "operands_start f \<longleftrightarrow> f = [] \<or> (\<exists>x g. f = CHR '' '' # x # g \<and> (x = CHR ''$'' \<or> x = CHR ''0''))"

lemma letter_chars: "\<not> letter (CHR '' '')" "\<not> letter (CHR 0x0A)" "\<not> letter (CHR ''$'')" "\<not> letter (CHR ''0'')"
    "\<not> letter (CHR ''%'')" "isspace (CHR '' '')" "\<not> isspace (CHR ''$'')" "\<not> isspace (CHR ''0'')"
  by (simp_all add: letter_def isspace_def ord_def)

lemma letter_not_space: "letter c \<Longrightarrow> \<not> isspace c"
  by (auto simp: letter_def isspace_def ord_def)

lemma directives_Lit: "c \<noteq> CHR ''%'' \<Longrightarrow> directives (c # f) = Lit c # directives f"
  by (cases f) auto

lemma directives_word: "list_all letter w \<Longrightarrow> directives (w @ f) = map Lit w @ directives f"
proof (induction w)
  case (Cons c w)
  then have "c \<noteq> CHR ''%''" using letter_chars(5) by auto
  with Cons show ?case by (simp add: directives_Lit)
qed simp

lemma print_word: "print_dirs (map Lit w @ ds) as = w @ print_dirs ds as"
  by (induction w) auto

lemma scan_word_differs:
  assumes "list_all letter w" "list_all letter v" "w \<noteq> v" "operands_start f" "t \<noteq> []" "\<not> letter (hd t)"
  shows "scan_dirs (map Lit w @ directives f) (v @ t) 0 args = (0, args)"
  using assms
proof (induction w arbitrary: v)
  case Nil
  then obtain c v' where v: "v = c # v'" "letter c" by (cases v) auto
  show ?case
  proof (cases "f = []")
    case False
    then obtain x g where f: "f = CHR '' '' # x # g" and x: "x = CHR ''$'' \<or> x = CHR ''0''"
      using Nil(4) by (auto simp: operands_start_def)
    then have "directives f = Lit (CHR '' '') # Lit x # directives g" using directives_Lit by auto
    moreover have "dropWhile isspace (v @ t) = v @ t" using v letter_not_space by simp
    moreover have "x \<noteq> c" "\<not> isspace x" using x v(2) letter_chars by auto
    ultimately show ?thesis using v(1) letter_chars(6) by simp
  qed simp
next
  case (Cons c w)
  have sp: "\<not> isspace c" using Cons.prems(1) letter_not_space by simp
  show ?case
  proof (cases v)
    case Nil
    then obtain x t' where "t = x # t'" "x \<noteq> c" using Cons.prems(1,5,6) by (cases t) auto
    then show ?thesis using Nil sp by simp
  next
    case v: (Cons x v')
    then show ?thesis using Cons sp by simp
  qed
qed

lemma word_differs:
  assumes "list_all letter w" "list_all letter v" "w \<noteq> v" "operands_start f" "t \<noteq> []" "\<not> letter (hd t)"
  shows "\<not> stringEqual (v @ t) (w @ f)"
proof
  have tw: "takeWhile letter (u @ r) = u" if "list_all letter u" "r = [] \<or> \<not> letter (hd r)" for u r
    using takeWhile_app [OF that] by simp
  assume "stringEqual (v @ t) (w @ f)"
  then obtain r where "v @ t = w @ r" "r = f \<or> (\<exists>r'. r = f @ CHR 0x0A # r')" by (auto simp: stringEqual_iff)
  moreover from this(2) have "r = [] \<or> \<not> letter (hd r)"
    using assms(4) letter_chars by (auto simp: operands_start_def)
  ultimately show False using tw [OF assms(2), of t] tw [OF assms(1), of r] assms(3,6) by auto
qed

end
