(* ===== verification/Mips_Main.thy ===== *)
theory Mips_Main
  imports Mips_Text
begin

text \<open>
  The main program of the MIPS converter (\<open>MIPS Convertor/src/main.c\<close>): the loops that disassemble and
  assemble, composed from the options, the codec and the text formats. Standard input and output are
  lists of bytes. The result \<open>None\<close> is undefined behaviour: \<open>instr.info\<close> is a null pointer, or the search for a format
  reads past the end of \<open>instrTable\<close>. The other results are the output and whether the exit status
  is \<open>EXIT_SUCCESS\<close>.
\<close>

section \<open>Assembling a line\<close>

text \<open>The search for the format; the last component are the arguments, which every \<open>sscanf\<close> may change.\<close>

fun find_format :: "Instr_info list \<Rightarrow> cstring \<Rightarrow> i32 list \<Rightarrow> (Instr_info \<times> int \<times> i32 list) option" where
  "find_format [] input args = None"
| "find_format (ent # ents) input args =
    (let (amt, args) = sscanf input (ii_format ent) args
     in if amt \<noteq> 0 \<or> stringEqual input (ii_format ent) then Some (ent, amt, args)
        else find_format ents input args)"

definition bad_syntax :: "cstring \<Rightarrow> cstring \<Rightarrow> int \<Rightarrow> bool" where
  "bad_syntax fmt input amt \<longleftrightarrow>
    (countCommas input \<ge> amt \<and> amt \<noteq> 0) \<or> countDollaSign fmt \<noteq> countDollaSign input
    \<or> countSpaces fmt \<noteq> countSpaces input \<or> sameParenthesis input \<noteq> 0"

text \<open>The loop that copies the arguments; \<open>None\<close> when a register is out of range.\<close>

fun copy_args :: "nat list \<Rightarrow> Source list \<Rightarrow> int \<Rightarrow> Instruction \<Rightarrow> (int \<times> Instruction) option" where
  "copy_args [] srcs counted ip = Some (counted, ip)"
| "copy_args (i # is) srcs counted ip =
    (let a = i_args ip ! i
     in if srcs ! i = SRC_RD \<or> srcs ! i = SRC_RS \<or> srcs ! i = SRC_RT then
          (if sint a < 0 \<or> sint a > 31 then None
           else copy_args is srcs (counted + 1) (ip\<lparr>i_regs := (i_regs ip)[i := ucast a]\<rparr>))
        else if srcs ! i = EXTRA then copy_args is srcs (counted + 1) (ip\<lparr>i_extra := a\<rparr>)
        else copy_args is srcs counted ip)"

definition assemble_line :: "cstring \<Rightarrow> u32 \<Rightarrow> Instruction \<Rightarrow> (bool \<times> Instruction) option" where
  "assemble_line input addr ip =
    Option.bind (find_format (take NUM_ELEM instrTable) input (i_args ip)) (\<lambda>(ent, amt, args).
      let ip = ip\<lparr>i_info := Some ent, i_args := args\<rparr>
      in if bad_syntax (ii_format ent) input amt then Some (False, ip)
         else case copy_args [0, 1, 2] (ii_srcs ent) 0 ip of
           None \<Rightarrow> Some (False, ip)
         | Some (counted, ip) \<Rightarrow> if counted \<noteq> amt then Some (False, ip) else encode ip addr)"

text \<open>The four bytes that \<open>putchar\<close> writes, least significant first; the word is shifted arithmetically.\<close>

definition put_value :: "i32 \<Rightarrow> u8 list" where
  "put_value v = map (\<lambda>k. ucast (signed_drop_bit (8 * k) v)) [0, 1, 2, 3]"

text \<open>The contents of the buffer of 30 bytes as a C string.\<close>

definition c_string :: "cstring \<Rightarrow> cstring" where
  "c_string s = takeWhile (\<lambda>c. c \<noteq> CHR 0x00) s"

lemma fgets_shorter: "fgets n inp = Some (s, rest) \<Longrightarrow> 1 < n \<Longrightarrow> length rest < length inp"
  by (cases inp) (auto simp: fgets_def Let_def split: if_splits)

function assemble :: "bool \<Rightarrow> u32 \<Rightarrow> Instruction \<Rightarrow> cstring \<Rightarrow> (u8 list \<times> bool) option" where
  "assemble endi addr ip inp =
    (case fgets 30 inp of
       None \<Rightarrow> Some ([], True)
     | Some (buf, rest) \<Rightarrow>
        Option.bind (assemble_line (c_string buf) addr ip) (\<lambda>(ok, ip).
          if \<not> ok then Some ([], False)
          else
            let v = (if endi then bigEndian (i_value ip) else i_value ip)
            in Option.bind (assemble endi (addr + 4) (ip\<lparr>i_value := signed_drop_bit 32 v\<rparr>) rest) (\<lambda>(out, res).
                 Some (put_value v @ out, res))))"
  by pat_completeness auto
termination
  by (relation "measure (\<lambda>(e, a, ip, inp). length inp)") (auto dest: fgets_shorter)

declare assemble.simps [simp del]

section \<open>Disassembling\<close>

text \<open>\<open>fread\<close> of one word on a little-endian machine; an incomplete word ends the loop.\<close>

definition fread_word :: "u8 list \<Rightarrow> (i32 \<times> u8 list) option" where
  "fread_word inp =
    (if length inp < 4 then None else Some (be32 (inp ! 3) (inp ! 2) (inp ! 1) (inp ! 0), drop 4 inp))"

function disassemble :: "bool \<Rightarrow> u32 \<Rightarrow> Instruction \<Rightarrow> u8 list \<Rightarrow> (cstring \<times> bool) option" where
  "disassemble endi addr ip inp =
    (case fread_word inp of
       None \<Rightarrow> Some ([], True)
     | Some (w, rest) \<Rightarrow>
        Option.bind (decode (ip\<lparr>i_value := (if endi then bigEndian w else w)\<rparr>) addr) (\<lambda>(ok, ip).
          if \<not> ok then Some ([], False)
          else Option.bind (disassemble endi (addr + 4) ip rest) (\<lambda>(out, res).
            Some (printf (ii_format (the (i_info ip))) (i_args ip) @ [CHR 0x0A] @ out, res))))"
  by pat_completeness auto
termination
  by (relation "measure (\<lambda>(e, a, ip, inp). length inp)") (auto simp: fread_word_def split: if_splits)

declare disassemble.simps [simp del]

section \<open>The program\<close>

definition to_chars :: "u8 list \<Rightarrow> cstring" where
  "to_chars bs = map (\<lambda>b. char_of (unat b)) bs"

definition to_bytes :: "cstring \<Rightarrow> u8 list" where
  "to_bytes s = map (\<lambda>c. of_nat (ord c)) s"

text \<open>The usage message is an argument.\<close>

definition mips_main :: "u8 list \<Rightarrow> cstring list \<Rightarrow> u8 list \<Rightarrow> (u8 list \<times> bool) option" where
  "mips_main usage argv inp =
    (let (valid, options) = validargs argv
     in if \<not> valid then Some (usage, False)
        else if options AND 0x1 \<noteq> 0 then Some (usage, True)
        else
          let addr = options AND 0xFFFFF000; endi = (drop_bit 2 options AND 0x1 \<noteq> 0)
          in if drop_bit 1 options AND 0x1 \<noteq> 0
             then map_option (\<lambda>(out, ok). (to_bytes out, ok)) (disassemble endi addr zero_instr inp)
             else assemble endi addr zero_instr (to_chars inp))"

section \<open>The formats of the table\<close>

definition reg_source :: "Source \<Rightarrow> bool" where
  "reg_source s \<longleftrightarrow> s = SRC_RD \<or> s = SRC_RS \<or> s = SRC_RT"

text \<open>The greatest length of a printed line when registers are in range.\<close>

fun width :: "directive list \<Rightarrow> Source list \<Rightarrow> nat" where
  "width (Lit c # ds) ss = 1 + width ds ss"
| "width (d # ds) (s # ss) = (if reg_source s \<and> d = Dec then 2 else 11) + width ds ss"
| "width _ _ = 0"

fun literals :: "directive list \<Rightarrow> cstring" where
  "literals [] = []"
| "literals (Lit c # ds) = c # literals ds"
| "literals (d # ds) = literals ds"

definition format_ok :: "Instr_info \<Rightarrow> bool" where
  "format_ok ent \<longleftrightarrow>
    (let ds = directives (ii_format ent); lits = literals ds; n = conversions ds; ss = ii_srcs ent
     in separated ds \<and> n \<le> 3 \<and> length ss = 3 \<and> list_all (\<lambda>s. s \<noteq> NSRC) (take n ss) \<and> list_all (\<lambda>s. s = NSRC) (drop n ss)
        \<and> list_all (\<lambda>c. c \<noteq> CHR 0x0A \<and> c \<noteq> CHR 0x00) lits \<and> width ds ss \<le> 28
        \<and> list_all (\<lambda>c. count_list lits c = count_list (ii_format ent) c) ''$ ''
        \<and> list_all (\<lambda>c. c \<noteq> CHR 0x0A) (ii_format ent)
        \<and> (n = 0 \<longrightarrow> ii_format ent = lits) \<and> (n \<noteq> 0 \<longrightarrow> count_list lits (CHR '','') < n)
        \<and> length (filter (\<lambda>s. s = EXTRA) ss) \<le> 1 \<and> count_list lits (CHR ''('') = count_list lits (CHR '')''))"

lemma formats_ok: "list_all (\<lambda>ent. ii_type ent = NTYP \<or> format_ok ent) instrTable"
  by code_simp

text \<open>Every format begins with a mnemonic of its own.\<close>

definition mnemonic :: "Instr_info \<Rightarrow> cstring" where
  "mnemonic ent = takeWhile letter (ii_format ent)"

definition operands :: "Instr_info \<Rightarrow> cstring" where
  "operands ent = dropWhile letter (ii_format ent)"

definition starts_ok :: "cstring \<Rightarrow> bool" where
  "starts_ok f \<longleftrightarrow> (case f of [] \<Rightarrow> True | [c] \<Rightarrow> False | c # x # _ \<Rightarrow> c = CHR '' '' \<and> (x = CHR ''$'' \<or> x = CHR ''0''))"

lemma starts_ok: "starts_ok f \<longleftrightarrow> operands_start f"
  by (auto simp: starts_ok_def operands_start_def split: list.splits)

lemma operands_ok: "list_all (\<lambda>ent. starts_ok (operands ent)) instrTable"
  by code_simp

lemma mnemonics_distinct: "distinct (map mnemonic (filter (\<lambda>ent. ii_type ent \<noteq> NTYP) instrTable))"
  by code_simp

lemma mnemonics_illegal:
  "list_all (\<lambda>w. w \<notin> set (map mnemonic (filter (\<lambda>ent. ii_type ent \<noteq> NTYP) instrTable))) (map mnemonic (filter (\<lambda>ent. ii_type ent = NTYP) instrTable))"
  by code_simp

section \<open>Lines that the program prints\<close>

lemma count_num:
  assumes "\<not> num_start c"
  shows "count_list (show_int a) c = 0" "count_list (show_hex n) c = 0"
proof -
  have c: "\<not> hex_char c" "c \<noteq> CHR ''-''" using assms by (auto simp: num_start_def)
  then have "c \<notin> set (show_nat k)" "c \<notin> set (show_hex n)" for k
    using show_nat_hex [of k] show_hex_chars [of n] by (auto simp: list_all_iff)
  then show "count_list (show_int a) c = 0" "count_list (show_hex n) c = 0"
    using c by (auto simp: show_int_def count_list_0_iff)
qed

lemma count_print:
  "\<not> num_start c \<Longrightarrow> conversions ds \<le> length as \<Longrightarrow> count_list (print_dirs ds as) c = count_list (literals ds) c"
  by (induction ds as rule: print_dirs.induct) (auto simp: count_num)

lemma length_show_int: "length (show_int a) \<le> 11"
proof -
  have b: "- (2 ^ 31) \<le> sint a" "sint a < 2 ^ 31" using sint_range_size [of a] by (simp_all add: word_size)
  have "length (show_nat n) \<le> 10" if "n \<le> 2 ^ 31" for n
    using length_show_nat [of n 10] that by simp
  then have "length (show_nat (nat (sint a))) \<le> 10" "length (show_nat (nat (- sint a))) \<le> 10" using b by simp_all
  then show ?thesis by (simp add: show_int_def)
qed

lemma length_show_reg: "0 \<le> sint a \<Longrightarrow> sint a \<le> 31 \<Longrightarrow> length (show_int a) \<le> 2"
  using length_show_nat [of "nat (sint a)" 2] by (simp add: show_int_def)

text \<open>Arguments that are in range where the entry has a register, and 0 where it has nothing.\<close>

definition args_ok :: "Source list \<Rightarrow> i32 list \<Rightarrow> bool" where
  "args_ok ss as \<longleftrightarrow> length as = length ss
     \<and> (\<forall>i < length ss. (reg_source (ss ! i) \<longrightarrow> 0 \<le> sint (as ! i) \<and> sint (as ! i) \<le> 31) \<and> (ss ! i = NSRC \<longrightarrow> as ! i = 0))"

lemma args_ok_Cons: "args_ok (s # ss) (a # as) \<longleftrightarrow>
    (reg_source s \<longrightarrow> 0 \<le> sint a \<and> sint a \<le> 31) \<and> (s = NSRC \<longrightarrow> a = 0) \<and> args_ok ss as"
  by (auto simp: args_ok_def nth_Cons less_Suc_eq_0_disj split: nat.splits)

lemma length_print: "args_ok ss as \<Longrightarrow> conversions ds \<le> length ss \<Longrightarrow> length (print_dirs ds as) \<le> width ds ss"
proof (induction ds arbitrary: ss as)
  case (Cons d ds)
  show ?case
  proof (cases "\<exists>c. d = Lit c")
    case True
    then show ?thesis using Cons by auto
  next
    case False
    then have c: "conversions (d # ds) = Suc (conversions ds)" by (cases d) auto
    obtain s ss' where ss: "ss = s # ss'" using Cons.prems(2) c by (cases ss) auto
    obtain a as' where as: "as = a # as'" using Cons.prems(1) ss by (cases as) (auto simp: args_ok_def)
    have IH: "length (print_dirs ds as') \<le> width ds ss'" using Cons.IH [of ss' as'] Cons.prems c ss as by (simp add: args_ok_Cons)
    have "length (show_hex (unat a)) \<le> 8" using length_show_hex [of "unat a" 8] unsigned_less [of a, where 'a = nat] by simp
    then show ?thesis
      using False IH ss as Cons.prems(1) length_show_int [of a] length_show_reg [of a] by (cases d) (auto simp: args_ok_Cons)
  qed
qed simp

lemma print_no_args: "conversions ds = 0 \<Longrightarrow> print_dirs ds as = literals ds"
  by (induction ds as rule: print_dirs.induct) auto

lemma stringEqual_line: "stringEqual (s @ CHR 0x0A # t) s"
  by (auto simp: stringEqual_iff)

text \<open>The first format that matches a printed line is the one it was printed with.\<close>

lemma print_mnemonic:
  "printf (ii_format ent) as = mnemonic ent @ print_dirs (directives (operands ent)) as"
  "ii_format ent = mnemonic ent @ operands ent" "list_all letter (mnemonic ent)"
proof -
  show w: "list_all letter (mnemonic ent)" by (auto simp: mnemonic_def list_all_iff dest: set_takeWhileD)
  show f: "ii_format ent = mnemonic ent @ operands ent" by (simp add: mnemonic_def operands_def)
  show "printf (ii_format ent) as = mnemonic ent @ print_dirs (directives (operands ent)) as"
    unfolding printf_def by (subst f) (simp add: directives_word [OF w] print_word)
qed

lemma print_operands_start:
  assumes "operands_start f"
  shows "\<not> letter (hd (print_dirs (directives f) as @ CHR 0x0A # t))"
proof (cases "f = []")
  case True
  then show ?thesis using letter_chars(2) by simp
next
  case False
  then obtain x g where "f = CHR '' '' # x # g" using assms by (auto simp: operands_start_def)
  then have "directives f = Lit (CHR '' '') # directives (x # g)" using directives_Lit by auto
  then show ?thesis using letter_chars(1) by simp
qed

lemma skip_format:
  assumes "mnemonic e \<noteq> mnemonic ent" "operands_start (operands e)" "operands_start (operands ent)"
  shows "find_format (e # es) (printf (ii_format ent) as @ [CHR 0x0A]) args = find_format es (printf (ii_format ent) as @ [CHR 0x0A]) args"
proof -
  define t where "t = print_dirs (directives (operands ent)) as @ [CHR 0x0A]"
  have l: "printf (ii_format ent) as @ [CHR 0x0A] = mnemonic ent @ t" using print_mnemonic(1) by (simp add: t_def)
  have t: "t \<noteq> []" "\<not> letter (hd t)" using print_operands_start [OF assms(3), of as "[]"] by (simp_all add: t_def)
  have f: "ii_format e = mnemonic e @ operands e" "list_all letter (mnemonic e)" "list_all letter (mnemonic ent)"
    using print_mnemonic by blast+
  have "sscanf (mnemonic ent @ t) (ii_format e) args = (0, args)"
    unfolding sscanf_def f(1) directives_word [OF f(2)] by (rule scan_word_differs [OF f(2,3) assms(1,2) t])
  moreover have "\<not> stringEqual (mnemonic ent @ t) (ii_format e)"
    unfolding f(1) by (rule word_differs [OF f(2,3) assms(1,2) t])
  ultimately show ?thesis unfolding l by simp
qed

lemma other_mnemonics:
  assumes "instrTable = pre @ ent # post" "ii_type ent \<noteq> NTYP" "e \<in> set pre"
  shows "mnemonic e \<noteq> mnemonic ent"
proof -
  define legal :: "Instr_info \<Rightarrow> bool" where "legal = (\<lambda>e. ii_type e \<noteq> NTYP)"
  have m: "e \<in> set instrTable" "ent \<in> set instrTable" "filter legal instrTable = filter legal pre @ ent # filter legal post"
    unfolding assms(1) using assms(2,3) by (simp_all add: legal_def)
  have ent: "mnemonic ent \<in> mnemonic ` set (filter legal instrTable)" using m(2) assms(2) by (simp add: legal_def)
  show ?thesis
  proof (cases "legal e")
    case False
    then have "mnemonic e \<notin> mnemonic ` set (filter legal instrTable)"
      using mnemonics_illegal m(1) unfolding legal_def list_all_iff by auto
    then show ?thesis using ent by metis
  next
    case True
    have "distinct (map mnemonic (filter legal pre @ ent # filter legal post))"
      using mnemonics_distinct m(3) by (simp add: legal_def)
    then have "mnemonic ent \<notin> mnemonic ` set (filter legal pre)" by (simp del: set_filter)
    moreover have "mnemonic e \<in> mnemonic ` set (filter legal pre)" using True assms(3) by (intro imageI) simp
    ultimately show ?thesis by metis
  qed
qed

lemma find_own_format:
  assumes "instrTable = pre @ ent # post" "ii_type ent \<noteq> NTYP"
  shows "find_format instrTable (printf (ii_format ent) as @ [CHR 0x0A]) args = find_format (ent # post) (printf (ii_format ent) as @ [CHR 0x0A]) args"
proof -
  have o: "operands_start (operands e)" if "e \<in> set instrTable" for e
    using operands_ok that by (auto simp: list_all_iff starts_ok)
  have "find_format (xs @ ent # post) (printf (ii_format ent) as @ [CHR 0x0A]) args = find_format (ent # post) (printf (ii_format ent) as @ [CHR 0x0A]) args"
    if "set xs \<subseteq> set pre" for xs
    using that
  proof (induction xs)
    case (Cons e xs)
    have e: "mnemonic e \<noteq> mnemonic ent" "operands_start (operands e)" "operands_start (operands ent)"
      using other_mnemonics [OF assms, of e] o [of e] o [of ent] Cons.prems unfolding assms(1) by auto
    show ?case using skip_format [OF e, of "xs @ ent # post" as args] Cons by (simp del: find_format.simps)
  qed simp
  from this [of pre] show ?thesis unfolding assms(1) by simp
qed

section \<open>Assembling a printed line\<close>

lemma copy_args_ok:
  assumes "\<forall>i \<in> set is. reg_source (srcs ! i) \<longrightarrow> 0 \<le> sint (i_args ip ! i) \<and> sint (i_args ip ! i) \<le> 31"
    "\<forall>i j. srcs ! i = EXTRA \<and> srcs ! j = EXTRA \<and> i \<in> set is \<and> j \<in> set is \<longrightarrow> i = j"
  shows "\<exists>ip'. copy_args is srcs c ip = Some (c + int (length (filter (\<lambda>i. srcs ! i \<noteq> NSRC) is)), ip')
    \<and> i_args ip' = i_args ip \<and> i_info ip' = i_info ip
    \<and> (\<forall>i \<in> set is. srcs ! i = EXTRA \<longrightarrow> i_extra ip' = i_args ip ! i)
    \<and> ((\<forall>i \<in> set is. srcs ! i \<noteq> EXTRA) \<longrightarrow> i_extra ip' = i_extra ip)"
  using assms
proof (induction "is" arbitrary: c ip)
  case (Cons i "is")
  have tl: "\<forall>i j. srcs ! i = EXTRA \<and> srcs ! j = EXTRA \<and> i \<in> set is \<and> j \<in> set is \<longrightarrow> i = j"
    using Cons.prems(2) by simp
  show ?case
  proof (cases "srcs ! i = SRC_RD \<or> srcs ! i = SRC_RS \<or> srcs ! i = SRC_RT")
    case True
    define ip1 where "ip1 = ip\<lparr>i_regs := (i_regs ip)[i := ucast (i_args ip ! i)]\<rparr>"
    have "copy_args (i # is) srcs c ip = copy_args is srcs (c + 1) ip1"
      using True Cons.prems(1) by (auto simp: reg_source_def ip1_def Let_def)
    moreover obtain ip' where "copy_args is srcs (c + 1) ip1 = Some (c + 1 + int (length (filter (\<lambda>i. srcs ! i \<noteq> NSRC) is)), ip')"
      "i_args ip' = i_args ip" "i_info ip' = i_info ip" "\<forall>i \<in> set is. srcs ! i = EXTRA \<longrightarrow> i_extra ip' = i_args ip ! i"
      "(\<forall>i \<in> set is. srcs ! i \<noteq> EXTRA) \<longrightarrow> i_extra ip' = i_extra ip"
      using Cons.IH [of ip1 "c + 1"] Cons.prems(1) tl by (auto simp: ip1_def)
    ultimately show ?thesis using True by (intro exI [of _ ip']) auto
  next
    case r: False
    show ?thesis
    proof (cases "srcs ! i = EXTRA")
      case True
      define ip1 where "ip1 = ip\<lparr>i_extra := i_args ip ! i\<rparr>"
      have "copy_args (i # is) srcs c ip = copy_args is srcs (c + 1) ip1" using r True by (simp add: ip1_def Let_def)
      moreover obtain ip' where "copy_args is srcs (c + 1) ip1 = Some (c + 1 + int (length (filter (\<lambda>i. srcs ! i \<noteq> NSRC) is)), ip')"
        "i_args ip' = i_args ip" "i_info ip' = i_info ip" "\<forall>i \<in> set is. srcs ! i = EXTRA \<longrightarrow> i_extra ip' = i_args ip ! i"
        "(\<forall>i \<in> set is. srcs ! i \<noteq> EXTRA) \<longrightarrow> i_extra ip' = i_args ip ! i"
        using Cons.IH [of ip1 "c + 1"] Cons.prems(1) tl by (auto simp: ip1_def)
      moreover have "i_extra ip' = i_args ip ! i"
      proof (cases "\<exists>j \<in> set is. srcs ! j = EXTRA")
        case True
        then obtain j where "j \<in> set is" "srcs ! j = EXTRA" by blast
        moreover from this have "j = i" using Cons.prems(2) \<open>srcs ! i = EXTRA\<close> by auto
        ultimately show ?thesis using \<open>\<forall>i \<in> set is. srcs ! i = EXTRA \<longrightarrow> i_extra ip' = i_args ip ! i\<close> by auto
      next
        case False
        then show ?thesis using \<open>(\<forall>i \<in> set is. srcs ! i \<noteq> EXTRA) \<longrightarrow> i_extra ip' = i_args ip ! i\<close> by auto
      qed
      ultimately show ?thesis using True by (intro exI [of _ ip']) auto
    next
      case False
      then have n: "srcs ! i = NSRC" using r by (cases "srcs ! i") auto
      then have "copy_args (i # is) srcs c ip = copy_args is srcs c ip" by (simp add: Let_def)
      then show ?thesis using Cons.IH [of ip c] Cons.prems(1) tl n by auto
    qed
  qed
qed simp

text \<open>The arguments of a decoded instruction.\<close>

lemma reg_and_31: "x AND 0x1F = (a :: i32) \<Longrightarrow> 0 \<le> sint a \<and> sint a \<le> 31"
proof -
  assume "x AND 0x1F = a"
  then have "a \<le> 0x1F" using word_and_le1 [of x "0x1F"] by simp
  then have "uint a \<le> 31" by (simp add: word_le_def)
  then show ?thesis using sint_small [of a] by simp
qed

lemma decode_arg_length: "decode_arg ent oc addr i ip = (b, ip') \<Longrightarrow> length (i_args ip') = length (i_args ip)"
  unfolding decode_arg_def Let_def by (cases "ii_srcs ent ! i") (auto split: option.splits)

lemma for_args_length:
  "for_args (decode_arg ent oc addr) is ip = (b, ip') \<Longrightarrow> length (i_args ip') = length (i_args ip)"
proof (induction "is" arbitrary: ip)
  case (Cons i "is")
  obtain b1 ip1 where 1: "decode_arg ent oc addr i ip = (b1, ip1)" by (cases "decode_arg ent oc addr i ip")
  then show ?case using Cons decode_arg_length [OF 1] by (cases b1) auto
qed simp

lemma decode_length: "decode ip addr = Some (b, ip') \<Longrightarrow> length (i_args ip') = length (i_args ip)"
  by (auto simp: decode_def Let_def simp del: for_args.simps split: option.splits dest: for_args_length)

lemma decoded_args:
  assumes "decode ip addr = Some (True, dp)" "i_info dp = Some ent" "length (i_args ip) = 3" "length (ii_srcs ent) = 3"
  shows "ent \<in> set instrTable \<and> args_ok (ii_srcs ent) (i_args dp)"
proof -
  obtain oc where oc: "decode_opcode (i_value ip) = Some oc" using assms(1) by (auto simp: decode_def split: option.splits)
  with decode_accepted [OF assms(3), of addr] assms(1,2) have ent: "ent \<in> set instrTable"
    and f: "\<And>i. i < 3 \<Longrightarrow> decode_field ent addr (ii_srcs ent ! i) (i_value ip) = Some (i_args dp ! i)" by auto
  have "length (i_args dp) = 3" using decode_length [OF assms(1)] assms(3) by simp
  moreover have "(reg_source (ii_srcs ent ! i) \<longrightarrow> 0 \<le> sint (i_args dp ! i) \<and> sint (i_args dp ! i) \<le> 31)
      \<and> (ii_srcs ent ! i = NSRC \<longrightarrow> i_args dp ! i = 0)" if "i < 3" for i
    using f [OF that] by (auto simp: decode_field_def reg_source_def dest: reg_and_31)
  ultimately show ?thesis using ent assms(4) by (simp add: args_ok_def)
qed

lemma format_okD:
  assumes "format_ok ent"
  shows "separated (directives (ii_format ent))" "conversions (directives (ii_format ent)) \<le> 3" "length (ii_srcs ent) = 3"
    "width (directives (ii_format ent)) (ii_srcs ent) \<le> 28"
    "list_all (\<lambda>c. c \<noteq> CHR 0x0A \<and> c \<noteq> CHR 0x00) (literals (directives (ii_format ent)))"
    "list_all (\<lambda>c. c \<noteq> CHR 0x0A) (ii_format ent)"
  using assms by (simp_all add: format_ok_def Let_def)

lemma format_ok_sources:
  assumes "format_ok ent"
  shows "length (filter (\<lambda>i. ii_srcs ent ! i \<noteq> NSRC) [0, 1, 2]) = conversions (directives (ii_format ent))"
    "\<forall>i j. ii_srcs ent ! i = EXTRA \<and> ii_srcs ent ! j = EXTRA \<and> i \<in> set [0, 1, 2] \<and> j \<in> set [0, 1, 2] \<longrightarrow> i = j"
    "\<And>i. i < 3 \<Longrightarrow> conversions (directives (ii_format ent)) \<le> i \<Longrightarrow> ii_srcs ent ! i = NSRC"
    "\<And>i. i < conversions (directives (ii_format ent)) \<Longrightarrow> ii_srcs ent ! i \<noteq> NSRC"
proof -
  define n where "n = conversions (directives (ii_format ent))"
  have f: "n \<le> 3" "list_all (\<lambda>s. s \<noteq> NSRC) (take n (ii_srcs ent))" "list_all (\<lambda>s. s = NSRC) (drop n (ii_srcs ent))"
    "length (filter (\<lambda>s. s = EXTRA) (ii_srcs ent)) \<le> 1"
    using assms by (simp_all add: format_ok_def Let_def n_def)
  obtain s0 s1 s2 where s: "ii_srcs ent = [s0, s1, s2]"
    using format_okD(3) [OF assms] by (auto simp: length_Suc_conv numeral_3_eq_3)
  have n: "n = 0 \<or> n = 1 \<or> n = 2 \<or> n = 3" using f(1) by auto
  show "length (filter (\<lambda>i. ii_srcs ent ! i \<noteq> NSRC) [0, 1, 2]) = conversions (directives (ii_format ent))"
    unfolding n_def [symmetric] using n f(2,3) by (auto simp: s numeral_2_eq_2 numeral_3_eq_3)
  show "\<forall>i j. ii_srcs ent ! i = EXTRA \<and> ii_srcs ent ! j = EXTRA \<and> i \<in> set [0, 1, 2] \<and> j \<in> set [0, 1, 2] \<longrightarrow> i = j"
    using f(4) by (auto simp: s numeral_2_eq_2 split: if_splits)
  show "ii_srcs ent ! i = NSRC" if "i < 3" "conversions (directives (ii_format ent)) \<le> i" for i
  proof -
    have "drop n (ii_srcs ent) ! (i - n) = ii_srcs ent ! i" using that s by (simp add: n_def)
    moreover have "i - n < length (drop n (ii_srcs ent))" using that s by (simp add: n_def)
    ultimately show ?thesis using f(3) [unfolded list_all_length, rule_format, of "i - n"] by simp
  qed
  show "ii_srcs ent ! i \<noteq> NSRC" if "i < conversions (directives (ii_format ent))" for i
    using f(1) f(2) [unfolded list_all_length, rule_format, of i] that s by (simp add: n_def)
qed

lemma print_no_newline:
  assumes "format_ok ent" "length as = 3" "c = CHR 0x0A \<or> c = CHR 0x00"
  shows "c \<notin> set (printf (ii_format ent) as)"
proof -
  have "\<not> num_start c" using assms(3) by (auto simp: num_start_def hex_char_def ord_def)
  then have "count_list (printf (ii_format ent) as) c = count_list (literals (directives (ii_format ent))) c"
    unfolding printf_def by (rule count_print) (use format_okD(2) [OF assms(1)] assms(2) in simp)
  also have "\<dots> = 0" using format_okD(5) [OF assms(1)] assms(3) by (auto simp: count_list_0_iff list_all_iff)
  finally show ?thesis by (simp add: count_list_0_iff)
qed

lemma printed_syntax:
  assumes "format_ok ent" "length as = 3"
  shows "\<not> bad_syntax (ii_format ent) (printf (ii_format ent) as @ [CHR 0x0A]) (int (conversions (directives (ii_format ent))))"
proof -
  let ?p = "printf (ii_format ent) as" let ?lits = "literals (directives (ii_format ent))"
  have l: "line_of (?p @ [CHR 0x0A]) = ?p"
    using print_no_newline [OF assms, of "CHR 0x0A"] by (simp add: line_of_def takeWhile_append)
  have lf: "line_of (ii_format ent) = ii_format ent"
    using format_okD(6) [OF assms(1)] by (simp add: line_of_def takeWhile_eq_all_conv list_all_iff)
  have c: "count_list ?p c = count_list ?lits c" if "\<not> num_start c" for c
    unfolding printf_def by (rule count_print [OF that]) (use format_okD(2) [OF assms(1)] assms(2) in simp)
  have ns: "\<not> num_start (CHR '','')" "\<not> num_start (CHR ''$'')" "\<not> num_start (CHR '' '')" "\<not> num_start (CHR ''('')" "\<not> num_start (CHR '')'')"
    by (simp_all add: num_start_def hex_char_def ord_def)
  have f: "count_list ?lits (CHR ''$'') = count_list (ii_format ent) (CHR ''$'')" "count_list ?lits (CHR '' '') = count_list (ii_format ent) (CHR '' '')"
    "conversions (directives (ii_format ent)) \<noteq> 0 \<longrightarrow> count_list ?lits (CHR '','') < conversions (directives (ii_format ent))"
    "count_list ?lits (CHR ''('') = count_list ?lits (CHR '')'')"
    using assms(1) by (simp_all add: format_ok_def Let_def)
  show ?thesis
    unfolding bad_syntax_def count_helpers l lf using f c ns by auto
qed

lemma find_printed_format:
  assumes "ent \<in> set instrTable" "ii_type ent \<noteq> NTYP" "format_ok ent" "length as = 3" "length args = 3"
  shows "find_format (take NUM_ELEM instrTable) (printf (ii_format ent) as @ [CHR 0x0A]) args
    = Some (ent, int (conversions (directives (ii_format ent))), map (\<lambda>i. if ii_srcs ent ! i = NSRC then args ! i else as ! i) [0, 1, 2])"
proof -
  let ?n = "conversions (directives (ii_format ent))"
  let ?as = "map (\<lambda>i. if ii_srcs ent ! i = NSRC then args ! i else as ! i) [0, 1, 2]"
  obtain pre post where t: "instrTable = pre @ ent # post" using assms(1) by (auto simp: in_set_conv_decomp)
  have "take ?n as @ drop ?n args = ?as"
  proof (rule nth_equalityI)
    show l: "length (take ?n as @ drop ?n args) = length ?as" using assms(4,5) format_okD(2) [OF assms(3)] by simp
    fix i assume "i < length (take ?n as @ drop ?n args)"
    then have i: "i < 3" using l by simp
    then have "?as ! i = (if ii_srcs ent ! i = NSRC then args ! i else as ! i)"
      by (auto simp: less_Suc_eq numeral_3_eq_3 numeral_2_eq_2)
    then show "(take ?n as @ drop ?n args) ! i = ?as ! i"
      using i assms(4,5) format_okD(2) [OF assms(3)] format_ok_sources(3,4) [OF assms(3), of i] by (auto simp: nth_append)
  qed
  then have s: "sscanf (printf (ii_format ent) as @ [CHR 0x0A]) (ii_format ent) args = (int ?n, ?as)"
    unfolding sscanf_def printf_def
    using scan_print [of "directives (ii_format ent)" as 0 args "[CHR 0x0A]"] format_okD(1,2) [OF assms(3)] assms(4,5)
    by (simp add: line_end_def)
  have "stringEqual (printf (ii_format ent) as @ [CHR 0x0A]) (ii_format ent)" if "?n = 0"
  proof -
    have "ii_format ent = literals (directives (ii_format ent))" using assms(3) that by (simp add: format_ok_def Let_def)
    then have "printf (ii_format ent) as = ii_format ent" unfolding printf_def using print_no_args [OF that] by simp
    then show ?thesis by (simp add: stringEqual_line)
  qed
  moreover have "take NUM_ELEM instrTable = instrTable" using table_lengths by (simp add: NUM_ELEM_def)
  ultimately show ?thesis using find_own_format [OF t assms(2), of as args] s by (simp only: find_format.simps) (auto simp: Let_def)
qed

text \<open>A printed line is read back up to the arguments that the instruction does not have, which stay as they were;
  the line then is assembled exactly if \<open>encode\<close> accepts the arguments.\<close>

lemma assemble_printed_line:
  assumes "decode zp addr = Some (True, dp)" "i_info dp = Some ent" "length (i_args zp) = 3" "ii_type ent \<noteq> NTYP" "length (i_args ip) = 3"
  shows "\<exists>ip'. assemble_line (printf (ii_format ent) (i_args dp) @ [CHR 0x0A]) addr ip = encode ip' addr
    \<and> i_info ip' = Some ent \<and> length (i_args ip') = 3
    \<and> (\<forall>i < 3. i_args ip' ! i = (if ii_srcs ent ! i = NSRC then i_args ip ! i else i_args dp ! i))
    \<and> (\<forall>i < 3. ii_srcs ent ! i = EXTRA \<longrightarrow> i_extra ip' = i_args dp ! i)"
proof -
  let ?L = "printf (ii_format ent) (i_args dp) @ [CHR 0x0A]" let ?n = "conversions (directives (ii_format ent))"
  define as where "as = map (\<lambda>i. if ii_srcs ent ! i = NSRC then i_args ip ! i else i_args dp ! i) [0, 1, 2]"
  have asn: "as ! i = (if ii_srcs ent ! i = NSRC then i_args ip ! i else i_args dp ! i)" if "i < 3" for i
    using that by (auto simp: as_def less_Suc_eq numeral_3_eq_3 numeral_2_eq_2)
  have dl: "length (i_args dp) = 3" using decode_length [OF assms(1)] assms(3) by simp
  obtain oc where "decode_opcode (i_value zp) = Some oc" using assms(1) by (auto simp: decode_def split: option.splits)
  with decode_accepted [OF assms(3), of addr] assms(1,2) have tab: "ent \<in> set instrTable" by auto
  then have ok: "format_ok ent" using formats_ok assms(4) by (auto simp: list_all_iff)
  have ao: "args_ok (ii_srcs ent) (i_args dp)"
    using decoded_args [OF assms(1,2,3) format_okD(3) [OF ok]] by blast
  have ff: "find_format (take NUM_ELEM instrTable) ?L (i_args ip) = Some (ent, int ?n, as)"
    unfolding as_def by (rule find_printed_format [OF tab assms(4) ok dl assms(5)])
  define ip1 where "ip1 = ip\<lparr>i_info := Some ent, i_args := as\<rparr>"
  have "\<forall>i \<in> set [0, 1, 2]. reg_source (ii_srcs ent ! i) \<longrightarrow> 0 \<le> sint (i_args ip1 ! i) \<and> sint (i_args ip1 ! i) \<le> 31"
    using ao format_okD(3) [OF ok] asn by (auto simp: args_ok_def ip1_def reg_source_def)
  from copy_args_ok [OF this format_ok_sources(2) [OF ok], of 0] format_ok_sources(1) [OF ok]
  obtain ip2 where c: "copy_args [0, 1, 2] (ii_srcs ent) 0 ip1 = Some (int ?n, ip2)" "i_args ip2 = as" "i_info ip2 = Some ent"
    "\<forall>i \<in> set [0, 1, 2]. ii_srcs ent ! i = EXTRA \<longrightarrow> i_extra ip2 = as ! i"
    by (auto simp: ip1_def simp del: copy_args.simps filter.simps)
  have "i_extra ip2 = i_args dp ! i" if "i < 3" "ii_srcs ent ! i = EXTRA" for i
    using c(4) asn [OF that(1)] that by (auto simp: less_Suc_eq numeral_3_eq_3 numeral_2_eq_2)
  moreover have "assemble_line ?L addr ip = encode ip2 addr"
    using printed_syntax [OF ok dl] c(1,2)
    unfolding assemble_line_def ff by (simp add: ip1_def [symmetric] Let_def del: copy_args.simps)
  ultimately show ?thesis using c(2,3) asn by (intro exI [of _ ip2]) (simp add: as_def)
qed

lemma reassemble_line:
  assumes "decode zp addr = Some (True, dp)" "i_info dp = Some ent" "length (i_args zp) = 3" "ii_type ent \<noteq> NTYP"
    "\<not> isBranch ent" "reencodable ent addr (i_value zp)" "length (i_args ip) = 3"
    "\<And>i. i < 3 \<Longrightarrow> ii_srcs ent ! i = NSRC \<Longrightarrow> i_args ip ! i = 0"
  shows "\<exists>ip'. assemble_line (printf (ii_format ent) (i_args dp) @ [CHR 0x0A]) addr ip = Some (True, ip')
    \<and> i_value ip' = i_value zp AND used_bits ent \<and> i_args ip' = i_args dp"
proof -
  obtain ip2 where a: "assemble_line (printf (ii_format ent) (i_args dp) @ [CHR 0x0A]) addr ip = encode ip2 addr" "i_info ip2 = Some ent"
    "length (i_args ip2) = 3" "\<forall>i < 3. i_args ip2 ! i = (if ii_srcs ent ! i = NSRC then i_args ip ! i else i_args dp ! i)"
    "\<forall>i < 3. ii_srcs ent ! i = EXTRA \<longrightarrow> i_extra ip2 = i_args dp ! i"
    using assemble_printed_line [OF assms(1,2,3,4,7)] by blast
  obtain oc where "decode_opcode (i_value zp) = Some oc" using assms(1) by (auto simp: decode_def split: option.splits)
  with decode_accepted [OF assms(3), of addr] assms(1,2,4) have "format_ok ent"
    using formats_ok by (auto simp: list_all_iff)
  then have ao: "args_ok (ii_srcs ent) (i_args dp)" "length (ii_srcs ent) = 3"
    using decoded_args [OF assms(1,2,3)] format_okD(3) by blast+
  have "i_args ip2 = i_args dp"
  proof (rule nth_equalityI)
    show "length (i_args ip2) = length (i_args dp)" using ao a(3) by (simp add: args_ok_def)
    fix i assume "i < length (i_args ip2)"
    then have i: "i < 3" using a(3) by simp
    show "i_args ip2 ! i = i_args dp ! i"
    proof (cases "ii_srcs ent ! i = NSRC")
      case True
      then show ?thesis using a(4) i assms(8) [OF i True] ao by (simp add: args_ok_def)
    qed (use a(4) i in simp)
  qed
  moreover have "\<forall>i < 3. ii_srcs ent ! i = EXTRA \<longrightarrow> i_extra ip2 = extra_expected ent addr (i_args dp ! i)"
    using a(5) assms(5) by (simp add: extra_expected_def)
  ultimately have "encode ip2 addr = Some (True, ip2\<lparr>i_value := i_value zp AND used_bits ent\<rparr>)"
    by (intro encode_decoded [OF assms(1,2,4,3,6) a(2)])
  then show ?thesis using a(1) \<open>i_args ip2 = i_args dp\<close> by simp
qed

lemma fgets_line:
  assumes "CHR 0x0A \<notin> set p" "length p \<le> 28"
  shows "fgets 30 (p @ [CHR 0x0A] @ rest) = Some (p @ [CHR 0x0A], rest)"
proof -
  have "takeWhile (\<lambda>c. c \<noteq> CHR 0x0A) (p @ [CHR 0x0A] @ rest) = p"
    using assms(1) by (simp add: takeWhile_append)
  then show ?thesis using assms(2) by (simp add: fgets_def Let_def)
qed

section \<open>Disassembling and assembling a program\<close>

text \<open>The bytes of a word in a file of the given byte order.\<close>

definition emit :: "bool \<Rightarrow> i32 \<Rightarrow> u8 list" where
  "emit endi w = put_value (if endi then bigEndian w else w)"

text \<open>Programs that survive the round trip: legal words other than branches, whose operands can be encoded again,
  and no instruction follows one with operands that it does not have itself.\<close>

fun reassemblable :: "u32 \<Rightarrow> i32 list \<Rightarrow> i32 list \<Rightarrow> bool" where
  "reassemblable addr prev [] \<longleftrightarrow> True"
| "reassemblable addr prev (w # ws) \<longleftrightarrow>
    (case decode (zero_instr\<lparr>i_value := w\<rparr>) addr of
       Some (True, dp) \<Rightarrow>
         (let ent = the (i_info dp)
          in ii_type ent \<noteq> NTYP \<and> \<not> isBranch ent \<and> reencodable ent addr w
             \<and> (\<forall>i < 3. ii_srcs ent ! i = NSRC \<longrightarrow> prev ! i = 0) \<and> reassemblable (addr + 4) (i_args dp) ws)
     | _ \<Rightarrow> False)"

text \<open>A word without the bits its instruction does not use.\<close>

definition canonical :: "i32 \<Rightarrow> i32" where
  "canonical w =
    (case Option.bind (decode_opcode w) (\<lambda>oc. lookup_info oc None) of
       Some ent \<Rightarrow> w AND used_bits ent
     | None \<Rightarrow> w)"

lemma put_value_bytes: "put_value w = [byte_of 0 w, byte_of 1 w, byte_of 2 w, byte_of 3 w]"
proof -
  have "ucast (signed_drop_bit (8 * k) w) = byte_of k w" if "k < 4" for k
    by (rule bit_word_eqI) (use that in \<open>auto simp: bit_byte_of bit_simps\<close>)
  from this [of 0] this [of 1] this [of 2] this [of 3] show ?thesis by (simp add: put_value_def)
qed

lemma fread_emit: "fread_word (emit endi w @ rest) = Some (if endi then bigEndian w else w, rest)"
  using be32_bytes [of "if endi then bigEndian w else w"]
  by (simp add: fread_word_def emit_def put_value_bytes eval_nat_numeral)

lemma bigEndian_twice: "bigEndian (bigEndian v) = v"
  by (rule bit_word_eqI) (auto simp: bit_bigEndian)

text \<open>What \<open>decode\<close> finds does not depend on the instruction before.\<close>

lemma decode_again:
  assumes "decode zp addr = Some (True, dp)" "i_info dp = Some ent" "length (i_args zp) = 3" "length (i_args jp) = 3"
    "i_value jp = i_value zp"
  shows "(\<exists>dp'. decode jp addr = Some (True, dp') \<and> i_info dp' = Some ent \<and> i_args dp' = i_args dp)
    \<and> canonical (i_value zp) = i_value zp AND used_bits ent"
proof -
  obtain oc where oc: "decode_opcode (i_value zp) = Some oc" using assms(1) by (auto simp: decode_def split: option.splits)
  from decode_accepted [OF assms(3), of addr] assms(1,2) oc have e: "ent \<in> set instrTable" "ii_opcode ent = oc"
    and f: "\<And>i. i < 3 \<Longrightarrow> decode_field ent addr (ii_srcs ent ! i) (i_value zp) = Some (i_args dp ! i)" by auto
  from decode_accepted [OF assms(4), of addr] oc assms(5) obtain ent' dp' where d: "decode jp addr = Some (True, dp')"
    "ent' \<in> set instrTable" "ii_opcode ent' = oc" "i_info dp' = Some ent'"
    and f': "\<And>i. i < 3 \<Longrightarrow> decode_field ent' addr (ii_srcs ent' ! i) (i_value zp) = Some (i_args dp' ! i)" by auto
  have "oc \<noteq> ILLEGL" using decode_opcode_Some [OF oc] by blast
  then have l: "lookup_info oc old = Some ent" "lookup_info oc old = Some ent'" for old
    using lookup_info_entry [OF e(1)] lookup_info_entry [OF d(2)] e(2) d(3) by auto
  then have "ent' = ent" by simp
  moreover have "i_args dp' = i_args dp"
  proof (rule nth_equalityI)
    show "length (i_args dp') = length (i_args dp)" using decode_length [OF d(1)] decode_length [OF assms(1)] assms(3,4) by simp
    fix i assume "i < length (i_args dp')"
    then have "i < 3" using decode_length [OF d(1)] assms(4) by simp
    then show "i_args dp' ! i = i_args dp ! i" using f f' \<open>ent' = ent\<close> by force
  qed
  ultimately show ?thesis using d oc l by (auto simp: canonical_def)
qed

lemma reassemble:
  assumes "length (i_args jp) = 3" "length (i_args ip) = 3" "reassemblable addr (i_args ip) ws"
  shows "\<exists>asm. disassemble endi addr jp (concat (map (emit endi) ws)) = Some (asm, True)
    \<and> assemble endi addr ip asm = Some (concat (map (\<lambda>w. emit endi (canonical w)) ws), True)"
  using assms
proof (induction ws arbitrary: addr ip jp)
  case Nil
  then show ?case by (subst disassemble.simps, subst assemble.simps) (simp add: fread_word_def fgets_def)
next
  case (Cons w ws)
  define zp where "zp = zero_instr\<lparr>i_value := w\<rparr>"
  have zl: "length (i_args zp) = 3" "i_value zp = w" by (simp_all add: zp_def zero_instr_def)
  obtain dp where d: "decode zp addr = Some (True, dp)"
    using Cons.prems(3) by (auto simp: zp_def [symmetric] split: option.splits prod.splits bool.splits)
  obtain oc where "decode_opcode (i_value zp) = Some oc" using d by (auto simp: decode_def split: option.splits)
  with decode_accepted [OF zl(1), of addr] d obtain ent where ent: "i_info dp = Some ent" "ent \<in> set instrTable" by auto
  have r: "ii_type ent \<noteq> NTYP" "\<not> isBranch ent" "reencodable ent addr w" "\<And>i. i < 3 \<Longrightarrow> ii_srcs ent ! i = NSRC \<Longrightarrow> i_args ip ! i = 0"
    "reassemblable (addr + 4) (i_args dp) ws"
    using Cons.prems(3) d ent by (simp_all add: zp_def [symmetric] Let_def)
  define L where "L = printf (ii_format ent) (i_args dp)"
  have dl: "length (i_args dp) = 3" using decode_length [OF d] zl(1) by simp
  have ok: "format_ok ent" using formats_ok ent(2) r(1) by (auto simp: list_all_iff)
  have ao: "args_ok (ii_srcs ent) (i_args dp)" using decoded_args [OF d ent(1) zl(1) format_okD(3) [OF ok]] by blast
  define jp1 where "jp1 = jp\<lparr>i_value := w\<rparr>"
  obtain dp' where d': "decode jp1 addr = Some (True, dp')" "i_info dp' = Some ent" "i_args dp' = i_args dp" "canonical w = w AND used_bits ent"
    using decode_again [OF d ent(1) zl(1), of jp1] Cons.prems(1) zl(2) by (auto simp: jp1_def)
  obtain ip' where a: "assemble_line (L @ [CHR 0x0A]) addr ip = Some (True, ip')" "i_value ip' = canonical w" "i_args ip' = i_args dp"
    using reassemble_line [OF d ent(1) zl(1) r(1,2) r(3) [folded zl(2)] Cons.prems(2) r(4)]
    unfolding L_def [symmetric] zl(2) d'(4) [symmetric] by blast
  define ip'' where "ip'' = ip'\<lparr>i_value := signed_drop_bit 32 (if endi then bigEndian (i_value ip') else i_value ip')\<rparr>"
  have i: "length (i_args dp') = 3" "length (i_args ip'') = 3" "reassemblable (addr + 4) (i_args ip'') ws"
    using dl d'(3) a(3) r(5) by (simp_all add: ip''_def)
  obtain asm where asm: "disassemble endi (addr + 4) dp' (concat (map (emit endi) ws)) = Some (asm, True)"
    "assemble endi (addr + 4) ip'' asm = Some (concat (map (\<lambda>w. emit endi (canonical w)) ws), True)"
    using Cons.IH [OF i] by blast
  have nl: "CHR 0x0A \<notin> set L" "CHR 0x00 \<notin> set L" using print_no_newline [OF ok dl] by (simp_all add: L_def)
  have "length L \<le> 28"
    unfolding L_def printf_def using length_print [OF ao, of "directives (ii_format ent)"] format_okD(2,3,4) [OF ok] by simp
  note g = fgets_line [OF nl(1) this, of asm]
  have c: "c_string (L @ [CHR 0x0A]) = L @ [CHR 0x0A]" using nl(2) by (auto simp: c_string_def takeWhile_eq_all_conv)
  have w: "(if endi then bigEndian (if endi then bigEndian w else w) else (if endi then bigEndian w else w)) = w"
    by (simp add: bigEndian_twice)
  have "disassemble endi addr jp (concat (map (emit endi) (w # ws))) = Some (L @ [CHR 0x0A] @ asm, True)"
    by (subst disassemble.simps) (simp add: fread_emit w bigEndian_twice jp1_def [symmetric] d' asm(1) L_def cong: if_cong)
  moreover have "assemble endi addr ip (L @ [CHR 0x0A] @ asm) = Some (concat (map (\<lambda>w. emit endi (canonical w)) (w # ws)), True)"
    by (subst assemble.simps) (simp only: g option.case prod.case c a(1) bind.bind_lunit not_True_eq_False if_False Let_def ip''_def [symmetric] asm(2),
        simp add: emit_def a(2))
  ultimately show ?case by blast
qed

lemma to_chars_bytes: "to_chars (to_bytes s) = s"
proof -
  have "unat (of_nat (ord c) :: u8) = ord c" for c
    using nat_of_char_less_256 [of c] by (simp add: ord_def unsigned_of_nat take_bit_nat_eq_self)
  then show ?thesis by (induction s) (simp_all add: to_chars_def to_bytes_def ord_def)
qed

text \<open>
  C4. The assembler is the inverse of the disassembler, up to unused bits, on the programs that avoid its faults. For a file
  of any number of words that are \<open>reassemblable\<close>, in either byte order and at any base address, the disassembler succeeds, and the
  assembler, run with the same options on what it printed, succeeds and writes the canonical words: each word without the bits that its
  instruction does not use. Reassemblable words have a legal opcode other than \<open>OP_UNIMP\<close>, are no branches, no \<open>break\<close> whose
  bit 25 is set and no jumps at the end of a 256 MB region, and find no nonzero operand left over from the
  instruction before in a place that they do not use.
\<close>

theorem assembler_inverts_disassembler:
  assumes "validargs dv = (True, od)" "od AND 0x1 = 0" "drop_bit 1 od AND 0x1 \<noteq> 0"
    and "validargs av = (True, oa)" "oa AND 0x1 = 0" "drop_bit 1 oa AND 0x1 = 0"
    and "od AND 0xFFFFF000 = oa AND 0xFFFFF000" "drop_bit 2 od AND 0x1 = drop_bit 2 oa AND 0x1"
    and "reassemblable (od AND 0xFFFFF000) [0, 0, 0] ws"
  shows "\<exists>asm. mips_main usage dv (concat (map (emit (drop_bit 2 od AND 0x1 \<noteq> 0)) ws)) = Some (asm, True)
    \<and> mips_main usage av asm = Some (concat (map (\<lambda>w. emit (drop_bit 2 od AND 0x1 \<noteq> 0) (canonical w)) ws), True)"
proof -
  define endi where "endi = (drop_bit 2 od AND 0x1 \<noteq> 0)"
  have z: "length (i_args zero_instr) = 3" "i_args zero_instr = [0, 0, 0]" by (simp_all add: zero_instr_def)
  have r: "reassemblable (od AND 0xFFFFF000) (i_args zero_instr) ws" using assms(9) z(2) by simp
  obtain asm where "disassemble endi (od AND 0xFFFFF000) zero_instr (concat (map (emit endi) ws)) = Some (asm, True)"
    "assemble endi (od AND 0xFFFFF000) zero_instr asm = Some (concat (map (\<lambda>w. emit endi (canonical w)) ws), True)"
    using reassemble [OF z(1) z(1) r, of endi] by blast
  then have "mips_main usage dv (concat (map (emit endi) ws)) = Some (to_bytes asm, True)"
    "mips_main usage av (to_bytes asm) = Some (concat (map (\<lambda>w. emit endi (canonical w)) ws), True)"
    using assms(1-8) by (simp_all add: mips_main_def endi_def to_chars_bytes Let_def)
  then show ?thesis unfolding endi_def by blast
qed

theorem assembler_inverts_disassembler_witness:
  "\<exists>asm. mips_main [0x55] [''hw1'', ''-d'', ''-e'', ''b''] (concat (map (emit True) [0x00221820, 0x8CC70050])) = Some (asm, True)
    \<and> mips_main [0x55] [''hw1'', ''-a'', ''-e'', ''b''] asm = Some (concat (map (\<lambda>w. emit True (canonical w)) [0x00221820, 0x8CC70050]), True)"
proof -
  have v: "validargs [''hw1'', ''-d'', ''-e'', ''b''] = (True, 6)" "validargs [''hw1'', ''-a'', ''-e'', ''b''] = (True, 4)"
    by (simp_all add: validargs_def validargs_d_def validargs_a_def Let_def)
  have r: "reassemblable (6 AND 0xFFFFF000) [0, 0, 0] [0x00221820, 0x8CC70050]" by code_simp
  have e: "(drop_bit 2 (6 :: u32) AND 0x1 \<noteq> 0) = True" by simp
  show ?thesis using assembler_inverts_disassembler [OF v(1) _ _ v(2) _ _ _ _ r, of "[0x55]"] unfolding e by simp
qed

text \<open>
  C38. The two faults. The arguments of an instruction live on in the structure that \<open>main\<close> uses for all lines, and
  \<open>encode\<close> rejects an instruction that has an argument too many: a line with fewer operands than the one before, such
  as \<open>jr $31\<close> or \<open>syscall\<close>, is rejected unless the leftover operands are 0. For a branch \<open>main\<close> stores the target
  as \<open>extra\<close>, while \<open>encode\<close> expects the offset there: every branch whose target is not its own offset is rejected. In both cases
  this happens to lines that the disassembler has printed.
\<close>

theorem printed_line_rejected:
  assumes "decode zp addr = Some (True, dp)" "i_info dp = Some ent" "length (i_args zp) = 3" "ii_type ent \<noteq> NTYP" "length (i_args ip) = 3" "i < 3"
    and "ii_srcs ent ! i = NSRC \<and> i_args ip ! i \<noteq> 0
      \<or> ii_srcs ent ! i = EXTRA \<and> ii_type ent = ITYP \<and> isBranch ent \<and> signed_drop_bit 2 (i_args dp ! i - (addr + 4)) \<noteq> i_args dp ! i"
  shows "\<exists>ip'. assemble_line (printf (ii_format ent) (i_args dp) @ [CHR 0x0A]) addr ip = Some (False, ip')"
proof -
  obtain ip2 where a: "assemble_line (printf (ii_format ent) (i_args dp) @ [CHR 0x0A]) addr ip = encode ip2 addr" "i_info ip2 = Some ent"
    "\<forall>i < 3. i_args ip2 ! i = (if ii_srcs ent ! i = NSRC then i_args ip ! i else i_args dp ! i)"
    "\<forall>i < 3. ii_srcs ent ! i = EXTRA \<longrightarrow> i_extra ip2 = i_args dp ! i"
    using assemble_printed_line [OF assms(1-5)] by blast
  have nb: "ii_opcode ent \<noteq> OP_BREAK" if "isBranch ent" using that by (auto simp: isBranch_def)
  have f: "encode_field ent ip2 addr (ii_srcs ent ! i) (i_args ip2 ! i) = None"
    using assms(6,7) a(3,4) nb by (auto simp: encode_field_def encode_extra_def Let_def)
  have "encode ip2 addr \<noteq> Some (True, ip')" for ip'
  proof
    assume "encode ip2 addr = Some (True, ip')"
    then obtain c w0 w1 w2 where "encode_field ent ip2 addr (ii_srcs ent ! 0) (i_args ip2 ! 0) = Some w0"
      "encode_field ent ip2 addr (ii_srcs ent ! 1) (i_args ip2 ! 1) = Some w1"
      "encode_field ent ip2 addr (ii_srcs ent ! 2) (i_args ip2 ! 2) = Some w2"
      unfolding encode_success [OF a(2) assms(4)] by blast
    then show False using f assms(6) by (auto simp: less_Suc_eq numeral_3_eq_3 numeral_2_eq_2)
  qed
  moreover have "encode ip2 addr \<noteq> None" using a(2) by (simp add: encode_def)
  ultimately obtain b ip' where "encode ip2 addr = Some (b, ip')" "b \<noteq> True" by (cases "encode ip2 addr") auto
  then show ?thesis unfolding a(1) by simp
qed

theorem printed_line_rejected_witness:
  "\<exists>line ip'. assemble_line (line @ [CHR 0x0A]) 0 (zero_instr\<lparr>i_args := [4, 5, 6]\<rparr>) = Some (False, ip')
    \<and> (\<exists>dp ent. decode (zero_instr\<lparr>i_value := 0x03E00008\<rparr>) 0 = Some (True, dp) \<and> i_info dp = Some ent \<and> line = printf (ii_format ent) (i_args dp))"
proof -
  let ?zp = "zero_instr\<lparr>i_value := 0x03E00008\<rparr>"
  have "case decode ?zp 0 of
      Some (True, dp) \<Rightarrow> (case i_info dp of Some ent \<Rightarrow> ii_type ent \<noteq> NTYP \<and> ii_srcs ent ! 1 = NSRC | None \<Rightarrow> False)
    | _ \<Rightarrow> False"
    by code_simp
  then obtain dp ent where d: "decode ?zp 0 = Some (True, dp)" "i_info dp = Some ent" "ii_type ent \<noteq> NTYP" "ii_srcs ent ! 1 = NSRC"
    by (auto split: option.splits prod.splits bool.splits)
  have "\<exists>ip'. assemble_line (printf (ii_format ent) (i_args dp) @ [CHR 0x0A]) 0 (zero_instr\<lparr>i_args := [4, 5, 6]\<rparr>) = Some (False, ip')"
    by (rule printed_line_rejected [OF d(1,2) _ d(3), of _ 1]) (use d(4) in \<open>simp_all add: zero_instr_def\<close>)
  with d(1,2) show ?thesis by blast
qed

end
