(* ===== verification/Grades_Db.thy ===== *)
theory Grades_Db
  imports C_Prelude Complex_Main
begin

text \<open>
  The database of the grades program (\<open>grades/include/gradedb.h\<close> and \<open>stats.h\<close>). Students
  live in a store indexed by address, because the section rosters (\<open>next\<close>) and the course
  roster (\<open>cnext\<close>) are two chains through the same objects that the code relinks in place.
  The assignments, the sections, the scores of a student and the frequency buckets are
  chains that nothing shares: they are lists, and a pointer to an assignment, a section or a
  statistics block is its position in its list. A \<open>float\<close> or \<open>double\<close> is a real number
  (no rounding, no NaN).
\<close>

section \<open>The records of gradedb.h\<close>

datatype Gflag = VALID | INVALID
datatype Gsubst = USERAW | USENORM | USELIKEAVG | USECLASSAVG
datatype Wpolicy = NOWEIGHT | WEIGHT
datatype Npolicy = RAW | LINEAR | QUANTILE | SCALE
datatype Ngroup = BYCLASS | BYSECTION

type_synonym addr = nat

record Professor =
  pr_surname :: cstring
  pr_name :: cstring

record Assistant =
  at_surname :: cstring
  at_name :: cstring

record Score =
  sc_asgt :: nat
  sc_grade :: real
  sc_qnorm :: real
  sc_lnorm :: real
  sc_snorm :: real
  sc_flag :: Gflag
  sc_code :: cstring
  sc_subst :: Gsubst
  sc_cstats :: "nat option"
  sc_sstats :: "(nat \<times> nat) option"

record Student =
  st_id :: cstring
  st_surname :: cstring
  st_name :: cstring
  st_rawscores :: "Score list"
  st_normscores :: "Score list"
  st_composite :: real
  st_section :: nat
  st_next :: "addr option"
  st_cnext :: "addr option"

record Section =
  se_name :: cstring
  se_assistant :: "Assistant option"
  se_roster :: "addr option"

record Assignment =
  as_name :: cstring
  as_atype :: cstring
  as_wpolicy :: Wpolicy
  as_weight :: real
  as_npolicy :: Npolicy
  as_max :: real
  as_mean :: real
  as_stddev :: real
  as_scale :: real
  as_ngroup :: Ngroup

record Course =
  co_number :: cstring
  co_title :: cstring
  co_professor :: "Professor option"
  co_assignments :: "Assignment list"
  co_sections :: "Section list"
  co_roster :: "addr option"

type_synonym heap = "addr \<Rightarrow> Student"

section \<open>strcmp\<close>

fun strcmp :: "cstring \<Rightarrow> cstring \<Rightarrow> int" where
  "strcmp [] [] = 0"
| "strcmp [] (y # ys) = -1"
| "strcmp (x # xs) [] = 1"
| "strcmp (x # xs) (y # ys) =
    (if ord x < ord y then -1 else if ord y < ord x then 1 else strcmp xs ys)"

section \<open>Comparison functions in the style of strcmp\<close>

text \<open>
  What the sorting code relies on: the sign of the comparison flips with its arguments and
  \<open>\<le>\<close> is transitive. Two different objects may compare equal.
\<close>

locale comparator =
  fixes cmp :: "'a \<Rightarrow> 'a \<Rightarrow> int"
  assumes flip: "0 < cmp a b \<longleftrightarrow> cmp b a < 0"
    and trans: "cmp a b \<le> 0 \<Longrightarrow> cmp b c \<le> 0 \<Longrightarrow> cmp a c \<le> 0"
begin

lemma cmp_refl [simp]: "cmp a a = 0"
  using flip [of a a] by linarith

lemma cmp_sym: "cmp a b = 0 \<Longrightarrow> cmp b a = 0"
  using flip [of a b] flip [of b a] by linarith

lemma cmp_total: "cmp a b \<le> 0 \<or> cmp b a \<le> 0"
  using flip [of a b] by linarith

lemma cmp_ge: "0 \<le> cmp a b \<longleftrightarrow> cmp b a \<le> 0"
  using flip [of b a] by linarith

lemma less_trans: "cmp a b < 0 \<Longrightarrow> cmp b c \<le> 0 \<Longrightarrow> cmp a c < 0"
  using trans [of b c a] flip [of c a] flip [of b a] trans [of a b c] by fastforce

end

text \<open>Comparing by one key and then by another, as \<open>comparename\<close> does.\<close>

lemma comparator_lex:
  assumes f: "comparator f" and g: "comparator g"
  shows "comparator (\<lambda>a b. let c = f a b in if c \<noteq> 0 then c else g a b)"
proof -
  note f_flip = comparator.flip [OF f] and g_flip = comparator.flip [OF g]
  note f_trans = comparator.trans [OF f] and g_trans = comparator.trans [OF g]
  note f_sym = comparator.cmp_sym [OF f]
  show ?thesis
  proof
    fix a b
    show "0 < (let c = f a b in if c \<noteq> 0 then c else g a b) \<longleftrightarrow>
        (let c = f b a in if c \<noteq> 0 then c else g b a) < 0"
      using f_flip [of a b] g_flip [of a b] f_sym [of a b] f_sym [of b a] by (auto simp: Let_def)
  next
    fix a b c
    assume ab: "(let c = f a b in if c \<noteq> 0 then c else g a b) \<le> 0"
      and bc: "(let d = f b c in if d \<noteq> 0 then d else g b c) \<le> 0"
    then have le: "f a b \<le> 0" "f b c \<le> 0" by (auto simp: Let_def split: if_splits)
    then have ac: "f a c \<le> 0" by (rule f_trans)
    show "(let d = f a c in if d \<noteq> 0 then d else g a c) \<le> 0"
    proof (cases "f a c = 0")
      case True
      then have "f c a \<le> 0" using f_sym [of a c] by simp
      then have "f b a \<le> 0" "f c b \<le> 0" using le f_trans by blast+
      then have "f a b = 0" "f b c = 0" using le f_flip [of b a] f_flip [of c b] f_flip [of a b] f_flip [of b c]
        by linarith+
      with ab bc True show ?thesis using g_trans [of a b c] by simp
    qed (use ac in simp)
  qed
qed

lemma comparator_on:
  assumes "comparator f"
  shows "comparator (\<lambda>a b. f (key a) (key b))"
  using assms by (simp add: comparator_def)

lemma strcmp_flip: "0 < strcmp s t \<longleftrightarrow> strcmp t s < 0"
  by (induction s t rule: strcmp.induct) auto

lemma strcmp_trans: "strcmp s t \<le> 0 \<Longrightarrow> strcmp t u \<le> 0 \<Longrightarrow> strcmp s u \<le> 0"
proof (induction s arbitrary: t u)
  case Nil
  then show ?case by (cases u) simp_all
next
  case (Cons x xs)
  then obtain y ys z zs where t: "t = y # ys" and u: "u = z # zs"
    by (cases t; cases u) simp_all
  with Cons.prems have "ord x \<le> ord y" "ord y \<le> ord z" by (simp_all split: if_splits)
  with Cons t u show ?case
    by (cases "ord x = ord y"; cases "ord y = ord z") (auto dest: Cons.IH split: if_splits)
qed

interpretation str: comparator strcmp
  by (rule comparator.intro) (rule strcmp_flip, rule strcmp_trans)

lemma strcmp_0 [simp]: "strcmp s t = 0 \<longleftrightarrow> s = t"
  by (induction s t rule: strcmp.induct) (auto simp: less_le)

section \<open>Chains of students\<close>

text \<open>The chain from \<open>p\<close> along a link field: the students it visits, up to \<open>NULL\<close>.\<close>

fun chain :: "(Student \<Rightarrow> addr option) \<Rightarrow> heap \<Rightarrow> addr option \<Rightarrow> addr list \<Rightarrow> bool" where
  "chain nxt h p [] \<longleftrightarrow> p = None"
| "chain nxt h p (a # as) \<longleftrightarrow> p = Some a \<and> chain nxt h (nxt (h a)) as"

lemma chain_unique: "chain nxt h p xs \<Longrightarrow> chain nxt h p ys \<Longrightarrow> xs = ys"
  by (induction xs arbitrary: p ys) (case_tac ys; auto)+

lemma chain_append:
  "chain nxt h p (xs @ ys) \<Longrightarrow> \<exists>q. chain nxt h q ys"
  by (induction xs arbitrary: p) auto

lemma chain_distinct: "chain nxt h p xs \<Longrightarrow> distinct xs"
proof (rule ccontr)
  assume c: "chain nxt h p xs" and "\<not> distinct xs"
  then obtain us a vs ws where x: "xs = us @ [a] @ vs @ [a] @ ws" by (metis not_distinct_decomp)
  with c obtain q where q: "chain nxt h q (a # vs @ a # ws)"
    using chain_append [of nxt h p us "a # vs @ a # ws"] by (metis append_Cons append_Nil)
  then have "\<exists>r. chain nxt h r (a # ws)"
    using chain_append [of nxt h q "a # vs" "a # ws"] by simp
  with q have "chain nxt h (Some a) (a # vs @ a # ws)" "chain nxt h (Some a) (a # ws)" by auto
  then show False by (auto dest: chain_unique)
qed

lemma chain_cong:
  assumes "\<And>a. a \<in> set xs \<Longrightarrow> nxt (h a) = nxt (h' a)"
  shows "chain nxt h p xs \<longleftrightarrow> chain nxt h' p xs"
  using assms by (induction xs arbitrary: p) auto

end
