(* ===== verification/Grades_Sort.thy ===== *)
theory Grades_Sort
  imports Grades_Db "HOL-Library.Multiset"
begin

text \<open>
  The roster sorting of the grades program (\<open>grades/src/sort.c\<close>): the quicksort on a table
  of student pointers with its alternating treatment of ties, the relinking of a roster in
  sorted order and the duplicate check. \<open>sorttable\<close> recurses on a range that need not
  shrink, so it is a partial function whose value is \<open>None\<close> when the recursion does not end;
  for a comparison that is a total preorder it is shown to end.
\<close>

section \<open>The quicksort\<close>

function partition_loop ::
  "('a \<Rightarrow> 'a \<Rightarrow> int) \<Rightarrow> 'a \<Rightarrow> 'a list \<Rightarrow> nat \<Rightarrow> nat \<Rightarrow> int \<Rightarrow> 'a list \<times> nat" where
  "partition_loop compare pivot stab l h alt =
    (if l < h then
       let c0 = compare (stab ! l) pivot;
           c = (if c0 = 0 then alt else c0);
           alt' = (if c0 = 0 then - alt else alt)
       in if c > 0
          then partition_loop compare pivot (stab[h - 1 := stab ! l, l := stab ! (h - 1)]) l (h - 1) alt'
          else partition_loop compare pivot stab (l + 1) h alt'
     else (stab, l))"
  by pat_completeness auto
termination by (relation "measure (\<lambda>(c, p, s, l, h, a). h - l)") auto

declare partition_loop.simps [simp del]

definition partition_c :: "('a \<Rightarrow> 'a \<Rightarrow> int) \<Rightarrow> 'a list \<Rightarrow> nat \<Rightarrow> nat \<Rightarrow> 'a list \<times> nat" where
  "partition_c compare stab low high =
    partition_loop compare (stab ! ((low + high) div 2)) stab low high 1"

partial_function (option) sorttable ::
  "('a \<Rightarrow> 'a \<Rightarrow> int) \<Rightarrow> 'a list \<Rightarrow> nat \<Rightarrow> nat \<Rightarrow> 'a list option" where
  "sorttable compare stab low high =
    (if low = high then Some stab
     else let (stab1, middle) = partition_c compare stab low high in
       if low + 1 = high then Some stab1
       else Option.bind (sorttable compare stab1 low middle)
              (\<lambda>stab2. sorttable compare stab2 middle high))"

section \<open>Rosters\<close>

definition getnext :: "heap \<Rightarrow> addr option \<Rightarrow> addr option" where
  "getnext h s = st_next (h (the s))"

definition getcnext :: "heap \<Rightarrow> addr option \<Rightarrow> addr option" where
  "getcnext h s = st_cnext (h (the s))"

definition setnext :: "heap \<Rightarrow> addr option \<Rightarrow> addr option \<Rightarrow> heap" where
  "setnext h s n = h(the s := (h (the s))\<lparr>st_next := n\<rparr>)"

definition setcnext :: "heap \<Rightarrow> addr option \<Rightarrow> addr option \<Rightarrow> heap" where
  "setcnext h s n = h(the s := (h (the s))\<lparr>st_cnext := n\<rparr>)"

partial_function (option) count_students ::
  "(addr option \<Rightarrow> addr option) \<Rightarrow> addr option \<Rightarrow> nat option" where
  "count_students gtnxt sp =
    (if sp \<noteq> None then Option.bind (count_students gtnxt (gtnxt sp)) (\<lambda>n. Some (n + 1))
     else Some 0)"

fun fill_table :: "(addr option \<Rightarrow> addr option) \<Rightarrow> nat \<Rightarrow> addr option \<Rightarrow> addr option list
    \<Rightarrow> addr option list" where
  "fill_table gtnxt 0 sp stab = stab"
| "fill_table gtnxt (Suc i) sp stab = fill_table gtnxt i (gtnxt sp) (stab[i := sp])"

fun relink :: "(heap \<Rightarrow> addr option \<Rightarrow> addr option \<Rightarrow> heap) \<Rightarrow> heap \<Rightarrow> addr option
    \<Rightarrow> addr option list \<Rightarrow> heap" where
  "relink stnxt h sp [] = stnxt h sp None"
| "relink stnxt h sp (q # qs) = relink stnxt (stnxt h sp q) q qs"

definition sortroster :: "heap \<Rightarrow> addr option \<Rightarrow> (heap \<Rightarrow> addr option \<Rightarrow> addr option)
    \<Rightarrow> (heap \<Rightarrow> addr option \<Rightarrow> addr option \<Rightarrow> heap) \<Rightarrow> (Student \<Rightarrow> Student \<Rightarrow> int)
    \<Rightarrow> (heap \<times> addr option) option" where
  "sortroster h s gtnxt stnxt compare =
    Option.bind (count_students (gtnxt h) s) (\<lambda>count.
      if count = 0 then Some (h, None)
      else let stab = fill_table (gtnxt h) count s (replicate count None) in
        Option.bind (sorttable (\<lambda>p q. compare (h (the p)) (h (the q))) stab 0 count) (\<lambda>stab.
          Some (relink stnxt h (stab ! 0) (tl stab), stab ! 0)))"

fun sort_sections :: "heap \<Rightarrow> Section list \<Rightarrow> (Student \<Rightarrow> Student \<Rightarrow> int)
    \<Rightarrow> (heap \<times> Section list) option" where
  "sort_sections h [] compare = Some (h, [])"
| "sort_sections h (s # ss) compare =
    Option.bind (sortroster h (se_roster s) getnext setnext compare) (\<lambda>(h, r).
      Option.bind (sort_sections h ss compare) (\<lambda>(h, ss).
        Some (h, s\<lparr>se_roster := r\<rparr> # ss)))"

definition sortrosters :: "heap \<Rightarrow> Course \<Rightarrow> (Student \<Rightarrow> Student \<Rightarrow> int) \<Rightarrow> (heap \<times> Course) option" where
  "sortrosters h c compare =
    Option.bind (sortroster h (co_roster c) getcnext setcnext compare) (\<lambda>(h, r).
      Option.bind (sort_sections h (co_sections c) compare) (\<lambda>(h, ss).
        Some (h, c\<lparr>co_roster := r, co_sections := ss\<rparr>)))"

definition comparename :: "Student \<Rightarrow> Student \<Rightarrow> int" where
  "comparename s1 s2 =
    (let c = strcmp (st_surname s1) (st_surname s2) in
     if c \<noteq> 0 then c else strcmp (st_name s1) (st_name s2))"

definition compareid :: "Student \<Rightarrow> Student \<Rightarrow> int" where
  "compareid s1 s2 = strcmp (st_id s1) (st_id s2)"

definition comparescore :: "Student \<Rightarrow> Student \<Rightarrow> int" where
  "comparescore s1 s2 =
    (if st_composite s1 > st_composite s2 then -1
     else if st_composite s1 < st_composite s2 then 1 else 0)"

text \<open>\<open>checkfordups\<close> returns the students it warns about, in the order of the warnings.\<close>

partial_function (option) checkfordups :: "heap \<Rightarrow> addr option \<Rightarrow> addr list option" where
  "checkfordups h sp =
    (if sp \<noteq> None \<and> st_cnext (h (the sp)) \<noteq> None then
       Option.bind (checkfordups h (st_cnext (h (the sp)))) (\<lambda>ws.
         Some ((if comparename (h (the sp)) (h (the (st_cnext (h (the sp))))) = 0
                then [the sp] else []) @ ws))
     else Some [])"

section \<open>The comparison functions are comparators\<close>

interpretation byname: comparator comparename
  unfolding comparename_def
  by (rule comparator_lex [OF comparator_on [OF str.comparator_axioms] comparator_on [OF str.comparator_axioms]])

interpretation byid: comparator compareid
  unfolding compareid_def by (rule comparator_on [OF str.comparator_axioms])

interpretation byscore: comparator comparescore
  by unfold_locales (auto simp: comparescore_def split: if_splits)

section \<open>Ranges of a table\<close>

definition seg :: "'a list \<Rightarrow> nat \<Rightarrow> nat \<Rightarrow> 'a multiset" where
  "seg s l h = mset (map ((!) s) [l..<h])"

lemma seg_empty [simp]: "h \<le> l \<Longrightarrow> seg s l h = {#}"
  by (simp add: seg_def)

lemma seg_low: "l < h \<Longrightarrow> seg s l h = add_mset (s ! l) (seg s (l + 1) h)"
  by (simp add: seg_def upt_conv_Cons)

lemma seg_high: "l < h \<Longrightarrow> seg s l h = add_mset (s ! (h - 1)) (seg s l (h - 1))"
  using upt_Suc_append [of l "h - 1"] by (simp add: seg_def)

lemma seg_cong: "(\<And>i. l \<le> i \<Longrightarrow> i < h \<Longrightarrow> s ! i = t ! i) \<Longrightarrow> seg s l h = seg t l h"
  unfolding seg_def by (rule arg_cong [where f = mset]) (auto intro: map_cong)

lemma in_seg: "x \<in># seg s l h \<longleftrightarrow> (\<exists>i. l \<le> i \<and> i < h \<and> x = s ! i)"
  by (auto simp: seg_def)

lemma seg_all: "seg s 0 (length s) = mset s"
  by (simp add: seg_def map_nth)

lemma seg_split: "l \<le> m \<Longrightarrow> m \<le> h \<Longrightarrow> seg s l h = seg s l m + seg s m h"
  unfolding seg_def by (metis le_add_diff_inverse map_append mset_append upt_add_eq_append)

lemma size_filter_seg: "size (filter_mset P (seg s l h)) = card {i. l \<le> i \<and> i < h \<and> P (s ! i)}"
proof -
  have "size (filter_mset P (seg s l h)) = length (filter (\<lambda>i. P (s ! i)) [l..<h])"
    by (simp add: seg_def mset_filter [symmetric] filter_map comp_def del: mset_map mset_filter mset_upt)
  also have "\<dots> = card (set (filter (\<lambda>i. P (s ! i)) [l..<h]))"
    by (simp only: distinct_card [OF distinct_filter [OF distinct_upt]])
  also have "set (filter (\<lambda>i. P (s ! i)) [l..<h]) = {i. l \<le> i \<and> i < h \<and> P (s ! i)}" by auto
  finally show ?thesis .
qed

lemma seg_swap:
  assumes "l < h" "h \<le> length s"
  shows "seg s l h = add_mset (s ! l) (seg (s[h - 1 := s ! l, l := s ! (h - 1)]) l (h - 1))"
proof (cases "h - 1 = l")
  case True
  then show ?thesis using assms by (simp add: seg_low)
next
  case False
  let ?t = "s[h - 1 := s ! l, l := s ! (h - 1)]"
  have "seg ?t l (h - 1) = add_mset (?t ! l) (seg ?t (l + 1) (h - 1))"
    using False assms by (intro seg_low) simp
  also have "seg ?t (l + 1) (h - 1) = seg s (l + 1) (h - 1)"
    by (rule seg_cong) (auto simp: nth_list_update)
  finally show ?thesis
    using False assms seg_low [of l h s] seg_high [of "l + 1" h s] by (simp add: add_mset_commute)
qed

section \<open>What one partition does\<close>

definition same_outside :: "'a list \<Rightarrow> 'a list \<Rightarrow> nat \<Rightarrow> nat \<Rightarrow> bool" where
  "same_outside s t l h \<longleftrightarrow> length t = length s \<and> (\<forall>i. i < l \<or> h \<le> i \<longrightarrow> t ! i = s ! i)"

lemma same_outside_trans:
  "same_outside s t l h \<Longrightarrow> same_outside t u l' h' \<Longrightarrow> l \<le> l' \<Longrightarrow> h' \<le> h \<Longrightarrow> same_outside s u l h"
  by (auto simp: same_outside_def)

lemma same_outside_swap:
  "l < h \<Longrightarrow> same_outside s (s[h - 1 := a, l := b]) l h"
  by (auto simp: same_outside_def nth_list_update)

text \<open>The two kinds of iteration: the direction of a tie and the new value of \<open>alt\<close>.\<close>

definition tie_c :: "('a \<Rightarrow> 'a \<Rightarrow> int) \<Rightarrow> 'a \<Rightarrow> 'a \<Rightarrow> int \<Rightarrow> int" where
  "tie_c cmp x p alt = (if cmp x p = 0 then alt else cmp x p)"

definition tie_alt :: "('a \<Rightarrow> 'a \<Rightarrow> int) \<Rightarrow> 'a \<Rightarrow> 'a \<Rightarrow> int \<Rightarrow> int" where
  "tie_alt cmp x p alt = (if cmp x p = 0 then - alt else alt)"

lemma partition_high:
  assumes "l < h" "0 < tie_c cmp (stab ! l) p alt"
  shows "partition_loop cmp p stab l h alt =
    partition_loop cmp p (stab[h - 1 := stab ! l, l := stab ! (h - 1)]) l (h - 1)
      (tie_alt cmp (stab ! l) p alt)"
  using assms by (subst partition_loop.simps) (simp only: Let_def if_True tie_c_def tie_alt_def)

lemma partition_low:
  assumes "l < h" "\<not> 0 < tie_c cmp (stab ! l) p alt"
  shows "partition_loop cmp p stab l h alt =
    partition_loop cmp p stab (l + 1) h (tie_alt cmp (stab ! l) p alt)"
  using assms by (subst partition_loop.simps) (simp only: Let_def if_True if_False tie_c_def tie_alt_def)

lemma partition_done: "\<not> l < h \<Longrightarrow> partition_loop cmp p stab l h alt = (stab, l)"
  by (simp add: partition_loop.simps)

lemma partition_loop_split:
  assumes "l \<le> h" "h \<le> length stab" "partition_loop cmp p stab l h alt = (stab', m)"
  shows "l \<le> m \<and> m \<le> h \<and> same_outside stab stab' l h \<and> seg stab' l h = seg stab l h
    \<and> (\<forall>i. l \<le> i \<and> i < m \<longrightarrow> cmp (stab' ! i) p \<le> 0)
    \<and> (\<forall>i. m \<le> i \<and> i < h \<longrightarrow> cmp (stab' ! i) p \<ge> 0)"
  using assms
proof (induction cmp p stab l h alt arbitrary: stab' m rule: partition_loop.induct)
  case (1 cmp p stab l h alt)
  let ?c = "tie_c cmp (stab ! l) p alt" and ?alt = "tie_alt cmp (stab ! l) p alt"
  let ?s = "stab[h - 1 := stab ! l, l := stab ! (h - 1)]"
  consider "\<not> l < h" | "l < h" "?c > 0" | "l < h" "\<not> ?c > 0" by blast
  then show ?case
  proof cases
    case 1
    with "1.prems" show ?thesis by (auto simp: partition_done same_outside_def)
  next
    case 2
    have r: "partition_loop cmp p ?s l (h - 1) ?alt = (stab', m)"
      using "1.prems"(3) unfolding partition_high [OF 2] .
    have ih: "l \<le> m \<and> m \<le> h - 1 \<and> same_outside ?s stab' l (h - 1)
        \<and> seg stab' l (h - 1) = seg ?s l (h - 1)
        \<and> (\<forall>i. l \<le> i \<and> i < m \<longrightarrow> cmp (stab' ! i) p \<le> 0)
        \<and> (\<forall>i. m \<le> i \<and> i < h - 1 \<longrightarrow> cmp (stab' ! i) p \<ge> 0)"
      using 2 "1.prems"(2) by (intro "1.IH"(1) [OF _ refl refl refl _ _ _ r [unfolded tie_alt_def]])
        (auto simp: tie_c_def)
    have last: "stab' ! (h - 1) = stab ! l"
      using ih 2 "1.prems"(2) by (auto simp: same_outside_def nth_list_update)
    have "seg stab' l h = seg stab l h"
      using ih 2 "1.prems"(2) seg_high [of l h stab'] seg_swap [of l h stab] last by simp
    moreover have "cmp (stab' ! i) p \<ge> 0" if "m \<le> i" "i < h" for i
      using ih that last 2 by (cases "i = h - 1") (auto simp: tie_c_def tie_alt_def split: if_splits)
    moreover have "same_outside stab stab' l h"
      by (rule same_outside_trans [OF same_outside_swap]) (use ih 2 in auto)
    ultimately show ?thesis using ih 2 by auto
  next
    case 3
    have r: "partition_loop cmp p stab (l + 1) h ?alt = (stab', m)"
      using "1.prems"(3) unfolding partition_low [OF 3] .
    have ih: "l + 1 \<le> m \<and> m \<le> h \<and> same_outside stab stab' (l + 1) h
        \<and> seg stab' (l + 1) h = seg stab (l + 1) h
        \<and> (\<forall>i. l + 1 \<le> i \<and> i < m \<longrightarrow> cmp (stab' ! i) p \<le> 0)
        \<and> (\<forall>i. m \<le> i \<and> i < h \<longrightarrow> cmp (stab' ! i) p \<ge> 0)"
      using 3 "1.prems"(2) by (intro "1.IH"(2) [OF _ refl refl refl _ _ _ r [unfolded tie_alt_def]])
        (auto simp: tie_c_def)
    have first: "stab' ! l = stab ! l" using ih by (auto simp: same_outside_def)
    have "seg stab' l h = seg stab l h"
      using ih 3 seg_low [of l h stab'] seg_low [of l h stab] first by simp
    moreover have "cmp (stab' ! i) p \<le> 0" if "l \<le> i" "i < m" for i
      using ih that first 3 by (cases "i = l") (auto simp: tie_c_def tie_alt_def split: if_splits)
    moreover have "same_outside stab stab' l h"
      using ih by (auto simp: same_outside_def)
    ultimately show ?thesis using ih by auto
  qed
qed

text \<open>The first tie goes to the high end, so the split point is below the end of the range.\<close>

lemma partition_loop_below:
  assumes "l \<le> h" "h \<le> length stab" "partition_loop cmp p stab l h 1 = (stab', m)"
    "\<exists>x \<in># seg stab l h. cmp x p = 0"
  shows "m < h"
  using assms
proof (induction "h - l" arbitrary: l h stab)
  case (Suc n)
  then have lh: "l < h" by simp
  show ?case
  proof (cases "0 < tie_c cmp (stab ! l) p 1")
    case True
    let ?s = "stab[h - 1 := stab ! l, l := stab ! (h - 1)]"
    have "partition_loop cmp p ?s l (h - 1) (tie_alt cmp (stab ! l) p 1) = (stab', m)"
      using Suc.prems(3) unfolding partition_high [OF lh True] .
    then have "m \<le> h - 1" using lh Suc.prems(2) by (auto dest: partition_loop_split [rotated 2])
    then show ?thesis using lh by simp
  next
    case False
    then have "cmp (stab ! l) p < 0" by (auto simp: tie_c_def tie_alt_def split: if_splits)
    moreover have "partition_loop cmp p stab (l + 1) h (tie_alt cmp (stab ! l) p 1) = (stab', m)"
      using Suc.prems(3) unfolding partition_low [OF lh False] .
    ultimately show ?thesis
      using Suc.prems lh Suc.hyps(2) by (intro Suc.hyps(1)) (auto simp: seg_low tie_alt_def)
  qed
qed simp

text \<open>
  When nothing went to the low end, the range has been rotated by one and at most one of its
  elements ties with the pivot.
\<close>

lemma partition_loop_stuck:
  assumes "l < h" "h \<le> length stab" "partition_loop cmp p stab l h alt = (stab', l)"
    "alt = 1 \<or> alt = -1"
  shows "stab' ! (h - 1) = stab ! l \<and> (\<forall>i. l \<le> i \<and> i + 1 < h \<longrightarrow> stab' ! i = stab ! (i + 1))
    \<and> (\<forall>x \<in># seg stab l h. cmp x p \<ge> 0)
    \<and> size (filter_mset (\<lambda>x. cmp x p = 0) (seg stab l h)) \<le> (if alt = 1 then 1 else 0)"
  using assms
proof (induction "h - l" arbitrary: h stab alt)
  case (Suc n)
  note lh = Suc.prems(1)
  let ?s = "stab[h - 1 := stab ! l, l := stab ! (h - 1)]"
  let ?alt = "tie_alt cmp (stab ! l) p alt"
  have True: "0 < tie_c cmp (stab ! l) p alt"
  proof (rule ccontr)
    assume False: "\<not> ?thesis"
    then have "partition_loop cmp p stab (l + 1) h ?alt = (stab', l)"
      using Suc.prems(3) unfolding partition_low [OF lh False] by simp
    then have "l + 1 \<le> l" using lh Suc.prems(2) by (auto dest: partition_loop_split [rotated 2])
    then show False by simp
  qed
  have r: "partition_loop cmp p ?s l (h - 1) ?alt = (stab', l)"
    using Suc.prems(3) unfolding partition_high [OF lh True] .
  have out: "same_outside ?s stab' l (h - 1)"
    using lh Suc.prems(2) partition_loop_split [OF _ _ r] by auto
  then have last: "stab' ! (h - 1) = stab ! l"
    using lh Suc.prems(2) by (auto simp: same_outside_def nth_list_update)
  note sw = seg_swap [OF lh Suc.prems(2)]
  show ?case
  proof (cases "l < h - 1")
    case False
    then have "h - 1 = l" using lh by simp
    then show ?thesis using last sw True Suc.prems(4) by (auto simp: tie_c_def tie_alt_def split: if_splits)
  next
    case l1: True
    have ih: "stab' ! (h - 1 - 1) = ?s ! l
      \<and> (\<forall>i. l \<le> i \<and> i + 1 < h - 1 \<longrightarrow> stab' ! i = ?s ! (i + 1))
      \<and> (\<forall>x \<in># seg ?s l (h - 1). cmp x p \<ge> 0)
      \<and> size (filter_mset (\<lambda>x. cmp x p = 0) (seg ?s l (h - 1))) \<le> (if ?alt = 1 then 1 else 0)"
      using Suc.prems(2,4) Suc.hyps(2) l1 by (intro Suc.hyps(1) [OF _ _ _ r]) (auto simp: tie_alt_def)
    have "stab' ! i = stab ! (i + 1)" if "l \<le> i" "i + 1 < h" for i
    proof (cases "i + 1 = h - 1")
      case True
      then have "i = h - 1 - 1" by simp
      then show ?thesis using ih True l1 Suc.prems(2) by (simp add: nth_list_update)
    next
      case False
      then show ?thesis using ih that l1 Suc.prems(2) by (simp add: nth_list_update)
    qed
    moreover have "cmp (stab ! l) p \<ge> 0" using True by (auto simp: tie_c_def tie_alt_def split: if_splits)
    ultimately show ?thesis
      using ih last sw True Suc.prems(4) by (auto simp: tie_c_def tie_alt_def split: if_splits)
  qed
qed simp

section \<open>The quicksort ends and sorts\<close>

definition sorts :: "('a \<Rightarrow> 'a \<Rightarrow> int) \<Rightarrow> nat \<Rightarrow> nat \<Rightarrow> 'a list \<Rightarrow> 'a list \<Rightarrow> bool" where
  "sorts cmp l h s t \<longleftrightarrow> same_outside s t l h \<and> seg t l h = seg s l h
    \<and> (\<forall>i j. l \<le> i \<and> i < j \<and> j < h \<longrightarrow> cmp (t ! i) (t ! j) \<le> 0)"

context comparator
begin

lemma sorts_combine:
  assumes p: "partition_loop cmp p s l h 1 = (s1, m)" and lh: "l \<le> h" "h \<le> length s"
    and a: "sorts cmp l m s1 s2" and b: "sorts cmp m h s2 s3"
  shows "sorts cmp l h s s3"
proof -
  have s1: "l \<le> m" "m \<le> h" "same_outside s s1 l h" "seg s1 l h = seg s l h"
    and low: "\<And>i. l \<le> i \<Longrightarrow> i < m \<Longrightarrow> cmp (s1 ! i) p \<le> 0"
    and high: "\<And>i. m \<le> i \<Longrightarrow> i < h \<Longrightarrow> cmp (s1 ! i) p \<ge> 0"
    using partition_loop_split [OF lh p] by auto
  have out2: "same_outside s1 s2 l m" and seg2: "seg s2 l m = seg s1 l m"
    and out3: "same_outside s2 s3 m h" and seg3: "seg s3 m h = seg s2 m h"
    using a b by (auto simp: sorts_def)
  have eq3: "seg s3 l m = seg s2 l m"
    by (rule seg_cong) (use out3 in \<open>simp add: same_outside_def\<close>)
  have eq2: "seg s2 m h = seg s1 m h"
    by (rule seg_cong) (use out2 in \<open>simp add: same_outside_def\<close>)
  have lo: "cmp (s3 ! i) p \<le> 0" if "l \<le> i" "i < m" for i
  proof -
    have "s3 ! i \<in># seg s1 l m" using that eq3 seg2 in_seg by metis
    then show ?thesis using low by (auto simp: in_seg)
  qed
  have hi: "cmp p (s3 ! i) \<le> 0" if "m \<le> i" "i < h" for i
  proof -
    have "s3 ! i \<in># seg s1 m h" using that seg3 eq2 in_seg by metis
    then show ?thesis using high by (auto simp: in_seg cmp_ge [symmetric])
  qed
  have "cmp (s3 ! i) (s3 ! j) \<le> 0" if "l \<le> i" "i < j" "j < h" for i j
  proof -
    consider "j < m" | "m \<le> i" | "i < m" "m \<le> j" using \<open>i < j\<close> by linarith
    then show ?thesis
    proof cases
      case 1
      then have "s3 ! i = s2 ! i" "s3 ! j = s2 ! j"
        using out3 that by (simp_all add: same_outside_def)
      with 1 that a show ?thesis by (simp add: sorts_def)
    next
      case 2
      with that b show ?thesis by (simp add: sorts_def)
    next
      case 3
      with lo [of i] hi [of j] that show ?thesis by (auto intro: trans)
    qed
  qed
  moreover have "same_outside s s3 l h"
    using same_outside_trans [OF same_outside_trans [OF s1(3) out2] out3] s1(1,2) by simp
  moreover have "seg s3 l h = seg s l h"
    using seg_split [of l m h s3] seg_split [of l m h s1] s1 seg3 eq3 seg2 eq2 by simp
  ultimately show ?thesis by (simp add: sorts_def)
qed

lemma pivot_in_seg: "l < h \<Longrightarrow> s ! ((l + h) div 2) \<in># seg s l h"
  by (auto simp: in_seg intro!: exI [of _ "(l + h) div 2"])

lemma partition_c_below:
  assumes "partition_c cmp s l h = (s1, m)" "l < h" "h \<le> length s"
  shows "l \<le> m" "m < h"
proof -
  note p = assms(1) [unfolded partition_c_def]
  show "l \<le> m" using partition_loop_split [OF _ _ p] assms by simp
  show "m < h"
    by (rule partition_loop_below [OF _ _ p]) (use assms pivot_in_seg in \<open>auto intro!: bexI\<close>)
qed

text \<open>After a partition that put nothing low, the next partition of the range makes progress.\<close>

lemma partition_c_progress:
  assumes p: "partition_c cmp s l h = (s1, l)" and q: "partition_c cmp s1 l h = (s2, m)"
    and lh: "l + 1 < h" "h \<le> length s"
  shows "l < m"
proof (rule ccontr)
  assume "\<not> l < m"
  let ?k = "(l + h) div 2"
  have k: "l < ?k" "?k < h" using lh by auto
  note p' = p [unfolded partition_c_def] and q' = q [unfolded partition_c_def]
  have stuck: "s1 ! (h - 1) = s ! l" "\<And>i. l \<le> i \<Longrightarrow> i + 1 < h \<Longrightarrow> s1 ! i = s ! (i + 1)"
    "\<forall>x \<in># seg s l h. cmp x (s ! ?k) \<ge> 0"
    "size (filter_mset (\<lambda>x. cmp x (s ! ?k) = 0) (seg s l h)) \<le> 1"
    using partition_loop_stuck [OF _ _ p'] lh by auto
  define j where "j = (if ?k + 1 < h then ?k + 1 else l)"
  have j: "l \<le> j" "j < h" "j \<noteq> ?k" "s1 ! ?k = s ! j"
  proof -
    show "l \<le> j" "j < h" "j \<noteq> ?k" using k by (auto simp: j_def)
    show "s1 ! ?k = s ! j"
    proof (cases "?k + 1 < h")
      case False
      with k have "?k = h - 1" by linarith
      with stuck(1) False show ?thesis by (simp add: j_def)
    qed (use stuck(2) k in \<open>simp add: j_def\<close>)
  qed
  have one: "\<not> cmp (s ! j) (s ! ?k) = 0"
  proof
    assume "cmp (s ! j) (s ! ?k) = 0"
    then have "{j, ?k} \<subseteq> {i. l \<le> i \<and> i < h \<and> cmp (s ! i) (s ! ?k) = 0}" using j k by auto
    then have "card {j, ?k} \<le> card {i. l \<le> i \<and> i < h \<and> cmp (s ! i) (s ! ?k) = 0}"
      by (intro card_mono) auto
    also have "\<dots> = size (filter_mset (\<lambda>x. cmp x (s ! ?k) = 0) (seg s l h))"
      by (simp add: size_filter_seg)
    finally show False using stuck(4) j(3) by simp
  qed
  have "s ! j \<in># seg s l h" using j by (auto simp: in_seg)
  then have "0 < cmp (s1 ! ?k) (s ! ?k)" using stuck(3) one j(4) by fastforce
  then have less: "cmp (s ! ?k) (s1 ! ?k) < 0" using flip by blast
  from \<open>\<not> l < m\<close> have "m = l" using partition_c_below(1) [OF q] lh
      partition_loop_split [OF _ _ p'] by (simp add: same_outside_def)
  have s12: "seg s2 l h = seg s1 l h" "seg s1 l h = seg s l h"
    and ge: "\<And>i. l \<le> i \<Longrightarrow> i < h \<Longrightarrow> cmp (s2 ! i) (s1 ! ?k) \<ge> 0"
    using partition_loop_split [OF _ _ q'] partition_loop_split [OF _ _ p'] lh \<open>m = l\<close>
    by (auto simp: same_outside_def)
  have "s ! ?k \<in># seg s2 l h" using pivot_in_seg [of l h s] lh s12 by simp
  then obtain i where "l \<le> i" "i < h" "s ! ?k = s2 ! i" by (auto simp: in_seg)
  then show False using ge [of i] less by simp
qed

lemma sorttable_split:
  assumes "partition_c cmp s l h = (s1, m)" "l + 1 < h"
  shows "sorttable cmp s l h =
    Option.bind (sorttable cmp s1 l m) (\<lambda>s2. sorttable cmp s2 m h)"
  using assms by (subst sorttable.simps) simp

lemma sorttable_trivial: "sorttable cmp s l l = Some s"
  by (simp add: sorttable.simps)

lemma sorttable_sorts:
  assumes "l \<le> h" "h \<le> length s"
  shows "\<exists>t. sorttable cmp s l h = Some t \<and> sorts cmp l h s t"
  using assms
proof (induction "h - l" arbitrary: s l h rule: less_induct)
  case less
  have step: "\<exists>t. sorttable cmp s l h = Some t \<and> sorts cmp l h s t"
    if p: "partition_c cmp s l h = (s1, m)" and m: "l < m" and lh: "l + 1 < h" "h \<le> length s" for s s1 m
  proof -
    have mh: "m < h" using partition_c_below(2) [OF p] lh by simp
    have len: "length s1 = length s"
      using partition_loop_split [OF _ _ p [unfolded partition_c_def]] lh by (simp add: same_outside_def)
    obtain s2 where s2: "sorttable cmp s1 l m = Some s2" "sorts cmp l m s1 s2"
      using less.hyps [of m l s1] m mh len lh diff_less_mono [of m h l] by auto
    then have "length s2 = length s" using len by (simp add: sorts_def same_outside_def)
    then obtain s3 where s3: "sorttable cmp s2 m h = Some s3" "sorts cmp m h s2 s3"
      using less.hyps [of h m s2] m mh lh diff_less_mono2 [of l m h] by auto
    have "sorts cmp l h s s3"
      by (rule sorts_combine [OF p [unfolded partition_c_def] _ _ s2(2) s3(2)]) (use lh in auto)
    then show ?thesis using sorttable_split [OF p \<open>l + 1 < h\<close>] s2 s3 by simp
  qed
  consider "l = h" | "l + 1 = h" | "l + 1 < h" using less.prems by linarith
  then show ?case
  proof cases
    case 1
    then show ?thesis by (auto simp: sorttable_trivial sorts_def same_outside_def)
  next
    case 2
    obtain s1 m where p: "partition_c cmp s l h = (s1, m)" by fastforce
    have "same_outside s s1 l h" "seg s1 l h = seg s l h"
      using partition_loop_split [OF _ _ p [unfolded partition_c_def]] less.prems by auto
    then have "sorts cmp l h s s1" using 2 by (auto simp: sorts_def)
    with 2 p show ?thesis by (subst sorttable.simps) auto
  next
    case 3
    obtain s1 m where p: "partition_c cmp s l h = (s1, m)" by fastforce
    show ?thesis
    proof (cases "l < m")
      case True
      then show ?thesis using step [OF p] 3 less.prems by simp
    next
      case False
      then have [simp]: "m = l" using partition_c_below(1) [OF p] 3 less.prems by simp
      have s1: "same_outside s s1 l h" "seg s1 l h = seg s l h"
        using partition_loop_split [OF _ _ p [unfolded partition_c_def]] less.prems by auto
      obtain s2 m' where q: "partition_c cmp s1 l h = (s2, m')" by fastforce
      have "l < m'" using partition_c_progress [OF p [simplified] q] 3 less.prems by simp
      then obtain t where t: "sorttable cmp s1 l h = Some t" "sorts cmp l h s1 t"
        using step [OF q] 3 less.prems s1 by (auto simp: same_outside_def)
      then have "sorts cmp l h s t"
        using s1 by (auto simp: sorts_def intro: same_outside_trans)
      then show ?thesis using sorttable_split [OF p 3] t by (simp add: sorttable_trivial)
    qed
  qed
qed

corollary sorttable_whole:
  "\<exists>t. sorttable cmp s 0 (length s) = Some t \<and> mset t = mset s
    \<and> sorted_wrt (\<lambda>a b. cmp a b \<le> 0) t"
proof -
  obtain t where t: "sorttable cmp s 0 (length s) = Some t" "sorts cmp 0 (length s) s t"
    using sorttable_sorts [of 0 "length s" s] by auto
  then have len: "length t = length s" by (simp add: sorts_def same_outside_def)
  have "mset t = mset s"
    using t(2) seg_all [of t] seg_all [of s] len by (simp add: sorts_def)
  with t len show ?thesis by (auto simp: sorts_def sorted_wrt_iff_nth_less)
qed

end

section \<open>Sorting a roster\<close>

text \<open>
  A link field of a student with its reader and writer: the writer changes that field of that
  student and nothing else, as seen through the key \<open>payload\<close> (everything but the field).
\<close>

locale link_field =
  fixes nxt :: "Student \<Rightarrow> addr option"
    and payload :: "Student \<Rightarrow> 'p"
    and gtnxt :: "heap \<Rightarrow> addr option \<Rightarrow> addr option"
    and stnxt :: "heap \<Rightarrow> addr option \<Rightarrow> addr option \<Rightarrow> heap"
  assumes get: "gtnxt h (Some a) = nxt (h a)"
    and set_same: "nxt (stnxt h (Some a) n a) = n"
    and set_other: "b \<noteq> a \<Longrightarrow> stnxt h (Some a) n b = h b"
    and set_payload: "payload (stnxt h (Some a) n b) = payload (h b)"
begin

lemma count_students_chain: "chain nxt h p xs \<Longrightarrow> count_students (gtnxt h) p = Some (length xs)"
  by (induction xs arbitrary: p) (subst count_students.simps, simp add: get)+

lemma fill_table_chain:
  assumes "chain nxt h p xs" "length xs \<le> length stab"
  shows "fill_table (gtnxt h) (length xs) p stab =
    map Some (rev xs) @ drop (length xs) stab"
  using assms
proof (induction xs arbitrary: p stab)
  case (Cons x xs)
  then have "p = Some x" "chain nxt h (gtnxt h p) xs" by (auto simp: get)
  with Cons.IH [of "gtnxt h p" "stab[length xs := p]"] Cons.prems(2) show ?case
    by (simp add: drop_update_cancel Cons_nth_drop_Suc [symmetric])
qed simp

lemma relink_other: "b \<notin> insert a (set xs) \<Longrightarrow> relink stnxt h (Some a) (map Some xs) b = h b"
  by (induction xs arbitrary: a h) (auto simp: set_other)

lemma relink_payload: "payload (relink stnxt h (Some a) (map Some xs) b) = payload (h b)"
  by (induction xs arbitrary: a h) (auto simp: set_payload)

lemma relink_chain:
  "distinct (a # xs) \<Longrightarrow> chain nxt (relink stnxt h (Some a) (map Some xs)) (Some a) (a # xs)"
proof (induction xs arbitrary: a h)
  case Nil
  then show ?case by (simp add: set_same)
next
  case (Cons x xs)
  let ?h = "relink stnxt (stnxt h (Some a) (Some x)) (Some x) (map Some xs)"
  have "?h a = stnxt h (Some a) (Some x) a" using Cons.prems by (intro relink_other) auto
  then show ?case using Cons by (simp add: set_same)
qed

lemma sortroster_spec:
  assumes c: "chain nxt h p xs" and cmp: "comparator compare"
  shows "\<exists>h' p' ys. sortroster h p gtnxt stnxt compare = Some (h', p') \<and> chain nxt h' p' ys
    \<and> mset ys = mset xs \<and> sorted_wrt (\<lambda>a b. compare (h a) (h b) \<le> 0) ys
    \<and> (\<forall>b. payload (h' b) = payload (h b)) \<and> (\<forall>b. b \<notin> set xs \<longrightarrow> h' b = h b)"
proof (cases "xs = []")
  case True
  with c show ?thesis
    by (intro exI [of _ h] exI [of _ None] exI [of _ "[]"])
      (simp add: sortroster_def count_students.simps)
next
  case False
  let ?cmp = "\<lambda>p q. compare (h (the p)) (h (the q))"
  let ?tab = "map Some (rev xs)"
  obtain t where t: "sorttable ?cmp ?tab 0 (length ?tab) = Some t" "mset t = mset ?tab"
    "sorted_wrt (\<lambda>a b. ?cmp a b \<le> 0) t"
    using comparator.sorttable_whole [OF comparator_on [OF cmp, of "\<lambda>p. h (the p)"]] by blast
  have "set t = set ?tab" using t(2) by (metis set_mset_mset)
  then obtain ys where ys: "t = map Some ys"
    by (metis (no_types, lifting) ex_map_conv imageE list.set_map)
  have "mset (map the t) = mset (map the ?tab)" using t(2) by (simp only: mset_map)
  with ys have m: "mset ys = mset xs" by (simp add: comp_def del: mset_map)
  with False obtain y zs where y: "ys = y # zs" by (cases ys) auto
  have "distinct (y # zs)"
    using chain_distinct [OF c] m y by (metis distinct_count_atmost_1 mset_eq_imp_distinct_iff)
  note link = relink_chain [OF this, of h]
  have "fill_table (gtnxt h) (length xs) p (replicate (length xs) None) = ?tab"
    using fill_table_chain [OF c, of "replicate (length xs) None"] by simp
  then have "sortroster h p gtnxt stnxt compare = Some (relink stnxt h (Some y) (map Some zs), Some y)"
    using False t(1) ys y by (simp add: sortroster_def count_students_chain [OF c])
  moreover have "sorted_wrt (\<lambda>a b. compare (h a) (h b) \<le> 0) ys"
    using t(3) ys by (simp add: sorted_wrt_map)
  moreover have "set ys = set xs" using m by (metis set_mset_mset)
  ultimately show ?thesis
    using link m y relink_other [of _ y zs h] relink_payload [of h y zs]
    by (intro exI [of _ "relink stnxt h (Some y) (map Some zs)"] exI [of _ "Some y"] exI [of _ ys]) auto
qed

end

interpretation section_link: link_field st_next "\<lambda>s. s\<lparr>st_next := None\<rparr>" getnext setnext
  by unfold_locales (auto simp: getnext_def setnext_def)

interpretation course_link: link_field st_cnext "\<lambda>s. s\<lparr>st_cnext := None\<rparr>" getcnext setcnext
  by unfold_locales (auto simp: getcnext_def setcnext_def)

text \<open>Everything of a student but the two links.\<close>

definition unlinked :: "Student \<Rightarrow> Student" where
  "unlinked s = s\<lparr>st_next := None, st_cnext := None\<rparr>"

locale student_comparator = comparator compare
  for compare :: "Student \<Rightarrow> Student \<Rightarrow> int" +
  assumes ignores_links: "compare (unlinked s) (unlinked t) = compare s t"
begin

lemma same_keys:
  "unlinked s' = unlinked s \<Longrightarrow> unlinked t' = unlinked t \<Longrightarrow> compare s' t' = compare s t"
  by (metis ignores_links)

lemma sorted_same_keys:
  assumes "\<And>b. unlinked (h' b) = unlinked (h b)"
  shows "sorted_wrt (\<lambda>a b. compare (h' a) (h' b) \<le> 0) xs = sorted_wrt (\<lambda>a b. compare (h a) (h b) \<le> 0) xs"
proof -
  have "compare (h' a) (h' b) = compare (h a) (h b)" for a b by (rule same_keys [OF assms assms])
  then show ?thesis by simp
qed

lemma sort_course_roster:
  assumes "chain st_cnext h p xs"
  shows "\<exists>h' p' ys. sortroster h p getcnext setcnext compare = Some (h', p')
    \<and> chain st_cnext h' p' ys \<and> mset ys = mset xs
    \<and> sorted_wrt (\<lambda>a b. compare (h a) (h b) \<le> 0) ys
    \<and> (\<forall>b. st_next (h' b) = st_next (h b) \<and> unlinked (h' b) = unlinked (h b))"
proof -
  have "st_next s = st_next t \<and> unlinked s = unlinked t"
    if "s\<lparr>st_cnext := None\<rparr> = t\<lparr>st_cnext := None\<rparr>" for s t :: Student
    using arg_cong [OF that, of unlinked] arg_cong [OF that, of st_next] by (simp add: unlinked_def)
  with course_link.sortroster_spec [OF assms comparator_axioms] show ?thesis by blast
qed

lemma sort_section_roster:
  assumes "chain st_next h p xs"
  shows "\<exists>h' p' ys. sortroster h p getnext setnext compare = Some (h', p')
    \<and> chain st_next h' p' ys \<and> mset ys = mset xs
    \<and> sorted_wrt (\<lambda>a b. compare (h a) (h b) \<le> 0) ys
    \<and> (\<forall>b. st_cnext (h' b) = st_cnext (h b) \<and> unlinked (h' b) = unlinked (h b))
    \<and> (\<forall>b. b \<notin> set xs \<longrightarrow> h' b = h b)"
proof -
  have "st_cnext s = st_cnext t \<and> unlinked s = unlinked t"
    if "s\<lparr>st_next := None\<rparr> = t\<lparr>st_next := None\<rparr>" for s t :: Student
    using arg_cong [OF that, of unlinked] arg_cong [OF that, of st_cnext] by (simp add: unlinked_def)
  with section_link.sortroster_spec [OF assms comparator_axioms] show ?thesis by blast
qed

lemma sort_sections_spec:
  assumes "list_all2 (\<lambda>s xs. chain st_next h (se_roster s) xs) ss xss" "distinct (concat xss)"
  shows "\<exists>h' ss' yss. sort_sections h ss compare = Some (h', ss')
    \<and> list_all2 (\<lambda>s ys. chain st_next h' (se_roster s) ys) ss' yss
    \<and> list_all2 (\<lambda>xs ys. mset ys = mset xs \<and> sorted_wrt (\<lambda>a b. compare (h a) (h b) \<le> 0) ys) xss yss
    \<and> map se_name ss' = map se_name ss
    \<and> (\<forall>b. st_cnext (h' b) = st_cnext (h b) \<and> unlinked (h' b) = unlinked (h b))
    \<and> (\<forall>b. b \<notin> set (concat xss) \<longrightarrow> h' b = h b)"
  using assms
proof (induction ss arbitrary: xss h)
  case Nil
  then show ?case by (intro exI [of _ h] exI [of _ "[]"]) simp
next
  case (Cons s ss yss0)
  then obtain xs xss where yss0: "yss0 = xs # xss"
    and hyp1: "chain st_next h (se_roster s) xs"
    and hyp2: "list_all2 (\<lambda>s xs. chain st_next h (se_roster s) xs) ss xss"
    by (auto simp: list_all2_Cons1)
  obtain h1 r ys where 1: "sortroster h (se_roster s) getnext setnext compare = Some (h1, r)"
    "chain st_next h1 r ys" "mset ys = mset xs" "sorted_wrt (\<lambda>a b. compare (h a) (h b) \<le> 0) ys"
    and same1: "\<forall>b. st_cnext (h1 b) = st_cnext (h b) \<and> unlinked (h1 b) = unlinked (h b)"
    and out1: "\<forall>b. b \<notin> set xs \<longrightarrow> h1 b = h b"
    using sort_section_roster [OF hyp1] by (elim exE conjE) (rule that)
  have disj: "set xs \<inter> set (concat xss) = {}" "distinct (concat xss)" using Cons.prems yss0 by auto
  have keep: "chain st_next h' p zs" if "chain st_next h p zs" "\<forall>b. b \<notin> S \<longrightarrow> h' b = h b" "set zs \<inter> S = {}"
    for h h' p zs S
    using that chain_cong [of zs st_next h h' p] by (metis disjoint_iff)
  have c2: "list_all2 (\<lambda>s xs. chain st_next h1 (se_roster s) xs) ss xss"
    using hyp2
  proof (rule list.rel_mono_strong)
    fix s' zs
    assume "zs \<in> set xss" "chain st_next h (se_roster s') zs"
    then show "chain st_next h1 (se_roster s') zs"
      using disj(1) by (intro keep [OF _ out1]) auto
  qed
  obtain h2 ss' yss where 2: "sort_sections h1 ss compare = Some (h2, ss')"
    "list_all2 (\<lambda>s ys. chain st_next h2 (se_roster s) ys) ss' yss"
    "list_all2 (\<lambda>xs ys. mset ys = mset xs \<and> sorted_wrt (\<lambda>a b. compare (h1 a) (h1 b) \<le> 0) ys) xss yss"
    "map se_name ss' = map se_name ss"
    and same2: "\<forall>b. st_cnext (h2 b) = st_cnext (h1 b) \<and> unlinked (h2 b) = unlinked (h1 b)"
    and out2: "\<forall>b. b \<notin> set (concat xss) \<longrightarrow> h2 b = h1 b"
    using Cons.IH [OF c2 disj(2)] by (elim exE conjE) (rule that)
  have "set ys = set xs" using 1(3) by (metis set_mset_mset)
  then have "chain st_next h2 r ys" using disj(1) by (intro keep [OF 1(2) out2]) auto
  moreover have "sorted_wrt (\<lambda>a b. compare (h1 a) (h1 b) \<le> 0) zs = sorted_wrt (\<lambda>a b. compare (h a) (h b) \<le> 0) zs" for zs
    using same1 by (intro sorted_same_keys) blast
  ultimately show ?case
    using 1 2 same1 same2 out1 out2 yss0
    by (intro exI [of _ h2] exI [of _ "s\<lparr>se_roster := r\<rparr> # ss'"] exI [of _ "ys # yss"]) auto
qed

lemma sortrosters_spec:
  assumes "chain st_cnext h (co_roster c) xs"
    "list_all2 (\<lambda>s ys. chain st_next h (se_roster s) ys) (co_sections c) xss" "distinct (concat xss)"
  shows "\<exists>h' c' xs' xss'. sortrosters h c compare = Some (h', c')
    \<and> chain st_cnext h' (co_roster c') xs'
    \<and> list_all2 (\<lambda>s ys. chain st_next h' (se_roster s) ys) (co_sections c') xss'
    \<and> mset xs' = mset xs \<and> list_all2 (\<lambda>zs zs'. mset zs' = mset zs) xss xss'
    \<and> (\<forall>zs \<in> insert xs' (set xss'). sorted_wrt (\<lambda>a b. compare (h' a) (h' b) \<le> 0) zs)
    \<and> (\<forall>b. unlinked (h' b) = unlinked (h b))"
proof -
  obtain h1 r xs' where 1: "sortroster h (co_roster c) getcnext setcnext compare = Some (h1, r)"
    "chain st_cnext h1 r xs'" "mset xs' = mset xs" "sorted_wrt (\<lambda>a b. compare (h a) (h b) \<le> 0) xs'"
    "\<forall>b. st_next (h1 b) = st_next (h b) \<and> unlinked (h1 b) = unlinked (h b)"
    using sort_course_roster [OF assms(1)] by (elim exE conjE) (rule that)
  have c1: "list_all2 (\<lambda>s ys. chain st_next h1 (se_roster s) ys) (co_sections c) xss"
    using assms(2) 1(5) chain_cong [of _ st_next h h1]
    by (elim list.rel_mono_strong) (metis (no_types, lifting))
  obtain h2 ss' xss' where 2: "sort_sections h1 (co_sections c) compare = Some (h2, ss')"
    "list_all2 (\<lambda>s ys. chain st_next h2 (se_roster s) ys) ss' xss'"
    "list_all2 (\<lambda>xs ys. mset ys = mset xs \<and> sorted_wrt (\<lambda>a b. compare (h1 a) (h1 b) \<le> 0) ys) xss xss'"
    "\<forall>b. st_cnext (h2 b) = st_cnext (h1 b) \<and> unlinked (h2 b) = unlinked (h1 b)"
    using sort_sections_spec [OF c1 assms(3)] by (elim exE conjE) (rule that)
  have "chain st_cnext h2 r xs'"
    using 1(2) 2(4) chain_cong [of xs' st_cnext h1 h2 r] by metis
  moreover have "sorted_wrt (\<lambda>a b. compare (h2 a) (h2 b) \<le> 0) zs = sorted_wrt (\<lambda>a b. compare (h a) (h b) \<le> 0) zs"
    "sorted_wrt (\<lambda>a b. compare (h1 a) (h1 b) \<le> 0) zs = sorted_wrt (\<lambda>a b. compare (h a) (h b) \<le> 0) zs" for zs
    using 1(5) 2(4) by (auto intro!: sorted_same_keys)
  moreover have "\<forall>zs \<in> set xss'. sorted_wrt (\<lambda>a b. compare (h1 a) (h1 b) \<le> 0) zs"
    using 2(3) by (auto simp: list_all2_conv_all_nth in_set_conv_nth)
  moreover have "list_all2 (\<lambda>zs zs'. mset zs' = mset zs) xss xss'"
    using 2(3) by (rule list.rel_mono_strong) simp
  ultimately show ?thesis
    using 1 2
    by (intro exI [of _ h2] exI [of _ "c\<lparr>co_roster := r, co_sections := ss'\<rparr>"] exI [of _ xs'] exI [of _ xss'])
      (simp add: sortrosters_def)
qed

end

interpretation byname: student_comparator comparename
  by unfold_locales (simp add: comparename_def unlinked_def)

interpretation byid: student_comparator compareid
  by unfold_locales (simp add: compareid_def unlinked_def)

interpretation byscore: student_comparator comparescore
  by unfold_locales (simp add: comparescore_def unlinked_def)

section \<open>Duplicate names\<close>

definition full_name :: "Student \<Rightarrow> cstring \<times> cstring" where
  "full_name s = (st_surname s, st_name s)"

lemma comparename_0: "comparename s t = 0 \<longleftrightarrow> full_name s = full_name t"
  by (simp add: comparename_def full_name_def Let_def)

lemma checkfordups_chain:
  assumes "chain st_cnext h p xs" "sorted_wrt (\<lambda>a b. comparename (h a) (h b) \<le> 0) xs"
  shows "\<exists>ws. checkfordups h p = Some ws \<and> set ws \<subseteq> set xs
    \<and> length ws + card ((\<lambda>a. full_name (h a)) ` set xs) = length xs"
  using assms
proof (induction xs arbitrary: p)
  case Nil
  then show ?case by (simp add: checkfordups.simps)
next
  case (Cons a xs)
  show ?case
  proof (cases xs)
    case Nil
    with Cons.prems show ?thesis by (simp add: checkfordups.simps)
  next
    case xs: (Cons b ys)
    with Cons.prems have p: "p = Some a" "st_cnext (h a) = Some b" by auto
    obtain ws where ws: "checkfordups h (Some b) = Some ws" "set ws \<subseteq> set xs"
      "length ws + card ((\<lambda>a. full_name (h a)) ` set xs) = length xs"
      using Cons.IH [of "Some b"] Cons.prems p by auto
    let ?w = "if comparename (h a) (h b) = 0 then [a] else []"
    have r: "checkfordups h p = Some (?w @ ws)"
      using p ws(1) by (subst checkfordups.simps) simp
    have new: "full_name (h a) \<notin> (\<lambda>a. full_name (h a)) ` set xs" if "comparename (h a) (h b) \<noteq> 0"
    proof
      assume "full_name (h a) \<in> (\<lambda>a. full_name (h a)) ` set xs"
      then obtain d where d: "d \<in> set xs" "comparename (h a) (h d) = 0"
        by (auto simp: comparename_0)
      have "comparename (h a) (h b) < 0" using Cons.prems(2) xs that by auto
      moreover have "comparename (h b) (h d) \<le> 0" using Cons.prems(2) xs d(1) by auto
      ultimately have "comparename (h a) (h d) < 0" by (rule byname.less_trans)
      with d(2) show False by simp
    qed
    have "length (?w @ ws) + card ((\<lambda>a. full_name (h a)) ` set (a # xs)) = length (a # xs)"
    proof (cases "comparename (h a) (h b) = 0")
      case True
      then have "full_name (h a) \<in> (\<lambda>a. full_name (h a)) ` set xs" using xs by (auto simp: comparename_0)
      then show ?thesis using True ws(3) by (simp add: insert_absorb)
    qed (use new ws(3) in simp)
    with r ws(2) show ?thesis by (intro exI [of _ "?w @ ws"]) auto
  qed
qed

section \<open>Properties\<close>

text \<open>
  C12. The quicksort of \<open>sorttable\<close> ends on every table and sorts it whenever the comparison
  function is a total preorder. The recursion on the high part of a partition may receive
  the whole range again (when the pivot is the only smallest element); such a call has
  rotated the range, and the next pivot splits it. The result is a permutation of the table
  in ascending order and nothing outside of the range is touched.
\<close>

theorem sorttable_total_sorted:
  assumes "comparator compare" "low \<le> high" "high \<le> length stab"
  shows "\<exists>stab'. sorttable compare stab low high = Some stab'
    \<and> length stab' = length stab
    \<and> mset (take (high - low) (drop low stab')) = mset (take (high - low) (drop low stab))
    \<and> take low stab' = take low stab \<and> drop high stab' = drop high stab
    \<and> sorted_wrt (\<lambda>a b. compare a b \<le> 0) (take (high - low) (drop low stab'))"
proof -
  obtain t where t: "sorttable compare stab low high = Some t" "sorts compare low high stab t"
    using comparator.sorttable_sorts [OF assms] by blast
  have seg_take: "seg s low high = mset (take (high - low) (drop low s))" if "high \<le> length s" for s :: "'a list"
    using that assms(2) unfolding seg_def
    by (intro arg_cong [of _ _ mset] nth_equalityI) auto
  from t(2) have len: "length t = length stab" by (simp add: sorts_def same_outside_def)
  have "take low t = take low stab" "drop high t = drop high stab"
    using t(2) len assms by (auto simp: sorts_def same_outside_def intro!: nth_equalityI)
  moreover have "sorted_wrt (\<lambda>a b. compare a b \<le> 0) (take (high - low) (drop low t))"
    using t(2) len assms by (auto simp: sorts_def sorted_wrt_iff_nth_less)
  ultimately show ?thesis
    using t len assms(3) seg_take [of t] seg_take [of stab] by (simp add: sorts_def)
qed

theorem sorttable_total_sorted_witness:
  "\<exists>stab'. sorttable strcmp [''c'', ''b'', ''d'', ''a''] 1 4 = Some stab'
    \<and> sorted_wrt (\<lambda>a b. strcmp a b \<le> 0) (take 3 (drop 1 stab')) \<and> take 1 stab' = [''c'']"
  using sorttable_total_sorted [OF str.comparator_axioms, of 1 4 "[''c'', ''b'', ''d'', ''a'']"]
  by auto

text \<open>
  C17. \<open>sortrosters\<close> sorts the course roster and every section roster in place. On a course
  whose rosters are chains (the section rosters disjoint) the call returns, for each of the
  three sort keys of the program; each roster is afterwards a chain with the same students
  in ascending order of the key, and no field of any student but its two links has changed.
\<close>

theorem sortrosters_sorts:
  assumes "compare \<in> {comparename, compareid, comparescore}"
    and "chain st_cnext h (co_roster c) xs"
    and "list_all2 (\<lambda>s ys. chain st_next h (se_roster s) ys) (co_sections c) xss"
    and "distinct (concat xss)"
  shows "\<exists>h' c' xs' xss'. sortrosters h c compare = Some (h', c')
    \<and> chain st_cnext h' (co_roster c') xs'
    \<and> list_all2 (\<lambda>s ys. chain st_next h' (se_roster s) ys) (co_sections c') xss'
    \<and> mset xs' = mset xs \<and> list_all2 (\<lambda>zs zs'. mset zs' = mset zs) xss xss'
    \<and> (\<forall>zs \<in> insert xs' (set xss'). sorted_wrt (\<lambda>a b. compare (h' a) (h' b) \<le> 0) zs)
    \<and> (\<forall>b. unlinked (h' b) = unlinked (h b))"
  using assms(1) byname.sortrosters_spec [OF assms(2-4)] byid.sortrosters_spec [OF assms(2-4)]
    byscore.sortrosters_spec [OF assms(2-4)]
  by (elim insertE) (simp_all only: empty_iff)

definition demo_heap :: heap where
  "demo_heap = (\<lambda>a.
    if a = 1 then \<lparr>st_id = ''1'', st_surname = ''Zoe'', st_name = ''A'', st_rawscores = [],
      st_normscores = [], st_composite = 80, st_section = 0, st_next = Some 2, st_cnext = Some 2\<rparr>
    else if a = 2 then \<lparr>st_id = ''3'', st_surname = ''Abe'', st_name = ''B'', st_rawscores = [],
      st_normscores = [], st_composite = 90, st_section = 0, st_next = None, st_cnext = Some 3\<rparr>
    else \<lparr>st_id = ''2'', st_surname = ''Zoe'', st_name = ''A'', st_rawscores = [],
      st_normscores = [], st_composite = 70, st_section = 1, st_next = None, st_cnext = None\<rparr>)"

definition demo_course :: Course where
  "demo_course = \<lparr>co_number = ''CSE320'', co_title = ''Systems'', co_professor = None, co_assignments = [],
    co_sections = [\<lparr>se_name = ''R1'', se_assistant = None, se_roster = Some 1\<rparr>,
      \<lparr>se_name = ''R2'', se_assistant = None, se_roster = Some 3\<rparr>],
    co_roster = Some 1\<rparr>"

lemma demo_chains:
  "chain st_cnext demo_heap (co_roster demo_course) [1, 2, 3]"
  "list_all2 (\<lambda>s ys. chain st_next demo_heap (se_roster s) ys) (co_sections demo_course) [[1, 2], [3]]"
  "distinct (concat [[1, 2], [3 :: nat]])"
  by (simp_all add: demo_heap_def demo_course_def)

theorem sortrosters_sorts_witness:
  "\<exists>h' c' xs'. sortrosters demo_heap demo_course comparescore = Some (h', c')
    \<and> chain st_cnext h' (co_roster c') xs' \<and> mset xs' = {#1, 2, 3#}
    \<and> sorted_wrt (\<lambda>a b. comparescore (h' a) (h' b) \<le> 0) xs'"
  using sortrosters_sorts [OF _ demo_chains, of comparescore] by auto

text \<open>
  The duplicate check that \<open>main\<close> runs after sorting by name is exact: it ends, and it
  warns once for every student beyond the first of each full name, so there is no warning
  exactly when all full names differ.
\<close>

theorem checkfordups_exact:
  assumes "chain st_cnext h (co_roster c) xs"
    and "list_all2 (\<lambda>s ys. chain st_next h (se_roster s) ys) (co_sections c) xss"
    and "distinct (concat xss)"
  shows "\<exists>h' c' ws. sortrosters h c comparename = Some (h', c')
    \<and> checkfordups h' (co_roster c') = Some ws \<and> set ws \<subseteq> set xs
    \<and> length ws + card ((\<lambda>a. full_name (h a)) ` set xs) = length xs
    \<and> (ws = [] \<longleftrightarrow> distinct (map (\<lambda>a. full_name (h a)) xs))"
proof -
  obtain h' c' xs' where s: "sortrosters h c comparename = Some (h', c')"
    "chain st_cnext h' (co_roster c') xs'" "mset xs' = mset xs"
    "sorted_wrt (\<lambda>a b. comparename (h' a) (h' b) \<le> 0) xs'" "\<forall>b. unlinked (h' b) = unlinked (h b)"
    using byname.sortrosters_spec [OF assms] by blast
  have nm: "full_name (h' b) = full_name (h b)" for b
    using s(5) arg_cong [of _ _ full_name] by (metis (no_types, lifting) Student.ext_inject
        Student.surjective Student.update_convs(8,9) full_name_def unlinked_def)
  have xs: "set xs' = set xs" "length xs' = length xs"
    using s(3) by (metis set_mset_mset, metis size_mset)
  obtain ws where ws: "checkfordups h' (co_roster c') = Some ws" "set ws \<subseteq> set xs"
    "length ws + card ((\<lambda>a. full_name (h a)) ` set xs) = length xs"
    using checkfordups_chain [OF s(2,4)] by (auto simp: nm xs)
  have "ws = [] \<longleftrightarrow> distinct (map (\<lambda>a. full_name (h a)) xs)"
    using ws(3) distinct_card [of "map (\<lambda>a. full_name (h a)) xs"]
      card_distinct [of "map (\<lambda>a. full_name (h a)) xs"] by auto
  then show ?thesis using s(1) ws by blast
qed

theorem checkfordups_exact_witness:
  "\<exists>h' c' ws. sortrosters demo_heap demo_course comparename = Some (h', c')
    \<and> checkfordups h' (co_roster c') = Some ws \<and> length ws = 1"
proof -
  have "(\<lambda>a. full_name (demo_heap a)) ` set [1, 2, 3] = {(''Zoe'', ''A''), (''Abe'', ''B'')}"
    by (auto simp: demo_heap_def full_name_def)
  then have "card ((\<lambda>a. full_name (demo_heap a)) ` set [1, 2, 3]) = 2" by (simp only:) simp
  with checkfordups_exact [OF demo_chains] show ?thesis by auto
qed

end
