(* ===== verification/C_Ieee.thy ===== *)
theory C_Ieee
  imports Complex_Main
begin

text \<open>
  The finite values of C's \<open>float\<close> and \<open>double\<close> are real numbers here, and every operation whose
  result C rounds is followed by \<open>fl32\<close> or \<open>fl64\<close>: IEEE 754 rounding to nearest, ties to even, with
  24 or 53 significant bits and gradual underflow, in the type that C gives to the operation (no wider
  intermediate results, as on x86-64). Numbers are not bounded above: a result beyond
  the largest \<open>float\<close> or \<open>double\<close>, which C makes an infinity, is left out. A result that is not a
  number is \<open>None\<close> where the code can produce one.
\<close>

definition round_even :: "real \<Rightarrow> int" where
  "round_even y =
    (let n = \<lfloor>y\<rfloor>; d = y - of_int n in if d < 1 / 2 \<or> (d = 1 / 2 \<and> even n) then n else n + 1)"

text \<open>The exponent of the last place of \<open>x\<close> in a format with \<open>p\<close> bits and least exponent \<open>e0\<close>.\<close>

definition last_place :: "int \<Rightarrow> int \<Rightarrow> real \<Rightarrow> int" where
  "last_place p e0 x = max e0 (\<lfloor>log 2 \<bar>x\<bar>\<rfloor> + 1 - p)"

definition round_float :: "int \<Rightarrow> int \<Rightarrow> real \<Rightarrow> real" where
  "round_float p e0 x =
    (if x = 0 then 0
     else let u = 2 powi last_place p e0 x in of_int (round_even (x / u)) * u)"

definition fl32 :: "real \<Rightarrow> real" where
  "fl32 x = round_float 24 (- 149) x"

definition fl64 :: "real \<Rightarrow> real" where
  "fl64 x = round_float 53 (- 1074) x"

lemma round_even_of_int [simp]: "round_even (of_int n) = n"
  by (simp add: round_even_def)

lemma round_even_le: "y \<le> of_int n \<Longrightarrow> round_even y \<le> n"
proof (cases "y = of_int n")
  case False
  assume "y \<le> of_int n"
  with False have "\<lfloor>y\<rfloor> < n" by (simp add: floor_less_iff)
  then show ?thesis by (simp add: round_even_def Let_def)
qed simp

lemma log_of_powi: "0 < x \<Longrightarrow> \<lfloor>log 2 x\<rfloor> = n \<Longrightarrow> 2 powi n \<le> x \<and> x < 2 powi (n + 1)"
proof -
  assume "0 < x" "\<lfloor>log 2 x\<rfloor> = n"
  then have "2 powr of_int n \<le> x \<and> x < 2 powr of_int (n + 1)"
    by (metis floor_log_eq_powr_iff one_less_numeral_iff semiring_norm(76) of_int_1 of_int_add)
  moreover have "(2 :: real) powr of_int m = 2 powi m" for m :: int by (simp add: powr_real_of_int')
  ultimately show ?thesis by (simp only:)
qed

section \<open>Numbers that are not rounded\<close>

text \<open>Multiples of \<open>2 ^ q\<close> of less than \<open>p\<close> bits.\<close>

lemma round_float_exact:
  assumes "\<bar>of_int k\<bar> < (2 :: real) powi p" "e0 \<le> q" "x = of_int k * 2 powi q"
  shows "round_float p e0 x = x"
proof (cases "k = 0")
  case False
  define e where "e = last_place p e0 x"
  have x: "\<bar>x\<bar> = \<bar>of_int k\<bar> * 2 powi q" using assms(3) by (simp add: abs_mult power_int_abs)
  then have pos: "0 < \<bar>x\<bar>" using False by simp
  have "\<bar>x\<bar> < 2 powi (p + q)" using x assms(1) by (simp add: power_int_add mult_strict_right_mono)
  moreover have "2 powi \<lfloor>log 2 \<bar>x\<bar>\<rfloor> \<le> \<bar>x\<bar>" using log_of_powi [OF pos refl] by simp
  ultimately have "(2 :: real) powi \<lfloor>log 2 \<bar>x\<bar>\<rfloor> < 2 powi (p + q)" by simp
  then have "\<lfloor>log 2 \<bar>x\<bar>\<rfloor> < p + q"
    using power_int_increasing [of "p + q" "\<lfloor>log 2 \<bar>x\<bar>\<rfloor>" "2 :: real"] by (cases "\<lfloor>log 2 \<bar>x\<bar>\<rfloor> < p + q") auto
  then have e: "e \<le> q" using assms(2) by (simp add: e_def last_place_def)
  have "x / 2 powi e = of_int k * 2 powi (q - e)" using assms(3) by (simp add: power_int_diff)
  also have "\<dots> = of_int (k * 2 ^ nat (q - e))" using e by (simp add: power_int_nonneg_exp)
  finally have int: "x / 2 powi e = of_int (k * 2 ^ nat (q - e))" .
  then have "round_even (x / 2 powi e) = k * 2 ^ nat (q - e)" by (simp only: round_even_of_int)
  then have "of_int (round_even (x / 2 powi e)) = x / 2 powi e"
    by (simp only: int)
  then show ?thesis using pos by (simp add: round_float_def e_def [symmetric] Let_def)
qed (simp add: assms(3) round_float_def)

text \<open>Rounding does not go past a number of the format.\<close>

lemma round_float_le:
  assumes "0 \<le> x" "x \<le> y" "round_float p e0 y = y" "0 \<le> p"
  shows "round_float p e0 x \<le> y"
proof (cases "x = 0")
  case False
  then have pos: "0 < x" "0 < y" using assms by auto
  define e f where "e = last_place p e0 x" and "f = last_place p e0 y"
  have log: "\<lfloor>log 2 x\<rfloor> \<le> \<lfloor>log 2 y\<rfloor>" using pos assms(2) by (intro floor_mono) simp
  then have ef: "e \<le> f" using pos by (simp add: e_def f_def last_place_def)
  have r: "round_float p e0 x = of_int (round_even (x / 2 powi e)) * 2 powi e"
    using pos by (simp add: round_float_def e_def Let_def)
  show ?thesis
  proof (cases "e = f")
    case True
    have y: "y = of_int (round_even (y / 2 powi e)) * 2 powi e"
      using assms(3) pos by (simp add: round_float_def True f_def Let_def)
    then have "x \<le> of_int (round_even (y / 2 powi e)) * 2 powi e" using assms(2) by simp
    then have "x / 2 powi e \<le> of_int (round_even (y / 2 powi e))" by (simp add: pos_divide_le_eq)
    then have "round_even (x / 2 powi e) \<le> round_even (y / 2 powi e)" by (rule round_even_le)
    then have "of_int (round_even (x / 2 powi e)) * 2 powi e \<le> of_int (round_even (y / 2 powi e)) * (2 powi e :: real)"
      by (intro mult_right_mono) simp_all
    then show ?thesis using r y by simp
  next
    case False
    then have "f = \<lfloor>log 2 y\<rfloor> + 1 - p" "e < f" using ef pos by (auto simp: e_def f_def last_place_def)
    then have "(2 :: real) powi (e + p) \<le> 2 powi \<lfloor>log 2 y\<rfloor>" by (intro power_int_increasing) simp_all
    also have "\<dots> \<le> y" using log_of_powi [OF pos(2) refl] by simp
    finally have ey: "2 powi (e + p) \<le> y" .
    have "x < 2 powi (\<lfloor>log 2 x\<rfloor> + 1)" using log_of_powi [OF pos(1) refl] by simp
    also have "\<dots> \<le> 2 powi (e + p)"
      using pos by (intro power_int_increasing) (simp_all add: e_def last_place_def)
    finally have "x / 2 powi e \<le> 2 powi p" by (simp add: power_int_add pos_divide_le_eq mult.commute)
    also have pp: "(2 :: real) powi p = of_int (2 ^ nat p)" using assms(4) by (simp add: power_int_nonneg_exp)
    finally have "round_even (x / 2 powi e) \<le> 2 ^ nat p" by (rule round_even_le)
    then have "real_of_int (round_even (x / 2 powi e)) \<le> 2 powi p" unfolding pp by (simp only: of_int_le_iff)
    then have "of_int (round_even (x / 2 powi e)) * 2 powi e \<le> 2 powi p * (2 powi e :: real)"
      by (intro mult_right_mono) simp_all
    also have "\<dots> = 2 powi (e + p)" by (simp add: power_int_add)
    finally show ?thesis using r ey by simp
  qed
qed (use assms in \<open>simp add: round_float_def\<close>)

lemma fl64_le: "0 \<le> x \<Longrightarrow> x \<le> y \<Longrightarrow> fl64 y = y \<Longrightarrow> fl64 x \<le> y"
  unfolding fl64_def by (rule round_float_le) simp_all

lemma round_float_nonneg: "0 \<le> x \<Longrightarrow> 0 \<le> round_float p e0 x"
proof -
  assume "0 \<le> x"
  then have "0 \<le> x / 2 powi last_place p e0 x" by simp
  then have "0 \<le> \<lfloor>x / 2 powi last_place p e0 x\<rfloor>" by simp
  then have "0 \<le> round_even (x / 2 powi last_place p e0 x)" by (simp add: round_even_def Let_def)
  then show ?thesis by (simp add: round_float_def Let_def)
qed

lemma fl64_nonneg: "0 \<le> x \<Longrightarrow> 0 \<le> fl64 x"
  unfolding fl64_def by (rule round_float_nonneg)

text \<open>The rounding of a number whose size is known.\<close>

lemma round_float_at:
  assumes "2 powi (e + p - 1) \<le> \<bar>x\<bar>" "\<bar>x\<bar> < 2 powi (e + p)" "e0 \<le> e"
  shows "round_float p e0 x = of_int (round_even (x / 2 powi e)) * 2 powi e"
proof -
  have "(0 :: real) < 2 powi (e + p - 1)" by simp
  then have pos: "0 < \<bar>x\<bar>" using assms(1) by linarith
  note l = log_of_powi [OF pos refl]
  have "\<lfloor>log 2 \<bar>x\<bar>\<rfloor> < e + p"
    using l assms(2) power_int_increasing [of "e + p" "\<lfloor>log 2 \<bar>x\<bar>\<rfloor>" "2 :: real"] by (cases "\<lfloor>log 2 \<bar>x\<bar>\<rfloor> < e + p") auto
  moreover have "e + p - 1 < \<lfloor>log 2 \<bar>x\<bar>\<rfloor> + 1"
    using l assms(1) power_int_increasing [of "\<lfloor>log 2 \<bar>x\<bar>\<rfloor> + 1" "e + p - 1" "2 :: real"]
    by (cases "e + p - 1 < \<lfloor>log 2 \<bar>x\<bar>\<rfloor> + 1") auto
  ultimately have "last_place p e0 x = e" using assms(3) by (simp add: last_place_def)
  then show ?thesis using pos by (simp add: round_float_def Let_def)
qed

lemma fl64_exact:
  assumes "x = of_int k / 2 ^ n" "n \<le> 1074" "\<bar>k\<bar> < 2 ^ 53"
  shows "fl64 x = x"
proof -
  have "\<bar>real_of_int k\<bar> < 2 ^ 53" using assms(3) of_int_less_iff [of "\<bar>k\<bar>" "2 ^ 53"] by simp
  then show ?thesis
    using assms(1,2) round_float_exact [of k 53 "- 1074" "- int n" x]
    by (simp add: fl64_def power_int_minus divide_inverse)
qed

lemma fl32_exact:
  assumes "x = of_int k / 2 ^ n" "n \<le> 149" "\<bar>k\<bar> < 2 ^ 24"
  shows "fl32 x = x"
proof -
  have "\<bar>real_of_int k\<bar> < 2 ^ 24" using assms(3) of_int_less_iff [of "\<bar>k\<bar>" "2 ^ 24"] by simp
  then show ?thesis
    using assms(1,2) round_float_exact [of k 24 "- 149" "- int n" x]
    by (simp add: fl32_def power_int_minus divide_inverse)
qed

lemma fl_numeral:
  "numeral n < (2 :: int) ^ 24 \<Longrightarrow> fl32 (numeral n) = numeral n"
  "numeral n < (2 :: int) ^ 53 \<Longrightarrow> fl64 (numeral n) = numeral n"
  by (rule fl32_exact [where k = "numeral n" and n = 0] fl64_exact [where k = "numeral n" and n = 0]; simp)+

lemma fl_zero [simp]: "fl32 0 = 0" "fl64 0 = 0"
  by (simp_all add: fl32_def fl64_def round_float_def)

section \<open>Sums\<close>

text \<open>The sum of a list, rounded to \<open>double\<close> after every addition, as a loop computes it.\<close>

definition sum64 :: "real \<Rightarrow> real list \<Rightarrow> real" where
  "sum64 t xs = foldl (\<lambda>t x. fl64 (t + x)) t xs"

lemma sum64_simps [simp]: "sum64 t [] = t" "sum64 t (x # xs) = sum64 (fl64 (t + x)) xs"
  by (simp_all add: sum64_def)

text \<open>Multiples of \<open>1 / 2 ^ n\<close> whose absolute values do not add up to \<open>53\<close> bits are added exactly.\<close>

definition grid :: "nat \<Rightarrow> real \<Rightarrow> bool" where
  "grid n x \<longleftrightarrow> x * 2 ^ n \<in> \<int>"

lemma grid_add: "grid n x \<Longrightarrow> grid n y \<Longrightarrow> grid n (x + y)"
  by (simp add: grid_def distrib_right)

lemma grid_mult: "grid n x \<Longrightarrow> grid m y \<Longrightarrow> grid (n + m) (x * y)"
  using Ints_mult [of "x * 2 ^ n" "y * 2 ^ m"] by (simp add: grid_def power_add ac_simps)

lemma fl64_grid:
  assumes "grid n x" "n \<le> 1074" "\<bar>x\<bar> * 2 ^ n < 2 ^ 53"
  shows "fl64 x = x"
proof -
  obtain k where k: "x * 2 ^ n = of_int k" using assms(1) by (auto simp: grid_def elim: Ints_cases)
  then have "real_of_int \<bar>k\<bar> < of_int (2 ^ 53)" using assms(3) by (simp add: abs_mult k [symmetric])
  then have "\<bar>k\<bar> < 2 ^ 53" by (simp only: of_int_less_iff)
  moreover have "x = of_int k / 2 ^ n" using k by (simp add: field_simps)
  ultimately show ?thesis using fl64_exact assms(2) by blast
qed

lemma fl32_grid:
  assumes "grid n x" "n \<le> 149" "\<bar>x\<bar> * 2 ^ n < 2 ^ 24"
  shows "fl32 x = x"
proof -
  obtain k where k: "x * 2 ^ n = of_int k" using assms(1) by (auto simp: grid_def elim: Ints_cases)
  then have "real_of_int \<bar>k\<bar> < of_int (2 ^ 24)" using assms(3) by (simp add: abs_mult k [symmetric])
  then have "\<bar>k\<bar> < 2 ^ 24" by (simp only: of_int_less_iff)
  moreover have "x = of_int k / 2 ^ n" using k by (simp add: field_simps)
  ultimately show ?thesis using fl32_exact assms(2) by blast
qed

lemma sum64_exact:
  assumes "\<forall>x \<in> set (t # xs). grid n x" "n \<le> 1074" "(\<bar>t\<bar> + sum_list (map abs xs)) * 2 ^ n < 2 ^ 53"
  shows "sum64 t xs = t + sum_list xs"
  using assms(1,3)
proof (induction xs arbitrary: t)
  case (Cons x xs)
  have g: "grid n (t + x)" using Cons.prems(1) by (simp add: grid_add)
  have pos: "0 \<le> sum_list (map abs xs)" by (rule sum_list_nonneg) auto
  have "(\<bar>t + x\<bar> + sum_list (map abs xs)) * 2 ^ n \<le> (\<bar>t\<bar> + sum_list (map abs (x # xs))) * 2 ^ n"
    by (intro mult_right_mono) (simp_all add: abs_triangle_ineq)
  then have b: "(\<bar>t + x\<bar> + sum_list (map abs xs)) * 2 ^ n < 2 ^ 53"
    using Cons.prems(2) by (rule le_less_trans)
  have "\<bar>t + x\<bar> * 2 ^ n \<le> (\<bar>t + x\<bar> + sum_list (map abs xs)) * 2 ^ n"
    using pos by (intro mult_right_mono) simp_all
  then have "\<bar>t + x\<bar> * 2 ^ n < 2 ^ 53" using b by (rule le_less_trans)
  then have "fl64 (t + x) = t + x" by (rule fl64_grid [OF g assms(2)])
  then show ?case using Cons.IH [OF _ b] Cons.prems(1) g by simp
qed simp

end
