(* ===== verification/Grades_Stats.thy ===== *)
theory Grades_Stats
  imports Grades_Db C_Ieee "HOL-Library.Multiset"
begin

text \<open>
  The per-assignment statistics of the grades program (\<open>grades/src/stats.c\<close>). The statistics
  of the class are a list with one block per assignment, each with a list of one block per
  section; the pointers \<open>cstats\<close> and \<open>sstats\<close> of a score are positions in these lists, and
  following one that is null or leads nowhere is \<open>None\<close>. A fresh block or bucket holds 0 in the
  fields that the code leaves unset; every such field is written before it is read.

  The arithmetic is rounded as in \<open>C_Ieee\<close>. A grade is a \<open>float\<close>, so widening it to \<open>double\<close> and
  narrowing it again, as \<open>do_sums\<close> does with the bounds, does not change it. The standard deviation
  is \<open>None\<close> when it is not a number, which happens when rounding makes the radicand negative. The
  counters are of type \<open>int\<close>: fewer than \<open>2 ^ 31\<close> scores are assumed where this matters.
\<close>

section \<open>The records of stats.h\<close>

record Freqs =
  fq_score :: real
  fq_count :: int
  fq_numless :: int
  fq_numlesseq :: int

record Sectionstats =
  ss_asgt :: nat
  ss_section :: nat
  ss_valid :: int
  ss_tallied :: int
  ss_sum :: real
  ss_sumsq :: real
  ss_min :: real
  ss_max :: real
  ss_mean :: real
  ss_stddev :: "real option"
  ss_freqs :: "Freqs list"

record Classstats =
  cs_asgt :: nat
  cs_valid :: int
  cs_tallied :: int
  cs_sum :: real
  cs_sumsq :: real
  cs_min :: real
  cs_max :: real
  cs_mean :: real
  cs_stddev :: "real option"
  cs_freqs :: "Freqs list"
  cs_sstats :: "Sectionstats list"

type_synonym Stats = "Classstats list"

section \<open>Building and linking\<close>

definition new_sectionstats :: "nat \<Rightarrow> nat \<Rightarrow> Sectionstats" where
  "new_sectionstats ap sp = \<lparr>ss_asgt = ap, ss_section = sp, ss_valid = 0, ss_tallied = 0, ss_sum = 0,
    ss_sumsq = 0, ss_min = 0, ss_max = 0, ss_mean = 0, ss_stddev = Some 0, ss_freqs = []\<rparr>"

definition new_classstats :: "nat \<Rightarrow> Sectionstats list \<Rightarrow> Classstats" where
  "new_classstats ap sstats = \<lparr>cs_asgt = ap, cs_valid = 0, cs_tallied = 0, cs_sum = 0, cs_sumsq = 0,
    cs_min = 0, cs_max = 0, cs_mean = 0, cs_stddev = Some 0, cs_freqs = [], cs_sstats = sstats\<rparr>"

definition buildstats :: "Course \<Rightarrow> Stats" where
  "buildstats c =
    map (\<lambda>ap. new_classstats ap (map (new_sectionstats ap) [0..<length (co_sections c)]))
      [0..<length (co_assignments c)]"

definition link_score :: "nat \<Rightarrow> nat \<Rightarrow> Score \<Rightarrow> Score" where
  "link_score ap ssp scp =
    (if sc_asgt scp = ap then scp\<lparr>sc_cstats := Some ap, sc_sstats := Some (ap, ssp)\<rparr> else scp)"

definition link_student :: "nat \<Rightarrow> nat \<Rightarrow> heap \<Rightarrow> addr option \<Rightarrow> addr option \<Rightarrow> addr
    \<Rightarrow> heap \<times> addr option" where
  "link_student ap ssp h roster rp stp =
    (let (h, roster) =
       (case rp of
          None \<Rightarrow> (h(stp := (h stp)\<lparr>st_cnext := None\<rparr>), Some stp)
        | Some r \<Rightarrow>
            (let h = h(r := (h r)\<lparr>st_cnext := Some stp\<rparr>)
             in (h(stp := (h stp)\<lparr>st_cnext := None\<rparr>), roster)))
     in (h(stp := (h stp)\<lparr>st_rawscores := map (link_score ap ssp) (st_rawscores (h stp))\<rparr>), roster))"

partial_function (option) link_students ::
  "nat \<Rightarrow> nat \<Rightarrow> heap \<Rightarrow> addr option \<Rightarrow> addr option \<Rightarrow> addr option
    \<Rightarrow> (heap \<times> addr option \<times> addr option) option" where
  "link_students ap ssp h roster rp p =
    (case p of
       None \<Rightarrow> Some (h, roster, rp)
     | Some stp \<Rightarrow>
        (let (h, roster) = link_student ap ssp h roster rp stp
         in link_students ap ssp h roster (Some stp) (st_next (h stp))))"

fun link_sections :: "nat \<Rightarrow> nat \<Rightarrow> heap \<Rightarrow> addr option \<Rightarrow> addr option \<Rightarrow> Section list
    \<Rightarrow> (heap \<times> addr option \<times> addr option) option" where
  "link_sections ap ssp h roster rp [] = Some (h, roster, rp)"
| "link_sections ap ssp h roster rp (sep # ss) =
    Option.bind (link_students ap ssp h roster rp (se_roster sep))
      (\<lambda>(h, roster, rp). link_sections ap (ssp + 1) h roster rp ss)"

fun link_assignments :: "nat \<Rightarrow> nat \<Rightarrow> heap \<Rightarrow> addr option \<Rightarrow> addr option \<Rightarrow> Section list
    \<Rightarrow> (heap \<times> addr option) option" where
  "link_assignments ap 0 h roster rp ss = Some (h, roster)"
| "link_assignments ap (Suc n) h roster rp ss =
    Option.bind (link_sections ap 0 h roster rp ss)
      (\<lambda>(h, roster, rp). link_assignments (ap + 1) n h roster rp ss)"

definition do_links :: "heap \<Rightarrow> Course \<Rightarrow> (heap \<times> Course) option" where
  "do_links h c =
    Option.bind (link_assignments 0 (length (co_assignments c)) h None None (co_sections c))
      (\<lambda>(h, roster). Some (h, c\<lparr>co_roster := roster\<rparr>))"

section \<open>Frequency tables\<close>

definition new_bucket :: "Score \<Rightarrow> Freqs" where
  "new_bucket scp = \<lparr>fq_score = sc_grade scp, fq_count = 1, fq_numless = 0, fq_numlesseq = 0\<rparr>"

fun count_score :: "Score \<Rightarrow> Freqs list \<Rightarrow> Freqs list" where
  "count_score scp [] = [new_bucket scp]"
| "count_score scp (fp # fs) =
    (if fq_score fp = sc_grade scp then fp\<lparr>fq_count := fq_count fp + 1\<rparr> # fs
     else if fq_score fp > sc_grade scp then new_bucket scp # fp # fs
     else fp # count_score scp fs)"

definition is_tallied :: "Score \<Rightarrow> bool" where
  "is_tallied scp \<longleftrightarrow> sc_flag scp = VALID \<or> sc_subst scp = USERAW"

definition update_class :: "nat option \<Rightarrow> (Classstats \<Rightarrow> Classstats) \<Rightarrow> Stats \<Rightarrow> Stats option" where
  "update_class p f s =
    (case p of
       None \<Rightarrow> None
     | Some i \<Rightarrow> if i < length s then Some (s[i := f (s ! i)]) else None)"

definition update_section :: "(nat \<times> nat) option \<Rightarrow> (Sectionstats \<Rightarrow> Sectionstats) \<Rightarrow> Stats
    \<Rightarrow> Stats option" where
  "update_section p f s =
    (case p of
       None \<Rightarrow> None
     | Some (i, j) \<Rightarrow>
        if i < length s \<and> j < length (cs_sstats (s ! i))
        then Some (s[i := (s ! i)\<lparr>cs_sstats := (cs_sstats (s ! i))[j := f (cs_sstats (s ! i) ! j)]\<rparr>])
        else None)"

text \<open>The traversal shared by \<open>do_freqs\<close> and \<open>do_sums\<close>: the scores of the students of the
  course roster that are valid or used raw.\<close>

fun each_raw :: "(Score \<Rightarrow> Stats \<Rightarrow> Stats option) \<Rightarrow> Score list \<Rightarrow> Stats \<Rightarrow> Stats option" where
  "each_raw f [] s = Some s"
| "each_raw f (scp # scs) s =
    Option.bind (if is_tallied scp then f scp s else Some s) (\<lambda>s. each_raw f scs s)"

partial_function (option) each_score ::
  "(Score \<Rightarrow> Stats \<Rightarrow> Stats option) \<Rightarrow> heap \<Rightarrow> addr option \<Rightarrow> Stats \<Rightarrow> Stats option" where
  "each_score f h stp s =
    (case stp of
       None \<Rightarrow> Some s
     | Some a \<Rightarrow>
        Option.bind (each_raw f (st_rawscores (h a)) s) (\<lambda>s. each_score f h (st_cnext (h a)) s))"

definition freq_score :: "Score \<Rightarrow> Stats \<Rightarrow> Stats option" where
  "freq_score scp s =
    Option.bind
      (update_class (sc_cstats scp)
        (\<lambda>cs. cs\<lparr>cs_freqs := count_score scp (cs_freqs cs), cs_tallied := cs_tallied cs + 1\<rparr>) s)
      (update_section (sc_sstats scp)
        (\<lambda>ss. ss\<lparr>ss_freqs := count_score scp (ss_freqs ss), ss_tallied := ss_tallied ss + 1\<rparr>))"

definition do_freqs :: "heap \<Rightarrow> Course \<Rightarrow> Stats \<Rightarrow> Stats option" where
  "do_freqs h c s = each_score freq_score h (co_roster c) s"

fun quantile_loop :: "int \<Rightarrow> Freqs list \<Rightarrow> Freqs list" where
  "quantile_loop tot [] = []"
| "quantile_loop tot (fp # fs) =
    fp\<lparr>fq_numless := tot, fq_numlesseq := tot + fq_count fp\<rparr>
      # quantile_loop (tot + fq_count fp) fs"

definition do_quantiles :: "Stats \<Rightarrow> Stats" where
  "do_quantiles s =
    map (\<lambda>csp. csp\<lparr>cs_freqs := quantile_loop 0 (cs_freqs csp),
      cs_sstats := map (\<lambda>ssp. ssp\<lparr>ss_freqs := quantile_loop 0 (ss_freqs ssp)\<rparr>) (cs_sstats csp)\<rparr>) s"

section \<open>Moments\<close>

text \<open>The second comparison, for a section that already has a score, updates the class block.\<close>

definition class_bounds :: "real \<Rightarrow> Classstats \<Rightarrow> Classstats" where
  "class_bounds g cs =
    (let cs = (if g < cs_min cs then cs\<lparr>cs_min := g\<rparr> else cs)
     in if g > cs_max cs then cs\<lparr>cs_max := g\<rparr> else cs)"

definition no_valid_yet :: "(nat \<times> nat) option \<Rightarrow> Stats \<Rightarrow> bool option" where
  "no_valid_yet p s =
    (case p of
       None \<Rightarrow> None
     | Some (i, j) \<Rightarrow>
        if i < length s \<and> j < length (cs_sstats (s ! i)) then Some (ss_valid (cs_sstats (s ! i) ! j) = 0)
        else None)"

definition sum_score :: "Score \<Rightarrow> Stats \<Rightarrow> Stats option" where
  "sum_score scp s =
    (let csp = sc_cstats scp; ssp = sc_sstats scp; g = sc_grade scp; gg = fl64 (g * g) in
     Option.bind
       (update_class csp (\<lambda>cs.
         if cs_valid cs = 0 then cs\<lparr>cs_valid := cs_valid cs + 1, cs_max := g, cs_min := g\<rparr>
         else class_bounds g (cs\<lparr>cs_valid := cs_valid cs + 1\<rparr>)) s) (\<lambda>s.
     Option.bind (no_valid_yet ssp s) (\<lambda>first.
     Option.bind
       (update_section ssp (\<lambda>ss.
         if first then ss\<lparr>ss_valid := ss_valid ss + 1, ss_max := g, ss_min := g\<rparr>
         else ss\<lparr>ss_valid := ss_valid ss + 1\<rparr>) s) (\<lambda>s.
     Option.bind (if first then Some s else update_class csp (class_bounds g) s) (\<lambda>s.
     Option.bind (update_class csp (\<lambda>cs. cs\<lparr>cs_sum := fl64 (cs_sum cs + g)\<rparr>) s) (\<lambda>s.
     Option.bind (update_section ssp (\<lambda>ss. ss\<lparr>ss_sum := fl64 (ss_sum ss + g)\<rparr>) s) (\<lambda>s.
     Option.bind (update_class csp (\<lambda>cs. cs\<lparr>cs_sumsq := fl64 (cs_sumsq cs + gg)\<rparr>) s)
       (update_section ssp (\<lambda>ss. ss\<lparr>ss_sumsq := fl64 (ss_sumsq ss + gg)\<rparr>)))))))))"

definition do_sums :: "heap \<Rightarrow> Course \<Rightarrow> Stats \<Rightarrow> Stats option" where
  "do_sums h c s = each_score sum_score h (co_roster c) s"

definition stddev :: "int \<Rightarrow> real \<Rightarrow> real \<Rightarrow> real option" where
  "stddev n tot sumsq =
    (if n \<ge> 2 then
       let v = fl64 (fl64 (sumsq - fl64 (fl64 (tot * tot) / real_of_int n)) / real_of_int (n - 1))
       in if v < 0 then None else Some (fl64 (sqrt v))
     else Some 0)"

datatype warning_msg =
  Too_few_class nat | No_valid_class nat | Too_few_section nat nat | No_valid_section nat nat

definition class_moments :: "Classstats \<Rightarrow> Classstats \<times> warning_msg list" where
  "class_moments csp =
    (if cs_valid csp \<noteq> 0 then
       let csp = csp\<lparr>cs_mean := fl32 (fl64 (cs_sum csp / real_of_int (cs_valid csp)))\<rparr>
       in if cs_valid csp = 1 then (csp\<lparr>cs_stddev := Some 0\<rparr>, [Too_few_class (cs_asgt csp)])
          else (csp\<lparr>cs_stddev := map_option fl32 (stddev (cs_valid csp) (cs_sum csp) (cs_sumsq csp))\<rparr>, [])
     else (csp\<lparr>cs_mean := 0, cs_stddev := Some 0\<rparr>, [No_valid_class (cs_asgt csp)]))"

definition section_moments :: "Sectionstats \<Rightarrow> Sectionstats \<times> warning_msg list" where
  "section_moments ssp =
    (if ss_valid ssp \<noteq> 0 then
       let ssp = ssp\<lparr>ss_mean := fl32 (fl64 (ss_sum ssp / real_of_int (ss_valid ssp)))\<rparr>
       in if ss_valid ssp = 1 then (ssp\<lparr>ss_stddev := Some 0\<rparr>, [Too_few_section (ss_asgt ssp) (ss_section ssp)])
          else (ssp\<lparr>ss_stddev := map_option fl32 (stddev (ss_valid ssp) (ss_sum ssp) (ss_sumsq ssp))\<rparr>, [])
     else (ssp\<lparr>ss_mean := 0, ss_stddev := Some 0\<rparr>, [No_valid_section (ss_asgt ssp) (ss_section ssp)]))"

definition do_moments :: "Stats \<Rightarrow> Stats \<times> warning_msg list" where
  "do_moments s =
    (map (\<lambda>csp. fst (class_moments csp)\<lparr>cs_sstats := map (fst \<circ> section_moments) (cs_sstats csp)\<rparr>) s,
     concat (map (\<lambda>csp. snd (class_moments csp) @ concat (map (snd \<circ> section_moments) (cs_sstats csp))) s))"

definition statistics :: "heap \<Rightarrow> Course \<Rightarrow> (heap \<times> Course \<times> Stats \<times> warning_msg list) option" where
  "statistics h c =
    (let s = buildstats c in
     Option.bind (do_links h c) (\<lambda>(h, c).
     Option.bind (do_freqs h c s) (\<lambda>s.
     let s = do_quantiles s in
     Option.bind (do_sums h c s) (\<lambda>s.
     let (s, ws) = do_moments s
     in Some (h, c, s, ws)))))"

section \<open>Frequency tables are exact\<close>

definition freq_mset :: "Freqs list \<Rightarrow> real multiset" where
  "freq_mset fs = sum_list (map (\<lambda>fp. replicate_mset (nat (fq_count fp)) (fq_score fp)) fs)"

definition table_ok :: "Freqs list \<Rightarrow> bool" where
  "table_ok fs \<longleftrightarrow> sorted_wrt (<) (map fq_score fs) \<and> (\<forall>fp \<in> set fs. 1 \<le> fq_count fp)"

lemma freq_mset_simps [simp]:
  "freq_mset [] = {#}"
  "freq_mset (fp # fs) = replicate_mset (nat (fq_count fp)) (fq_score fp) + freq_mset fs"
  by (simp_all add: freq_mset_def)

lemma in_freq_mset: "x \<in># freq_mset fs \<Longrightarrow> x \<in> fq_score ` set fs"
  by (induction fs) (auto simp: in_replicate_mset split: if_splits)

lemma count_score_scores:
  "fq_score ` set (count_score scp fs) = insert (sc_grade scp) (fq_score ` set fs)"
  by (induction fs) (auto simp: new_bucket_def)

lemma table_ok_Cons:
  "table_ok (fp # fs) \<longleftrightarrow> 1 \<le> fq_count fp \<and> (\<forall>x \<in> fq_score ` set fs. fq_score fp < x) \<and> table_ok fs"
  by (auto simp: table_ok_def)

lemma count_score_ok:
  assumes "table_ok fs"
  shows "table_ok (count_score scp fs)
    \<and> freq_mset (count_score scp fs) = add_mset (sc_grade scp) (freq_mset fs)"
  using assms
proof (induction fs)
  case Nil
  show ?case by (simp add: table_ok_def new_bucket_def)
next
  case (Cons fp fs)
  then have ih: "table_ok (count_score scp fs)"
    "freq_mset (count_score scp fs) = add_mset (sc_grade scp) (freq_mset fs)"
    by (simp_all add: table_ok_Cons)
  have "nat (fq_count fp + 1) = Suc (nat (fq_count fp))"
    using Cons.prems by (simp add: table_ok_Cons nat_add_distrib)
  moreover have "table_ok (count_score scp (fp # fs))"
    using Cons.prems ih(1) by (auto simp: table_ok_Cons new_bucket_def count_score_scores)
  ultimately show ?case using ih(2) by (simp add: new_bucket_def)
qed

lemma fold_count_score:
  assumes "table_ok fs"
  shows "table_ok (fold count_score scs fs)
    \<and> freq_mset (fold count_score scs fs) = freq_mset fs + mset (map sc_grade scs)"
  using assms by (induction scs arbitrary: fs) (auto simp: count_score_ok)

text \<open>What \<open>do_quantiles\<close> makes of a table.\<close>

definition exact_quantiles :: "Freqs list \<Rightarrow> bool" where
  "exact_quantiles fs \<longleftrightarrow> (\<forall>fp \<in> set fs.
     fq_numless fp = int (size {#x \<in># freq_mset fs. x < fq_score fp#})
     \<and> fq_numlesseq fp = int (size {#x \<in># freq_mset fs. x \<le> fq_score fp#}))"

lemma quantile_loop_scores [simp]:
  "map fq_score (quantile_loop n fs) = map fq_score fs" "map fq_count (quantile_loop n fs) = map fq_count fs"
  by (induction fs arbitrary: n) auto

lemma quantile_loop_mset [simp]: "freq_mset (quantile_loop n fs) = freq_mset fs"
  by (induction fs arbitrary: n) auto

lemma quantile_loop_ok [simp]: "table_ok (quantile_loop n fs) \<longleftrightarrow> table_ok fs"
proof -
  have "(\<forall>fp \<in> set gs. 1 \<le> fq_count fp) \<longleftrightarrow> (\<forall>c \<in> set (map fq_count gs). 1 \<le> c)" for gs :: "Freqs list"
    by simp
  then show ?thesis by (simp only: table_ok_def quantile_loop_scores)
qed

lemma filter_replicate: "filter_mset P (replicate_mset n x) = (if P x then replicate_mset n x else {#})"
  by (induction n) auto

lemma quantile_loop_exact:
  assumes "table_ok fs" "fp \<in> set (quantile_loop n fs)"
  shows "fq_numless fp = n + int (size {#x \<in># freq_mset fs. x < fq_score fp#})
    \<and> fq_numlesseq fp = n + int (size {#x \<in># freq_mset fs. x \<le> fq_score fp#})"
  using assms
proof (induction fs arbitrary: n)
  case (Cons f fs)
  have c: "1 \<le> fq_count f" and fs: "table_ok fs" and above: "\<forall>x \<in> fq_score ` set fs. fq_score f < x"
    using Cons.prems(1) by (auto simp: table_ok_Cons)
  have none: "{#x \<in># freq_mset fs. x < fq_score f#} = {#}" "{#x \<in># freq_mset fs. x \<le> fq_score f#} = {#}"
    using above in_freq_mset [of _ fs] by fastforce+
  show ?case
  proof (cases "fp \<in> set (quantile_loop (n + fq_count f) fs)")
    case True
    moreover have "fq_score f < fq_score fp"
      using True above quantile_loop_scores(1) [of "n + fq_count f" fs] by (metis image_eqI set_map)
    ultimately show ?thesis using c Cons.IH [OF fs True] by (auto simp: filter_replicate)
  next
    case False
    then have "fp = f\<lparr>fq_numless := n, fq_numlesseq := n + fq_count f\<rparr>" using Cons.prems(2) by simp
    then show ?thesis using c none by (simp add: filter_replicate)
  qed
qed simp

lemma quantile_loop_0_exact: "table_ok fs \<Longrightarrow> exact_quantiles (quantile_loop 0 fs)"
  using quantile_loop_exact [of fs _ 0] by (simp add: exact_quantiles_def)

section \<open>The traversal of the scores\<close>

lemma each_raw_append: "each_raw f (xs @ ys) s = Option.bind (each_raw f xs s) (each_raw f ys)"
  by (induction xs arbitrary: s) (auto split: bind_splits)

lemma each_score_chain:
  "chain st_cnext h p xs \<Longrightarrow>
    each_score f h p s = each_raw f (concat (map (\<lambda>a. st_rawscores (h a)) xs)) s"
proof (induction xs arbitrary: p s)
  case Nil
  then show ?case by (simp add: each_score.simps)
next
  case (Cons a xs)
  then have "each_score f h (st_cnext (h a)) = each_raw f (concat (map (\<lambda>a. st_rawscores (h a)) xs))"
    by (intro ext) simp
  then show ?case using Cons.prems by (simp add: each_score.simps [of f h "Some a"] each_raw_append)
qed

text \<open>A step that touches only the block of the score's assignment.\<close>

definition linked :: "Stats \<Rightarrow> Score \<Rightarrow> bool" where
  "linked s scp \<longleftrightarrow> (\<exists>i j. sc_cstats scp = Some i \<and> sc_sstats scp = Some (i, j)
     \<and> i < length s \<and> j < length (cs_sstats (s ! i)))"

abbreviation section_of :: "Score \<Rightarrow> nat" where
  "section_of scp \<equiv> snd (the (sc_sstats scp))"

definition blockwise :: "(Score \<Rightarrow> Stats \<Rightarrow> Stats option) \<Rightarrow> (Score \<Rightarrow> Classstats \<Rightarrow> Classstats) \<Rightarrow> bool" where
  "blockwise f b \<longleftrightarrow> (\<forall>scp s. linked s scp \<longrightarrow>
     f scp s = Some (s[the (sc_cstats scp) := b scp (s ! the (sc_cstats scp))]))
   \<and> (\<forall>scp cs. length (cs_sstats (b scp cs)) = length (cs_sstats cs))"

lemma each_raw_block:
  assumes "blockwise f b" "\<forall>scp \<in> set scs. linked s scp"
  shows "\<exists>s'. each_raw f scs s = Some s' \<and> length s' = length s
    \<and> (\<forall>k < length s. s' ! k = fold b (filter (\<lambda>scp. is_tallied scp \<and> sc_cstats scp = Some k) scs) (s ! k)
         \<and> length (cs_sstats (s' ! k)) = length (cs_sstats (s ! k)))"
  using assms(2)
proof (induction scs arbitrary: s)
  case (Cons scp scs)
  obtain i where i: "sc_cstats scp = Some i" "i < length s" using Cons.prems by (auto simp: linked_def)
  define s1 where "s1 = (if is_tallied scp then s[i := b scp (s ! i)] else s)"
  have f: "(if is_tallied scp then f scp s else Some s) = Some s1"
    using assms(1) Cons.prems i(1) by (simp add: blockwise_def s1_def)
  have len: "length s1 = length s" by (simp add: s1_def)
  have shape: "length (cs_sstats (s1 ! k)) = length (cs_sstats (s ! k))" for k
    using i assms(1) by (cases "k = i") (auto simp: blockwise_def s1_def)
  have "\<forall>scp \<in> set scs. linked s1 scp" using Cons.prems len shape by (simp add: linked_def)
  then obtain s' where s': "each_raw f scs s1 = Some s'" "length s' = length s1"
    "\<And>k. k < length s1 \<Longrightarrow> s' ! k = fold b (filter (\<lambda>scp. is_tallied scp \<and> sc_cstats scp = Some k) scs) (s1 ! k)
       \<and> length (cs_sstats (s' ! k)) = length (cs_sstats (s1 ! k))"
    using Cons.IH [of s1] by blast
  have "each_raw f (scp # scs) s = Some s'" by (simp only: each_raw.simps f bind.simps s'(1))
  moreover have "s' ! k = fold b (filter (\<lambda>scp. is_tallied scp \<and> sc_cstats scp = Some k) (scp # scs)) (s ! k)"
    if "k < length s" for k
  proof -
    have "s' ! k = fold b (filter (\<lambda>scp. is_tallied scp \<and> sc_cstats scp = Some k) scs) (s1 ! k)"
      using s'(3) that len by simp
    then show ?thesis using that i by (cases "k = i") (simp_all add: s1_def)
  qed
  moreover have "length (cs_sstats (s' ! k)) = length (cs_sstats (s ! k))" if "k < length s" for k
    using s'(3) [of k, THEN conjunct2] that len shape by simp
  ultimately show ?case using s'(2) len by (intro exI [of _ s'] conjI allI impI) simp_all
qed simp

definition freq_block :: "Score \<Rightarrow> Classstats \<Rightarrow> Classstats" where
  "freq_block scp cs = cs\<lparr>cs_freqs := count_score scp (cs_freqs cs), cs_tallied := cs_tallied cs + 1,
    cs_sstats := (cs_sstats cs)[section_of scp := (let ss = cs_sstats cs ! section_of scp in
      ss\<lparr>ss_freqs := count_score scp (ss_freqs ss), ss_tallied := ss_tallied ss + 1\<rparr>)]\<rparr>"

lemma freq_score_blockwise: "blockwise freq_score freq_block"
  by (auto simp: blockwise_def linked_def freq_score_def freq_block_def update_class_def
      update_section_def Let_def)

lemma fold_freq_block:
  "cs_freqs (fold freq_block scs cs) = fold count_score scs (cs_freqs cs)"
  "cs_tallied (fold freq_block scs cs) = cs_tallied cs + int (length scs)"
  "length (cs_sstats (fold freq_block scs cs)) = length (cs_sstats cs)"
  "cs_valid (fold freq_block scs cs) = cs_valid cs" "cs_sum (fold freq_block scs cs) = cs_sum cs"
  "cs_sumsq (fold freq_block scs cs) = cs_sumsq cs" "cs_asgt (fold freq_block scs cs) = cs_asgt cs"
  by (induction scs arbitrary: cs) (simp_all add: freq_block_def)

lemma fold_freq_block_section:
  assumes "j < length (cs_sstats cs)"
  shows "cs_sstats (fold freq_block scs cs) ! j =
    (let mine = filter (\<lambda>scp. section_of scp = j) scs; ss = cs_sstats cs ! j
     in ss\<lparr>ss_freqs := fold count_score mine (ss_freqs ss), ss_tallied := ss_tallied ss + int (length mine)\<rparr>)"
  using assms
proof (induction scs arbitrary: cs)
  case (Cons scp scs)
  have "j < length (cs_sstats (freq_block scp cs))" using Cons.prems by (simp add: freq_block_def)
  from Cons.IH [OF this] Cons.prems show ?case
    by (simp add: freq_block_def nth_list_update Let_def)
qed simp

definition sum_block :: "Score \<Rightarrow> Classstats \<Rightarrow> Classstats" where
  "sum_block scp cs =
    (let g = sc_grade scp; j = section_of scp; ss = cs_sstats cs ! j in
     class_bounds g (cs\<lparr>cs_max := (if cs_valid cs = 0 then g else cs_max cs),
       cs_min := (if cs_valid cs = 0 then g else cs_min cs), cs_valid := cs_valid cs + 1,
       cs_sum := fl64 (cs_sum cs + g), cs_sumsq := fl64 (cs_sumsq cs + fl64 (g * g)),
       cs_sstats := (cs_sstats cs)[j := ss\<lparr>ss_valid := ss_valid ss + 1,
         ss_max := (if ss_valid ss = 0 then g else ss_max ss),
         ss_min := (if ss_valid ss = 0 then g else ss_min ss),
         ss_sum := fl64 (ss_sum ss + g), ss_sumsq := fl64 (ss_sumsq ss + fl64 (g * g))\<rparr>]\<rparr>))"

lemma sum_score_blockwise: "blockwise sum_score sum_block"
  unfolding blockwise_def
proof (intro conjI allI impI)
  fix scp s
  assume "linked s scp"
  then obtain i j where ij: "sc_cstats scp = Some i" "sc_sstats scp = Some (i, j)" "i < length s"
    "j < length (cs_sstats (s ! i))" by (auto simp: linked_def)
  define cs where "cs = s ! i"
  define ss where "ss = cs_sstats cs ! j"
  have j: "j < length (cs_sstats cs)" using ij(4) by (simp add: cs_def)
  have "sum_score scp s = Some (s[i := sum_block scp cs])"
    using ij(1-3) j
    by (cases "cs_valid cs = 0"; cases "ss_valid ss = 0")
      (simp_all add: sum_score_def sum_block_def update_class_def update_section_def no_valid_yet_def
        class_bounds_def cs_def [symmetric] ss_def [symmetric] Let_def,
       auto intro!: arg_cong [where f = "list_update s i"] Classstats.equality)
  then show "sum_score scp s = Some (s[the (sc_cstats scp) := sum_block scp (s ! the (sc_cstats scp))])"
    using ij by (simp add: cs_def)
next
  show "length (cs_sstats (sum_block scp cs)) = length (cs_sstats cs)" for scp cs
    by (simp add: sum_block_def class_bounds_def Let_def)
qed

lemma sum_block_fields:
  "cs_valid (sum_block scp cs) = cs_valid cs + 1" "cs_sum (sum_block scp cs) = fl64 (cs_sum cs + sc_grade scp)"
  "cs_sumsq (sum_block scp cs) = fl64 (cs_sumsq cs + fl64 (sc_grade scp * sc_grade scp))"
  "cs_freqs (sum_block scp cs) = cs_freqs cs" "cs_tallied (sum_block scp cs) = cs_tallied cs"
  "cs_asgt (sum_block scp cs) = cs_asgt cs"
  "length (cs_sstats (sum_block scp cs)) = length (cs_sstats cs)"
  "cs_min (sum_block scp cs) = (if cs_valid cs = 0 then sc_grade scp else min (cs_min cs) (sc_grade scp))"
  "cs_max (sum_block scp cs) = (if cs_valid cs = 0 then sc_grade scp else max (cs_max cs) (sc_grade scp))"
  by (simp_all add: sum_block_def class_bounds_def Let_def min_def max_def)

abbreviation square64 :: "real \<Rightarrow> real" where
  "square64 g \<equiv> fl64 (g * g)"

lemma fold_sum_block:
  "cs_valid (fold sum_block scs cs) = cs_valid cs + int (length scs)"
  "cs_sum (fold sum_block scs cs) = sum64 (cs_sum cs) (map sc_grade scs)"
  "cs_sumsq (fold sum_block scs cs) = sum64 (cs_sumsq cs) (map (square64 \<circ> sc_grade) scs)"
  "cs_freqs (fold sum_block scs cs) = cs_freqs cs" "cs_tallied (fold sum_block scs cs) = cs_tallied cs"
  "cs_asgt (fold sum_block scs cs) = cs_asgt cs"
  "length (cs_sstats (fold sum_block scs cs)) = length (cs_sstats cs)"
  by (induction scs arbitrary: cs) (simp_all add: sum_block_fields)

lemma fold_sum_block_bounds:
  assumes "0 < cs_valid cs"
  shows "cs_min (fold sum_block scs cs) = Min (insert (cs_min cs) (sc_grade ` set scs))
    \<and> cs_max (fold sum_block scs cs) = Max (insert (cs_max cs) (sc_grade ` set scs))"
  using assms
proof (induction scs arbitrary: cs)
  case (Cons scp scs)
  have mm: "Min (insert (min a b) S) = Min (insert a (insert b S))"
    "Max (insert (max a b) S) = Max (insert a (insert b S))" if "finite S" for a b :: real and S
    using that by (cases "S = {}"; simp add: min.assoc max.assoc)+
  from Cons show ?case by (simp add: sum_block_fields mm)
qed simp

lemma fold_sum_block_section:
  assumes "j < length (cs_sstats cs)" "0 \<le> ss_valid (cs_sstats cs ! j)"
  shows "cs_sstats (fold sum_block scs cs) ! j =
    (let mine = filter (\<lambda>scp. section_of scp = j) scs; ss = cs_sstats cs ! j;
         first = ss_valid ss = 0 \<and> mine \<noteq> []
     in ss\<lparr>ss_valid := ss_valid ss + int (length mine),
       ss_max := (if first then sc_grade (hd mine) else ss_max ss),
       ss_min := (if first then sc_grade (hd mine) else ss_min ss),
       ss_sum := sum64 (ss_sum ss) (map sc_grade mine),
       ss_sumsq := sum64 (ss_sumsq ss) (map (square64 \<circ> sc_grade) mine)\<rparr>)"
  using assms
proof (induction scs arbitrary: cs)
  case (Cons scp scs)
  let ?cs = "sum_block scp cs"
  have new: "section_of scp = j \<Longrightarrow> cs_sstats ?cs ! j = (let ss = cs_sstats cs ! j; g = sc_grade scp in
      ss\<lparr>ss_valid := ss_valid ss + 1, ss_max := (if ss_valid ss = 0 then g else ss_max ss),
        ss_min := (if ss_valid ss = 0 then g else ss_min ss),
        ss_sum := fl64 (ss_sum ss + g), ss_sumsq := fl64 (ss_sumsq ss + fl64 (g * g))\<rparr>)"
    and other: "section_of scp \<noteq> j \<Longrightarrow> cs_sstats ?cs ! j = cs_sstats cs ! j"
    using Cons.prems by (simp_all add: sum_block_def class_bounds_def Let_def)
  have "j < length (cs_sstats ?cs)" "0 \<le> ss_valid (cs_sstats ?cs ! j)"
    using Cons.prems new other by (cases "section_of scp = j"; simp add: sum_block_fields Let_def)+
  note ih = Cons.IH [OF this]
  show ?case
  proof (cases "section_of scp = j")
    case True
    then show ?thesis using ih new Cons.prems by (simp add: Let_def)
  next
    case False
    then show ?thesis using ih other by simp
  qed
qed simp

section \<open>Linking\<close>

definition link_from :: "nat \<Rightarrow> nat \<Rightarrow> nat \<Rightarrow> Score \<Rightarrow> Score" where
  "link_from ap n j scp =
    (if ap \<le> sc_asgt scp \<and> sc_asgt scp < ap + n
     then scp\<lparr>sc_cstats := Some (sc_asgt scp), sc_sstats := Some (sc_asgt scp, j)\<rparr> else scp)"

lemma link_from_simps:
  "link_from ap 0 j scp = scp" "link_from (ap + 1) n j (link_score ap j scp) = link_from ap (Suc n) j scp"
  by (auto simp: link_from_def link_score_def)

text \<open>What stays of a student when it is linked: all but the course link and the scores.\<close>

definition frame :: "Student \<Rightarrow> Student" where
  "frame s = s\<lparr>st_cnext := None, st_rawscores := []\<rparr>"

lemma frame_next: "frame s = frame t \<Longrightarrow> st_next s = st_next t"
proof -
  have "st_next (frame u) = st_next u" for u by (simp add: frame_def)
  then show "frame s = frame t \<Longrightarrow> st_next s = st_next t" by metis
qed

text \<open>
  The state of the linking loops while they go through the students \<open>all\<close>, of which \<open>done\<close>
  have been visited in the present round; the first round starts with no \<open>rp\<close>, a later one
  with the roster of the round before.
\<close>

definition link_inv :: "addr list \<Rightarrow> heap \<Rightarrow> addr option \<Rightarrow> addr option \<Rightarrow> addr list \<Rightarrow> bool" where
  "link_inv all h roster rp done \<longleftrightarrow>
    (if done = [] then rp = None \<or> roster = Some (hd all)
     else roster = Some (hd all) \<and> rp = Some (last done) \<and> chain st_cnext h roster done)"

lemma chain_snoc:
  assumes "chain nxt h p (xs @ [r])" "a \<notin> set (xs @ [r])" "\<And>b. b \<noteq> r \<Longrightarrow> b \<noteq> a \<Longrightarrow> nxt (h' b) = nxt (h b)"
    "nxt (h' r) = Some a" "nxt (h' a) = None"
  shows "chain nxt h' p (xs @ [r, a])"
  using assms(1,2)
proof (induction xs arbitrary: p)
  case (Cons x xs)
  then have "x \<noteq> r" using chain_distinct [OF Cons.prems(1)] by auto
  then show ?case using Cons assms(3) [of x] by auto
qed (use assms in auto)

lemma link_student_spec:
  assumes inv: "link_inv all h roster rp done" and all: "all = done @ stp # rest" "distinct all"
    and r: "link_student ap ssp h roster rp stp = (h', roster')"
  shows "link_inv all h' roster' (Some stp) (done @ [stp])
    \<and> (\<forall>b. frame (h' b) = frame (h b))
    \<and> (\<forall>b. st_rawscores (h' b) =
          (if b = stp then map (link_score ap ssp) (st_rawscores (h b)) else st_rawscores (h b)))"
proof (cases rp)
  case None
  then have "done = []" using inv by (auto simp: link_inv_def split: if_splits)
  with None r all show ?thesis
    by (auto simp: link_student_def link_inv_def frame_def)
next
  case (Some q)
  define h1 where "h1 = h(q := (h q)\<lparr>st_cnext := Some stp\<rparr>)"
  have h': "h' = (let h2 = h1(stp := (h1 stp)\<lparr>st_cnext := None\<rparr>)
      in h2(stp := (h2 stp)\<lparr>st_rawscores := map (link_score ap ssp) (st_rawscores (h2 stp))\<rparr>))"
    and roster': "roster' = roster"
    using r Some by (auto simp: link_student_def h1_def Let_def)
  have fr: "frame (h' b) = frame (h b)" "st_rawscores (h' b) =
      (if b = stp then map (link_score ap ssp) (st_rawscores (h b)) else st_rawscores (h b))" for b
    by (auto simp: h' h1_def frame_def)
  have "link_inv all h' roster' (Some stp) (done @ [stp])"
  proof (cases "done = []")
    case True
    then show ?thesis using inv all Some by (simp add: link_inv_def roster' h')
  next
    case False
    then have d: "done = butlast done @ [q]" "roster = Some (hd all)" "chain st_cnext h roster done"
      using inv Some by (auto simp: link_inv_def)
    have "stp \<notin> set done" using all by simp
    have "chain st_cnext h' roster (butlast done @ [q, stp])"
    proof (rule chain_snoc)
      show "chain st_cnext h roster (butlast done @ [q])" using d by simp
      show "stp \<notin> set (butlast done @ [q])" using \<open>stp \<notin> set done\<close> d(1) by metis
      then have "q \<noteq> stp" by simp
      then show "st_cnext (h' q) = Some stp" by (simp add: h' h1_def)
      show "st_cnext (h' stp) = None" by (simp add: h')
      show "st_cnext (h' b) = st_cnext (h b)" if "b \<noteq> q" "b \<noteq> stp" for b
        using that by (simp add: h' h1_def)
    qed
    moreover have "butlast done @ [q, stp] = done @ [stp]" using d(1) by (metis append.assoc append_Cons append_Nil)
    ultimately show ?thesis using d by (simp add: link_inv_def roster')
  qed
  then show ?thesis using fr by simp
qed

lemma link_students_spec:
  assumes "link_inv all h roster rp done" "all = done @ xs @ rest" "distinct all" "chain st_next h p xs"
  shows "\<exists>h' roster' rp'. link_students ap ssp h roster rp p = Some (h', roster', rp')
    \<and> link_inv all h' roster' rp' (done @ xs) \<and> (xs = [] \<longrightarrow> roster' = roster)
    \<and> (\<forall>b. frame (h' b) = frame (h b))
    \<and> (\<forall>b. st_rawscores (h' b) =
          (if b \<in> set xs then map (link_score ap ssp) (st_rawscores (h b)) else st_rawscores (h b)))"
  using assms
proof (induction xs arbitrary: h roster rp p "done")
  case Nil
  then show ?case by (simp add: link_students.simps)
next
  case (Cons a xs)
  obtain h1 r1 where s: "link_student ap ssp h roster rp a = (h1, r1)" by fastforce
  have 1: "link_inv all h1 r1 (Some a) (done @ [a])" "\<forall>b. frame (h1 b) = frame (h b)"
    "\<forall>b. st_rawscores (h1 b) =
       (if b = a then map (link_score ap ssp) (st_rawscores (h b)) else st_rawscores (h b))"
    using link_student_spec [OF Cons.prems(1) _ Cons.prems(3) s, of "xs @ rest"] Cons.prems(2) by auto
  have nx: "st_next (h1 b) = st_next (h b)" for b using 1(2) frame_next by blast
  then have c: "chain st_next h1 (st_next (h1 a)) xs"
    using Cons.prems(4) chain_cong [of xs st_next h h1 "st_next (h a)"] by simp
  have all: "all = (done @ [a]) @ xs @ rest" using Cons.prems(2) by simp
  obtain h2 r2 rp2 where 2: "link_students ap ssp h1 r1 (Some a) (st_next (h1 a)) = Some (h2, r2, rp2)"
    "link_inv all h2 r2 rp2 ((done @ [a]) @ xs)" "xs = [] \<longrightarrow> r2 = r1" "\<forall>b. frame (h2 b) = frame (h1 b)"
    "\<forall>b. st_rawscores (h2 b) =
       (if b \<in> set xs then map (link_score ap ssp) (st_rawscores (h1 b)) else st_rawscores (h1 b))"
    using Cons.IH [OF 1(1) all Cons.prems(3) c] by (elim exE conjE) (rule that)
  have "a \<notin> set xs" using Cons.prems(2,3) by auto
  moreover have "link_students ap ssp h roster rp p = Some (h2, r2, rp2)"
    using Cons.prems(4) s 2(1) by (subst link_students.simps) simp
  ultimately show ?case using 1 2 by auto
qed

text \<open>The scores of the students of each section are mapped by a function of the section.\<close>

definition scores_mapped :: "(nat \<Rightarrow> Score \<Rightarrow> Score) \<Rightarrow> addr list list \<Rightarrow> heap \<Rightarrow> heap \<Rightarrow> bool" where
  "scores_mapped f xss h h' \<longleftrightarrow>
    (\<forall>k < length xss. \<forall>b \<in> set (xss ! k). st_rawscores (h' b) = map (f k) (st_rawscores (h b)))
    \<and> (\<forall>b. b \<notin> set (concat xss) \<longrightarrow> st_rawscores (h' b) = st_rawscores (h b))"

lemma scores_mapped_Cons:
  assumes "distinct (concat (xs # xss))"
    and "\<forall>b. st_rawscores (h1 b) = (if b \<in> set xs then map (f 0) (st_rawscores (h b)) else st_rawscores (h b))"
    and "scores_mapped (\<lambda>k. f (Suc k)) xss h1 h2"
  shows "scores_mapped f (xs # xss) h h2"
  unfolding scores_mapped_def
proof (intro conjI allI impI ballI)
  fix k b
  assume k: "k < length (xs # xss)" "b \<in> set ((xs # xss) ! k)"
  show "st_rawscores (h2 b) = map (f k) (st_rawscores (h b))"
  proof (cases k)
    case 0
    then have "b \<notin> set (concat xss)" using k assms(1) by auto
    then show ?thesis using 0 k assms(2,3) by (simp add: scores_mapped_def)
  next
    case (Suc m)
    then have b: "m < length xss" "b \<in> set (xss ! m)" using k by auto
    then have "b \<in> set (concat xss)" by (auto intro: nth_mem)
    then have "b \<notin> set xs" using assms(1) by auto
    then show ?thesis using Suc b assms(2,3) by (simp add: scores_mapped_def)
  qed
next
  fix b
  assume "b \<notin> set (concat (xs # xss))"
  then show "st_rawscores (h2 b) = st_rawscores (h b)" using assms(2,3) by (simp add: scores_mapped_def)
qed

abbreviation sections_are :: "heap \<Rightarrow> Section list \<Rightarrow> addr list list \<Rightarrow> bool" where
  "sections_are h ss xss \<equiv> list_all2 (\<lambda>s ys. chain st_next h (se_roster s) ys) ss xss"

lemma sections_are_frame:
  assumes "sections_are h ss xss" "\<forall>b. frame (h' b) = frame (h b)"
  shows "sections_are h' ss xss"
  using assms(1)
proof (rule list.rel_mono_strong)
  fix s ys
  assume "chain st_next h (se_roster s) ys"
  then show "chain st_next h' (se_roster s) ys"
    using chain_cong [of ys st_next h h' "se_roster s"] assms(2) frame_next by metis
qed

lemma link_sections_spec:
  assumes "link_inv all h roster rp done" "all = done @ concat xss @ rest" "distinct all" "sections_are h ss xss"
  shows "\<exists>h' roster' rp'. link_sections ap ssp h roster rp ss = Some (h', roster', rp')
    \<and> link_inv all h' roster' rp' (done @ concat xss) \<and> (concat xss = [] \<longrightarrow> roster' = roster)
    \<and> (\<forall>b. frame (h' b) = frame (h b)) \<and> scores_mapped (\<lambda>k. link_score ap (ssp + k)) xss h h'"
  using assms
proof (induction ss arbitrary: h roster rp "done" xss ssp)
  case Nil
  then show ?case by (simp add: scores_mapped_def)
next
  case (Cons s ss)
  then obtain xs yss where x: "xss = xs # yss" "chain st_next h (se_roster s) xs" "sections_are h ss yss"
    by (auto simp: list_all2_Cons1)
  have all: "all = done @ xs @ concat yss @ rest" using Cons.prems(2) x(1) by simp
  obtain h1 r1 rp1 where 1: "link_students ap ssp h roster rp (se_roster s) = Some (h1, r1, rp1)"
    "link_inv all h1 r1 rp1 (done @ xs)" "xs = [] \<longrightarrow> r1 = roster" "\<forall>b. frame (h1 b) = frame (h b)"
    "\<forall>b. st_rawscores (h1 b) =
       (if b \<in> set xs then map (link_score ap ssp) (st_rawscores (h b)) else st_rawscores (h b))"
    using link_students_spec [OF Cons.prems(1) all Cons.prems(3) x(2), where ap = ap and ssp = ssp]
    by (elim exE conjE) (rule that)
  have all': "all = (done @ xs) @ concat yss @ rest" using all by simp
  obtain h2 r2 rp2 where 2: "link_sections ap (ssp + 1) h1 r1 rp1 ss = Some (h2, r2, rp2)"
    "link_inv all h2 r2 rp2 ((done @ xs) @ concat yss)" "concat yss = [] \<longrightarrow> r2 = r1" "\<forall>b. frame (h2 b) = frame (h1 b)"
    "scores_mapped (\<lambda>k. link_score ap (ssp + 1 + k)) yss h1 h2"
    using Cons.IH [OF 1(2) all' Cons.prems(3) sections_are_frame [OF x(3) 1(4)], where ssp = "ssp + 1"]
    by (elim exE conjE) (rule that)
  have "scores_mapped (\<lambda>k. link_score ap (ssp + k)) xss h h2"
    unfolding x(1)
    by (rule scores_mapped_Cons [where ?h1.0 = h1]) (use all Cons.prems(3) 1(5) 2(5) in auto)
  then show ?case using 1 2 x(1) by auto
qed

lemma scores_mapped_trans:
  assumes "scores_mapped f xss h h1" "scores_mapped g xss h1 h2" "\<And>k scp. g k (f k scp) = e k scp"
  shows "scores_mapped e xss h h2"
  using assms by (auto simp: scores_mapped_def comp_def)

lemma link_assignments_spec:
  assumes "link_inv all h roster rp []" "all = concat xss" "distinct all" "sections_are h ss xss"
  shows "\<exists>h' roster'. link_assignments ap n h roster rp ss = Some (h', roster')
    \<and> (n = 0 \<or> all = [] \<longrightarrow> roster' = roster) \<and> (n = 0 \<longrightarrow> h' = h)
    \<and> (0 < n \<and> all \<noteq> [] \<longrightarrow> chain st_cnext h' roster' all)
    \<and> (\<forall>b. frame (h' b) = frame (h b)) \<and> scores_mapped (link_from ap n) xss h h'"
  using assms
proof (induction n arbitrary: h roster rp ap)
  case 0
  then show ?case by (simp add: scores_mapped_def link_from_simps)
next
  case (Suc n)
  have all: "all = [] @ concat xss @ []" using Suc.prems(2) by simp
  obtain h1 r1 rp1 where 1: "link_sections ap 0 h roster rp ss = Some (h1, r1, rp1)"
    "link_inv all h1 r1 rp1 ([] @ concat xss)" "concat xss = [] \<longrightarrow> r1 = roster" "\<forall>b. frame (h1 b) = frame (h b)"
    "scores_mapped (\<lambda>k. link_score ap (0 + k)) xss h h1"
    using link_sections_spec [OF Suc.prems(1) all Suc.prems(3,4), where ap = ap and ssp = 0]
    by (elim exE conjE) (rule that)
  have inv: "link_inv all h1 r1 rp1 []" using 1(2) Suc.prems(2) by (auto simp: link_inv_def split: if_splits)
  obtain h2 r2 where 2: "link_assignments (ap + 1) n h1 r1 rp1 ss = Some (h2, r2)"
    "n = 0 \<or> all = [] \<longrightarrow> r2 = r1" "n = 0 \<longrightarrow> h2 = h1" "0 < n \<and> all \<noteq> [] \<longrightarrow> chain st_cnext h2 r2 all"
    "\<forall>b. frame (h2 b) = frame (h1 b)" "scores_mapped (link_from (ap + 1) n) xss h1 h2"
    using Suc.IH [OF inv Suc.prems(2,3) sections_are_frame [OF Suc.prems(4) 1(4)], where ap = "ap + 1"]
    by (elim exE conjE) (rule that)
  have "all \<noteq> [] \<longrightarrow> chain st_cnext h2 r2 all"
    using 1(2) 2(2-4) Suc.prems(2) by (cases "n = 0") (auto simp: link_inv_def simp del: concat_eq_Nil_conv)
  moreover have "all = [] \<longrightarrow> r1 = roster" using 1(3) Suc.prems(2) by simp
  moreover have "scores_mapped (link_from ap (Suc n)) xss h h2"
    by (rule scores_mapped_trans [OF 1(5) 2(6)]) (simp add: link_from_simps(2) [simplified])
  ultimately show ?case using 1(1,4) 2 by auto
qed

lemma do_links_spec:
  assumes "sections_are h (co_sections c) xss" "distinct (concat xss)"
  shows "\<exists>h' c'. do_links h c = Some (h', c') \<and> c' = c\<lparr>co_roster := co_roster c'\<rparr>
    \<and> chain st_cnext h' (co_roster c') (if co_assignments c = [] then [] else concat xss)
    \<and> (\<forall>b. frame (h' b) = frame (h b))
    \<and> scores_mapped (link_from 0 (length (co_assignments c))) xss h h'"
proof -
  have "link_inv (concat xss) h None None []" by (simp add: link_inv_def)
  note spec = link_assignments_spec [OF this refl assms(2,1), where ap = 0 and n = "length (co_assignments c)"]
  then obtain h' r where 1: "link_assignments 0 (length (co_assignments c)) h None None (co_sections c) = Some (h', r)"
    "length (co_assignments c) = 0 \<or> concat xss = [] \<longrightarrow> r = None"
    "0 < length (co_assignments c) \<and> concat xss \<noteq> [] \<longrightarrow> chain st_cnext h' r (concat xss)"
    "\<forall>b. frame (h' b) = frame (h b)" "scores_mapped (link_from 0 (length (co_assignments c))) xss h h'"
    by (elim exE conjE) (rule that)
  then have "chain st_cnext h' r (if co_assignments c = [] then [] else concat xss)"
    by (cases "concat xss = []") (auto simp del: concat_eq_Nil_conv)
  with 1 show ?thesis
    by (intro exI [of _ h'] exI [of _ "c\<lparr>co_roster := r\<rparr>"]) (simp add: do_links_def)
qed

section \<open>The statistics of a course\<close>

text \<open>The scores of a list of students, and those of an assignment that are tallied.\<close>

definition scores_of :: "heap \<Rightarrow> addr list \<Rightarrow> Score list" where
  "scores_of h xs = concat (map (\<lambda>a. st_rawscores (h a)) xs)"

definition grades_for :: "heap \<Rightarrow> addr list \<Rightarrow> nat \<Rightarrow> real list" where
  "grades_for h xs i = map sc_grade (filter (\<lambda>scp. is_tallied scp \<and> sc_asgt scp = i) (scores_of h xs))"

definition mean_of :: "real list \<Rightarrow> real" where
  "mean_of gs = (if gs = [] then 0 else sum_list gs / real (length gs))"

definition squares :: "real list \<Rightarrow> real list" where
  "squares gs = map (\<lambda>g. g * g) gs"

text \<open>What the loops leave in a block: sums rounded in roster order, and the moments made of them.\<close>

definition sum_of :: "real list \<Rightarrow> real" where
  "sum_of gs = sum64 0 gs"

definition sumsq_of :: "real list \<Rightarrow> real" where
  "sumsq_of gs = sum64 0 (map square64 gs)"

definition mean32 :: "real list \<Rightarrow> real" where
  "mean32 gs = (if gs = [] then 0 else fl32 (fl64 (sum_of gs / real (length gs))))"

definition stddev32 :: "real list \<Rightarrow> real option" where
  "stddev32 gs =
    (if length gs < 2 then Some 0 else map_option fl32 (stddev (int (length gs)) (sum_of gs) (sumsq_of gs)))"

text \<open>
  Grades in eighths of a point, of at most 8192 points, and at most 1024 of them: nothing is
  rounded in the sums, the mean is the mean rounded once to \<open>double\<close> and once to \<open>float\<close>, and the
  standard deviation is a number.
\<close>

definition eighths :: "real list \<Rightarrow> bool" where
  "eighths gs \<longleftrightarrow> length gs \<le> 2 ^ 10 \<and> (\<forall>g \<in> set gs. grid 3 g \<and> \<bar>g\<bar> \<le> 2 ^ 13)"

lemma sum_abs_le:
  assumes "\<forall>x \<in> set xs. \<bar>x\<bar> \<le> (b :: real)"
  shows "sum_list (map abs xs) \<le> real (length xs) * b"
  using assms by (induction xs) (auto simp: distrib_right)

lemma sum_bounded_exact:
  assumes "length xs \<le> 2 ^ 10" "\<forall>x \<in> set xs. grid n x \<and> \<bar>x\<bar> \<le> b" "n \<le> 1074" "0 \<le> b" "2 ^ 10 * b * 2 ^ n < 2 ^ 53"
  shows "sum64 0 xs = sum_list xs \<and> grid n (sum_list xs) \<and> \<bar>sum_list xs\<bar> \<le> 2 ^ 10 * b"
proof -
  have "sum_list (map abs xs) \<le> real (length xs) * b" using assms(2) by (intro sum_abs_le) simp
  also have "\<dots> \<le> 2 ^ 10 * b"
    using assms(1,4) of_nat_mono [of "length xs" "2 ^ 10", where 'a = real] by (intro mult_right_mono) simp_all
  finally have sb: "sum_list (map abs xs) \<le> 2 ^ 10 * b" .
  then have "sum_list (map abs xs) * 2 ^ n \<le> 2 ^ 10 * b * 2 ^ n" by (intro mult_right_mono) simp_all
  then have b: "sum_list (map abs xs) * 2 ^ n < 2 ^ 53" using assms(5) by (rule le_less_trans)
  have "\<bar>sum_list xs\<bar> \<le> 2 ^ 10 * b" using sum_list_abs [of xs] sb by (rule order_trans)
  moreover have "grid n (sum_list xs)" using assms(2) by (induction xs) (simp_all add: grid_add grid_def [of _ 0])
  moreover have "sum64 0 xs = 0 + sum_list xs"
    using assms(2,3) b by (intro sum64_exact [of _ _ n]) (simp_all add: grid_def [of _ 0])
  ultimately show ?thesis by simp
qed

lemma eighths_sums:
  assumes "eighths gs"
  shows "sum_of gs = sum_list gs" "sumsq_of gs = sum_list (squares gs)" "fl64 (sumsq_of gs) = sumsq_of gs"
    "fl64 (sum_of gs * sum_of gs) = sum_list gs * sum_list gs"
proof -
  note gs = assms [unfolded eighths_def]
  have s: "sum64 0 gs = sum_list gs \<and> grid 3 (sum_list gs) \<and> \<bar>sum_list gs\<bar> \<le> 2 ^ 10 * 2 ^ 13"
    using gs by (intro sum_bounded_exact) simp_all
  then show "sum_of gs = sum_list gs" by (simp add: sum_of_def)
  have "\<bar>sum_list gs\<bar> * \<bar>sum_list gs\<bar> \<le> 2 ^ 23 * 2 ^ 23" using s by (intro mult_mono) simp_all
  then have "\<bar>sum_list gs * sum_list gs\<bar> * 2 ^ 6 \<le> 2 ^ 46 * 2 ^ 6"
    unfolding abs_mult by (intro mult_right_mono) simp_all
  then have "fl64 (sum_list gs * sum_list gs) = sum_list gs * sum_list gs"
    using grid_mult [of 3 _ 3] s by (intro fl64_grid [of 6]) auto
  with s show "fl64 (sum_of gs * sum_of gs) = sum_list gs * sum_list gs" by (simp add: sum_of_def)
  have sq: "grid 6 (g * g) \<and> \<bar>g * g\<bar> \<le> 2 ^ 26" if "g \<in> set gs" for g
  proof -
    have g: "grid 3 g" "\<bar>g\<bar> \<le> 2 ^ 13" using gs that by auto
    have "\<bar>g\<bar> * \<bar>g\<bar> \<le> 2 ^ 13 * 2 ^ 13" using g(2) by (intro mult_mono) simp_all
    then show ?thesis using grid_mult [OF g(1) g(1)] by (simp add: abs_mult)
  qed
  have r: "square64 g = g * g" if "g \<in> set gs" for g
  proof -
    have "\<bar>g * g\<bar> * 2 ^ 6 \<le> 2 ^ 26 * 2 ^ 6" using sq [OF that] by (intro mult_right_mono) simp_all
    then have "\<bar>g * g\<bar> * 2 ^ 6 < 2 ^ 53" by simp
    then show ?thesis using sq [OF that] by (intro fl64_grid [of 6]) simp_all
  qed
  then have "map square64 gs = squares gs" by (simp add: squares_def)
  moreover have "\<forall>x \<in> set (squares gs). grid 6 x \<and> \<bar>x\<bar> \<le> 2 ^ 26" using sq by (auto simp: squares_def)
  then have q: "sum64 0 (squares gs) = sum_list (squares gs) \<and> grid 6 (sum_list (squares gs))
      \<and> \<bar>sum_list (squares gs)\<bar> \<le> 2 ^ 10 * 2 ^ 26"
    using gs by (intro sum_bounded_exact) (simp_all add: squares_def)
  then have "\<bar>sum_list (squares gs)\<bar> * 2 ^ 6 \<le> 2 ^ 36 * 2 ^ 6" by (intro mult_right_mono) simp_all
  then have "fl64 (sum_list (squares gs)) = sum_list (squares gs)"
    using q by (intro fl64_grid [of 6]) auto
  ultimately show "sumsq_of gs = sum_list (squares gs)" "fl64 (sumsq_of gs) = sumsq_of gs"
    using q by (simp_all add: sumsq_of_def)
qed

lemma sum_sq_dev:
  "sum_list (map (\<lambda>g. (g - m)\<^sup>2) gs) = sum_list (squares gs) - 2 * m * sum_list gs + real (length gs) * m\<^sup>2"
  by (induction gs) (simp_all add: squares_def algebra_simps power2_eq_square)

lemma square_of_sum_le:
  assumes "gs \<noteq> []"
  shows "sum_list gs * sum_list gs / real (length gs) \<le> sum_list (squares gs)"
proof -
  have n: "real (length gs) \<noteq> 0" using assms by simp
  have "0 \<le> sum_list (map (\<lambda>g. (g - sum_list gs / real (length gs))\<^sup>2) gs)" by (rule sum_list_nonneg) auto
  also have "\<dots> = sum_list (squares gs) - sum_list gs * sum_list gs / real (length gs)"
    unfolding sum_sq_dev using n by (simp add: field_simps power2_eq_square)
  finally show ?thesis by simp
qed

lemma eighths_stddev:
  assumes "eighths gs"
  shows "stddev32 gs \<noteq> None"
proof (cases "length gs < 2")
  case False
  then have gs: "gs \<noteq> []" by auto
  let ?v = "fl64 (fl64 (sum_of gs * sum_of gs) / real (length gs))"
  note e = eighths_sums [OF assms]
  have "?v \<le> sumsq_of gs"
    using square_of_sum_le [OF gs] e(3) unfolding e(2,4) by (intro fl64_le) simp_all
  then have "0 \<le> sumsq_of gs - ?v" by simp
  then have "0 \<le> fl64 (sumsq_of gs - ?v)" by (rule fl64_nonneg)
  then have "0 \<le> fl64 (sumsq_of gs - ?v) / real_of_int (int (length gs) - 1)"
    using False by (intro divide_nonneg_nonneg) simp_all
  then have "0 \<le> fl64 (fl64 (sumsq_of gs - ?v) / real_of_int (int (length gs) - 1))" by (rule fl64_nonneg)
  then show ?thesis using False by (simp add: stddev32_def stddev_def Let_def)
qed (simp add: stddev32_def)

lemma scores_mapped_section:
  assumes "scores_mapped f xss h h'" "k < length xss"
  shows "scores_of h' (xss ! k) = map (f k) (scores_of h (xss ! k))"
proof -
  have "map (\<lambda>a. st_rawscores (h' a)) (xss ! k) = map (\<lambda>a. map (f k) (st_rawscores (h a))) (xss ! k)"
    using assms by (auto simp: scores_mapped_def)
  then show ?thesis by (simp only: scores_of_def map_concat map_map comp_def)
qed

lemma scores_of_sections: "scores_of h (concat xss) = concat (map (\<lambda>k. scores_of h (xss ! k)) [0..<length xss])"
proof (induction xss rule: rev_induct)
  case (snoc xs xss)
  have "map (\<lambda>k. scores_of h ((xss @ [xs]) ! k)) [0..<length xss] = map (\<lambda>k. scores_of h (xss ! k)) [0..<length xss]"
    by (simp add: nth_append)
  then have "concat (map (\<lambda>k. scores_of h ((xss @ [xs]) ! k)) [0..<length (xss @ [xs])]) =
      concat (map (\<lambda>k. scores_of h (xss ! k)) [0..<length xss]) @ scores_of h xs"
    by (simp del: map_eq_conv)
  moreover have "scores_of h (concat (xss @ [xs])) = scores_of h (concat xss) @ scores_of h xs"
    by (simp add: scores_of_def)
  ultimately show ?case using snoc by simp
qed (simp add: scores_of_def)

lemma concat_single: "j < n \<Longrightarrow> concat (map (\<lambda>k. if k = j then xs else []) [0..<n]) = xs"
  by (induction n) (auto simp: less_Suc_eq_le le_less concat_eq_Nil_conv)

lemma linked_filter:
  assumes "\<forall>scp \<in> set scs. sc_asgt scp < n"
  shows "filter (\<lambda>scp. is_tallied scp \<and> sc_cstats scp = Some i) (map (link_from 0 n k) scs) =
    map (link_from 0 n k) (filter (\<lambda>scp. is_tallied scp \<and> sc_asgt scp = i) scs)"
  using assms by (induction scs) (auto simp: link_from_def is_tallied_def)

lemma linked_grades:
  assumes m: "scores_mapped (link_from 0 n) xss h h'"
    and lt: "\<forall>a \<in> set (concat xss). \<forall>scp \<in> set (st_rawscores (h a)). sc_asgt scp < n"
  defines "mine i \<equiv> filter (\<lambda>scp. is_tallied scp \<and> sc_cstats scp = Some i) (scores_of h' (concat xss))"
  shows "map sc_grade (mine i) = grades_for h (concat xss) i"
    and "j < length xss \<Longrightarrow> map sc_grade (filter (\<lambda>scp. section_of scp = j) (mine i)) = grades_for h (xss ! j) i"
proof -
  have k: "\<forall>scp \<in> set (scores_of h (xss ! k)). sc_asgt scp < n" if "k < length xss" for k
    using lt that nth_mem [OF that] by (fastforce simp: scores_of_def)
  let ?f = "\<lambda>k. map (link_from 0 n k) (filter (\<lambda>scp. is_tallied scp \<and> sc_asgt scp = i) (scores_of h (xss ! k)))"
  have mine: "mine i = concat (map ?f [0..<length xss])"
    unfolding mine_def scores_of_sections filter_concat map_map comp_def
    by (rule arg_cong [of _ _ concat]) (auto simp: scores_mapped_section [OF m] linked_filter [OF k])
  have g: "map sc_grade (map (link_from 0 n k) scs) = map sc_grade scs" for k scs
    by (simp add: link_from_def)
  show "map sc_grade (mine i) = grades_for h (concat xss) i"
    unfolding mine grades_for_def scores_of_sections
    by (simp add: map_concat filter_concat comp_def g [unfolded map_map comp_def])
  assume j: "j < length xss"
  have "filter (\<lambda>scp. section_of scp = j) (?f k) = (if k = j then ?f j else [])" if "k < length xss" for k
    using k [OF that] by (auto simp: filter_empty_conv filter_id_conv link_from_def)
  then have "filter (\<lambda>scp. section_of scp = j) (mine i) = concat (map (\<lambda>k. if k = j then ?f j else []) [0..<length xss])"
    unfolding mine filter_concat map_map comp_def by (intro arg_cong [of _ _ concat]) auto
  then show "map sc_grade (filter (\<lambda>scp. section_of scp = j) (mine i)) = grades_for h (xss ! j) i"
    by (simp add: concat_single [OF j] grades_for_def g [unfolded map_map comp_def] comp_def)
qed

definition class_exact :: "Classstats \<Rightarrow> real list \<Rightarrow> bool" where
  "class_exact cs gs \<longleftrightarrow>
    table_ok (cs_freqs cs) \<and> freq_mset (cs_freqs cs) = mset gs \<and> exact_quantiles (cs_freqs cs)
    \<and> cs_tallied cs = int (length gs) \<and> cs_valid cs = int (length gs)
    \<and> cs_sum cs = sum_of gs \<and> cs_sumsq cs = sumsq_of gs
    \<and> cs_mean cs = mean32 gs \<and> cs_stddev cs = stddev32 gs
    \<and> (gs \<noteq> [] \<longrightarrow> cs_min cs = Min (set gs) \<and> cs_max cs = Max (set gs))
    \<and> (eighths gs \<longrightarrow> cs_sum cs = sum_list gs \<and> cs_sumsq cs = sum_list (squares gs)
         \<and> cs_mean cs = fl32 (fl64 (mean_of gs)) \<and> cs_stddev cs \<noteq> None)"

definition section_exact :: "Sectionstats \<Rightarrow> real list \<Rightarrow> bool" where
  "section_exact ss gs \<longleftrightarrow>
    table_ok (ss_freqs ss) \<and> freq_mset (ss_freqs ss) = mset gs \<and> exact_quantiles (ss_freqs ss)
    \<and> ss_tallied ss = int (length gs) \<and> ss_valid ss = int (length gs)
    \<and> ss_sum ss = sum_of gs \<and> ss_sumsq ss = sumsq_of gs
    \<and> ss_mean ss = mean32 gs \<and> ss_stddev ss = stddev32 gs
    \<and> (eighths gs \<longrightarrow> ss_sum ss = sum_list gs \<and> ss_sumsq ss = sum_list (squares gs)
         \<and> ss_mean ss = fl32 (fl64 (mean_of gs)) \<and> ss_stddev ss \<noteq> None)"

text \<open>The passes over one block, for the scores of its assignment.\<close>

definition quantile_block :: "Classstats \<Rightarrow> Classstats" where
  "quantile_block csp = csp\<lparr>cs_freqs := quantile_loop 0 (cs_freqs csp),
    cs_sstats := map (\<lambda>ssp. ssp\<lparr>ss_freqs := quantile_loop 0 (ss_freqs ssp)\<rparr>) (cs_sstats csp)\<rparr>"

definition moment_block :: "Classstats \<Rightarrow> Classstats" where
  "moment_block csp = fst (class_moments csp)\<lparr>cs_sstats := map (fst \<circ> section_moments) (cs_sstats csp)\<rparr>"

definition passes :: "Score list \<Rightarrow> Classstats \<Rightarrow> Classstats" where
  "passes mine cs = moment_block (fold sum_block mine (quantile_block (fold freq_block mine cs)))"

lemma fold_sum_block_first:
  assumes "cs_valid cs = 0" "scs \<noteq> []"
  shows "cs_min (fold sum_block scs cs) = Min (sc_grade ` set scs)
    \<and> cs_max (fold sum_block scs cs) = Max (sc_grade ` set scs)"
  using assms fold_sum_block_bounds [of "sum_block (hd scs) cs" "tl scs"]
  by (cases scs) (simp_all add: sum_block_fields)

lemma class_moments_fields:
  assumes "cs_valid cs = int (length gs)" "cs_sum cs = sum_of gs" "cs_sumsq cs = sumsq_of gs"
  shows "fst (class_moments cs) = cs\<lparr>cs_mean := mean32 gs, cs_stddev := stddev32 gs\<rparr>"
proof -
  consider "gs = []" | "length gs = 1" | "2 \<le> length gs" by (cases gs rule: remdups_adj.cases) auto
  then show ?thesis
    by cases (use assms in \<open>auto simp: class_moments_def mean32_def stddev32_def Let_def\<close>)
qed

lemma section_moments_fields:
  assumes "ss_valid ss = int (length gs)" "ss_sum ss = sum_of gs" "ss_sumsq ss = sumsq_of gs"
  shows "fst (section_moments ss) = ss\<lparr>ss_mean := mean32 gs, ss_stddev := stddev32 gs\<rparr>"
proof -
  consider "gs = []" | "length gs = 1" | "2 \<le> length gs" by (cases gs rule: remdups_adj.cases) auto
  then show ?thesis
    by cases (use assms in \<open>auto simp: section_moments_def mean32_def stddev32_def Let_def\<close>)
qed

lemma eighths_moments:
  "eighths gs \<Longrightarrow> sum_of gs = sum_list gs \<and> sumsq_of gs = sum_list (squares gs)
    \<and> mean32 gs = fl32 (fl64 (mean_of gs)) \<and> stddev32 gs \<noteq> None"
  using eighths_sums [of gs] eighths_stddev [of gs] by (simp add: mean32_def mean_of_def)

lemma fresh_table:
  "table_ok (quantile_loop 0 (fold count_score mine []))"
  "freq_mset (quantile_loop 0 (fold count_score mine [])) = mset (map sc_grade mine)"
  "exact_quantiles (quantile_loop 0 (fold count_score mine []))"
proof -
  have "table_ok []" by (simp add: table_ok_def)
  then have "table_ok (fold count_score mine [])" "freq_mset (fold count_score mine []) = mset (map sc_grade mine)"
    using fold_count_score [of "[]" mine] by simp_all
  then show "table_ok (quantile_loop 0 (fold count_score mine []))"
    "freq_mset (quantile_loop 0 (fold count_score mine [])) = mset (map sc_grade mine)"
    "exact_quantiles (quantile_loop 0 (fold count_score mine []))"
    by (simp_all add: quantile_loop_0_exact)
qed

lemma passes_class:
  "class_exact (passes mine (new_classstats i (map (new_sectionstats i) [0..<m]))) (map sc_grade mine)"
proof -
  let ?cs = "quantile_block (fold freq_block mine (new_classstats i (map (new_sectionstats i) [0..<m])))"
  let ?c = "fold sum_block mine ?cs"
  have f: "cs_freqs ?c = quantile_loop 0 (fold count_score mine [])"
    "cs_valid ?c = int (length (map sc_grade mine))" "cs_sum ?c = sum_of (map sc_grade mine)"
    "cs_tallied ?c = int (length mine)"
    "cs_sumsq ?c = sumsq_of (map sc_grade mine)"
    and v: "cs_valid ?cs = 0"
    by (simp_all add: fold_sum_block quantile_block_def fold_freq_block new_classstats_def comp_def
        sum_of_def sumsq_of_def)
  show ?thesis
    using fresh_table [of mine] eighths_moments [of "map sc_grade mine"] fold_sum_block_first [OF v, of mine] f
    by (simp add: passes_def moment_block_def class_moments_fields [OF f(2,3,5)] class_exact_def)
qed

lemma passes_section:
  fixes mine :: "Score list" and i j m :: nat
  assumes "j < m"
  defines "ss \<equiv> cs_sstats (passes mine (new_classstats i (map (new_sectionstats i) [0..<m]))) ! j"
    and "own \<equiv> filter (\<lambda>scp. section_of scp = j) mine"
  shows "section_exact ss (map sc_grade own)"
    and "own \<noteq> [] \<Longrightarrow> ss_min ss = sc_grade (hd own) \<and> ss_max ss = sc_grade (hd own)"
proof -
  let ?cs = "quantile_block (fold freq_block mine (new_classstats i (map (new_sectionstats i) [0..<m])))"
  let ?s = "cs_sstats (fold sum_block mine ?cs) ! j"
  have len: "length (cs_sstats (fold freq_block mine (new_classstats i (map (new_sectionstats i) [0..<m])))) = m"
    by (simp add: fold_freq_block new_classstats_def)
  have s0: "cs_sstats ?cs ! j = (new_sectionstats i j)
      \<lparr>ss_freqs := quantile_loop 0 (fold count_score own []), ss_tallied := int (length own)\<rparr>"
    using assms(1) len fold_freq_block_section [of j "new_classstats i (map (new_sectionstats i) [0..<m])" mine]
    by (simp add: quantile_block_def new_classstats_def new_sectionstats_def own_def Let_def)
  have j: "j < length (cs_sstats ?cs)" "0 \<le> ss_valid (cs_sstats ?cs ! j)"
    using assms(1) len s0 by (simp_all add: quantile_block_def new_sectionstats_def)
  note fs = fold_sum_block_section [OF j, of mine, folded own_def, unfolded s0]
  have f: "ss_valid ?s = int (length (map sc_grade own))" "ss_sum ?s = sum_of (map sc_grade own)"
    "ss_sumsq ?s = sumsq_of (map sc_grade own)"
    "ss_freqs ?s = quantile_loop 0 (fold count_score own [])" "ss_tallied ?s = int (length own)"
    "own \<noteq> [] \<Longrightarrow> ss_min ?s = sc_grade (hd own) \<and> ss_max ?s = sc_grade (hd own)"
    using fs by (simp_all add: Let_def new_sectionstats_def comp_def sum_of_def sumsq_of_def)
  have "ss = fst (section_moments ?s)"
    using j by (simp add: ss_def passes_def moment_block_def fold_sum_block(7))
  then have ss: "ss = ?s\<lparr>ss_mean := mean32 (map sc_grade own), ss_stddev := stddev32 (map sc_grade own)\<rparr>"
    using section_moments_fields [OF f(1-3)] by simp
  then show "section_exact ss (map sc_grade own)"
    using fresh_table [of own] eighths_moments [of "map sc_grade own"] f(1-5) by (simp add: section_exact_def)
  show "own \<noteq> [] \<Longrightarrow> ss_min ss = sc_grade (hd own) \<and> ss_max ss = sc_grade (hd own)"
    using ss f(6) by simp
qed

lemma statistics_blocks:
  assumes sec: "sections_are h (co_sections c) xss" "distinct (concat xss)"
    and lt: "\<forall>a \<in> set (concat xss). \<forall>scp \<in> set (st_rawscores (h a)). sc_asgt scp < length (co_assignments c)"
  shows "\<exists>h' c' s ws. statistics h c = Some (h', c', s, ws) \<and> length s = length (co_assignments c)
    \<and> chain st_cnext h' (co_roster c') (if co_assignments c = [] then [] else concat xss)
    \<and> scores_mapped (link_from 0 (length (co_assignments c))) xss h h'
    \<and> (\<forall>i < length s. s ! i =
         passes (filter (\<lambda>scp. is_tallied scp \<and> sc_cstats scp = Some i) (scores_of h' (concat xss)))
           (new_classstats i (map (new_sectionstats i) [0..<length xss])))"
proof -
  let ?n = "length (co_assignments c)" and ?m = "length xss"
  obtain h' c' where l: "do_links h c = Some (h', c')"
    "chain st_cnext h' (co_roster c') (if co_assignments c = [] then [] else concat xss)"
    "scores_mapped (link_from 0 ?n) xss h h'"
    using do_links_spec [OF sec] by (elim exE conjE) (rule that)
  let ?scs = "scores_of h' (if co_assignments c = [] then [] else concat xss)"
  let ?s0 = "buildstats c"
  have m: "length (co_sections c) = ?m" using sec(1) by (rule list_all2_lengthD)
  have s0: "length ?s0 = ?n" "\<And>k. k < ?n \<Longrightarrow> ?s0 ! k = new_classstats k (map (new_sectionstats k) [0..<?m])"
    by (simp_all add: buildstats_def m)
  have sc: "\<exists>i j. sc_cstats scp = Some i \<and> sc_sstats scp = Some (i, j) \<and> i < ?n \<and> j < ?m"
    if "scp \<in> set ?scs" for scp
  proof -
    from that obtain k where k: "k < ?m" "scp \<in> set (scores_of h' (xss ! k))"
      by (auto simp: scores_of_sections scores_of_def [of _ "[]"] split: if_splits)
    then obtain scp0 where "scp = link_from 0 ?n k scp0" "scp0 \<in> set (scores_of h (xss ! k))"
      using scores_mapped_section [OF l(3) k(1)] by auto
    moreover have "sc_asgt scp0 < ?n"
      using calculation(2) lt nth_mem [OF k(1)] by (fastforce simp: scores_of_def)
    ultimately show ?thesis using k(1) by (simp add: link_from_def)
  qed
  have linked0: "\<forall>scp \<in> set ?scs. linked ?s0 scp"
    using sc s0 by (fastforce simp: linked_def new_classstats_def)
  have s0m: "length (cs_sstats (?s0 ! k)) = ?m" if "k < ?n" for k
    using s0(2) [OF that] by (simp add: new_classstats_def)
  obtain s1 where b1: "each_raw freq_score ?scs ?s0 = Some s1" "length s1 = ?n"
    "\<And>k. k < ?n \<Longrightarrow> s1 ! k = fold freq_block (filter (\<lambda>scp. is_tallied scp \<and> sc_cstats scp = Some k) ?scs) (?s0 ! k)"
    "\<And>k. k < ?n \<Longrightarrow> length (cs_sstats (s1 ! k)) = length (cs_sstats (?s0 ! k))"
    using each_raw_block [OF freq_score_blockwise linked0] unfolding s0(1) by blast
  have s2: "length (do_quantiles s1) = ?n" "\<And>k. k < ?n \<Longrightarrow> do_quantiles s1 ! k = quantile_block (s1 ! k)"
    using b1(2) by (simp_all add: do_quantiles_def quantile_block_def)
  have linked2: "\<forall>scp \<in> set ?scs. linked (do_quantiles s1) scp"
    using sc s2 b1(4) s0m by (fastforce simp: linked_def quantile_block_def)
  obtain s3 where b3: "each_raw sum_score ?scs (do_quantiles s1) = Some s3" "length s3 = ?n"
    "\<And>k. k < ?n \<Longrightarrow> s3 ! k = fold sum_block (filter (\<lambda>scp. is_tallied scp \<and> sc_cstats scp = Some k) ?scs) (do_quantiles s1 ! k)"
    using each_raw_block [OF sum_score_blockwise linked2] s2(1) by auto
  obtain s4 ws where dm: "do_moments s3 = (s4, ws)" by fastforce
  then have s4_def: "s4 = fst (do_moments s3)" by simp
  have st: "statistics h c = Some (h', c', s4, ws)"
    using each_score_chain [OF l(2), folded scores_of_def] b1(1) b3(1) dm
    by (simp add: statistics_def l(1) do_freqs_def do_sums_def)
  have s4: "length s4 = ?n" "\<And>k. k < ?n \<Longrightarrow> s4 ! k = moment_block (s3 ! k)"
    using b3(2) by (simp_all add: s4_def do_moments_def moment_block_def)
  have "s4 ! i =
      passes (filter (\<lambda>scp. is_tallied scp \<and> sc_cstats scp = Some i) (scores_of h' (concat xss)))
        (new_classstats i (map (new_sectionstats i) [0..<?m]))" if "i < ?n" for i
    using that s4(2) [OF that] b3(3) [OF that] b1(3) [OF that] s2(2) [OF that] s0(2) [OF that]
    by (auto simp: passes_def)
  then show ?thesis using st l(2,3) s4(1) by auto
qed

section \<open>Properties\<close>

text \<open>
  C18. The statistics of a course. For a course whose section rosters are disjoint chains, with
  fewer than \<open>2 ^ 31\<close> scores, all for its assignments, \<open>statistics\<close> returns, links the students of
  all sections into one course roster, and computes for every assignment, over the whole class
  and over each section: the sorted frequency table of the valid or raw-used scores with the
  exact number of scores below and up to each bucket, and their number; their sum and sum of
  squares, rounded to \<open>double\<close> after every step in roster order, and the mean and standard
  deviation rounded from these; for the class the smallest and the largest score. When the
  grades are in eighths of a point, at most 8192 points each and at most 1024 of them, the sums
  are the exact sums, the mean is the exact mean rounded to \<open>double\<close> and \<open>float\<close>, and the standard
  deviation is a number.
\<close>

theorem statistics_exact:
  assumes "list_all2 (\<lambda>s ys. chain st_next h (se_roster s) ys) (co_sections c) xss"
    and "distinct (concat xss)"
    and "\<forall>a \<in> set (concat xss). \<forall>scp \<in> set (st_rawscores (h a)). sc_asgt scp < length (co_assignments c)"
    and "length (scores_of h (concat xss)) < 2 ^ 31"
  shows "\<exists>h' c' s ws. statistics h c = Some (h', c', s, ws) \<and> length s = length (co_assignments c)
    \<and> (co_assignments c \<noteq> [] \<longrightarrow> chain st_cnext h' (co_roster c') (concat xss))
    \<and> (\<forall>i < length s. class_exact (s ! i) (grades_for h (concat xss) i)
          \<and> (\<forall>j < length xss. section_exact (cs_sstats (s ! i) ! j) (grades_for h (xss ! j) i)))"
proof -
  obtain h' c' s ws where r: "statistics h c = Some (h', c', s, ws)" "length s = length (co_assignments c)"
    "chain st_cnext h' (co_roster c') (if co_assignments c = [] then [] else concat xss)"
    "scores_mapped (link_from 0 (length (co_assignments c))) xss h h'"
    "\<forall>i < length s. s ! i =
         passes (filter (\<lambda>scp. is_tallied scp \<and> sc_cstats scp = Some i) (scores_of h' (concat xss)))
           (new_classstats i (map (new_sectionstats i) [0..<length xss]))"
    using statistics_blocks [OF assms(1-3)] by (elim exE conjE) (rule that)
  note g = linked_grades [OF r(4) assms(3)]
  have "class_exact (s ! i) (grades_for h (concat xss) i)" if "i < length s" for i
    using r(5) that passes_class g(1) by metis
  moreover have "section_exact (cs_sstats (s ! i) ! j) (grades_for h (xss ! j) i)"
    if "i < length s" "j < length xss" for i j
    using r(5) that passes_section(1) [OF that(2)] g(2) [OF that(2)] by metis
  ultimately show ?thesis using r(1-3) by auto
qed

definition demo_score :: "real \<Rightarrow> Score" where
  "demo_score g = \<lparr>sc_asgt = 0, sc_grade = g, sc_qnorm = 0, sc_lnorm = 0, sc_snorm = 0, sc_flag = VALID,
    sc_code = [], sc_subst = USENORM, sc_cstats = None, sc_sstats = None\<rparr>"

definition graded_heap :: heap where
  "graded_heap = (\<lambda>a. \<lparr>st_id = ''0'', st_surname = ''S'', st_name = ''N'',
    st_rawscores = (if a = 1 then [demo_score 90] else [demo_score 70]), st_normscores = [],
    st_composite = 0, st_section = 0, st_next = (if a = 1 then Some 2 else None), st_cnext = None\<rparr>)"

definition graded_course :: Course where
  "graded_course = \<lparr>co_number = ''CSE320'', co_title = ''Systems'', co_professor = None,
    co_assignments = [\<lparr>as_name = ''hw1'', as_atype = ''hw'', as_wpolicy = NOWEIGHT, as_weight = 0,
      as_npolicy = RAW, as_max = 100, as_mean = 0, as_stddev = 0, as_scale = 0, as_ngroup = BYCLASS\<rparr>],
    co_sections = [\<lparr>se_name = ''R1'', se_assistant = None, se_roster = Some 1\<rparr>], co_roster = None\<rparr>"

lemma graded_demo:
  "list_all2 (\<lambda>s ys. chain st_next graded_heap (se_roster s) ys) (co_sections graded_course) [[1, 2]]"
  "distinct (concat [[1, 2 :: nat]])"
  "\<forall>a \<in> set (concat [[1, 2]]). \<forall>scp \<in> set (st_rawscores (graded_heap a)). sc_asgt scp < length (co_assignments graded_course)"
  "length (scores_of graded_heap (concat [[1, 2]])) < 2 ^ 31"
  "grades_for graded_heap [1, 2] 0 = [90, 70]" "length (co_assignments graded_course) = 1"
  by (simp_all add: graded_heap_def graded_course_def demo_score_def grades_for_def scores_of_def is_tallied_def)

lemma two_grades:
  "eighths [90, 70]" "mean32 [90, 70] = 80" "stddev32 [90, 70] = Some (fl32 (fl64 (sqrt 200)))"
proof -
  show e: "eighths [90, 70]" by (simp add: eighths_def grid_def)
  then show "mean32 [90, 70] = 80" using eighths_moments [OF e] by (simp add: mean_of_def fl_numeral)
  show "stddev32 [90, 70] = Some (fl32 (fl64 (sqrt 200)))"
    using eighths_moments [OF e] by (simp add: stddev32_def stddev_def squares_def fl_numeral)
qed

theorem statistics_exact_witness:
  "\<exists>h' c' s ws. statistics graded_heap graded_course = Some (h', c', s, ws)
    \<and> freq_mset (cs_freqs (s ! 0)) = {#90, 70#} \<and> cs_sum (s ! 0) = 160 \<and> cs_mean (s ! 0) = 80
    \<and> cs_stddev (s ! 0) = Some (fl32 (fl64 (sqrt 200))) \<and> cs_min (s ! 0) = 70"
proof -
  obtain h' c' s ws where r: "statistics graded_heap graded_course = Some (h', c', s, ws)"
    "length s = length (co_assignments graded_course)"
    "\<forall>i < length s. class_exact (s ! i) (grades_for graded_heap (concat [[1, 2]]) i)
       \<and> (\<forall>j < length [[1, 2 :: nat]]. section_exact (cs_sstats (s ! i) ! j) (grades_for graded_heap ([[1, 2]] ! j) i))"
    using statistics_exact [OF graded_demo(1-4)] by (elim exE conjE) (rule that)
  from r(3) [rule_format, of 0] r(2) graded_demo(6)
  have "class_exact (s ! 0) (grades_for graded_heap (concat [[1, 2]]) 0)" by linarith
  then have "class_exact (s ! 0) [90, 70]" using graded_demo(5) by simp
  then have "freq_mset (cs_freqs (s ! 0)) = {#90, 70#}" "cs_sum (s ! 0) = 160" "cs_mean (s ! 0) = 80"
    "cs_stddev (s ! 0) = Some (fl32 (fl64 (sqrt 200)))" "cs_min (s ! 0) = 70"
    using two_grades by (simp_all add: class_exact_def)
  with r(1) show ?thesis by blast
qed

text \<open>
  C37. The smallest and largest score recorded for a section are both its first score in
  roster order, whatever the other scores of the section are: the comparison that should
  update the block of the section updates the block of the class.
\<close>

theorem section_bounds_are_first_score:
  assumes "list_all2 (\<lambda>s ys. chain st_next h (se_roster s) ys) (co_sections c) xss"
    and "distinct (concat xss)"
    and "\<forall>a \<in> set (concat xss). \<forall>scp \<in> set (st_rawscores (h a)). sc_asgt scp < length (co_assignments c)"
    and "i < length (co_assignments c)" "j < length xss" "grades_for h (xss ! j) i \<noteq> []"
  shows "\<exists>h' c' s ws. statistics h c = Some (h', c', s, ws)
    \<and> ss_min (cs_sstats (s ! i) ! j) = hd (grades_for h (xss ! j) i)
    \<and> ss_max (cs_sstats (s ! i) ! j) = hd (grades_for h (xss ! j) i)"
proof -
  obtain h' c' s ws where r: "statistics h c = Some (h', c', s, ws)" "length s = length (co_assignments c)"
    "chain st_cnext h' (co_roster c') (if co_assignments c = [] then [] else concat xss)"
    "scores_mapped (link_from 0 (length (co_assignments c))) xss h h'"
    "\<forall>i < length s. s ! i =
         passes (filter (\<lambda>scp. is_tallied scp \<and> sc_cstats scp = Some i) (scores_of h' (concat xss)))
           (new_classstats i (map (new_sectionstats i) [0..<length xss]))"
    using statistics_blocks [OF assms(1-3)] by (elim exE conjE) (rule that)
  let ?own = "filter (\<lambda>scp. section_of scp = j)
    (filter (\<lambda>scp. is_tallied scp \<and> sc_cstats scp = Some i) (scores_of h' (concat xss)))"
  have g: "map sc_grade ?own = grades_for h (xss ! j) i"
    by (rule linked_grades(2) [OF r(4) assms(3,5)])
  then have own: "?own \<noteq> []" using assms(6) by (metis list.map_disc_iff)
  have si: "s ! i = passes (filter (\<lambda>scp. is_tallied scp \<and> sc_cstats scp = Some i) (scores_of h' (concat xss)))
      (new_classstats i (map (new_sectionstats i) [0..<length xss]))"
    using r(5) r(2) assms(4) by metis
  have "ss_min (cs_sstats (s ! i) ! j) = sc_grade (hd ?own) \<and> ss_max (cs_sstats (s ! i) ! j) = sc_grade (hd ?own)"
    unfolding si by (rule passes_section(2) [OF assms(5) own])
  moreover have "sc_grade (hd ?own) = hd (grades_for h (xss ! j) i)"
    unfolding g [symmetric] by (rule hd_map [OF own, symmetric])
  ultimately show ?thesis
    using r(1) by (intro exI [of _ h'] exI [of _ c'] exI [of _ s] exI [of _ ws]) simp
qed

theorem section_bounds_witness:
  "\<exists>h' c' s ws. statistics graded_heap graded_course = Some (h', c', s, ws)
    \<and> ss_min (cs_sstats (s ! 0) ! 0) = 90 \<and> ss_max (cs_sstats (s ! 0) ! 0) = 90"
  using section_bounds_are_first_score [OF graded_demo(1-3), of 0 0] graded_demo(5,6) by simp

text \<open>The \<open>float\<close> nearest to 90.1.\<close>

definition g901 :: real where
  "g901 = 11809587 / 2 ^ 17"

lemma equal_grades_sums:
  "sum_of (replicate 23 g901) = 23 * g901" "sumsq_of (replicate 23 g901) = 23 * (g901 * g901)"
proof -
  have g: "grid 17 g901" by (simp add: grid_def g901_def)
  have sq: "square64 g901 = g901 * g901"
    by (rule fl64_exact [of _ 139466345110569 34]) (simp_all add: g901_def)
  have "sum64 0 (replicate 23 g901) = 0 + sum_list (replicate 23 g901)"
    using g by (intro sum64_exact [of _ _ 17]) (simp_all add: grid_def [of _ 0] sum_list_replicate g901_def)
  then show "sum_of (replicate 23 g901) = 23 * g901" by (simp add: sum_of_def sum_list_replicate)
  have "sum64 0 (replicate 23 (g901 * g901)) = 0 + sum_list (replicate 23 (g901 * g901))"
    using grid_mult [OF g g]
    by (intro sum64_exact [of _ _ 34]) (simp_all add: grid_def [of _ 0] sum_list_replicate g901_def)
  then show "sumsq_of (replicate 23 g901) = 23 * (g901 * g901)"
    by (simp add: sumsq_of_def sq sum_list_replicate)
qed

lemma equal_grades_radicand: "stddev 23 (23 * g901) (23 * (g901 * g901)) = None"
proof -
  have a: "fl64 (23 * g901 * (23 * g901)) = 4611106035218188 / 2 ^ 30"
    unfolding fl64_def
    by (subst round_float_at [of "- 30"]) (simp_all add: g901_def power_int_minus round_even_def)
  have b: "fl64 (4611106035218188 / 2 ^ 30 / 23) = 6415451875086175 / 2 ^ 35"
    unfolding fl64_def
    by (subst round_float_at [of "- 35"]) (simp_all add: power_int_minus round_even_def)
  have "23 * (g901 * g901) - 6415451875086175 / 2 ^ 35 = - 1 / 2 ^ 35" by (simp add: g901_def)
  moreover have "fl64 (- 1 / 2 ^ 35) = - 1 / 2 ^ 35" by (rule fl64_exact [of _ "- 1" 35]) simp_all
  moreover have "fl64 (- 1 / 2 ^ 35 / 22) < 0"
    unfolding fl64_def
    by (subst round_float_at [of "- 92"]) (simp_all add: power_int_minus round_even_def)
  ultimately show ?thesis by (simp only: stddev_def a b Let_def of_int_numeral) simp
qed

lemma stddev32_g901: "stddev32 (replicate 23 g901) = None"
  using equal_grades_radicand by (simp add: stddev32_def equal_grades_sums)

text \<open>
  C19. Equal grades may have no standard deviation. When the tallied grades of an assignment are
  23 times 90.1 (as a \<open>float\<close>), rounding makes the square of their sum, divided by 23, larger
  than the sum of their squares: \<open>stddev\<close> takes the square root of a negative number, and the
  standard deviation of the class is not a number, although the mean and the table are there.
\<close>

theorem equal_grades_nan:
  assumes "list_all2 (\<lambda>s ys. chain st_next h (se_roster s) ys) (co_sections c) xss"
    and "distinct (concat xss)"
    and "\<forall>a \<in> set (concat xss). \<forall>scp \<in> set (st_rawscores (h a)). sc_asgt scp < length (co_assignments c)"
    and "i < length (co_assignments c)" "grades_for h (concat xss) i = replicate 23 g901"
  shows "fl32 g901 = g901
    \<and> (\<exists>h' c' s ws. statistics h c = Some (h', c', s, ws) \<and> cs_stddev (s ! i) = None
         \<and> cs_valid (s ! i) = 23 \<and> cs_mean (s ! i) = g901 \<and> cs_min (s ! i) = g901 \<and> cs_max (s ! i) = g901)"
proof -
  obtain h' c' s ws where r: "statistics h c = Some (h', c', s, ws)" "length s = length (co_assignments c)"
    "scores_mapped (link_from 0 (length (co_assignments c))) xss h h'"
    "\<forall>i < length s. s ! i =
         passes (filter (\<lambda>scp. is_tallied scp \<and> sc_cstats scp = Some i) (scores_of h' (concat xss)))
           (new_classstats i (map (new_sectionstats i) [0..<length xss]))"
    using statistics_blocks [OF assms(1-3)] by (elim exE conjE) (rule that)
  have "class_exact (s ! i) (replicate 23 g901)"
    using r(4) assms(4) r(2) passes_class linked_grades(1) [OF r(3) assms(3)] assms(5) by metis
  moreover have f: "fl32 g901 = g901" "fl64 g901 = g901"
    by (rule fl32_exact [of _ 11809587 17] fl64_exact [of _ 11809587 17]; simp add: g901_def)+
  moreover have "mean32 (replicate 23 g901) = g901" using f by (simp add: mean32_def equal_grades_sums)
  ultimately have "cs_stddev (s ! i) = None \<and> cs_valid (s ! i) = 23 \<and> cs_mean (s ! i) = g901
      \<and> cs_min (s ! i) = g901 \<and> cs_max (s ! i) = g901"
    by (simp add: class_exact_def stddev32_g901)
  with f r(1) show ?thesis by blast
qed

definition equal_heap :: heap where
  "equal_heap = (\<lambda>a. \<lparr>st_id = ''0'', st_surname = ''S'', st_name = ''N'', st_rawscores = [demo_score g901],
    st_normscores = [], st_composite = 0, st_section = 0,
    st_next = (if a < 23 then Some (a + 1) else None), st_cnext = None\<rparr>)"

theorem equal_grades_nan_witness:
  "\<exists>h' c' s ws. statistics equal_heap graded_course = Some (h', c', s, ws) \<and> cs_stddev (s ! 0) = None"
proof -
  have e: "[1..<24 :: nat] = [1, 2, 3, 4, 5, 6, 7, 8, 9, 10, 11, 12, 13, 14, 15, 16, 17, 18, 19, 20, 21, 22, 23]"
    by (simp add: upt_rec)
  have "chain st_next equal_heap (Some 1) [1..<24]" unfolding e by (simp add: equal_heap_def)
  moreover have "scores_of equal_heap [1..<24] = replicate 23 (demo_score g901)"
    unfolding e by (simp add: scores_of_def equal_heap_def numeral_eq_Suc)
  then have "grades_for equal_heap [1..<24] 0 = replicate 23 g901"
    by (simp add: grades_for_def is_tallied_def demo_score_def)
  ultimately have "\<exists>h' c' s ws. statistics equal_heap graded_course = Some (h', c', s, ws) \<and> cs_stddev (s ! 0) = None
      \<and> cs_valid (s ! 0) = 23 \<and> cs_mean (s ! 0) = g901 \<and> cs_min (s ! 0) = g901 \<and> cs_max (s ! 0) = g901"
    using equal_grades_nan [of equal_heap graded_course "[[1..<24]]" 0]
    by (simp add: graded_course_def) (simp add: equal_heap_def demo_score_def)
  then show ?thesis by blast
qed

end
