(* ===== verification/Grades_Normal.thy ===== *)
theory Grades_Normal
  imports Grades_Stats
begin

text \<open>
  Normalization of the scores and the composite scores of the grades program
  (\<open>grades/src/normal.c\<close>). The normalization may adjust the standard deviation of a statistics
  block or the declared maximum of an assignment and issues warnings, so it threads a state
  with the assignments, the statistics and the warnings. Its operations are \<open>None\<close> where the
  code follows a null pointer to a statistics block, and where it goes on with a standard
  deviation that is not a number. Products, quotients and sums are rounded as in \<open>C_Ieee\<close>:
  \<open>double\<close> arithmetic with a result narrowed to \<open>float\<close> where the code returns or stores one.
\<close>

text \<open>The \<open>double\<close> constant, and its double as stored in a \<open>float\<close>.\<close>

definition EPSILON :: real where
  "EPSILON = fl64 (1 / 1000000)"

definition two_epsilon :: real where
  "two_epsilon = fl32 (fl64 (2 * EPSILON))"

datatype norm_warning =
    Stddev_class nat | Stddev_section nat nat | Max_small nat | Few_class nat | Few_section nat nat
  | No_like addr | No_score addr nat

record norm_state =
  ns_asgts :: "Assignment list"
  ns_stats :: Stats
  ns_warnings :: "norm_warning list"

definition warn :: "norm_warning \<Rightarrow> norm_state \<Rightarrow> norm_state" where
  "warn w st = st\<lparr>ns_warnings := ns_warnings st @ [w]\<rparr>"

definition linear :: "real \<Rightarrow> real \<Rightarrow> real \<Rightarrow> real \<Rightarrow> real \<Rightarrow> real" where
  "linear s rm rd nm nd = fl32 (fl64 (fl64 (fl64 (nd * fl64 (s - rm)) / rd) + nm))"

definition scale_c :: "real \<Rightarrow> real \<Rightarrow> real \<Rightarrow> real" where
  "scale_c s mx sc = fl32 (fl64 (fl64 (s * sc) / mx))"

definition quantile_value :: "int \<Rightarrow> int \<Rightarrow> real" where
  "quantile_value numless n = fl32 (fl64 (fl64 (fl32 (real_of_int numless) * 100) / real_of_int n))"

fun quantile_search :: "real \<Rightarrow> int \<Rightarrow> Freqs list \<Rightarrow> real" where
  "quantile_search s n [] = 1"
| "quantile_search s n (fp # fs) =
    (if s < fq_score fp then quantile_value (fq_numless fp) n
     else if s = fq_score fp then quantile_value (fq_numless fp) n
     else quantile_search s n fs)"

definition class_at :: "nat option \<Rightarrow> Stats \<Rightarrow> Classstats option" where
  "class_at p s = (case p of None \<Rightarrow> None | Some i \<Rightarrow> if i < length s then Some (s ! i) else None)"

definition section_at :: "(nat \<times> nat) option \<Rightarrow> Stats \<Rightarrow> Sectionstats option" where
  "section_at p s =
    (case p of
       None \<Rightarrow> None
     | Some (i, j) \<Rightarrow>
        if i < length s \<and> j < length (cs_sstats (s ! i)) then Some (cs_sstats (s ! i) ! j) else None)"

text \<open>The two parts of the case \<open>LINEAR\<close>: too small a deviation is replaced in the block.\<close>

definition linear_class :: "real \<Rightarrow> nat option \<Rightarrow> Classstats \<Rightarrow> Assignment \<Rightarrow> norm_state
    \<Rightarrow> (real \<times> norm_state) option" where
  "linear_class s csp cs a st =
    (case cs_stddev cs of
       None \<Rightarrow> None
     | Some d \<Rightarrow>
        if d < EPSILON then
          map_option (\<lambda>s'. (linear s (cs_mean cs) two_epsilon (as_mean a) (as_stddev a),
              (warn (Stddev_class (cs_asgt cs)) st)\<lparr>ns_stats := s'\<rparr>))
            (update_class csp (\<lambda>cs. cs\<lparr>cs_stddev := Some two_epsilon\<rparr>) (ns_stats st))
        else Some (linear s (cs_mean cs) d (as_mean a) (as_stddev a), st))"

definition linear_section :: "real \<Rightarrow> (nat \<times> nat) option \<Rightarrow> Sectionstats \<Rightarrow> Assignment \<Rightarrow> norm_state
    \<Rightarrow> (real \<times> norm_state) option" where
  "linear_section s ssp ss a st =
    (case ss_stddev ss of
       None \<Rightarrow> None
     | Some d \<Rightarrow>
        if d < EPSILON then
          map_option (\<lambda>s'. (linear s (ss_mean ss) two_epsilon (as_mean a) (as_stddev a),
              (warn (Stddev_section (ss_asgt ss) (ss_section ss)) st)\<lparr>ns_stats := s'\<rparr>))
            (update_section ssp (\<lambda>ss. ss\<lparr>ss_stddev := Some two_epsilon\<rparr>) (ns_stats st))
        else Some (linear s (ss_mean ss) d (as_mean a) (as_stddev a), st))"

definition normal :: "real \<Rightarrow> nat option \<Rightarrow> (nat \<times> nat) option \<Rightarrow> norm_state
    \<Rightarrow> (real \<times> norm_state) option" where
  "normal s csp ssp st =
    Option.bind (class_at csp (ns_stats st)) (\<lambda>cs.
      let ai = cs_asgt cs; a = ns_asgts st ! ai
      in case as_npolicy a of
        RAW \<Rightarrow> Some (s, st)
      | LINEAR \<Rightarrow>
         (case as_ngroup a of
            BYCLASS \<Rightarrow> linear_class s csp cs a st
          | BYSECTION \<Rightarrow>
             Option.bind (section_at ssp (ns_stats st)) (\<lambda>ss. linear_section s ssp ss a st))
      | SCALE \<Rightarrow>
         (if as_max a < EPSILON then
            Some (scale_c s two_epsilon (as_scale a),
              (warn (Max_small ai) st)\<lparr>ns_asgts := (ns_asgts st)[ai := a\<lparr>as_max := two_epsilon\<rparr>]\<rparr>)
          else Some (scale_c s (as_max a) (as_scale a), st))
      | QUANTILE \<Rightarrow>
         (case as_ngroup a of
            BYCLASS \<Rightarrow>
             (if cs_tallied cs = 0
              then Some (quantile_search s 1 (cs_freqs cs), warn (Few_class ai) st)
              else Some (quantile_search s (cs_tallied cs) (cs_freqs cs), st))
          | BYSECTION \<Rightarrow>
             Option.bind (section_at ssp (ns_stats st)) (\<lambda>ss.
               if ss_tallied ss = 0
               then Some (quantile_search s 1 (ss_freqs ss), warn (Few_section (ss_asgt ss) (ss_section ss)) st)
               else Some (quantile_search s (ss_tallied ss) (ss_freqs ss), st))))"

text \<open>The loop of \<open>studentavg\<close>: the number of like scores, whether a weight was seen, the sum
  (a \<open>double\<close>), the total weight (a \<open>float\<close>) and the state. \<open>f * weight\<close> is a product of floats.\<close>

fun like_scores :: "cstring \<Rightarrow> Score list \<Rightarrow> nat \<times> bool \<times> real \<times> real \<times> norm_state
    \<Rightarrow> (nat \<times> bool \<times> real \<times> real \<times> norm_state) option" where
  "like_scores t [] acc = Some acc"
| "like_scores t (scp # scs) (n, wp, sm, w, st) =
    (let a = ns_asgts st ! sc_asgt scp in
     if strcmp (as_atype a) t = 0 \<and> is_tallied scp then
       Option.bind (normal (sc_grade scp) (sc_cstats scp) (sc_sstats scp) st) (\<lambda>(f, st).
         if as_wpolicy a = WEIGHT
         then like_scores t scs (n + 1, True, fl64 (sm + fl32 (f * as_weight a)), fl32 (w + as_weight a), st)
         else like_scores t scs (n + 1, wp, fl64 (sm + f), w, st))
     else like_scores t scs (n, wp, sm, w, st))"

definition studentavg :: "heap \<Rightarrow> addr \<Rightarrow> cstring \<Rightarrow> norm_state \<Rightarrow> (real \<times> norm_state) option" where
  "studentavg h s t st =
    map_option (\<lambda>(n, wp, sm, w, st).
        if n = 0 \<or> w = 0 then (0, warn (No_like s) st)
        else if wp then (fl32 (fl64 (sm / w)), st) else (fl32 (fl64 (sm / real n)), st))
      (like_scores t (st_rawscores (h s)) (0, False, 0, 0, st))"

definition new_score :: "Score \<Rightarrow> real \<Rightarrow> Score" where
  "new_score rscp g = \<lparr>sc_asgt = sc_asgt rscp, sc_grade = g, sc_qnorm = 0, sc_lnorm = 0, sc_snorm = 0,
    sc_flag = sc_flag rscp, sc_code = [], sc_subst = sc_subst rscp, sc_cstats = None, sc_sstats = None\<rparr>"

definition normalize_score :: "heap \<Rightarrow> addr \<Rightarrow> Score \<Rightarrow> norm_state \<Rightarrow> (Score \<times> norm_state) option" where
  "normalize_score h stp rscp st =
    (let csp = sc_cstats rscp; ssp = sc_sstats rscp; a = ns_asgts st ! sc_asgt rscp in
     map_option (\<lambda>(g, st). (new_score rscp g, st))
       (if sc_flag rscp = VALID then normal (sc_grade rscp) csp ssp st
        else case sc_subst rscp of
          USERAW \<Rightarrow> normal (sc_grade rscp) csp ssp st
        | USENORM \<Rightarrow> Some (if as_npolicy a = QUANTILE then sc_qnorm rscp else sc_lnorm rscp, st)
        | USELIKEAVG \<Rightarrow>
           Option.bind (class_at csp (ns_stats st)) (\<lambda>cs.
             studentavg h stp (as_atype (ns_asgts st ! cs_asgt cs)) st)
        | USECLASSAVG \<Rightarrow> Some (if as_npolicy a = QUANTILE then 50 else as_mean a, st)))"

fun normalize_scores :: "heap \<Rightarrow> addr \<Rightarrow> Score list \<Rightarrow> norm_state \<Rightarrow> (Score list \<times> norm_state) option" where
  "normalize_scores h stp [] st = Some ([], st)"
| "normalize_scores h stp (rscp # rs) st =
    Option.bind (normalize_score h stp rscp st) (\<lambda>(nscp, st).
      map_option (\<lambda>(ns, st). (nscp # ns, st)) (normalize_scores h stp rs st))"

partial_function (option) normalize_loop ::
  "heap \<Rightarrow> addr option \<Rightarrow> norm_state \<Rightarrow> (heap \<times> norm_state) option" where
  "normalize_loop h stp st =
    (case stp of
       None \<Rightarrow> Some (h, st)
     | Some a \<Rightarrow>
        Option.bind (normalize_scores h a (st_rawscores (h a)) st) (\<lambda>(ns, st).
          normalize_loop (h(a := (h a)\<lparr>st_normscores := ns\<rparr>)) (st_cnext (h a)) st))"

definition normalize :: "heap \<Rightarrow> Course \<Rightarrow> norm_state \<Rightarrow> (heap \<times> norm_state) option" where
  "normalize h c st = normalize_loop h (co_roster c) st"

text \<open>One student of \<open>composites\<close>: the weighted sum, a \<open>float\<close>, and the assignments without a
  score.\<close>

fun composite_loop :: "addr \<Rightarrow> Score list \<Rightarrow> Assignment list \<Rightarrow> nat \<Rightarrow> real \<Rightarrow> norm_warning list
    \<Rightarrow> real \<times> norm_warning list" where
  "composite_loop stp ns [] i sm ws = (sm, ws)"
| "composite_loop stp ns (a # as) i sm ws =
    (let (sm, found) =
       fold (\<lambda>scp (sm, found).
         if sc_asgt scp = i
         then (fl32 (fl64 (sm + fl64 (sc_grade scp * (if as_wpolicy a = WEIGHT then as_weight a else 1)))), found + 1)
         else (sm, found)) ns (sm, 0 :: nat)
     in composite_loop stp ns as (i + 1) sm (if found = 0 then ws @ [No_score stp i] else ws))"

partial_function (option) composites_loop ::
  "heap \<Rightarrow> Assignment list \<Rightarrow> addr option \<Rightarrow> norm_warning list \<Rightarrow> (heap \<times> norm_warning list) option" where
  "composites_loop h as stp ws =
    (case stp of
       None \<Rightarrow> Some (h, ws)
     | Some a \<Rightarrow>
        (let (sm, ws) = composite_loop a (st_normscores (h a)) as 0 0 ws
         in composites_loop (h(a := (h a)\<lparr>st_composite := sm\<rparr>)) as (st_cnext (h a)) ws))"

definition composites :: "heap \<Rightarrow> Course \<Rightarrow> norm_state \<Rightarrow> (heap \<times> norm_state) option" where
  "composites h c st =
    Option.bind (composites_loop h (ns_asgts st) (co_roster c) (ns_warnings st))
      (\<lambda>(h, ws). Some (h, st\<lparr>ns_warnings := ws\<rparr>))"

section \<open>Quantile normalization\<close>

text \<open>A hundred times the share of the scores that are below \<open>s\<close>, rounded, or 1 when \<open>s\<close> is above
  all of them.\<close>

definition below :: "real \<Rightarrow> real list \<Rightarrow> nat" where
  "below s gs = length (filter (\<lambda>x. x < s) gs)"

definition percentile :: "real \<Rightarrow> real list \<Rightarrow> real" where
  "percentile s gs =
    (if \<exists>x \<in> set gs. s \<le> x then fl32 (fl64 (real (below s gs) * 100 / real (length gs))) else 1)"

lemma below_next:
  assumes "s \<notin> set gs" "m \<in> set gs" "m < s" "\<forall>x \<in> set gs. x < s \<longrightarrow> x \<le> m"
  shows "below s gs = below m gs + count_list gs m"
proof -
  have "below s xs = below m xs + count_list xs m" if "set xs \<subseteq> set gs" for xs
    using that assms(1,3,4) by (induction xs) (auto simp: below_def not_less le_less)
  then show ?thesis by simp
qed

lemma quantile_search_prefix:
  assumes "table_ok (gs @ fs)" "exact_quantiles (gs @ fs)" "\<forall>fp \<in> set gs. fq_score fp < s"
  shows "quantile_search s n fs =
    (if \<exists>x \<in># freq_mset (gs @ fs). s \<le> x
     then quantile_value (int (size {#x \<in># freq_mset (gs @ fs). x < s#})) n else 1)"
  using assms
proof (induction fs arbitrary: gs)
  case Nil
  then have "\<not> (\<exists>x \<in># freq_mset gs. s \<le> x)" using in_freq_mset [of _ gs] by fastforce
  then show ?case by simp
next
  case (Cons fp fs)
  show ?case
  proof (cases "s \<le> fq_score fp")
    case True
    have above: "\<forall>x \<in> fq_score ` set fs. fq_score fp < x" and c: "1 \<le> fq_count fp"
      using Cons.prems(1) by (auto simp: table_ok_def sorted_wrt_append)
    have "x < s \<longleftrightarrow> x < fq_score fp" if "x \<in># freq_mset (gs @ fp # fs)" for x
      using in_freq_mset [OF that] True above Cons.prems(3) by fastforce
    then have "{#x \<in># freq_mset (gs @ fp # fs). x < s#} = {#x \<in># freq_mset (gs @ fp # fs). x < fq_score fp#}"
      by (intro filter_mset_cong) auto
    moreover have "fq_numless fp = int (size {#x \<in># freq_mset (gs @ fp # fs). x < fq_score fp#})"
      using Cons.prems(2) by (simp add: exact_quantiles_def)
    moreover have "fq_score fp \<in># freq_mset (gs @ fp # fs)"
      using c by (simp add: freq_mset_def in_replicate_mset)
    ultimately show ?thesis using True by auto
  next
    case False
    then have "quantile_search s n (fp # fs) = quantile_search s n fs" by simp
    also have "\<dots> = (if \<exists>x \<in># freq_mset ((gs @ [fp]) @ fs). s \<le> x
        then quantile_value (int (size {#x \<in># freq_mset ((gs @ [fp]) @ fs). x < s#})) n else 1)"
      using Cons.prems False by (intro Cons.IH) auto
    finally show ?thesis by simp
  qed
qed

lemma quantile_value_exact:
  assumes "k < 2 ^ 24"
  shows "quantile_value (int k) n = fl32 (fl64 (real k * 100 / real_of_int n))"
proof -
  have "fl32 (real k) = real k" using assms by (intro fl32_exact [of _ "int k" 0]) simp_all
  moreover have "fl64 (real k * 100) = real k * 100"
    using assms by (intro fl64_exact [of _ "int k * 100" 0]) simp_all
  ultimately show ?thesis by (simp add: quantile_value_def)
qed

lemma quantile_search_exact:
  assumes "table_ok fs" "exact_quantiles fs" "freq_mset fs = mset gs" "length gs < 2 ^ 24"
  shows "quantile_search s (int (length gs)) fs = percentile s gs"
proof -
  have "size {#x \<in># mset gs. x < s#} = below s gs" by (simp add: below_def flip: mset_filter)
  moreover have "below s gs < 2 ^ 24"
    using assms(4) length_filter_le [of "\<lambda>x. x < s" gs] unfolding below_def by (rule le_less_trans [rotated])
  ultimately show ?thesis
    using quantile_search_prefix [of "[]" fs s "int (length gs)"] assms(1-3)
    by (simp add: percentile_def quantile_value_exact)
qed

section \<open>Normalization does not fail\<close>

text \<open>What a normalization of linked scores needs, and keeps: the shape of the statistics, and
  deviations that are numbers.\<close>

definition deviations_known :: "Stats \<Rightarrow> bool" where
  "deviations_known s \<longleftrightarrow>
    (\<forall>cs \<in> set s. cs_stddev cs \<noteq> None \<and> (\<forall>ss \<in> set (cs_sstats cs). ss_stddev ss \<noteq> None))"

definition same_shape :: "Stats \<Rightarrow> Stats \<Rightarrow> bool" where
  "same_shape s s' \<longleftrightarrow> length s' = length s
    \<and> (\<forall>k < length s. length (cs_sstats (s' ! k)) = length (cs_sstats (s ! k)))"

lemma same_shape_linked: "same_shape s s' \<Longrightarrow> linked s scp \<Longrightarrow> linked s' scp"
  by (auto simp: same_shape_def linked_def)

lemma same_shape_trans: "same_shape s s' \<Longrightarrow> same_shape s' s'' \<Longrightarrow> same_shape s s''"
  by (simp add: same_shape_def)

lemma update_class_keeps:
  assumes "i < length s" "deviations_known s" "length (cs_sstats (f (s ! i))) = length (cs_sstats (s ! i))"
    "cs_stddev (f (s ! i)) \<noteq> None" "cs_sstats (f (s ! i)) = cs_sstats (s ! i)"
  shows "\<exists>s'. update_class (Some i) f s = Some s' \<and> same_shape s s' \<and> deviations_known s'"
proof -
  have "deviations_known (s[i := f (s ! i)])"
    unfolding deviations_known_def
  proof
    fix cs
    assume "cs \<in> set (s[i := f (s ! i)])"
    then consider "cs = f (s ! i)" | "cs \<in> set s" using set_update_subset_insert [of s i "f (s ! i)"] by blast
    then show "cs_stddev cs \<noteq> None \<and> (\<forall>ss \<in> set (cs_sstats cs). ss_stddev ss \<noteq> None)"
      using assms by cases (auto simp: deviations_known_def)
  qed
  moreover have "length (cs_sstats (s[i := f (s ! i)] ! k)) = length (cs_sstats (s ! k))" for k
    using assms(1,3) by (cases "k = i") simp_all
  then have "same_shape s (s[i := f (s ! i)])" by (simp add: same_shape_def)
  ultimately show ?thesis using assms(1) by (simp add: update_class_def)
qed

lemma update_section_keeps:
  assumes "i < length s" "j < length (cs_sstats (s ! i))" "deviations_known s"
    "ss_stddev (f (cs_sstats (s ! i) ! j)) \<noteq> None"
  shows "\<exists>s'. update_section (Some (i, j)) f s = Some s' \<and> same_shape s s' \<and> deviations_known s'"
proof -
  let ?c = "(s ! i)\<lparr>cs_sstats := (cs_sstats (s ! i))[j := f (cs_sstats (s ! i) ! j)]\<rparr>"
  have c: "cs_stddev ?c \<noteq> None \<and> (\<forall>ss \<in> set (cs_sstats ?c). ss_stddev ss \<noteq> None)"
  proof -
    have "set (cs_sstats ?c) \<subseteq> insert (f (cs_sstats (s ! i) ! j)) (set (cs_sstats (s ! i)))"
      using set_update_subset_insert by fastforce
    moreover have "s ! i \<in> set s" using assms(1) by simp
    ultimately show ?thesis using assms(3,4) unfolding deviations_known_def by fastforce
  qed
  have "set (s[i := ?c]) \<subseteq> insert ?c (set s)" by (rule set_update_subset_insert)
  then have "deviations_known (s[i := ?c])" using c assms(3) unfolding deviations_known_def by blast
  moreover have "length (cs_sstats (s[i := ?c] ! k)) = length (cs_sstats (s ! k))" for k
    using assms(1) by (cases "k = i") simp_all
  then have "same_shape s (s[i := ?c])" by (simp add: same_shape_def)
  ultimately show ?thesis using assms(1,2) by (simp add: update_section_def)
qed

definition as_policy :: "Assignment \<Rightarrow> Wpolicy \<times> Npolicy \<times> real" where
  "as_policy a = (as_wpolicy a, as_npolicy a, as_mean a)"

definition keeps :: "norm_state \<Rightarrow> norm_state \<Rightarrow> bool" where
  "keeps st st' \<longleftrightarrow> same_shape (ns_stats st) (ns_stats st') \<and> deviations_known (ns_stats st')
    \<and> (\<forall>k. as_policy (ns_asgts st' ! k) = as_policy (ns_asgts st ! k))"

lemma keeps_refl: "deviations_known (ns_stats st) \<Longrightarrow> keeps st st"
  by (simp add: keeps_def same_shape_def)

lemma keeps_trans: "keeps st st' \<Longrightarrow> keeps st' st'' \<Longrightarrow> keeps st st''"
  by (auto simp: keeps_def intro: same_shape_trans)

lemma keeps_warn [simp]: "keeps st (warn w st') = keeps st st'" "ns_stats (warn w st) = ns_stats st"
  by (simp_all add: keeps_def warn_def)

lemma linear_class_keeps:
  assumes "i < length (ns_stats st)" "deviations_known (ns_stats st)" "cs = ns_stats st ! i"
  shows "\<exists>f st'. linear_class s (Some i) cs a st = Some (f, st') \<and> keeps st st'"
proof -
  obtain d where d: "cs_stddev cs = Some d" using assms by (fastforce simp: deviations_known_def)
  show ?thesis
  proof (cases "d < EPSILON")
    case True
    obtain s' where "update_class (Some i) (\<lambda>cs. cs\<lparr>cs_stddev := Some two_epsilon\<rparr>) (ns_stats st) = Some s'"
      "same_shape (ns_stats st) s'" "deviations_known s'"
      using update_class_keeps [OF assms(1,2), of "\<lambda>cs. cs\<lparr>cs_stddev := Some two_epsilon\<rparr>"] by auto
    then show ?thesis using d True by (simp add: linear_class_def keeps_def warn_def)
  qed (use d assms(2) in \<open>simp add: linear_class_def keeps_refl\<close>)
qed

lemma linear_section_keeps:
  assumes "i < length (ns_stats st)" "j < length (cs_sstats (ns_stats st ! i))" "deviations_known (ns_stats st)"
    "ss = cs_sstats (ns_stats st ! i) ! j"
  shows "\<exists>f st'. linear_section s (Some (i, j)) ss a st = Some (f, st') \<and> keeps st st'"
proof -
  have "ns_stats st ! i \<in> set (ns_stats st)" "ss \<in> set (cs_sstats (ns_stats st ! i))" using assms by simp_all
  then obtain d where d: "ss_stddev ss = Some d" using assms(3) by (fastforce simp: deviations_known_def)
  show ?thesis
  proof (cases "d < EPSILON")
    case True
    obtain s' where "update_section (Some (i, j)) (\<lambda>ss. ss\<lparr>ss_stddev := Some two_epsilon\<rparr>) (ns_stats st) = Some s'"
      "same_shape (ns_stats st) s'" "deviations_known s'"
      using update_section_keeps [OF assms(1-3), of "\<lambda>ss. ss\<lparr>ss_stddev := Some two_epsilon\<rparr>"] by auto
    then show ?thesis using d True by (simp add: linear_section_def keeps_def warn_def)
  qed (use d assms(3) in \<open>simp add: linear_section_def keeps_refl\<close>)
qed

lemma normal_keeps:
  assumes "linked (ns_stats st) scp" "deviations_known (ns_stats st)"
  shows "\<exists>f st'. normal s (sc_cstats scp) (sc_sstats scp) st = Some (f, st') \<and> keeps st st'"
proof -
  obtain i j where ij: "sc_cstats scp = Some i" "sc_sstats scp = Some (i, j)" "i < length (ns_stats st)"
    "j < length (cs_sstats (ns_stats st ! i))" using assms(1) by (auto simp: linked_def)
  have max: "as_policy ((as[m := (as ! m)\<lparr>as_max := x\<rparr>]) ! k) = as_policy (as ! k)"
    for as :: "Assignment list" and m x k
    by (cases "k = m"; cases "m < length as") (auto simp: as_policy_def nth_list_update list_update_beyond)
  have "keeps st ((warn w st)\<lparr>ns_asgts := (ns_asgts st)[m := (ns_asgts st ! m)\<lparr>as_max := x\<rparr>]\<rparr>)" for w m x
    using assms(2) by (simp add: keeps_def warn_def max same_shape_def)
  then show ?thesis
    using ij keeps_refl [OF assms(2)] linear_class_keeps [OF ij(3) assms(2) refl]
      linear_section_keeps [OF ij(3,4) assms(2) refl]
    by (auto simp: normal_def class_at_def section_at_def Let_def split: Npolicy.splits Ngroup.splits)
qed

lemma like_scores_keeps:
  assumes "\<forall>scp \<in> set scs. linked (ns_stats st) scp" "deviations_known (ns_stats st)"
  shows "\<exists>n' wp' sm' w' st'. like_scores t scs (n, wp, sm, w, st) = Some (n', wp', sm', w', st') \<and> keeps st st'
    \<and> ((\<forall>scp \<in> set scs. as_wpolicy (ns_asgts st ! sc_asgt scp) = NOWEIGHT) \<longrightarrow> w' = w)"
  using assms
proof (induction scs arbitrary: n wp sm w st)
  case Nil
  then show ?case by (simp add: keeps_refl)
next
  case (Cons scp scs)
  let ?a = "ns_asgts st ! sc_asgt scp"
  show ?case
  proof (cases "strcmp (as_atype ?a) t = 0 \<and> is_tallied scp")
    case True
    obtain f st1 where n: "normal (sc_grade scp) (sc_cstats scp) (sc_sstats scp) st = Some (f, st1)" "keeps st st1"
      using normal_keeps [of st scp "sc_grade scp"] Cons.prems by auto
    have l: "\<forall>scp \<in> set scs. linked (ns_stats st1) scp" "deviations_known (ns_stats st1)"
      "\<forall>k. as_wpolicy (ns_asgts st1 ! k) = as_wpolicy (ns_asgts st ! k)"
      using n(2) Cons.prems by (auto simp: keeps_def as_policy_def intro: same_shape_linked)
    show ?thesis
    proof (cases "as_wpolicy ?a")
      case WEIGHT
      obtain n' wp' sm' w' st' where r: "like_scores t scs (n + 1, True, fl64 (sm + fl32 (f * as_weight ?a)),
          fl32 (w + as_weight ?a), st1) = Some (n', wp', sm', w', st')" "keeps st1 st'"
        using Cons.IH [OF l(1,2)] by blast
      then show ?thesis using True n(1) keeps_trans [OF n(2) r(2)] WEIGHT by (simp add: Let_def)
    next
      case NOWEIGHT
      obtain n' wp' sm' w' st' where r: "like_scores t scs (n + 1, wp, fl64 (sm + f), w, st1) =
          Some (n', wp', sm', w', st')" "keeps st1 st'"
        "(\<forall>scp \<in> set scs. as_wpolicy (ns_asgts st1 ! sc_asgt scp) = NOWEIGHT) \<longrightarrow> w' = w"
        using Cons.IH [OF l(1,2)] by blast
      then show ?thesis using True n(1) keeps_trans [OF n(2) r(2)] NOWEIGHT l(3) by (simp add: Let_def)
    qed
  next
    case False
    then show ?thesis using Cons.IH [of st n wp sm w] Cons.prems by (auto simp: Let_def)
  qed
qed

lemma studentavg_keeps:
  assumes "\<forall>scp \<in> set (st_rawscores (h a)). linked (ns_stats st) scp" "deviations_known (ns_stats st)"
  shows "\<exists>f st'. studentavg h a t st = Some (f, st') \<and> keeps st st'"
proof -
  obtain n' wp' sm' w' st' where "like_scores t (st_rawscores (h a)) (0, False, 0, 0, st) =
      Some (n', wp', sm', w', st')" "keeps st st'"
    using like_scores_keeps [OF assms] by blast
  then show ?thesis by (simp add: studentavg_def)
qed

text \<open>The grade of a score that is not valid and has a fixed substitution.\<close>

definition substituted :: "Assignment list \<Rightarrow> Score \<Rightarrow> Score \<Rightarrow> bool" where
  "substituted as rscp nscp \<longleftrightarrow> (sc_flag rscp \<noteq> VALID \<longrightarrow>
    (let quantile = as_npolicy (as ! sc_asgt rscp) = QUANTILE
     in (sc_subst rscp = USENORM \<longrightarrow> sc_grade nscp = (if quantile then sc_qnorm rscp else sc_lnorm rscp))
        \<and> (sc_subst rscp = USECLASSAVG \<longrightarrow>
              sc_grade nscp = (if quantile then 50 else as_mean (as ! sc_asgt rscp)))))"

lemma substituted_cong:
  "\<forall>k. as_policy (as' ! k) = as_policy (as ! k) \<Longrightarrow> substituted as' r n = substituted as r n"
  by (simp add: substituted_def as_policy_def)

lemma normalize_score_keeps:
  assumes "\<forall>scp \<in> set (st_rawscores (h a)). linked (ns_stats st) scp" "deviations_known (ns_stats st)"
    "rscp \<in> set (st_rawscores (h a))"
  shows "\<exists>g st'. normalize_score h a rscp st = Some (new_score rscp g, st') \<and> keeps st st'
    \<and> substituted (ns_asgts st) rscp (new_score rscp g)"
proof -
  have l: "linked (ns_stats st) rscp" using assms(1,3) by simp
  obtain f st1 where n: "normal (sc_grade rscp) (sc_cstats rscp) (sc_sstats rscp) st = Some (f, st1)" "keeps st st1"
    using normal_keeps [OF l assms(2)] by blast
  obtain cs where c: "class_at (sc_cstats rscp) (ns_stats st) = Some cs"
    using l by (auto simp: linked_def class_at_def)
  obtain f' st2 where s: "studentavg h a (as_atype (ns_asgts st ! cs_asgt cs)) st = Some (f', st2)" "keeps st st2"
    using studentavg_keeps [of h a st, OF assms(1,2)] by blast
  show ?thesis
    using n s c keeps_refl [OF assms(2)]
    by (cases "sc_flag rscp = VALID"; cases "sc_subst rscp") (auto simp: normalize_score_def substituted_def new_score_def)
qed

lemma normalize_scores_keeps:
  assumes "\<forall>scp \<in> set (st_rawscores (h a)). linked (ns_stats st) scp" "deviations_known (ns_stats st)"
    "set rs \<subseteq> set (st_rawscores (h a))"
  shows "\<exists>ns st'. normalize_scores h a rs st = Some (ns, st') \<and> keeps st st'
    \<and> map sc_asgt ns = map sc_asgt rs \<and> map sc_flag ns = map sc_flag rs
    \<and> list_all2 (substituted (ns_asgts st)) rs ns"
  using assms
proof (induction rs arbitrary: st)
  case Nil
  then show ?case by (simp add: keeps_refl)
next
  case (Cons r rs)
  obtain g st1 where 1: "normalize_score h a r st = Some (new_score r g, st1)" "keeps st st1"
    "substituted (ns_asgts st) r (new_score r g)"
    using normalize_score_keeps [of h a st r, OF Cons.prems(1,2)] Cons.prems(3) by auto
  have l: "\<forall>scp \<in> set (st_rawscores (h a)). linked (ns_stats st1) scp" "deviations_known (ns_stats st1)"
    "set rs \<subseteq> set (st_rawscores (h a))"
    using 1(2) Cons.prems by (auto simp: keeps_def intro: same_shape_linked)
  obtain ns st2 where 2: "normalize_scores h a rs st1 = Some (ns, st2)" "keeps st1 st2"
    "map sc_asgt ns = map sc_asgt rs" "map sc_flag ns = map sc_flag rs"
    "list_all2 (substituted (ns_asgts st1)) rs ns"
    using Cons.IH [OF l] by blast
  have "substituted (ns_asgts st1) = substituted (ns_asgts st)"
    using 1(2) by (intro ext substituted_cong) (simp add: keeps_def)
  then show ?case using 1(1,3) 2 keeps_trans [OF 1(2) 2(2)] by (simp add: new_score_def)
qed

text \<open>The fields a student keeps when it is normalized.\<close>

definition unnormed :: "Student \<Rightarrow> Student" where
  "unnormed s = s\<lparr>st_normscores := []\<rparr>"

lemma normalize_loop_chain:
  assumes "chain st_cnext h p xs" "deviations_known (ns_stats st)"
    "\<forall>a \<in> set xs. \<forall>scp \<in> set (st_rawscores (h a)). linked (ns_stats st) scp"
  shows "\<exists>h' st'. normalize_loop h p st = Some (h', st')
    \<and> (\<forall>a. unnormed (h' a) = unnormed (h a))
    \<and> (\<forall>a \<in> set xs. map sc_asgt (st_normscores (h' a)) = map sc_asgt (st_rawscores (h a))
          \<and> map sc_flag (st_normscores (h' a)) = map sc_flag (st_rawscores (h a))
          \<and> list_all2 (substituted (ns_asgts st)) (st_rawscores (h a)) (st_normscores (h' a)))
    \<and> (\<forall>a. a \<notin> set xs \<longrightarrow> h' a = h a)"
  using assms
proof (induction xs arbitrary: h p st)
  case Nil
  then show ?case by (simp add: normalize_loop.simps)
next
  case (Cons a xs)
  obtain ns st1 where n: "normalize_scores h a (st_rawscores (h a)) st = Some (ns, st1)" "keeps st st1"
    "map sc_asgt ns = map sc_asgt (st_rawscores (h a))" "map sc_flag ns = map sc_flag (st_rawscores (h a))"
    "list_all2 (substituted (ns_asgts st)) (st_rawscores (h a)) ns"
    using normalize_scores_keeps [of h a st "st_rawscores (h a)"] Cons.prems(2,3) by auto
  let ?h = "h(a := (h a)\<lparr>st_normscores := ns\<rparr>)"
  have ch: "chain st_cnext ?h (st_cnext (h a)) xs"
    using Cons.prems(1) chain_cong [of xs st_cnext h ?h "st_cnext (h a)"] by auto
  have "a \<notin> set xs" using chain_distinct [OF Cons.prems(1)] by simp
  have l: "deviations_known (ns_stats st1)"
    "\<forall>a \<in> set xs. \<forall>scp \<in> set (st_rawscores (?h a)). linked (ns_stats st1) scp"
    using n(2) Cons.prems(3) by (auto simp: keeps_def intro: same_shape_linked)
  obtain h' st' where r: "normalize_loop ?h (st_cnext (h a)) st1 = Some (h', st')"
    "\<forall>b. unnormed (h' b) = unnormed (?h b)"
    "\<forall>b \<in> set xs. map sc_asgt (st_normscores (h' b)) = map sc_asgt (st_rawscores (?h b))
          \<and> map sc_flag (st_normscores (h' b)) = map sc_flag (st_rawscores (?h b))
          \<and> list_all2 (substituted (ns_asgts st1)) (st_rawscores (?h b)) (st_normscores (h' b))"
    "\<forall>b. b \<notin> set xs \<longrightarrow> h' b = ?h b"
    using Cons.IH [OF ch l] by (elim exE conjE) (rule that)
  have "normalize_loop h p st = Some (h', st')"
    using Cons.prems(1) n(1) r(1) by (subst normalize_loop.simps) simp
  moreover have "\<forall>b. unnormed (h' b) = unnormed (h b)" using r(2) by (auto simp: unnormed_def)
  moreover have "h' a = ?h a" using r(4) \<open>a \<notin> set xs\<close> by simp
  moreover have "substituted (ns_asgts st1) = substituted (ns_asgts st)"
    using n(2) by (intro ext substituted_cong) (simp add: keeps_def)
  ultimately show ?case using r(3,4) n(3-5) by auto
qed

section \<open>Composite scores\<close>

definition weight_of :: "Assignment \<Rightarrow> real" where
  "weight_of a = (if as_wpolicy a = WEIGHT then as_weight a else 1)"

text \<open>The terms of a composite, by assignment and then in the order of the scores, and their sum
  as the code rounds it.\<close>

definition terms_of :: "Assignment list \<Rightarrow> Score list \<Rightarrow> nat \<Rightarrow> (real \<times> real) list" where
  "terms_of as ns i = map (\<lambda>scp. (sc_grade scp, weight_of (as ! i))) (filter (\<lambda>scp. sc_asgt scp = i) ns)"

definition add_term :: "real \<Rightarrow> real \<times> real \<Rightarrow> real" where
  "add_term sm t = fl32 (fl64 (sm + fl64 (fst t * snd t)))"

definition all_terms :: "Assignment list \<Rightarrow> Score list \<Rightarrow> (real \<times> real) list" where
  "all_terms as ns = concat (map (terms_of as ns) [0..<length as])"

definition composite_of :: "Assignment list \<Rightarrow> Score list \<Rightarrow> real" where
  "composite_of as ns = foldl add_term 0 (all_terms as ns)"

lemma fold_asgt:
  "fold (\<lambda>scp (sm, found). if sc_asgt scp = i
      then (fl32 (fl64 (sm + fl64 (sc_grade scp * (if as_wpolicy (as ! i) = WEIGHT then as_weight (as ! i) else 1)))), found + 1)
      else (sm, found)) ns (sm, f) =
    (foldl add_term sm (terms_of as ns i), f + length (filter (\<lambda>scp. sc_asgt scp = i) ns))"
  by (induction ns arbitrary: sm f) (simp_all add: terms_of_def add_term_def weight_of_def)

lemma composite_loop_sum:
  "fst (composite_loop stp ns (drop i as) i sm ws) =
    foldl add_term sm (concat (map (terms_of as ns) [i..<length as]))"
proof (induction "length as - i" arbitrary: i sm ws)
  case (Suc n)
  then have i: "i < length as" by simp
  then have "drop i as = as ! i # drop (i + 1) as" by (simp add: Cons_nth_drop_Suc)
  moreover have "[i..<length as] = i # [i + 1..<length as]" using i by (simp add: upt_conv_Cons)
  ultimately show ?case
    using Suc.hyps(1) [of "i + 1"] Suc.hyps(2) by (simp add: fold_asgt)
qed simp

text \<open>Terms that are multiples of an eighth and do not add up to 24 bits are added exactly.\<close>

lemma add_terms_exact:
  assumes "\<forall>t \<in> set ts. grid 3 (fst t * snd t)" "grid 3 sm"
    "(\<bar>sm\<bar> + sum_list (map (\<lambda>t. \<bar>fst t * snd t\<bar>) ts)) * 2 ^ 3 < 2 ^ 24"
  shows "foldl add_term sm ts = sm + sum_list (map (\<lambda>t. fst t * snd t) ts)"
  using assms
proof (induction ts arbitrary: sm)
  case (Cons t ts)
  let ?x = "fst t * snd t" and ?r = "sum_list (map (\<lambda>t. \<bar>fst t * snd t\<bar>) ts)"
  have pos: "0 \<le> ?r" by (rule sum_list_nonneg) auto
  have x: "grid 3 ?x" "grid 3 (sm + ?x)" using Cons.prems(1,2) by (simp_all add: grid_add)
  have tri: "\<bar>sm + ?x\<bar> \<le> \<bar>sm\<bar> + \<bar>?x\<bar>" by (rule abs_triangle_ineq)
  have b: "(\<bar>sm + ?x\<bar> + ?r) * 2 ^ 3 < 2 ^ 24" "\<bar>sm + ?x\<bar> * 2 ^ 3 < 2 ^ 24" "\<bar>?x\<bar> * 2 ^ 3 < 2 ^ 24"
    using Cons.prems(3) tri pos by auto
  have "fl64 ?x = ?x" "fl64 (sm + ?x) = sm + ?x"
    by (rule fl64_grid [OF x(1)] fl64_grid [OF x(2)]; use b(2,3) in simp)+
  then have "add_term sm t = sm + ?x"
    using fl32_grid [OF x(2)] b(2) by (simp add: add_term_def)
  then show ?case using Cons.IH [OF _ x(2) b(1)] Cons.prems(1) by simp
qed simp

lemma composites_loop_chain:
  assumes "chain st_cnext h p xs" "distinct xs"
  shows "\<exists>h' ws'. composites_loop h as p ws = Some (h', ws')
    \<and> (\<forall>a. h' a = (if a \<in> set xs then (h a)\<lparr>st_composite := composite_of as (st_normscores (h a))\<rparr> else h a))"
  using assms
proof (induction xs arbitrary: h p ws)
  case Nil
  then show ?case by (simp add: composites_loop.simps)
next
  case (Cons a xs)
  obtain sm ws1 where c: "composite_loop a (st_normscores (h a)) as 0 0 ws = (sm, ws1)" by fastforce
  then have sm: "sm = composite_of as (st_normscores (h a))"
    using composite_loop_sum [of a "st_normscores (h a)" 0 as 0 ws] by (simp add: composite_of_def all_terms_def)
  let ?h = "h(a := (h a)\<lparr>st_composite := sm\<rparr>)"
  have ch: "chain st_cnext ?h (st_cnext (h a)) xs"
    using Cons.prems chain_cong [of xs st_cnext h ?h "st_cnext (h a)"] by auto
  have dx: "distinct xs" using Cons.prems(2) by simp
  obtain h' ws' where r: "composites_loop ?h as (st_cnext (h a)) ws1 = Some (h', ws')"
    "\<forall>b. h' b = (if b \<in> set xs then (?h b)\<lparr>st_composite := composite_of as (st_normscores (?h b))\<rparr> else ?h b)"
    using Cons.IH [OF ch dx, of ws1] by (elim exE conjE) (rule that)
  have "composites_loop h as p ws = Some (h', ws')"
    using Cons.prems(1) c r(1) by (subst composites_loop.simps) simp
  with r(2) show ?case using Cons.prems(2) sm by auto
qed

section \<open>Properties\<close>

text \<open>
  C26. Quantile normalization, as the code has it. Over the tables of at least one and fewer than \<open>2 ^ 24\<close> tallied
  scores of the class (or of the section) \<open>normal\<close> returns, for a score not above all of them, a
  hundred times the number of tallied scores below it, divided by their number and rounded to
  \<open>double\<close> and \<open>float\<close>; a score above every tallied score gets the constant 1. This is not what
  the comment in the code asks for: for a score that is not in the table the comment takes the
  percentile of the greatest tallied score below it, which does not count the scores equal to
  that one; the last part states the difference.
\<close>

theorem normal_quantile:
  assumes "class_at csp (ns_stats st) = Some cs" "section_at ssp (ns_stats st) = Some ss"
    and "as_npolicy (ns_asgts st ! cs_asgt cs) = QUANTILE"
    and "class_exact cs gs" "gs \<noteq> []" "length gs < 2 ^ 24"
    and "section_exact ss gs'" "gs' \<noteq> []" "length gs' < 2 ^ 24"
  shows "normal s csp ssp st =
      Some (percentile s (case as_ngroup (ns_asgts st ! cs_asgt cs) of BYCLASS \<Rightarrow> gs | BYSECTION \<Rightarrow> gs'), st)
    \<and> (s \<notin> set gs \<longrightarrow> m \<in> set gs \<longrightarrow> m < s \<longrightarrow> (\<forall>x \<in> set gs. x < s \<longrightarrow> x \<le> m) \<longrightarrow>
        below s gs = below m gs + count_list gs m)"
proof
  have "quantile_search s (int (length gs)) (cs_freqs cs) = percentile s gs"
    using assms(4,6) quantile_search_exact [of "cs_freqs cs" gs s] by (simp add: class_exact_def)
  moreover have "quantile_search s (int (length gs')) (ss_freqs ss) = percentile s gs'"
    using assms(7,9) quantile_search_exact [of "ss_freqs ss" gs' s] by (simp add: section_exact_def)
  ultimately show "normal s csp ssp st =
      Some (percentile s (case as_ngroup (ns_asgts st ! cs_asgt cs) of BYCLASS \<Rightarrow> gs | BYSECTION \<Rightarrow> gs'), st)"
    using assms by (simp add: normal_def Let_def class_exact_def section_exact_def split: Ngroup.splits)
  show "s \<notin> set gs \<longrightarrow> m \<in> set gs \<longrightarrow> m < s \<longrightarrow> (\<forall>x \<in> set gs. x < s \<longrightarrow> x \<le> m) \<longrightarrow>
      below s gs = below m gs + count_list gs m"
    by (intro impI) (rule below_next)
qed

definition quantile_asgt :: Assignment where
  "quantile_asgt = \<lparr>as_name = ''hw1'', as_atype = ''hw'', as_wpolicy = NOWEIGHT, as_weight = 0,
      as_npolicy = QUANTILE, as_max = 100, as_mean = 80, as_stddev = 5, as_scale = 0, as_ngroup = BYCLASS\<rparr>"

definition linear_asgt :: Assignment where
  "linear_asgt = quantile_asgt\<lparr>as_npolicy := LINEAR\<rparr>"

definition two_grades_block :: Classstats where
  "two_grades_block = passes [(demo_score 90)\<lparr>sc_sstats := Some (0, 0)\<rparr>, (demo_score 70)\<lparr>sc_sstats := Some (0, 0)\<rparr>]
     (new_classstats 0 (map (new_sectionstats 0) [0..<1]))"

abbreviation two_grades_state :: "Assignment \<Rightarrow> norm_state" where
  "two_grades_state a \<equiv> \<lparr>ns_asgts = [a], ns_stats = [two_grades_block], ns_warnings = []\<rparr>"

lemma passes_shape: "cs_asgt (passes mine cs) = cs_asgt cs" "length (cs_sstats (passes mine cs)) = length (cs_sstats cs)"
  by (simp_all add: passes_def moment_block_def class_moments_def Let_def quantile_block_def
      fold_sum_block fold_freq_block)

lemma two_grades_exact:
  "class_exact two_grades_block [90, 70]" "section_exact (cs_sstats two_grades_block ! 0) [90, 70]"
  "cs_asgt two_grades_block = 0" "length (cs_sstats two_grades_block) = 1"
proof -
  let ?m = "[(demo_score 90)\<lparr>sc_sstats := Some (0, 0)\<rparr>, (demo_score 70)\<lparr>sc_sstats := Some (0, 0)\<rparr>]"
  show "class_exact two_grades_block [90, 70]"
    using passes_class [of ?m 0 1] by (simp add: two_grades_block_def demo_score_def)
  show "section_exact (cs_sstats two_grades_block ! 0) [90, 70]"
    using passes_section(1) [of 0 1 ?m 0] by (simp add: two_grades_block_def demo_score_def)
  show "cs_asgt two_grades_block = 0" "length (cs_sstats two_grades_block) = 1"
    by (simp_all only: two_grades_block_def passes_shape) (simp_all add: new_classstats_def)
qed

theorem normal_quantile_witness:
  "normal 80 (Some 0) (Some (0, 0)) (two_grades_state quantile_asgt) = Some (50, two_grades_state quantile_asgt)
    \<and> below 80 [90, 70] = below 70 [90, 70] + 1"
  using normal_quantile [of "Some 0" "two_grades_state quantile_asgt" two_grades_block "Some (0, 0)"
      "cs_sstats two_grades_block ! 0" "[90, 70]" "[90, 70]" 80 70] two_grades_exact
  by (simp add: class_at_def section_at_def percentile_def below_def quantile_asgt_def fl_numeral)

text \<open>
  C27. \<open>studentavg\<close> returns 0, with a warning, for every student whose assignments are not weighted, however
  many like scores the student has: the total weight it tests is only accumulated for
  weighted assignments. The comment says that without weights all assignments count equally.
\<close>

theorem studentavg_unweighted_zero:
  assumes "\<forall>scp \<in> set (st_rawscores (h s)). as_wpolicy (ns_asgts st ! sc_asgt scp) = NOWEIGHT"
    and "\<forall>scp \<in> set (st_rawscores (h s)). linked (ns_stats st) scp" "deviations_known (ns_stats st)"
  shows "\<exists>st'. studentavg h s t st = Some (0, st') \<and> No_like s \<in> set (ns_warnings st')"
proof -
  obtain n wp sm st' where "like_scores t (st_rawscores (h s)) (0, False, 0, 0, st) = Some (n, wp, sm, 0, st')"
    using like_scores_keeps [OF assms(2,3), of t 0 False 0 0] assms(1) by auto
  then show ?thesis by (simp add: studentavg_def warn_def)
qed

definition linked_heap :: heap where
  "linked_heap = (\<lambda>a. (graded_heap 3)\<lparr>st_rawscores := [(demo_score 90)\<lparr>sc_cstats := Some 0, sc_sstats := Some (0, 0)\<rparr>]\<rparr>)"

lemma linked_demo:
  "\<forall>a \<in> set [3]. \<forall>scp \<in> set (st_rawscores (linked_heap a)). linked (ns_stats (two_grades_state asgt)) scp"
  "deviations_known (ns_stats (two_grades_state asgt))"
proof -
  show "\<forall>a \<in> set [3]. \<forall>scp \<in> set (st_rawscores (linked_heap a)). linked (ns_stats (two_grades_state asgt)) scp"
    using two_grades_exact(4) by (cases "cs_sstats two_grades_block") (simp_all add: linked_heap_def linked_def)
  have "cs_stddev two_grades_block \<noteq> None" "ss_stddev (cs_sstats two_grades_block ! 0) \<noteq> None"
    using two_grades two_grades_exact(1,2) by (simp_all add: class_exact_def section_exact_def)
  then show "deviations_known (ns_stats (two_grades_state asgt))"
    using two_grades_exact(4) by (auto simp: deviations_known_def length_Suc_conv)
qed

theorem studentavg_unweighted_zero_witness:
  "\<exists>st'. studentavg linked_heap 3 ''hw'' (two_grades_state quantile_asgt) = Some (0, st')
    \<and> length (st_rawscores (linked_heap 3)) = 1"
proof -
  have "\<forall>scp \<in> set (st_rawscores (linked_heap 3)). as_wpolicy (ns_asgts (two_grades_state quantile_asgt) ! sc_asgt scp) = NOWEIGHT"
    by (simp add: linked_heap_def demo_score_def quantile_asgt_def)
  from studentavg_unweighted_zero [of linked_heap 3 "two_grades_state quantile_asgt", OF this _ linked_demo(2)]
    linked_demo(1) show ?thesis by (auto simp: linked_heap_def)
qed

text \<open>
  C25. On a course roster whose raw scores point to blocks of the statistics, with standard
  deviations that are numbers, \<open>normalize\<close> and \<open>composites\<close> return; every student of the roster
  gets one normalized score per raw score, for the same assignments and with the same flags, with
  the stored normalized score (of the kind the policy of the assignment asks for) or the class
  average of the assignment (50 for quantiles) as its grade where a score is not valid and asks
  for that, and the composite score is the sum of the normalized scores times their weights, rounded to \<open>float\<close>
  after every term, in the order of the assignments: the exact sum when the terms are multiples
  of an eighth whose absolute values add up to less than \<open>2 ^ 21\<close>. No other field and no other
  student changes.
\<close>

theorem normalize_composites:
  assumes "chain st_cnext h (co_roster c) xs" "deviations_known (ns_stats st)"
    and "\<forall>a \<in> set xs. \<forall>scp \<in> set (st_rawscores (h a)). linked (ns_stats st) scp"
  shows "\<exists>h' st' h'' st''. normalize h c st = Some (h', st') \<and> composites h' c st' = Some (h'', st'')
    \<and> (\<forall>a \<in> set xs. map sc_asgt (st_normscores (h'' a)) = map sc_asgt (st_rawscores (h a))
          \<and> map sc_flag (st_normscores (h'' a)) = map sc_flag (st_rawscores (h a))
          \<and> list_all2 (substituted (ns_asgts st)) (st_rawscores (h a)) (st_normscores (h'' a))
          \<and> st_composite (h'' a) = composite_of (ns_asgts st') (st_normscores (h'' a))
          \<and> (let ts = all_terms (ns_asgts st') (st_normscores (h'' a))
             in (\<forall>t \<in> set ts. grid 3 (fst t * snd t)) \<longrightarrow>
                sum_list (map (\<lambda>t. \<bar>fst t * snd t\<bar>) ts) < 2 ^ 21 \<longrightarrow>
                st_composite (h'' a) = sum_list (map (\<lambda>t. fst t * snd t) ts))
          \<and> unnormed (h'' a) = (unnormed (h a))\<lparr>st_composite := st_composite (h'' a)\<rparr>)
    \<and> (\<forall>a. a \<notin> set xs \<longrightarrow> h'' a = h a)"
proof -
  obtain h' st' where n: "normalize_loop h (co_roster c) st = Some (h', st')"
    "\<forall>a. unnormed (h' a) = unnormed (h a)"
    "\<forall>a \<in> set xs. map sc_asgt (st_normscores (h' a)) = map sc_asgt (st_rawscores (h a))
       \<and> map sc_flag (st_normscores (h' a)) = map sc_flag (st_rawscores (h a))
       \<and> list_all2 (substituted (ns_asgts st)) (st_rawscores (h a)) (st_normscores (h' a))"
    "\<forall>a. a \<notin> set xs \<longrightarrow> h' a = h a"
    using normalize_loop_chain [OF assms] by (elim exE conjE) (rule that)
  have "st_cnext (unnormed u) = st_cnext u" for u by (simp add: unnormed_def)
  then have "st_cnext (h' a) = st_cnext (h a)" for a using n(2) by metis
  then have ch: "chain st_cnext h' (co_roster c) xs"
    using assms(1) chain_cong [of xs st_cnext h h' "co_roster c"] by simp
  obtain h'' ws where c: "composites_loop h' (ns_asgts st') (co_roster c) (ns_warnings st') = Some (h'', ws)"
    "\<forall>a. h'' a = (if a \<in> set xs then (h' a)\<lparr>st_composite := composite_of (ns_asgts st') (st_normscores (h' a))\<rparr> else h' a)"
    using composites_loop_chain [OF ch chain_distinct [OF ch], of "ns_asgts st'" "ns_warnings st'"]
    by (elim exE conjE) (rule that)
  have "composite_of as ns = sum_list (map (\<lambda>t. fst t * snd t) (all_terms as ns))"
    if "\<forall>t \<in> set (all_terms as ns). grid 3 (fst t * snd t)"
      "sum_list (map (\<lambda>t. \<bar>fst t * snd t\<bar>) (all_terms as ns)) < 2 ^ 21" for as ns
    using that add_terms_exact [of "all_terms as ns" 0] by (simp add: composite_of_def grid_def [of _ 0])
  moreover have "unnormed (u\<lparr>st_composite := x\<rparr>) = (unnormed u)\<lparr>st_composite := x\<rparr>" for u :: Student and x
    by (simp add: unnormed_def)
  ultimately show ?thesis using n c by (simp add: normalize_def composites_def Let_def)
qed

theorem normalize_composites_witness:
  "\<exists>h' st' h'' st''. normalize linked_heap (graded_course\<lparr>co_roster := Some 3\<rparr>) (two_grades_state linear_asgt) = Some (h', st')
    \<and> composites h' (graded_course\<lparr>co_roster := Some 3\<rparr>) st' = Some (h'', st'')
    \<and> length (st_normscores (h'' 3)) = 1"
proof -
  have "chain st_cnext linked_heap (co_roster (graded_course\<lparr>co_roster := Some 3\<rparr>)) [3]"
    by (simp add: linked_heap_def graded_heap_def)
  note normalize_composites [OF this linked_demo(2,1), of linear_asgt]
  then obtain h' st' h'' st'' where r: "normalize linked_heap (graded_course\<lparr>co_roster := Some 3\<rparr>) (two_grades_state linear_asgt) = Some (h', st')"
    "composites h' (graded_course\<lparr>co_roster := Some 3\<rparr>) st' = Some (h'', st'')"
    "map sc_asgt (st_normscores (h'' 3)) = map sc_asgt (st_rawscores (linked_heap 3))"
    by (elim exE conjE) (use that in simp)
  have "length (st_normscores (h'' 3)) = length (st_rawscores (linked_heap 3))"
    using arg_cong [OF r(3), of length] by simp
  with r(1,2) show ?thesis by (simp add: linked_heap_def)
qed

end
