(* ===== verification/Grades_Scan.thy ===== *)
theory Grades_Scan
  imports Grades_Db C_Strings
begin

text \<open>
  The scanner of the grades program (\<open>grades/src/read.c\<close>, from \<open>istoken\<close> on): the stack of input
  files, the one-token buffer, white space, blank lines and comments, and the functions that
  expect a token, a newline or the end of the input.

  The characters of a file that are still to be read are a list. \<open>getc\<close> stores its result in
  a \<open>char\<close>, so that a byte 255 is taken for the end of the file, and pushing it back does
  nothing. The token buffer is \<open>None\<close> when \<open>tokenptr = tokenend\<close>, and otherwise the characters
  before the NUL that ends the token. The buffer has 64 bytes and its enlargement loses the
  token; a token that does not fit is the error \<open>Overflow\<close>. Errors and warnings are collected
  with the file and the line; the name of an included file is freed as soon as the file is
  open, so that it is \<open>None\<close> in later messages.
\<close>

section \<open>State\<close>

record Ifile =
  if_name :: "cstring option"
  if_line :: int
  if_rest :: "char list"

datatype message = Error "cstring option" int cstring | Warning "cstring option" int cstring

text \<open>Why the program stops: a fatal error at a line of a file, the root file that cannot be
  opened, or a token that does not fit its buffer.\<close>

datatype stop = No_File cstring | Fatal "cstring option" int cstring | Overflow

record reader =
  rd_ifile :: Ifile
  rd_prev :: "Ifile list"
  rd_token :: "cstring option"
  rd_messages :: "message list"
  rd_heap :: heap
  rd_new :: addr

type_synonym 'a scan = "stop + 'a \<times> reader"

text \<open>Sequencing: the rest is skipped after a stop.\<close>

definition bnd :: "'a scan \<Rightarrow> ('a \<Rightarrow> reader \<Rightarrow> 'b scan) \<Rightarrow> 'b scan" where
  "bnd m f = (case m of Inl e \<Rightarrow> Inl e | Inr (x, s) \<Rightarrow> f x s)"

lemma bnd_simps [simp]: "bnd (Inl e) f = Inl e" "bnd (Inr (x, s)) f = f x s"
  by (simp_all add: bnd_def)

lemma bnd_cong [fundef_cong]:
  "m = m' \<Longrightarrow> (\<And>x s. m' = Inr (x, s) \<Longrightarrow> f x s = g x s) \<Longrightarrow> bnd m f = bnd m' g"
  by (auto simp: bnd_def split: sum.splits)

lemma bnd_Inr: "bnd m f = Inr r \<longleftrightarrow> (\<exists>x s. m = Inr (x, s) \<and> f x s = Inr r)"
  by (auto simp: bnd_def split: sum.splits)

definition fatal :: "cstring \<Rightarrow> reader \<Rightarrow> 'a scan" where
  "fatal msg s = Inl (Fatal (if_name (rd_ifile s)) (if_line (rd_ifile s)) msg)"

text \<open>What holds of the result unless the scan stops.\<close>

definition ensures :: "'a scan \<Rightarrow> ('a \<Rightarrow> reader \<Rightarrow> bool) \<Rightarrow> bool" where
  "ensures m P \<longleftrightarrow> (\<forall>x s. m = Inr (x, s) \<longrightarrow> P x s)"

lemma ensures_simps [simp]: "ensures (Inl e) P" "ensures (Inr (x, s)) P \<longleftrightarrow> P x s" "ensures (fatal msg s) P"
  by (simp_all add: ensures_def fatal_def)

lemma ensures_bnd: "ensures m P \<Longrightarrow> (\<And>x s. P x s \<Longrightarrow> ensures (f x s) Q) \<Longrightarrow> ensures (bnd m f) Q"
  by (auto simp: ensures_def bnd_Inr)

lemma ensures_if: "(b \<Longrightarrow> ensures m P) \<Longrightarrow> (\<not> b \<Longrightarrow> ensures n P) \<Longrightarrow> ensures (if b then m else n) P"
  by simp

lemma ensures_weaken: "ensures m P \<Longrightarrow> (\<And>x s. P x s \<Longrightarrow> Q x s) \<Longrightarrow> ensures m Q"
  by (simp add: ensures_def)

lemma ensuresD: "ensures m P \<Longrightarrow> m = Inr (x, s) \<Longrightarrow> P x s"
  by (simp add: ensures_def)

abbreviation rd_rest :: "reader \<Rightarrow> char list" where
  "rd_rest s \<equiv> if_rest (rd_ifile s)"

definition set_rest :: "char list \<Rightarrow> reader \<Rightarrow> reader" where
  "set_rest r s = s\<lparr>rd_ifile := (rd_ifile s)\<lparr>if_rest := r\<rparr>\<rparr>"

definition next_line :: "reader \<Rightarrow> reader" where
  "next_line s = s\<lparr>rd_ifile := (rd_ifile s)\<lparr>if_line := if_line (rd_ifile s) + 1\<rparr>\<rparr>"

definition error :: "cstring \<Rightarrow> reader \<Rightarrow> reader" where
  "error msg s = s\<lparr>rd_messages := rd_messages s @ [Error (if_name (rd_ifile s)) (if_line (rd_ifile s)) msg]\<rparr>"

definition warning :: "cstring \<Rightarrow> reader \<Rightarrow> reader" where
  "warning msg s = s\<lparr>rd_messages := rd_messages s @ [Warning (if_name (rd_ifile s)) (if_line (rd_ifile s)) msg]\<rparr>"

section \<open>Characters\<close>

definition EOF :: char where
  "EOF = CHR 0xFF"

definition newline :: char where
  "newline = CHR 0x0A"

definition iswhitespace :: "char \<Rightarrow> bool" where
  "iswhitespace c \<longleftrightarrow> c = CHR '','' \<or> c = CHR '':'' \<or> c = CHR '' '' \<or> c = CHR 0x09 \<or> c = CHR 0x0C"

definition istoken :: "reader \<Rightarrow> bool" where
  "istoken s \<longleftrightarrow> rd_token s \<noteq> None"

text \<open>The characters of the token up to its first NUL, as \<open>strcmp\<close> sees them.\<close>

definition tokenptr :: "reader \<Rightarrow> cstring" where
  "tokenptr s = (case rd_token s of None \<Rightarrow> [] | Some t \<Rightarrow> takeWhile (\<lambda>c. c \<noteq> CHR 0x00) t)"

definition flushtoken :: "reader \<Rightarrow> reader" where
  "flushtoken s = s\<lparr>rd_token := None\<rparr>"

text \<open>Reading white space up to another character, which is pushed back.\<close>

fun skip_white :: "char list \<Rightarrow> char list" where
  "skip_white [] = []"
| "skip_white (c # cs) = (if iswhitespace c then skip_white cs else if c = EOF then cs else c # cs)"

definition gobblewhitespace :: "reader \<Rightarrow> reader" where
  "gobblewhitespace s = (if istoken s then s else set_rest (skip_white (rd_rest s)) s)"

text \<open>A comment up to and including its newline, or nothing when it has none.\<close>

fun skip_comment :: "char list \<Rightarrow> char list option" where
  "skip_comment [] = None"
| "skip_comment (c # cs) = (if c = newline then Some cs else if c = EOF then None else skip_comment cs)"

lemma skip_white_length: "length (skip_white cs) \<le> length cs"
  by (induction cs) auto

lemma skip_comment_length: "skip_comment cs = Some r \<Longrightarrow> length r < length cs"
  by (induction cs) (auto split: if_splits)

function blank_loop :: "reader \<Rightarrow> unit scan" where
  "blank_loop s =
    (case rd_rest s of
       [] \<Rightarrow> Inr ((), s)
     | c # cs \<Rightarrow>
        if c = CHR ''#'' then
          (case skip_comment cs of
             None \<Rightarrow> fatal ''EOF within comment line.'' s
           | Some r \<Rightarrow> blank_loop (next_line (set_rest r s)))
        else
          (case (if c = EOF then cs else c # cs) of
             [] \<Rightarrow> Inr ((), set_rest [] s)
           | d # ds \<Rightarrow>
              if d = newline then blank_loop (gobblewhitespace (next_line (set_rest ds s)))
              else Inr ((), set_rest (if d = EOF then ds else d # ds) s)))"
  by pat_completeness auto
termination
  by (relation "measure (\<lambda>s. length (rd_rest s))")
    (auto simp: next_line_def set_rest_def gobblewhitespace_def dest: skip_comment_length
      split: if_splits intro: le_less_trans [OF skip_white_length])

declare blank_loop.simps [simp del]

definition gobbleblanklines :: "reader \<Rightarrow> unit scan" where
  "gobbleblanklines s = (if istoken s then Inr ((), s) else blank_loop s)"

definition nextchar :: "reader \<Rightarrow> char scan" where
  "nextchar s =
    (case rd_token s of
       Some [] \<Rightarrow> Inr (CHR 0x00, s\<lparr>rd_token := None\<rparr>)
     | Some (c # cs) \<Rightarrow> Inr (c, s\<lparr>rd_token := Some cs\<rparr>)
     | None \<Rightarrow>
        (case rd_rest s of
           [] \<Rightarrow> fatal ''Unexpected EOF.'' s
         | c # cs \<Rightarrow> if c = EOF then fatal ''Unexpected EOF.'' s else Inr (c, set_rest cs s)))"

section \<open>Tokens\<close>

text \<open>The characters of a token, and what follows; a byte 255 is read and dropped.\<close>

fun take_token :: "char list \<Rightarrow> char list \<times> char list" where
  "take_token [] = ([], [])"
| "take_token (c # cs) =
    (if c = EOF then ([], cs)
     else if iswhitespace c \<or> c = newline then ([], c # cs)
     else let (t, r) = take_token cs in (c # t, r))"

text \<open>How \<open>advancetoken\<close> and \<open>advanceeol\<close> begin.\<close>

definition discard :: "reader \<Rightarrow> reader" where
  "discard s =
    gobblewhitespace (flushtoken (if istoken s then error ''Flushing unread input token.'' s else s))"

definition advancetoken :: "reader \<Rightarrow> unit scan" where
  "advancetoken s =
    (let s = discard s;
         (t, r) = take_token (rd_rest s)
     in if length t \<ge> 64 then Inl Overflow
        else Inr ((), (set_rest r s)\<lparr>rd_token := (if t = [] then None else Some t)\<rparr>))"

text \<open>The rest of the line; \<open>None\<close> in place of what follows when the file ends first.\<close>

fun take_line :: "char list \<Rightarrow> char list \<times> char list option" where
  "take_line [] = ([], None)"
| "take_line (c # cs) =
    (if c = EOF then ([], None)
     else if c = newline then ([], Some (c # cs))
     else let (t, r) = take_line cs in (c # t, r))"

definition advanceeol :: "reader \<Rightarrow> unit scan" where
  "advanceeol s =
    (let s = discard s;
         (t, r) = take_line (rd_rest s)
     in case r of
          None \<Rightarrow> if length t \<ge> 65 then Inl Overflow else fatal ''Incomplete line at end of file.'' s
        | Some r \<Rightarrow> if length t \<ge> 64 then Inl Overflow
                    else Inr ((), (set_rest r s)\<lparr>rd_token := Some t\<rparr>))"

text \<open>\<open>if(!istoken()) advancetoken();\<close>\<close>

definition need_token :: "reader \<Rightarrow> unit scan" where
  "need_token s = (if istoken s then Inr ((), s) else advancetoken s)"

definition checktoken :: "cstring \<Rightarrow> reader \<Rightarrow> bool scan" where
  "checktoken key s =
    bnd (need_token s) (\<lambda>_ s.
      if istoken s \<and> strcmp (tokenptr s) key = 0 then Inr (True, flushtoken s) else Inr (False, s))"

text \<open>The message also shows the token that was found.\<close>

definition expecttoken :: "cstring \<Rightarrow> reader \<Rightarrow> unit scan" where
  "expecttoken key s =
    bnd (need_token s) (\<lambda>_ s.
      if istoken s \<and> strcmp (tokenptr s) key = 0 then Inr ((), flushtoken s)
      else Inr ((), error (''Expected '' @ key) s))"

text \<open>\<open>while((c = nextchar()) != newline);\<close> with an empty token buffer.\<close>

definition expectnewline :: "reader \<Rightarrow> unit scan" where
  "expectnewline s =
    bnd (nextchar (gobblewhitespace s)) (\<lambda>c s.
      if c = newline then gobbleblanklines (next_line s)
      else let s = flushtoken (error ''Expected newline, scanning ahead.'' s)
           in case skip_comment (rd_rest s) of
                None \<Rightarrow> fatal ''Unexpected EOF.'' s
              | Some r \<Rightarrow> Inr ((), next_line (set_rest r s)))"

section \<open>Files\<close>

text \<open>The file system gives the contents of a file that can be opened.\<close>

type_synonym file_system = "cstring \<Rightarrow> char list option"

definition previousfile :: "reader \<Rightarrow> unit scan" where
  "previousfile s =
    (case rd_prev s of
       [] \<Rightarrow> fatal ''No previous file.'' s
     | f # fs \<Rightarrow> Inr ((), s\<lparr>rd_ifile := f, rd_prev := fs\<rparr>))"

definition expecteof :: "reader \<Rightarrow> reader" where
  "expecteof s =
    (if \<not> istoken s \<and> (rd_rest s = [] \<or> hd (rd_rest s) = EOF) \<and> rd_prev s = [] then set_rest (drop 1 (rd_rest s)) s
     else let s = (if istoken s then s else set_rest (drop 1 (rd_rest s)) s);
              s = flushtoken (error ''Expected EOF, skipping excess input.'' s)
          in if rd_prev s = [] then s else s\<lparr>rd_ifile := last (rd_prev s), rd_prev := []\<rparr>)"

definition pushfile :: "file_system \<Rightarrow> reader \<Rightarrow> unit scan" where
  "pushfile fs s =
    bnd (advanceeol s) (\<lambda>_ s.
      let (n, s) = (case rd_token s of Some _ \<Rightarrow> (tokenptr s, s) | None \<Rightarrow> ([], error ''Expected a file name.'' s))
      in bnd (expectnewline (flushtoken s)) (\<lambda>_ s.
        case fs n of
          None \<Rightarrow> fatal (''Can'' @ [CHR 0x27] @ ''t open data file '' @ n @ [newline]) s
        | Some cs \<Rightarrow>
           gobbleblanklines (s\<lparr>rd_prev := rd_ifile s # rd_prev s,
             rd_ifile := \<lparr>if_name = None, if_line = 1, if_rest = cs\<rparr>\<rparr>)))"

section \<open>The input shrinks\<close>

text \<open>How much input is left in the current file and the token buffer.\<close>

definition input_size :: "reader \<Rightarrow> nat" where
  "input_size s = length (rd_rest s) + (case rd_token s of None \<Rightarrow> 0 | Some t \<Rightarrow> length t)"

named_theorems shrinks \<open>operations of the scanner do not make the input longer\<close>

lemma input_size_simps [simp]:
  "input_size (next_line s) = input_size s" "input_size (error m s) = input_size s"
  "input_size (warning m s) = input_size s" "input_size (s\<lparr>rd_heap := h\<rparr>) = input_size s"
  "input_size (s\<lparr>rd_new := a\<rparr>) = input_size s"
  "rd_rest (next_line s) = rd_rest s" "rd_rest (error m s) = rd_rest s" "rd_rest (flushtoken s) = rd_rest s"
  "rd_rest (set_rest r s) = r" "rd_token (set_rest r s) = rd_token s" "rd_token (next_line s) = rd_token s"
  "rd_token (error m s) = rd_token s" "rd_token (flushtoken s) = None"
  by (simp_all add: input_size_def next_line_def error_def warning_def set_rest_def flushtoken_def)

lemma flushtoken_size: "input_size (flushtoken s) \<le> input_size s"
  by (simp add: input_size_def)

lemma gobblewhitespace_size: "input_size (gobblewhitespace s) \<le> input_size s"
  using skip_white_length [of "rd_rest s"]
  by (auto simp: gobblewhitespace_def input_size_def istoken_def)

lemma blank_loop_size [shrinks]: "blank_loop s = Inr (x, s') \<Longrightarrow> input_size s' \<le> input_size s"
proof (induction s rule: blank_loop.induct)
  case (1 s)
  show ?case
  proof (cases "rd_rest s")
    case Nil
    then show ?thesis using 1(3) by (subst (asm) blank_loop.simps) (simp add: input_size_def)
  next
    case (Cons c cs)
    have g: "input_size (gobblewhitespace (next_line (set_rest ds s))) \<le> input_size s" if "length ds \<le> length (c # cs)" for ds
      using gobblewhitespace_size [of "next_line (set_rest ds s)"] that Cons
      by (simp add: input_size_def)
    show ?thesis
    proof (cases "c = CHR ''#''")
      case True
      then obtain r where r: "skip_comment cs = Some r" "blank_loop (next_line (set_rest r s)) = Inr (x, s')"
        using 1(3) Cons by (subst (asm) blank_loop.simps) (auto simp: fatal_def split: option.splits)
      have "input_size s' \<le> input_size (next_line (set_rest r s))"
        using 1(1) [OF Cons True r(1)] r(2) by blast
      also have "\<dots> \<le> input_size s" using skip_comment_length [OF r(1)] Cons by (simp add: input_size_def)
      finally show ?thesis .
    next
      case False
      show ?thesis
      proof (cases "if c = EOF then cs else c # cs")
        case Nil
        then show ?thesis using 1(3) Cons False by (subst (asm) blank_loop.simps) (auto simp: input_size_def)
      next
        case (Cons d ds)
        have len: "length (d # ds) \<le> length (c # cs)" using Cons by (metis length_Cons le_SucI order_refl)
        show ?thesis
        proof (cases "d = newline")
          case True
          then have "blank_loop (gobblewhitespace (next_line (set_rest ds s))) = Inr (x, s')"
            using 1(3) \<open>rd_rest s = c # cs\<close> False Cons by (subst (asm) blank_loop.simps) simp
          then show ?thesis
            using 1(2) [OF \<open>rd_rest s = c # cs\<close> False Cons True] g [of ds] len by fastforce
        next
          case ne: False
          then show ?thesis
            using 1(3) \<open>rd_rest s = c # cs\<close> False Cons len
            by (subst (asm) blank_loop.simps) (auto simp: input_size_def)
        qed
      qed
    qed
  qed
qed

lemma gobbleblanklines_size [shrinks]: "gobbleblanklines s = Inr (x, s') \<Longrightarrow> input_size s' \<le> input_size s"
  by (auto simp: gobbleblanklines_def split: if_splits dest: blank_loop_size)

lemma nextchar_size [shrinks]: "nextchar s = Inr (c, s') \<Longrightarrow> input_size s' \<le> input_size s"
  by (auto simp: nextchar_def fatal_def input_size_def split: option.splits list.splits if_splits)

lemma take_token_length: "take_token cs = (t, r) \<Longrightarrow> length t + length r \<le> length cs"
  by (induction cs arbitrary: t r) (auto split: if_splits prod.splits)

lemma take_line_length: "take_line cs = (t, Some r) \<Longrightarrow> length t + length r \<le> length cs"
  by (induction cs arbitrary: t r) (auto split: if_splits prod.splits)

lemma gobble_flush_length: "length (rd_rest (gobblewhitespace (flushtoken s))) \<le> length (rd_rest s)"
  by (simp add: gobblewhitespace_def istoken_def skip_white_length)

lemma advancetoken_size [shrinks]:
  assumes "advancetoken s = Inr (x, s')"
  shows "input_size s' \<le> input_size s"
proof -
  define s1 where "s1 = discard s"
  obtain t r where t: "take_token (rd_rest s1) = (t, r)" by fastforce
  have "s' = (set_rest r s1)\<lparr>rd_token := if t = [] then None else Some t\<rparr>"
    using assms t by (auto simp: advancetoken_def Let_def s1_def [symmetric] split: if_splits)
  then have "input_size s' \<le> length t + length r" by (simp add: input_size_def set_rest_def)
  also have "\<dots> \<le> length (rd_rest s1)" by (rule take_token_length [OF t])
  also have "\<dots> \<le> length (rd_rest s)" unfolding s1_def discard_def by (rule order_trans [OF gobble_flush_length]) simp
  finally show ?thesis by (simp add: input_size_def)
qed

lemma advanceeol_size [shrinks]:
  assumes "advanceeol s = Inr (x, s')"
  shows "input_size s' \<le> input_size s"
proof -
  define s1 where "s1 = discard s"
  obtain t q where t: "take_line (rd_rest s1) = (t, q)" by fastforce
  then obtain r where r: "q = Some r" "s' = (set_rest r s1)\<lparr>rd_token := Some t\<rparr>"
    using assms by (auto simp: advanceeol_def Let_def s1_def [symmetric] fatal_def split: if_splits option.splits)
  then have "input_size s' \<le> length t + length r" by (simp add: input_size_def set_rest_def)
  also have "\<dots> \<le> length (rd_rest s1)" using take_line_length t r(1) by simp
  also have "\<dots> \<le> length (rd_rest s)" unfolding s1_def discard_def by (rule order_trans [OF gobble_flush_length]) simp
  finally show ?thesis by (simp add: input_size_def)
qed

lemma need_token_size [shrinks]: "need_token s = Inr (x, s') \<Longrightarrow> input_size s' \<le> input_size s"
  by (auto simp: need_token_def split: if_splits dest: advancetoken_size)

lemma checktoken_size [shrinks]: "checktoken key s = Inr (b, s') \<Longrightarrow> input_size s' \<le> input_size s"
  using flushtoken_size
  by (fastforce simp: checktoken_def bnd_Inr split: if_splits dest: need_token_size intro: order_trans)

lemma takeWhile_shorter: "length (takeWhile P t) \<le> length t"
  by (rule length_takeWhile_le)

lemma checktoken_less:
  assumes "checktoken key s = Inr (True, s')" "key \<noteq> []"
  shows "input_size s' < input_size s"
proof -
  obtain s1 where s1: "need_token s = Inr ((), s1)" "istoken s1" "tokenptr s1 = key" "s' = flushtoken s1"
    using assms(1) by (auto simp: checktoken_def bnd_Inr split: if_splits)
  then obtain t where t: "rd_token s1 = Some t" by (auto simp: istoken_def)
  then have "0 < length t" using s1(3) assms(2) by (auto simp: tokenptr_def)
  then have "input_size s' < input_size s1" using s1(4) t by (simp add: input_size_def)
  then show ?thesis using need_token_size [OF s1(1)] by simp
qed

lemma expectnewline_size [shrinks]:
  assumes "expectnewline s = Inr (x, s')"
  shows "input_size s' \<le> input_size s"
proof -
  obtain c s1 where c: "nextchar (gobblewhitespace s) = Inr (c, s1)"
    and k: "(if c = newline then gobbleblanklines (next_line s1)
      else let s = flushtoken (error ''Expected newline, scanning ahead.'' s1)
           in case skip_comment (rd_rest s) of
                None \<Rightarrow> fatal ''Unexpected EOF.'' s
              | Some r \<Rightarrow> Inr ((), next_line (set_rest r s))) = Inr (x, s')"
    using assms by (auto simp: expectnewline_def bnd_Inr)
  have "input_size s' \<le> input_size s1"
    using k by (auto simp: Let_def fatal_def input_size_def split: if_splits option.splits
        dest!: gobbleblanklines_size skip_comment_length)
  also have "\<dots> \<le> input_size s"
    using nextchar_size [OF c] gobblewhitespace_size [of s] by simp
  finally show ?thesis .
qed

end
