(* ===== verification/C_Float.thy ===== *)
theory C_Float
  imports C_Strings Complex_Main
begin

text \<open>
  The conversion \<open>%f\<close> of \<open>sscanf\<close> and \<open>fprintf\<close> over real numbers: no rounding to \<open>float\<close>, and no
  infinities, NaNs and hexadecimal numbers. What is printed with six decimals is read back
  exactly when it has no more than six.
\<close>

definition scan_exponent :: "cstring \<Rightarrow> int option" where
  "scan_exponent s =
    (if deref s = CHR ''e'' \<or> deref s = CHR ''E'' then
       (let t = drop 1 s;
            ds = (if deref t = CHR ''-'' \<or> deref t = CHR ''+'' then drop 1 t else t);
            n = takeWhile is_digit ds
        in if n = [] then None
           else Some (if deref t = CHR ''-'' then - int (dec_value n) else int (dec_value n)))
     else Some 0)"

definition scale10 :: "int \<Rightarrow> real \<Rightarrow> real" where
  "scale10 e x = (if e < 0 then x / 10 ^ nat (- e) else x * 10 ^ nat e)"

definition scan_unsigned :: "cstring \<Rightarrow> real option" where
  "scan_unsigned u =
    (let ip = takeWhile is_digit u; r = dropWhile is_digit u;
         (fp, r) = (if deref r = CHR ''.'' then (takeWhile is_digit (drop 1 r), dropWhile is_digit (drop 1 r)) else ([], r))
     in if ip @ fp = [] then None
        else map_option (\<lambda>e. scale10 e (real (dec_value (ip @ fp)) / 10 ^ length fp)) (scan_exponent r))"

definition scan_float :: "cstring \<Rightarrow> real option" where
  "scan_float s =
    (let t = dropWhile isspace s
     in if deref t = CHR ''-'' then map_option uminus (scan_unsigned (drop 1 t))
        else scan_unsigned (if deref t = CHR ''+'' then drop 1 t else t))"

text \<open>The last \<open>k\<close> decimal digits of a number.\<close>

fun last_digits :: "nat \<Rightarrow> nat \<Rightarrow> cstring" where
  "last_digits 0 n = []"
| "last_digits (Suc k) n = last_digits k (n div 10) @ [digit_char (n mod 10)]"

text \<open>The number of millionths, ties rounded to even.\<close>

definition millionths :: "real \<Rightarrow> nat" where
  "millionths x =
    (let y = \<bar>x\<bar> * 1000000; n = nat \<lfloor>y\<rfloor>; d = y - real n
     in if d < 1 / 2 \<or> (d = 1 / 2 \<and> even n) then n else n + 1)"

definition show_float :: "real \<Rightarrow> cstring" where
  "show_float x =
    (if x < 0 then ''-'' else []) @ show_nat (millionths x div 1000000) @ ''.''
    @ last_digits 6 (millionths x mod 1000000)"

section \<open>Reading back what was printed\<close>

lemma dec_value_append: "dec_value (s @ t) = dec_value s * 10 ^ length t + dec_value t"
proof (induction t rule: rev_induct)
  case (snoc c t)
  then show ?case
    by (simp only: append_assoc [symmetric] dec_value_snoc) (simp add: algebra_simps)
qed (simp add: dec_value_def)

lemma last_digits_length [simp]: "length (last_digits k n) = k"
  by (induction k arbitrary: n) simp_all

lemma last_digits_digits: "list_all is_digit (last_digits k n)"
  by (induction k arbitrary: n) (simp_all add: is_digit_def ord_digit_char less_Suc_eq_le [symmetric])

lemma dec_value_last_digits: "dec_value (last_digits k n) = n mod 10 ^ k"
proof (induction k arbitrary: n)
  case (Suc k)
  have "(n div 10) mod 10 ^ k * 10 + n mod 10 = n mod (10 * 10 ^ k)"
    by (simp add: mod_mult2_eq)
  with Suc show ?case by (simp add: dec_value_snoc ord_digit_char)
qed (simp add: dec_value_def)

lemma scan_show_float:
  assumes "\<bar>x\<bar> * 1000000 = real n"
  shows "scan_float (show_float x) = Some x"
proof -
  have m: "millionths x = n" using assms by (simp add: millionths_def)
  define a where "a = show_nat (n div 1000000)"
  define b where "b = last_digits 6 (n mod 1000000)"
  have ab: "list_all is_digit a" "a \<noteq> []" "list_all is_digit b"
    by (simp_all add: a_def b_def show_nat_digits last_digits_digits)
  have val: "dec_value (a @ b) = n"
    by (simp add: dec_value_append a_def b_def dec_value_last_digits)
  obtain d ds where d: "a = d # ds" using ab(2) by (cases a) auto
  have dg: "is_digit d" using ab(1) d by simp
  have tw: "takeWhile is_digit (a @ CHR ''.'' # b) = a" "dropWhile is_digit (a @ CHR ''.'' # b) = CHR ''.'' # b"
    "takeWhile is_digit b = b" "dropWhile is_digit b = []"
    using takeWhile_digits [OF ab(1), of "CHR ''.'' # b"] dropWhile_digits [OF ab(1), of "CHR ''.'' # b"]
      takeWhile_digits [OF ab(3), of "[]"] dropWhile_digits [OF ab(3), of "[]"]
    by (simp_all add: not_digit) (simp_all add: is_digit_def ord_def)
  have "length b = 6" by (simp add: b_def)
  then have u: "scan_unsigned (a @ CHR ''.'' # b) = Some (real n / 1000000)"
    using val by (simp add: scan_unsigned_def tw ab(2) scan_exponent_def scale10_def)
  have "show_float x = (if x < 0 then ''-'' else []) @ a @ CHR ''.'' # b"
    by (simp add: show_float_def m a_def b_def)
  moreover have "real n / 1000000 = \<bar>x\<bar>" using assms by simp
  ultimately show ?thesis
    using u digit_not_space [OF dg] digit_not_sign [OF dg] d
    by (auto simp: scan_float_def isspace_def ord_def)
qed

end
