(* ===== verification/Grades_Read.thy ===== *)
theory Grades_Read
  imports Grades_Scan C_Float
begin

text \<open>
  The parser of the grades program (\<open>grades/src/read.c\<close>, up to \<open>readatype\<close>). Assignments, scores
  and sections are read into lists, students into fresh cells of the store; a field that the
  code does not set is 0, empty or null. Only \<open>readsections\<close> can run forever, on files that include
  each other, so its result is \<open>None\<close> in that case.
\<close>

section \<open>Words, names and numbers\<close>

text \<open>\<open>newstring(tokenptr, tokensize())\<close>, or a message and the empty string; then the buffer is flushed.\<close>

definition grab :: "cstring \<Rightarrow> reader \<Rightarrow> cstring scan" where
  "grab msg s = Inr (if istoken s then (tokenptr s, flushtoken s) else ([], flushtoken (error msg s)))"

definition readsurname :: "reader \<Rightarrow> cstring scan" where
  "readsurname s = bnd (need_token s) (\<lambda>_ s. grab ''Expected surname.'' s)"

definition readid :: "reader \<Rightarrow> cstring scan" where
  "readid s = bnd (need_token s) (\<lambda>_ s. grab ''Expected an ID.'' s)"

definition readatype :: "reader \<Rightarrow> cstring scan" where
  "readatype s = bnd (need_token s) (\<lambda>_ s. grab ''Expected an assignment type.'' s)"

definition readname :: "reader \<Rightarrow> cstring scan" where
  "readname s =
    bnd (advanceeol s) (\<lambda>_ s.
    bnd (grab ''Expected a name.'' s) (\<lambda>n s.
    bnd (expectnewline s) (\<lambda>_ s. Inr (n, s))))"

text \<open>\<open>if(istoken() && sscanf(tokenptr, "%f", &f) == 1) flushtoken();\<close> and the number.\<close>

definition readnum :: "reader \<Rightarrow> real option scan" where
  "readnum s =
    (case scan_float (tokenptr s) of
       Some f \<Rightarrow> Inr (if istoken s then (Some f, flushtoken s) else (None, s))
     | None \<Rightarrow> Inr (None, s))"

section \<open>Assignments\<close>

definition readweight :: "Assignment \<Rightarrow> reader \<Rightarrow> Assignment scan" where
  "readweight a s =
    bnd (advancetoken s) (\<lambda>_ s.
    bnd (readnum s) (\<lambda>n s.
      case n of
        Some f \<Rightarrow> Inr (a\<lparr>as_wpolicy := WEIGHT, as_weight := f\<rparr>, s)
      | None \<Rightarrow> Inr (a\<lparr>as_wpolicy := NOWEIGHT\<rparr>, error ''Expected a numeric weight.'' s)))"

definition readmax :: "Assignment \<Rightarrow> reader \<Rightarrow> Assignment scan" where
  "readmax a s =
    bnd (advancetoken s) (\<lambda>_ s.
    bnd (readnum s) (\<lambda>n s.
      case n of
        Some f \<Rightarrow> Inr (a\<lparr>as_max := f\<rparr>, s)
      | None \<Rightarrow> Inr (a, error ''Expected a numeric maximum score.'' s)))"

text \<open>A number of a normalization policy, with its default.\<close>

definition readparam :: "cstring \<Rightarrow> real \<Rightarrow> reader \<Rightarrow> real scan" where
  "readparam msg dflt s =
    bnd (advancetoken s) (\<lambda>_ s.
    bnd (readnum s) (\<lambda>n s. case n of Some f \<Rightarrow> Inr (f, s) | None \<Rightarrow> Inr (dflt, error msg s)))"

text \<open>One round of the loop of \<open>readnorm\<close>: the changed assignment, or \<open>None\<close> at the \<open>break\<close>.\<close>

definition norm_step :: "Assignment \<Rightarrow> reader \<Rightarrow> Assignment option scan" where
  "norm_step a s =
    bnd (checktoken ''RAW'' s) (\<lambda>b s. if b then Inr (Some (a\<lparr>as_npolicy := RAW\<rparr>), s) else
    bnd (checktoken ''STDLINEAR'' s) (\<lambda>b s. if b then
      Inr (Some (a\<lparr>as_npolicy := LINEAR, as_mean := 0, as_stddev := 1\<rparr>), s) else
    bnd (checktoken ''GENLINEAR'' s) (\<lambda>b s. if b then
      bnd (readparam ''Expected a numeric mean, using 0.0.'' 0 s) (\<lambda>f s.
      bnd (readparam ''Expected a numeric standard deviation, using 1.0.'' 1 s) (\<lambda>g s.
        Inr (Some (a\<lparr>as_npolicy := LINEAR, as_mean := f, as_stddev := g\<rparr>), s))) else
    bnd (checktoken ''QUANTILE'' s) (\<lambda>b s. if b then Inr (Some (a\<lparr>as_npolicy := QUANTILE\<rparr>), s) else
    bnd (checktoken ''SCALE'' s) (\<lambda>b s. if b then
      bnd (readparam ''Expected a numeric scale, using 0.0.'' 0 s) (\<lambda>f s.
        Inr (Some (a\<lparr>as_npolicy := SCALE, as_scale := f\<rparr>), s)) else
    bnd (checktoken ''BYCLASS'' s) (\<lambda>b s. if b then Inr (Some (a\<lparr>as_ngroup := BYCLASS\<rparr>), s) else
    bnd (checktoken ''BYSECTION'' s) (\<lambda>b s. if b then Inr (Some (a\<lparr>as_ngroup := BYSECTION\<rparr>), s) else
      Inr (None, s))))))))"

section \<open>Operations shrink the input\<close>

lemma grab_size [shrinks]: "grab msg s = Inr (n, s') \<Longrightarrow> input_size s' \<le> input_size s"
  using flushtoken_size [of s] flushtoken_size [of "error msg s"] by (auto simp: grab_def split: if_splits)

lemma word_size [shrinks]:
  "readsurname s = Inr (n, s') \<Longrightarrow> input_size s' \<le> input_size s"
  "readid s = Inr (n, s') \<Longrightarrow> input_size s' \<le> input_size s"
  "readatype s = Inr (n, s') \<Longrightarrow> input_size s' \<le> input_size s"
  by (auto simp: readsurname_def readid_def readatype_def bnd_Inr dest!: need_token_size grab_size)

lemma readname_size [shrinks]: "readname s = Inr (n, s') \<Longrightarrow> input_size s' \<le> input_size s"
  by (auto simp: readname_def bnd_Inr dest!: advanceeol_size expectnewline_size grab_size)

lemma readnum_size [shrinks]: "readnum s = Inr (x, s') \<Longrightarrow> input_size s' \<le> input_size s"
  using flushtoken_size by (auto simp: readnum_def split: option.splits if_splits)

text \<open>The same as rules for \<open>ensures\<close>, with an upper bound on the input.\<close>

lemma checktoken_dec:
  "input_size s \<le> n \<Longrightarrow> ensures (checktoken (c # cs) s) (\<lambda>b s'. input_size s' + (if b then 1 else 0) \<le> n)"
  using checktoken_less [of "c # cs" s] checktoken_size [of "c # cs" s] by (fastforce simp: ensures_def)

lemma advancetoken_dec: "input_size s \<le> n \<Longrightarrow> ensures (advancetoken s) (\<lambda>_ s'. input_size s' \<le> n)"
  by (auto simp: ensures_def dest!: advancetoken_size)

lemma readnum_dec: "input_size s \<le> n \<Longrightarrow> ensures (readnum s) (\<lambda>_ s'. input_size s' \<le> n)"
  by (auto simp: ensures_def dest!: readnum_size)

lemma readparam_dec: "input_size s \<le> n \<Longrightarrow> ensures (readparam msg d s) (\<lambda>_ s'. input_size s' \<le> n)"
  unfolding readparam_def
  by (rule ensures_bnd, erule advancetoken_dec, rule ensures_bnd, erule readnum_dec) (simp split: option.split)

lemma readweight_dec: "input_size s \<le> n \<Longrightarrow> ensures (readweight a s) (\<lambda>_ s'. input_size s' \<le> n)"
  unfolding readweight_def
  by (rule ensures_bnd, erule advancetoken_dec, rule ensures_bnd, erule readnum_dec) (simp split: option.split)

lemma readmax_dec: "input_size s \<le> n \<Longrightarrow> ensures (readmax a s) (\<lambda>_ s'. input_size s' \<le> n)"
  unfolding readmax_def
  by (rule ensures_bnd, erule advancetoken_dec, rule ensures_bnd, erule readnum_dec) (simp split: option.split)

lemma norm_step_dec:
  "ensures (norm_step a s) (\<lambda>r s'. input_size s' + (if r = None then 0 else 1) \<le> input_size s)"
proof -
  note check = ensures_bnd [OF checktoken_dec] ensures_if
  show ?thesis
    unfolding norm_step_def
    apply (rule check, rule order_refl, rule check, simp)
    apply (rule check, simp, rule check, simp)
    apply (rule check, simp, rule check)
     apply (rule ensures_bnd, rule readparam_dec [OF order_refl], rule ensures_bnd, erule readparam_dec, simp)
    apply (rule check, simp, rule check, simp)
    apply (rule check, simp, rule check)
     apply (rule ensures_bnd, rule readparam_dec [OF order_refl], simp)
    apply (rule check, simp, rule check, simp)
    apply (rule check, simp, rule check, simp, simp)
    done
qed

lemma expectnewline_dec: "input_size s \<le> n \<Longrightarrow> ensures (expectnewline s) (\<lambda>_ s'. input_size s' \<le> n)"
  by (auto simp: ensures_def dest!: expectnewline_size)

lemma advanceeol_dec: "input_size s \<le> n \<Longrightarrow> ensures (advanceeol s) (\<lambda>_ s'. input_size s' \<le> n)"
  by (auto simp: ensures_def dest!: advanceeol_size)

lemma need_token_dec: "input_size s \<le> n \<Longrightarrow> ensures (need_token s) (\<lambda>_ s'. input_size s' \<le> n)"
  by (auto simp: ensures_def dest!: need_token_size)

lemma word_dec:
  "input_size s \<le> n \<Longrightarrow> ensures (readsurname s) (\<lambda>_ s'. input_size s' \<le> n)"
  "input_size s \<le> n \<Longrightarrow> ensures (readid s) (\<lambda>_ s'. input_size s' \<le> n)"
  "input_size s \<le> n \<Longrightarrow> ensures (readatype s) (\<lambda>_ s'. input_size s' \<le> n)"
  "input_size s \<le> n \<Longrightarrow> ensures (readname s) (\<lambda>_ s'. input_size s' \<le> n)"
  by (auto simp: ensures_def dest!: word_size readname_size)

section \<open>The list of assignments\<close>

function norm_loop :: "nat \<Rightarrow> Assignment \<Rightarrow> reader \<Rightarrow> (nat \<times> Assignment) scan" where
  "norm_loop found a s =
    bnd (norm_step a s) (\<lambda>r s.
      case r of None \<Rightarrow> Inr ((found, a), s) | Some a \<Rightarrow> norm_loop (found + 1) a s)"
  by pat_completeness auto
termination
  by (relation "measure (\<lambda>(found, a, s). input_size s)") (auto dest!: ensuresD [OF norm_step_dec])

declare norm_loop.simps [simp del]

definition readnorm :: "Assignment \<Rightarrow> reader \<Rightarrow> Assignment scan" where
  "readnorm a s =
    bnd (norm_loop 0 a s) (\<lambda>(found, a) s.
      if found = 0 then Inr (a\<lparr>as_npolicy := RAW, as_ngroup := BYCLASS\<rparr>, error ''Expected normalization information.'' s)
      else Inr (a, s))"

lemma norm_loop_size:
  "input_size s \<le> n \<Longrightarrow> ensures (norm_loop found a s) (\<lambda>_ s'. input_size s' \<le> n)"
proof (induction found a s rule: norm_loop.induct)
  case (1 found a s)
  show ?case
  proof (subst norm_loop.simps, unfold ensures_def, intro allI impI)
    fix x s'
    assume "bnd (norm_step a s) (\<lambda>r s. case r of None \<Rightarrow> Inr ((found, a), s) | Some a \<Rightarrow> norm_loop (found + 1) a s) = Inr (x, s')"
    then obtain r s1 where r: "norm_step a s = Inr (r, s1)"
      "(case r of None \<Rightarrow> Inr ((found, a), s1) | Some a \<Rightarrow> norm_loop (found + 1) a s1) = Inr (x, s')"
      by (auto simp: bnd_Inr)
    have "input_size s1 \<le> n" using ensuresD [OF norm_step_dec r(1)] 1(2) by simp
    then show "input_size s' \<le> n"
      using r(2) 1(1) [OF r(1)] by (auto simp: ensures_def split: option.splits)
  qed
qed

lemma readnorm_dec: "input_size s \<le> n \<Longrightarrow> ensures (readnorm a s) (\<lambda>_ s'. input_size s' \<le> n)"
  unfolding readnorm_def by (rule ensures_bnd, erule norm_loop_size) (simp split: prod.split)

text \<open>One line that follows the first line of an assignment, or \<open>None\<close> at the \<open>break\<close>.\<close>

definition option_step :: "Assignment \<Rightarrow> reader \<Rightarrow> Assignment option scan" where
  "option_step a s =
    bnd (checktoken ''WEIGHT'' s) (\<lambda>b s. if b then
      bnd (readweight a s) (\<lambda>a s. bnd (expectnewline s) (\<lambda>_ s. Inr (Some a, s))) else
    bnd (checktoken ''NORMALIZE'' s) (\<lambda>b s. if b then
      bnd (readnorm a s) (\<lambda>a s. bnd (expectnewline s) (\<lambda>_ s. Inr (Some a, s))) else
    bnd (checktoken ''MAXIMUM'' s) (\<lambda>b s. if b then
      bnd (readmax a s) (\<lambda>a s. bnd (expectnewline s) (\<lambda>_ s. Inr (Some a, s))) else
      Inr (None, s))))"

lemma option_step_dec:
  "ensures (option_step a s) (\<lambda>r s'. input_size s' + (if r = None then 0 else 1) \<le> input_size s)"
proof -
  note check = ensures_bnd [OF checktoken_dec] ensures_if
  show ?thesis
    unfolding option_step_def
    apply (rule check, rule order_refl, rule check)
     apply (rule ensures_bnd, rule readweight_dec [OF order_refl], rule ensures_bnd, erule expectnewline_dec, simp)
    apply (rule check, simp, rule check)
     apply (rule ensures_bnd, rule readnorm_dec [OF order_refl], rule ensures_bnd, erule expectnewline_dec, simp)
    apply (rule check, simp, rule check)
     apply (rule ensures_bnd, rule readmax_dec [OF order_refl], rule ensures_bnd, erule expectnewline_dec, simp)
    apply simp
    done
qed

function options_loop :: "Assignment \<Rightarrow> reader \<Rightarrow> Assignment scan" where
  "options_loop a s =
    bnd (option_step a s) (\<lambda>r s. case r of None \<Rightarrow> Inr (a, s) | Some a \<Rightarrow> options_loop a s)"
  by pat_completeness auto
termination
  by (relation "measure (\<lambda>(a, s). input_size s)") (auto dest!: ensuresD [OF option_step_dec])

declare options_loop.simps [simp del]

lemma options_loop_dec:
  "input_size s \<le> n \<Longrightarrow> ensures (options_loop a s) (\<lambda>_ s'. input_size s' \<le> n)"
proof (induction a s rule: options_loop.induct)
  case (1 a s)
  show ?case
  proof (subst options_loop.simps, unfold ensures_def, intro allI impI)
    fix x s'
    assume "bnd (option_step a s) (\<lambda>r s. case r of None \<Rightarrow> Inr (a, s) | Some a \<Rightarrow> options_loop a s) = Inr (x, s')"
    then obtain r s1 where r: "option_step a s = Inr (r, s1)"
      "(case r of None \<Rightarrow> Inr (a, s1) | Some a \<Rightarrow> options_loop a s1) = Inr (x, s')"
      by (auto simp: bnd_Inr)
    have "input_size s1 \<le> n" using ensuresD [OF option_step_dec r(1)] 1(2) by simp
    then show "input_size s' \<le> n"
      using r(2) 1(1) [OF r(1)] by (auto simp: ensures_def split: option.splits)
  qed
qed

definition new_assignment :: "cstring \<Rightarrow> cstring \<Rightarrow> Assignment" where
  "new_assignment n t = \<lparr>as_name = n, as_atype = t, as_wpolicy = NOWEIGHT, as_weight = 0, as_npolicy = RAW,
     as_max = 0, as_mean = 0, as_stddev = 0, as_scale = 0, as_ngroup = BYCLASS\<rparr>"

text \<open>One assignment, after its keyword.\<close>

definition readassignment :: "reader \<Rightarrow> Assignment scan" where
  "readassignment s =
    bnd (readid s) (\<lambda>n s.
    bnd (readatype s) (\<lambda>t s.
    bnd (expectnewline s) (\<lambda>_ s. options_loop (new_assignment n t) s)))"

lemma readassignment_dec: "input_size s \<le> n \<Longrightarrow> ensures (readassignment s) (\<lambda>_ s'. input_size s' \<le> n)"
  unfolding readassignment_def
  by (rule ensures_bnd, erule word_dec(2), rule ensures_bnd, erule word_dec(3),
      rule ensures_bnd, erule expectnewline_dec, erule options_loop_dec)

function readassignments :: "reader \<Rightarrow> Assignment list scan" where
  "readassignments s =
    bnd (checktoken ''ASSIGNMENT'' s) (\<lambda>b s. if \<not> b then Inr ([], s) else
    bnd (readassignment s) (\<lambda>a s.
    bnd (readassignments s) (\<lambda>as s. Inr (a # as, s))))"
  by pat_completeness auto
termination
  by (relation "measure input_size")
    (auto dest!: ensuresD [OF checktoken_dec [OF order_refl]] ensuresD [OF readassignment_dec [OF order_refl]])

declare readassignments.simps [simp del]

section \<open>Scores\<close>

definition readsubst :: "reader \<Rightarrow> Gsubst option scan" where
  "readsubst s =
    bnd (checktoken ''USERAW'' s) (\<lambda>b s. if b then Inr (Some USERAW, s) else
    bnd (checktoken ''USENORM'' s) (\<lambda>b s. if b then Inr (Some USENORM, s) else
    bnd (checktoken ''USELIKEAVG'' s) (\<lambda>b s. if b then Inr (Some USELIKEAVG, s) else
    bnd (checktoken ''USECLASSAVG'' s) (\<lambda>b s. if b then Inr (Some USECLASSAVG, s) else
      Inr (None, s)))))"

text \<open>The number of a raw score, with the comparison with the declared maximum.\<close>

definition readraw :: "cstring \<Rightarrow> Assignment \<Rightarrow> Score \<Rightarrow> reader \<Rightarrow> Score scan" where
  "readraw msg a sc s =
    bnd (need_token s) (\<lambda>_ s.
    bnd (readnum s) (\<lambda>n s.
      let (g, s) = (case n of Some f \<Rightarrow> (f, s) | None \<Rightarrow> (0, error msg s));
          s = (if as_max a \<noteq> 0 \<and> g > as_max a
               then warning (''Grade ('' @ show_float g @ '') exceeds declared maximum value ('' @ show_float (as_max a)
                      @ '').'' @ [newline]) s
               else s)
      in Inr (sc\<lparr>sc_grade := g\<rparr>, s)))"

text \<open>The test of a substituted normalized score against the policy of the assignment.\<close>

definition strange_norm :: "Assignment \<Rightarrow> real \<Rightarrow> reader \<Rightarrow> reader" where
  "strange_norm a f s =
    (case as_npolicy a of
       RAW \<Rightarrow> s
     | LINEAR \<Rightarrow>
        if f < as_mean a - 4 * as_stddev a \<or> f > as_mean a + 4 * as_stddev a
        then warning (''LINEAR score ('' @ show_float f @ '') seems strange.'' @ [newline]) s else s
     | QUANTILE \<Rightarrow>
        if f < 0 \<or> f > 100
        then error (''QUANTILE score ('' @ show_float f @ '') not in [0.0, 100.0]'' @ [newline]) s else s
     | SCALE \<Rightarrow>
        if f < 0 \<or> f > as_scale a
        then error (''SCALE score ('' @ show_float f @ '') not in [0.0, '' @ show_float (as_scale a) @ '']'' @ [newline]) s
        else s)"

definition readsubstnorm :: "Assignment \<Rightarrow> Score \<Rightarrow> reader \<Rightarrow> Score scan" where
  "readsubstnorm a sc s =
    bnd (need_token s) (\<lambda>_ s.
    bnd (readnum s) (\<lambda>n s.
      case n of
        Some f \<Rightarrow> Inr (sc\<lparr>sc_qnorm := f, sc_lnorm := f, sc_snorm := f\<rparr>, strange_norm a f s)
      | None \<Rightarrow> Inr (sc\<lparr>sc_qnorm := 0, sc_lnorm := 0, sc_snorm := 0\<rparr>, error ''Expected a normalized score.'' s)))"

definition readgrade :: "Assignment \<Rightarrow> Score \<Rightarrow> reader \<Rightarrow> Score scan" where
  "readgrade a sc s =
    bnd (readsubst s) (\<lambda>u s.
      case u of
        None \<Rightarrow> readraw ''Expected a numeric score.'' a (sc\<lparr>sc_flag := VALID\<rparr>) s
      | Some u \<Rightarrow>
         let sc = sc\<lparr>sc_flag := INVALID, sc_subst := u\<rparr>
         in bnd (case u of
                   USERAW \<Rightarrow> readraw ''Expected a numeric value.'' a sc s
                 | USENORM \<Rightarrow> readsubstnorm a sc s
                 | USELIKEAVG \<Rightarrow> Inr (sc, s)
                 | USECLASSAVG \<Rightarrow> Inr (sc, s)) (\<lambda>sc s.
            bnd (advanceeol s) (\<lambda>_ s. Inr (sc\<lparr>sc_code := tokenptr s\<rparr>, flushtoken s))))"

fun find_asgt :: "nat \<Rightarrow> Assignment list \<Rightarrow> cstring \<Rightarrow> nat option" where
  "find_asgt i [] n = None"
| "find_asgt i (a # as) n = (if strcmp (as_name a) n = 0 then Some i else find_asgt (i + 1) as n)"

definition fresh_score :: "nat \<Rightarrow> Score" where
  "fresh_score i = \<lparr>sc_asgt = i, sc_grade = 0, sc_qnorm = 0, sc_lnorm = 0, sc_snorm = 0, sc_flag = VALID,
     sc_code = [], sc_subst = USERAW, sc_cstats = None, sc_sstats = None\<rparr>"

text \<open>One score, after its keyword.\<close>

definition readscore :: "Assignment list \<Rightarrow> reader \<Rightarrow> Score scan" where
  "readscore as s =
    bnd (need_token s) (\<lambda>_ s.
      if istoken s then
        (case find_asgt 0 as (tokenptr s) of
           None \<Rightarrow> fatal (''Undeclared assignment '' @ tokenptr s @ '' encountered in student scores.'') s
         | Some i \<Rightarrow>
            bnd (readgrade (as ! i) (fresh_score i) (flushtoken s)) (\<lambda>sc s.
            bnd (expectnewline s) (\<lambda>_ s. Inr (sc, s))))
      else fatal ''Expecting assignment ID.'' s)"

lemma readraw_dec: "input_size s \<le> n \<Longrightarrow> ensures (readraw msg a sc s) (\<lambda>_ s'. input_size s' \<le> n)"
  unfolding readraw_def
  by (rule ensures_bnd, erule need_token_dec, rule ensures_bnd, erule readnum_dec)
    (simp add: Let_def split: option.split)

lemma strange_norm_size [simp]: "input_size (strange_norm a f s) = input_size s"
  by (simp add: strange_norm_def split: Npolicy.split)

lemma readsubstnorm_dec: "input_size s \<le> n \<Longrightarrow> ensures (readsubstnorm a sc s) (\<lambda>_ s'. input_size s' \<le> n)"
  unfolding readsubstnorm_def
  by (rule ensures_bnd, erule need_token_dec, rule ensures_bnd, erule readnum_dec) (simp split: option.split)

lemma readsubst_dec: "input_size s \<le> n \<Longrightarrow> ensures (readsubst s) (\<lambda>_ s'. input_size s' \<le> n)"
proof -
  assume n: "input_size s \<le> n"
  note check = ensures_bnd [OF checktoken_dec] ensures_if
  show ?thesis
    unfolding readsubst_def
    apply (rule check, rule n, rule check, simp)
    apply (rule check, simp, rule check, simp)
    apply (rule check, simp, rule check, simp)
    apply (rule check, simp, rule check, simp, simp)
    done
qed

lemma readgrade_dec: "input_size s \<le> n \<Longrightarrow> ensures (readgrade a sc s) (\<lambda>_ s'. input_size s' \<le> n)"
proof -
  assume n: "input_size s \<le> n"
  have eol: "ensures (bnd (advanceeol s) (\<lambda>_ s. Inr (sc\<lparr>sc_code := tokenptr s\<rparr>, flushtoken s))) (\<lambda>_ s'. input_size s' \<le> n)"
    if "input_size s \<le> n" for sc :: Score and s
    using that by (rule ensures_bnd [OF advanceeol_dec]) (simp add: order_trans [OF flushtoken_size])
  show ?thesis
    unfolding readgrade_def Let_def
    by (rule ensures_bnd, rule readsubst_dec [OF n])
      (auto split: option.split Gsubst.split intro!: readraw_dec ensures_bnd [OF readraw_dec]
        ensures_bnd [OF readsubstnorm_dec] eol)
qed

lemma readscore_dec: "input_size s \<le> n \<Longrightarrow> ensures (readscore as s) (\<lambda>_ s'. input_size s' \<le> n)"
  unfolding readscore_def
  by (rule ensures_bnd, erule need_token_dec)
    (auto split: option.split intro!: ensures_bnd [OF readgrade_dec] ensures_bnd [OF expectnewline_dec]
      order_trans [OF flushtoken_size])

function readscores :: "Assignment list \<Rightarrow> reader \<Rightarrow> Score list scan" where
  "readscores as s =
    bnd (checktoken ''SCORE'' s) (\<lambda>b s. if \<not> b then Inr ([], s) else
    bnd (readscore as s) (\<lambda>sc s.
    bnd (readscores as s) (\<lambda>scs s. Inr (sc # scs, s))))"
  by pat_completeness auto
termination
  by (relation "measure (\<lambda>(as, s). input_size s)")
    (auto dest!: ensuresD [OF checktoken_dec [OF order_refl]] ensuresD [OF readscore_dec [OF order_refl]])

declare readscores.simps [simp del]

lemma readscores_dec: "input_size s \<le> n \<Longrightarrow> ensures (readscores as s) (\<lambda>_ s'. input_size s' \<le> n)"
proof (induction as s rule: readscores.induct)
  case (1 as s)
  show ?case
  proof (subst readscores.simps, unfold ensures_def, intro allI impI)
    fix x s'
    assume a: "bnd (checktoken ''SCORE'' s) (\<lambda>b s. if \<not> b then Inr ([], s) else
      bnd (readscore as s) (\<lambda>sc s. bnd (readscores as s) (\<lambda>scs s. Inr (sc # scs, s)))) = Inr (x, s')"
    then obtain b s1 where b: "checktoken ''SCORE'' s = Inr (b, s1)" by (auto simp: bnd_Inr)
    then have s1: "input_size s1 \<le> n" using 1(2) ensuresD [OF checktoken_dec [OF order_refl] b] by simp
    show "input_size s' \<le> n"
    proof (cases b)
      case True
      then obtain sc s2 scs where r: "readscore as s1 = Inr (sc, s2)" "readscores as s2 = Inr (scs, s')"
        using a b by (auto simp: bnd_Inr)
      then show ?thesis
        using 1(1) [OF b _ r(1)] True s1 ensuresD [OF readscore_dec [OF order_refl] r(1)] ensuresD by fastforce
    qed (use a b s1 in simp)
  qed
qed

section \<open>Students, sections and the course\<close>

definition new_student :: "cstring \<Rightarrow> cstring \<Rightarrow> cstring \<Rightarrow> Score list \<Rightarrow> nat \<Rightarrow> Student" where
  "new_student i sn n scs sep = \<lparr>st_id = i, st_surname = sn, st_name = n, st_rawscores = scs, st_normscores = [],
     st_composite = 0, st_section = sep, st_next = None, st_cnext = None\<rparr>"

text \<open>One student, after the keyword, in a fresh cell.\<close>

definition readstudent :: "Assignment list \<Rightarrow> nat \<Rightarrow> reader \<Rightarrow> addr scan" where
  "readstudent as sep s =
    (let a = rd_new s in
    bnd (readid (s\<lparr>rd_new := a + 1\<rparr>)) (\<lambda>i s.
    bnd (readsurname s) (\<lambda>sn s.
    bnd (readname s) (\<lambda>n s.
    bnd (readscores as s) (\<lambda>scs s.
      Inr (a, s\<lparr>rd_heap := (rd_heap s)(a := new_student i sn n scs sep)\<rparr>))))))"

lemma readstudent_dec: "input_size s \<le> n \<Longrightarrow> ensures (readstudent as sep s) (\<lambda>_ s'. input_size s' \<le> n)"
  unfolding readstudent_def Let_def
  by (rule ensures_bnd, rule word_dec(2), simp, rule ensures_bnd, erule word_dec(1),
      rule ensures_bnd, erule word_dec(4), rule ensures_bnd, erule readscores_dec, simp)

function readstudents :: "Assignment list \<Rightarrow> nat \<Rightarrow> reader \<Rightarrow> addr option scan" where
  "readstudents as sep s =
    bnd (checktoken ''STUDENT'' s) (\<lambda>b s. if \<not> b then Inr (None, s) else
    bnd (readstudent as sep s) (\<lambda>a s.
    bnd (readstudents as sep s) (\<lambda>nx s.
      Inr (Some a, s\<lparr>rd_heap := (rd_heap s)(a := (rd_heap s a)\<lparr>st_next := nx\<rparr>)\<rparr>))))"
  by pat_completeness auto
termination
  by (relation "measure (\<lambda>(as, sep, s). input_size s)")
    (auto dest!: ensuresD [OF checktoken_dec [OF order_refl]] ensuresD [OF readstudent_dec [OF order_refl]])

declare readstudents.simps [simp del]

definition readassistant :: "reader \<Rightarrow> Assistant option scan" where
  "readassistant s =
    bnd (checktoken ''ASSISTANT'' s) (\<lambda>b s. if \<not> b then Inr (None, s) else
    bnd (readsurname s) (\<lambda>sn s.
    bnd (readname s) (\<lambda>n s. Inr (Some \<lparr>at_surname = sn, at_name = n\<rparr>, s))))"

definition readprofessor :: "reader \<Rightarrow> Professor option scan" where
  "readprofessor s =
    bnd (checktoken ''PROFESSOR'' s) (\<lambda>b s. if \<not> b then Inr (None, s) else
    bnd (readsurname s) (\<lambda>sn s.
    bnd (readname s) (\<lambda>n s. Inr (Some \<lparr>pr_surname = sn, pr_name = n\<rparr>, s))))"

lemma advancetoken_prev: "advancetoken s = Inr (x, s') \<Longrightarrow> rd_prev s' = rd_prev s"
  by (auto simp: advancetoken_def Let_def discard_def gobblewhitespace_def flushtoken_def error_def set_rest_def
      split: if_splits prod.splits)

text \<open>
  The loop at the start of \<open>readsections\<close>: a token, from an enclosing file if need be, or
  \<open>False\<close> at the end of the outermost file.
\<close>

function next_token_file :: "reader \<Rightarrow> bool scan" where
  "next_token_file s =
    (if istoken s then Inr (True, s)
     else bnd (advancetoken s) (\<lambda>_ s.
       if istoken s then Inr (True, s)
       else if rd_prev s = [] then Inr (False, s)
       else bnd (previousfile s) (\<lambda>_ s. next_token_file s)))"
  by pat_completeness auto
termination
  by (relation "measure (\<lambda>s. length (rd_prev s))")
    (auto simp: previousfile_def fatal_def split: list.splits dest!: advancetoken_prev)

declare next_token_file.simps [simp del]

text \<open>One section, after its keyword.\<close>

definition readsection :: "Assignment list \<Rightarrow> nat \<Rightarrow> reader \<Rightarrow> Section scan" where
  "readsection as k s =
    bnd (readname s) (\<lambda>n s.
    bnd (readassistant s) (\<lambda>ta s.
    bnd (readstudents as k s) (\<lambda>r s.
      Inr (\<lparr>se_name = n, se_assistant = ta, se_roster = r\<rparr>, s))))"

text \<open>Sequencing with a computation that need not end.\<close>

definition obnd :: "'a scan \<Rightarrow> ('a \<Rightarrow> reader \<Rightarrow> 'b scan option) \<Rightarrow> 'b scan option" where
  "obnd m f = (case m of Inl e \<Rightarrow> Some (Inl e) | Inr (x, s) \<Rightarrow> f x s)"

lemma obnd_simps [simp]: "obnd (Inl e) f = Some (Inl e)" "obnd (Inr (x, s)) f = f x s"
  by (simp_all add: obnd_def)

lemma obnd_mono [partial_function_mono]:
  assumes "\<And>x s. mono_option (\<lambda>f. C x s f)"
  shows "mono_option (\<lambda>f. obnd m (\<lambda>x s. C x s f))"
proof (cases m)
  case (Inr p)
  then show ?thesis using assms by (cases p) simp
qed (simp add: monotone_def flat_ord_def)

partial_function (option) readsections ::
  "file_system \<Rightarrow> Assignment list \<Rightarrow> nat \<Rightarrow> reader \<Rightarrow> Section list scan option" where
  "readsections fs as k s =
    obnd (next_token_file s) (\<lambda>t s. if \<not> t then Some (Inr ([], s)) else
    obnd (checktoken ''FILE'' s) (\<lambda>b s. if b then
      obnd (pushfile fs s) (\<lambda>_ s. readsections fs as k s) else
    obnd (checktoken ''SECTION'' s) (\<lambda>b s. if \<not> b then Some (Inr ([], s)) else
    obnd (readsection as k s) (\<lambda>sec s.
      Option.bind (readsections fs as (k + 1) s) (\<lambda>r. obnd r (\<lambda>ss s. Some (Inr (sec # ss, s))))))))"

definition readcourse :: "file_system \<Rightarrow> reader \<Rightarrow> Course scan option" where
  "readcourse fs s =
    obnd (expecttoken ''COURSE'' s) (\<lambda>_ s.
    obnd (readid s) (\<lambda>i s.
    obnd (readname s) (\<lambda>n s.
    obnd (readprofessor s) (\<lambda>p s.
    obnd (readassignments s) (\<lambda>as s.
    Option.bind (readsections fs as 0 s) (\<lambda>r. obnd r (\<lambda>ss s.
      Some (Inr (\<lparr>co_number = i, co_title = n, co_professor = p, co_assignments = as, co_sections = ss,
        co_roster = None\<rparr>, s)))))))))"

definition blank_student :: Student where
  "blank_student = new_student [] [] [] [] 0"

definition readfile :: "file_system \<Rightarrow> cstring \<Rightarrow> Course scan option" where
  "readfile fs fname =
    (case fs fname of
       None \<Rightarrow> Some (Inl (No_File fname))
     | Some cs \<Rightarrow>
        let s = \<lparr>rd_ifile = \<lparr>if_name = Some fname, if_line = 1, if_rest = cs\<rparr>, rd_prev = [], rd_token = None,
                 rd_messages = [], rd_heap = (\<lambda>_. blank_student), rd_new = 0\<rparr>
        in obnd (gobbleblanklines s) (\<lambda>_ s.
           Option.bind (readcourse fs s) (\<lambda>r. obnd r (\<lambda>c s.
           obnd (gobbleblanklines s) (\<lambda>_ s. Some (Inr (c, expecteof s)))))))"

end
