(* ===== verification/Grades_Write.thy ===== *)
theory Grades_Write
  imports Grades_Read
begin

text \<open>
  The writer of the grades program (\<open>grades/src/write.c\<close>): the text of a course, built in the order
  in which the code prints it. The rosters are followed through the store; a roster that is a
  cycle would be written forever, so that the text of a roster is an option.
\<close>

section \<open>The writer\<close>

definition writeprofessor :: "Professor option \<Rightarrow> char list" where
  "writeprofessor p =
    (case p of None \<Rightarrow> [] | Some p \<Rightarrow> '' PROFESSOR '' @ pr_surname p @ '', '' @ pr_name p @ [newline])"

definition writeassistant :: "Assistant option \<Rightarrow> char list" where
  "writeassistant a =
    (case a of None \<Rightarrow> [] | Some a \<Rightarrow> '' ASSISTANT '' @ at_surname a @ '', '' @ at_name a @ [newline])"

text \<open>The case \<open>USENORM\<close> falls through to the next one.\<close>

definition writesubst :: "Assignment \<Rightarrow> Score \<Rightarrow> char list" where
  "writesubst a sc =
    (case sc_subst sc of
       USERAW \<Rightarrow> '' USERAW '' @ show_float (sc_grade sc)
     | USENORM \<Rightarrow>
        (case as_npolicy a of
           QUANTILE \<Rightarrow> '' USENORM '' @ show_float (sc_qnorm sc)
         | LINEAR \<Rightarrow> '' USENORM '' @ show_float (sc_lnorm sc)
         | SCALE \<Rightarrow> '' USENORM '' @ show_float (sc_snorm sc)
         | RAW \<Rightarrow> []) @ '' USELIKEAVG''
     | USELIKEAVG \<Rightarrow> '' USELIKEAVG''
     | USECLASSAVG \<Rightarrow> '' USECLASSAVG'')"

definition writescore :: "Assignment list \<Rightarrow> Score \<Rightarrow> char list" where
  "writescore as sc =
    ''   SCORE '' @ as_name (as ! sc_asgt sc)
    @ (if sc_flag sc = VALID then '' '' @ show_float (sc_grade sc)
       else writesubst (as ! sc_asgt sc) sc @ '' '' @ sc_code sc)
    @ [newline]"

definition writestudent :: "Assignment list \<Rightarrow> Student \<Rightarrow> char list" where
  "writestudent as st =
    ''  STUDENT '' @ st_id st @ '' '' @ st_surname st @ '', '' @ st_name st @ [newline]
    @ concat (map (writescore as) (st_rawscores st))"

partial_function (option) writestudents :: "Assignment list \<Rightarrow> heap \<Rightarrow> addr option \<Rightarrow> char list option" where
  "writestudents as h sp =
    (case sp of
       None \<Rightarrow> Some []
     | Some a \<Rightarrow> Option.bind (writestudents as h (st_next (h a))) (\<lambda>r. Some (writestudent as (h a) @ r)))"

definition writesection :: "Assignment list \<Rightarrow> heap \<Rightarrow> Section \<Rightarrow> char list option" where
  "writesection as h sec =
    Option.bind (writestudents as h (se_roster sec)) (\<lambda>r.
      Some ('' SECTION '' @ se_name sec @ [newline] @ writeassistant (se_assistant sec) @ r))"

fun writesections :: "Assignment list \<Rightarrow> heap \<Rightarrow> Section list \<Rightarrow> char list option" where
  "writesections as h [] = Some []"
| "writesections as h (sec # secs) =
    Option.bind (writesection as h sec) (\<lambda>t. Option.bind (writesections as h secs) (\<lambda>r. Some (t @ r)))"

definition writeassignment :: "Assignment \<Rightarrow> char list" where
  "writeassignment a =
    '' ASSIGNMENT '' @ as_name a @ '' '' @ as_atype a @ [newline]
    @ (if as_wpolicy a = WEIGHT then ''  WEIGHT '' @ show_float (as_weight a) @ [newline] else [])
    @ (if as_npolicy a \<noteq> RAW then
         (case as_npolicy a of
            LINEAR \<Rightarrow> ''  NORMALIZE LINEAR: '' @ show_float (as_mean a) @ '', '' @ show_float (as_stddev a)
          | QUANTILE \<Rightarrow> ''  NORMALIZE QUANTILE''
          | SCALE \<Rightarrow> ''  NORMALIZE SCALE '' @ show_float (as_scale a)
          | RAW \<Rightarrow> [])
         @ '' '' @ (if as_ngroup a = BYCLASS then ''BYCLASS'' else ''BYSECTION'') @ [newline]
       else [])
    @ (if as_max a \<noteq> 0 then ''  MAXIMUM '' @ show_float (as_max a) @ [newline] else [])"

definition writecourse :: "heap \<Rightarrow> Course \<Rightarrow> char list option" where
  "writecourse h c =
    Option.bind (writesections (co_assignments c) h (co_sections c)) (\<lambda>r.
      Some (''COURSE '' @ co_number c @ '' '' @ co_title c @ [newline]
        @ writeprofessor (co_professor c)
        @ concat (map writeassignment (co_assignments c)) @ r))"

text \<open>
  The new contents of the file system; when the file cannot be opened for writing there is
  an error message and nothing is written.
\<close>

definition writefile :: "(cstring \<Rightarrow> bool) \<Rightarrow> cstring \<Rightarrow> heap \<Rightarrow> Course \<Rightarrow> file_system \<Rightarrow> file_system option" where
  "writefile opens f h c fs =
    (if opens f then Option.bind (writecourse h c) (\<lambda>t. Some (fs(f \<mapsto> t))) else Some fs)"

end
