(* ===== verification/Grades_Lines.thy ===== *)
theory Grades_Lines
  imports Grades_Write
begin

text \<open>
  Reading what the writer of the grades program wrote, up to the scores: running the scanner on
  a given text, looking ahead for a keyword, and the lines of assignments and scores.
\<close>

section \<open>Running the scanner on given text\<close>

text \<open>A scan that does not stop and whose result has a property.\<close>

definition runs :: "'a scan \<Rightarrow> ('a \<Rightarrow> reader \<Rightarrow> bool) \<Rightarrow> bool" where
  "runs m P \<longleftrightarrow> (\<exists>x s. m = Inr (x, s) \<and> P x s)"

lemma runs_Inr [simp]: "runs (Inr (x, s)) P \<longleftrightarrow> P x s"
  by (simp add: runs_def)

lemma runs_bnd: "runs m P \<Longrightarrow> (\<And>x s. P x s \<Longrightarrow> runs (f x s) Q) \<Longrightarrow> runs (bnd m f) Q"
  by (auto simp: runs_def)

lemma runs_weaken: "runs m P \<Longrightarrow> (\<And>x s. P x s \<Longrightarrow> Q x s) \<Longrightarrow> runs m Q"
  by (auto simp: runs_def)

text \<open>The state with this token buffer and this text to come, and otherwise that of \<open>s0\<close>.\<close>

definition pos :: "reader \<Rightarrow> cstring option \<Rightarrow> char list \<Rightarrow> reader \<Rightarrow> bool" where
  "pos s0 tok txt s \<longleftrightarrow> rd_token s = tok \<and> rd_rest s = txt \<and> rd_prev s = rd_prev s0
     \<and> rd_messages s = rd_messages s0 \<and> rd_heap s = rd_heap s0 \<and> rd_new s = rd_new s0"

definition white :: "char list \<Rightarrow> bool" where
  "white ws \<longleftrightarrow> list_all iswhitespace ws"

definition word_char :: "char \<Rightarrow> bool" where
  "word_char c \<longleftrightarrow> \<not> iswhitespace c \<and> c \<noteq> newline \<and> c \<noteq> EOF \<and> c \<noteq> CHR 0x00"

definition word :: "cstring \<Rightarrow> bool" where
  "word w \<longleftrightarrow> w \<noteq> [] \<and> length w < 64 \<and> list_all word_char w"

definition line_end :: "char list \<Rightarrow> bool" where
  "line_end r \<longleftrightarrow> r \<noteq> [] \<and> (iswhitespace (hd r) \<or> hd r = newline)"

lemma special_chars: "\<not> iswhitespace newline" "\<not> iswhitespace EOF" "newline \<noteq> EOF" "\<not> iswhitespace (CHR 0x00)"
  "newline \<noteq> CHR 0x00" "EOF \<noteq> CHR 0x00" "newline \<noteq> CHR ''#''" "EOF \<noteq> CHR ''#''" "\<not> iswhitespace (CHR ''#'')"
  by (simp_all add: iswhitespace_def newline_def EOF_def)

lemma skip_white_append: "white ws \<Longrightarrow> r \<noteq> [] \<Longrightarrow> \<not> iswhitespace (hd r) \<Longrightarrow> hd r \<noteq> EOF \<Longrightarrow> skip_white (ws @ r) = r"
  by (induction ws) (auto simp: white_def neq_Nil_conv)

lemma take_token_append: "list_all word_char w \<Longrightarrow> line_end r \<Longrightarrow> take_token (w @ r) = (w, r)"
  by (induction w) (auto simp: word_char_def line_end_def neq_Nil_conv special_chars)

lemma word_hd: "word w \<Longrightarrow> w \<noteq> [] \<and> \<not> iswhitespace (hd w) \<and> hd w \<noteq> EOF \<and> hd w \<noteq> newline"
  by (cases w) (auto simp: word_def word_char_def)

lemma word_tokenptr: "word w \<Longrightarrow> rd_token s = Some w \<Longrightarrow> tokenptr s = w"
  by (auto simp: tokenptr_def word_def word_char_def list_all_iff takeWhile_eq_all_conv)

lemma advancetoken_word:
  assumes "pos s0 None (ws @ w @ r) s" "white ws" "word w" "line_end r"
  shows "runs (advancetoken s) (\<lambda>_. pos s0 (Some w) r)"
proof -
  have "skip_white (ws @ w @ r) = w @ r" using assms(2,3) word_hd [OF assms(3)] by (intro skip_white_append) auto
  moreover have "take_token (w @ r) = (w, r)" using assms(3,4) by (intro take_token_append) (simp_all add: word_def)
  ultimately show ?thesis
    using assms(1,3)
    by (auto simp: advancetoken_def discard_def gobblewhitespace_def istoken_def pos_def flushtoken_def set_rest_def word_def)
qed

lemma need_token_word:
  assumes "pos s0 None (ws @ w @ r) s" "white ws" "word w" "line_end r"
  shows "runs (need_token s) (\<lambda>_. pos s0 (Some w) r)"
  using advancetoken_word [OF assms] assms(1) by (simp add: need_token_def istoken_def pos_def)

lemma flush_pos: "pos s0 tok r s \<Longrightarrow> pos s0 None r (flushtoken s)"
  by (simp add: pos_def flushtoken_def)

lemma grab_word: "pos s0 (Some w) r s \<Longrightarrow> word w \<Longrightarrow> runs (grab msg s) (\<lambda>n s'. n = w \<and> pos s0 None r s')"
  by (auto simp: grab_def istoken_def word_tokenptr pos_def flushtoken_def)

lemma read_words:
  assumes "pos s0 None (ws @ w @ r) s" "white ws" "word w" "line_end r"
  shows "runs (readid s) (\<lambda>n s'. n = w \<and> pos s0 None r s')"
    "runs (readsurname s) (\<lambda>n s'. n = w \<and> pos s0 None r s')"
    "runs (readatype s) (\<lambda>n s'. n = w \<and> pos s0 None r s')"
  unfolding readid_def readsurname_def readatype_def
  by (rule runs_bnd, rule need_token_word [OF assms], erule grab_word, rule assms(3))+

text \<open>Text that can follow a line without being taken for a blank line or a comment.\<close>

definition plain :: "char list \<Rightarrow> bool" where
  "plain r \<longleftrightarrow> r = [] \<or> (hd r \<noteq> newline \<and> hd r \<noteq> EOF \<and> hd r \<noteq> CHR ''#'')"

definition name_ok :: "cstring \<Rightarrow> bool" where
  "name_ok n \<longleftrightarrow> length n < 64 \<and> list_all (\<lambda>c. c \<noteq> newline \<and> c \<noteq> EOF \<and> c \<noteq> CHR 0x00) n
     \<and> (n = [] \<or> \<not> iswhitespace (hd n))"

lemma blank_loop_plain: "plain (rd_rest s) \<Longrightarrow> runs (blank_loop s) (\<lambda>_ s'. s' = s)"
proof -
  assume p: "plain (rd_rest s)"
  have "blank_loop s = Inr ((), s)"
    using p by (subst blank_loop.simps) (auto simp: plain_def set_rest_def split: list.splits)
  then show ?thesis by simp
qed

lemma expectnewline_pos:
  assumes "pos s0 None (ws @ newline # r) s" "white ws" "plain r"
  shows "runs (expectnewline s) (\<lambda>_. pos s0 None r)"
proof -
  have "skip_white (ws @ newline # r) = newline # r"
    using assms(2) by (intro skip_white_append) (simp_all add: special_chars)
  then have c: "nextchar (gobblewhitespace s) = Inr (newline, set_rest r s)"
    using assms(1) special_chars(3)
    by (auto simp: nextchar_def gobblewhitespace_def istoken_def pos_def set_rest_def)
  have p: "pos s0 None r (next_line (set_rest r s))"
    using assms(1) by (simp add: pos_def next_line_def set_rest_def)
  then have "runs (blank_loop (next_line (set_rest r s))) (\<lambda>_. pos s0 None r)"
    using runs_weaken [OF blank_loop_plain [of "next_line (set_rest r s)"]] assms(3) by (simp add: pos_def)
  then show ?thesis
    using p by (simp add: expectnewline_def c gobbleblanklines_def istoken_def pos_def)
qed

lemma take_line_append:
  "list_all (\<lambda>c. c \<noteq> newline \<and> c \<noteq> EOF \<and> c \<noteq> CHR 0x00) n \<Longrightarrow> take_line (n @ newline # r) = (n, Some (newline # r))"
  by (induction n) (auto simp: special_chars)

lemma advanceeol_pos:
  assumes "pos s0 None (ws @ n @ newline # r) s" "white ws" "name_ok n"
  shows "runs (advanceeol s) (\<lambda>_. pos s0 (Some n) (newline # r))"
proof -
  have "skip_white (ws @ n @ newline # r) = n @ newline # r"
    using assms(2,3) by (intro skip_white_append) (cases n; auto simp: name_ok_def special_chars)+
  moreover have "take_line (n @ newline # r) = (n, Some (newline # r))"
    using assms(3) by (intro take_line_append) (simp add: name_ok_def)
  ultimately show ?thesis
    using assms(1,3)
    by (auto simp: advanceeol_def discard_def gobblewhitespace_def istoken_def pos_def flushtoken_def set_rest_def name_ok_def)
qed

lemma name_tokenptr: "name_ok n \<Longrightarrow> rd_token s = Some n \<Longrightarrow> tokenptr s = n"
  by (auto simp: tokenptr_def name_ok_def list_all_iff takeWhile_eq_all_conv)

lemma readname_pos:
  assumes "pos s0 None (ws @ n @ newline # r) s" "white ws" "name_ok n" "plain r"
  shows "runs (readname s) (\<lambda>n' s'. n' = n \<and> pos s0 None r s')"
proof -
  have g: "runs (grab ''Expected a name.'' s) (\<lambda>n' s'. n' = n \<and> pos s0 None (newline # r) s')"
    if "pos s0 (Some n) (newline # r) s" for s
    using that name_tokenptr [OF assms(3)] by (auto simp: grab_def istoken_def pos_def flushtoken_def)
  have e: "runs (expectnewline s) (\<lambda>_. pos s0 None r)" if "pos s0 None (newline # r) s" for s
    using expectnewline_pos [of s0 "[]" r s] that assms(4) by (simp add: white_def)
  show ?thesis
    unfolding readname_def
    by (rule runs_bnd, rule advanceeol_pos [OF assms(1-3)], rule runs_bnd, erule g, rule runs_bnd, rule e) auto
qed

text \<open>A number that is printed with six decimals and read back.\<close>

definition number_ok :: "real \<Rightarrow> bool" where
  "number_ok x \<longleftrightarrow> \<bar>x\<bar> * 1000000 \<in> \<nat> \<and> length (show_float x) < 64"

lemma digit_word_char: "is_digit c \<Longrightarrow> word_char c"
  by (auto simp: is_digit_def word_char_def iswhitespace_def newline_def EOF_def ord_def)

lemma show_float_word: "number_ok x \<Longrightarrow> word (show_float x)"
proof -
  assume n: "number_ok x"
  have "word_char (CHR ''-'')" "word_char (CHR ''.'')"
    by (simp_all add: word_char_def iswhitespace_def newline_def EOF_def)
  moreover have "list_all word_char (show_nat k)" "list_all word_char (last_digits i k)" for i k
    using show_nat_digits [of k] last_digits_digits [of i k] digit_word_char by (auto simp: list_all_iff)
  ultimately show ?thesis using n by (simp add: word_def number_ok_def show_float_def)
qed

lemma readnum_pos:
  assumes "pos s0 (Some (show_float x)) r s" "number_ok x"
  shows "runs (readnum s) (\<lambda>n s'. n = Some x \<and> pos s0 None r s')"
proof -
  obtain k where "\<bar>x\<bar> * 1000000 = real k" using assms(2) by (auto simp: number_ok_def Nats_def)
  then have "scan_float (tokenptr s) = Some x"
    using scan_show_float word_tokenptr [OF show_float_word [OF assms(2)]] assms(1) by (simp add: pos_def)
  then show ?thesis using assms(1) by (auto simp: readnum_def istoken_def pos_def flushtoken_def)
qed

section \<open>Looking ahead for a keyword\<close>

text \<open>The text to come, of which the first word may already be in the token buffer.\<close>

definition ahead :: "reader \<Rightarrow> char list \<Rightarrow> reader \<Rightarrow> bool" where
  "ahead s0 txt s \<longleftrightarrow> pos s0 None txt s \<or>
     (\<exists>ws w r. txt = ws @ w @ r \<and> white ws \<and> word w \<and> line_end r \<and> pos s0 (Some w) r s)"

lemma split_word:
  assumes "white ws" "word w" "line_end r"
  shows "takeWhile word_char (dropWhile iswhitespace (ws @ w @ r)) = w"
    "dropWhile word_char (dropWhile iswhitespace (ws @ w @ r)) = r"
proof -
  have d: "dropWhile iswhitespace (ws @ w @ r) = w @ r"
    using assms(1,2) word_hd [OF assms(2)] by (cases w) (auto simp: white_def dropWhile_append list_all_iff)
  have r: "r \<noteq> []" "\<not> word_char (hd r)" using assms(3) by (auto simp: line_end_def word_char_def)
  have "takeWhile word_char (w @ r) = w @ takeWhile word_char r" "dropWhile word_char (w @ r) = dropWhile word_char r"
    using assms(2) by (auto simp: word_def list_all_iff takeWhile_append dropWhile_append)
  then show "takeWhile word_char (dropWhile iswhitespace (ws @ w @ r)) = w"
    "dropWhile word_char (dropWhile iswhitespace (ws @ w @ r)) = r"
    using d r by (cases r; simp)+
qed

lemma checktoken_ahead:
  assumes "ahead s0 (ws @ w @ r) s" "white ws" "word w" "line_end r"
  shows "runs (checktoken key s) (\<lambda>b s'. b = (w = key) \<and> (if b then pos s0 None r s' else ahead s0 (ws @ w @ r) s'))"
proof -
  have n: "runs (need_token s) (\<lambda>_. pos s0 (Some w) r)"
    using assms(1) unfolding ahead_def
  proof (elim disjE exE conjE)
    assume "pos s0 None (ws @ w @ r) s"
    then show ?thesis by (rule need_token_word [OF _ assms(2-4)])
  next
    fix ws' w' r'
    assume h: "ws @ w @ r = ws' @ w' @ r'" "white ws'" "word w'" "line_end r'" "pos s0 (Some w') r' s"
    have "w' = w" "r' = r"
      using split_word [OF assms(2-4)] split_word [OF h(2-4)] h(1) by simp_all
    then show ?thesis using h(5) by (simp add: need_token_def istoken_def pos_def)
  qed
  show ?thesis
    unfolding checktoken_def
  proof (rule runs_bnd [OF n])
    fix s'
    assume p: "pos s0 (Some w) r s'"
    then have "tokenptr s' = w" "istoken s'" using word_tokenptr [OF assms(3)] by (simp_all add: pos_def istoken_def)
    then show "runs (if istoken s' \<and> strcmp (tokenptr s') key = 0 then Inr (True, flushtoken s') else Inr (False, s'))
        (\<lambda>b s'. b = (w = key) \<and> (if b then pos s0 None r s' else ahead s0 (ws @ w @ r) s'))"
      using p flush_pos [OF p] assms(2-4) by (auto simp: ahead_def)
  qed
qed

lemma checktoken_end:
  assumes "ahead s0 [] s"
  shows "runs (checktoken key s) (\<lambda>b s'. \<not> b \<and> ahead s0 [] s')"
  using assms
  by (auto simp: ahead_def word_def checktoken_def need_token_def istoken_def pos_def advancetoken_def discard_def
      gobblewhitespace_def set_rest_def flushtoken_def)

text \<open>The text is at its end or starts with one of the given keywords.\<close>

definition leads :: "cstring set \<Rightarrow> char list \<Rightarrow> bool" where
  "leads K txt \<longleftrightarrow> txt = [] \<or>
     (\<exists>ws w r. txt = ws @ w @ r \<and> white ws \<and> word w \<and> line_end r \<and> w \<in> K \<and> hd w \<noteq> CHR ''#'')"

lemma leads_mono: "leads K txt \<Longrightarrow> K \<subseteq> L \<Longrightarrow> leads L txt"
  unfolding leads_def by blast

lemma leads_plain: "leads K txt \<Longrightarrow> plain txt"
proof -
  have "plain (ws @ w @ r)" if "white ws" "word w" "hd w \<noteq> CHR ''#''" for ws w r
    using that word_hd [OF that(2)] special_chars
    by (cases ws; cases w) (auto simp: plain_def white_def)
  then show "leads K txt \<Longrightarrow> plain txt" by (auto simp: leads_def) (simp add: plain_def)
qed

lemma checktoken_leads:
  assumes "ahead s0 txt s" "leads K txt" "key \<notin> K"
  shows "runs (checktoken key s) (\<lambda>b s'. \<not> b \<and> ahead s0 txt s')"
proof (cases "txt = []")
  case True
  then show ?thesis using checktoken_end assms(1) by simp
next
  case False
  then obtain ws w r where t: "txt = ws @ w @ r" "white ws" "word w" "line_end r" "w \<in> K"
    using assms(2) by (auto simp: leads_def)
  then have "w \<noteq> key" using assms(3) by auto
  then show ?thesis
    using runs_weaken [OF checktoken_ahead [OF assms(1) [unfolded t(1)] t(2-4), of key]] t(1) by auto
qed

lemma check_yes:
  assumes "ahead s0 (ws @ key @ r) s" "white ws" "word key" "line_end r"
  shows "runs (checktoken key s) (\<lambda>b s'. b \<and> pos s0 None r s')"
  using runs_weaken [OF checktoken_ahead [OF assms, of key]] by auto

lemma check_no:
  assumes "ahead s0 (ws @ w @ r) s" "white ws" "word w" "line_end r" "w \<noteq> key"
  shows "runs (checktoken key s) (\<lambda>b s'. \<not> b \<and> ahead s0 (ws @ w @ r) s')"
  using runs_weaken [OF checktoken_ahead [OF assms(1-4), of key]] assms(5) by auto

lemma check_newline:
  assumes "pos s0 None (newline # r) s"
  shows "runs (checktoken key s) (\<lambda>b s'. \<not> b \<and> pos s0 None (newline # r) s')"
  using assms special_chars
  by (auto simp: checktoken_def need_token_def istoken_def pos_def advancetoken_def discard_def
      gobblewhitespace_def set_rest_def flushtoken_def)

lemma pos_ahead: "pos s0 None txt s \<Longrightarrow> ahead s0 txt s"
  by (simp add: ahead_def)

text \<open>Keyword tests that fail and that succeed.\<close>

lemma runs_no:
  assumes "runs m (\<lambda>b s. \<not> b \<and> P s)" "\<And>s. P s \<Longrightarrow> runs (g s) Q"
  shows "runs (bnd m (\<lambda>b s. if b then f s else g s)) Q" "runs (bnd m (\<lambda>b s. if \<not> b then g s else f s)) Q"
  using assms by (auto simp: runs_def)

lemma runs_yes:
  assumes "runs m (\<lambda>b s. b \<and> P s)" "\<And>s. P s \<Longrightarrow> runs (f s) Q"
  shows "runs (bnd m (\<lambda>b s. if b then f s else g s)) Q" "runs (bnd m (\<lambda>b s. if \<not> b then g s else f s)) Q"
  using assms by (auto simp: runs_def)

lemma keyword_here:
  assumes "ahead s0 (ws @ w @ r) s" "white ws" "word w" "line_end r" "w = key"
    and "\<And>s. pos s0 None r s \<Longrightarrow> runs (f s) Q"
  shows "runs (bnd (checktoken key s) (\<lambda>b s. if b then f s else g s)) Q"
    "runs (bnd (checktoken key s) (\<lambda>b s. if \<not> b then g s else f s)) Q"
  using check_yes [OF assms(1-4)] assms(5,6) by (auto simp: runs_def)

lemma keyword_else:
  assumes "ahead s0 (ws @ w @ r) s" "white ws" "word w" "line_end r" "w \<noteq> key"
    and "\<And>s. ahead s0 (ws @ w @ r) s \<Longrightarrow> runs (g s) Q"
  shows "runs (bnd (checktoken key s) (\<lambda>b s. if b then f s else g s)) Q"
    "runs (bnd (checktoken key s) (\<lambda>b s. if \<not> b then g s else f s)) Q"
  using check_no [OF assms(1-5)] assms(6) by (auto simp: runs_def)

lemma white_simps [simp]: "white []" "white (CHR '' '' # ws) \<longleftrightarrow> white ws" "white (CHR '','' # ws) \<longleftrightarrow> white ws"
  by (simp_all add: white_def iswhitespace_def)

lemma line_end_simps [simp]: "line_end (CHR '' '' # r)" "line_end (newline # r)" "line_end (CHR '','' # r)"
  by (simp_all add: line_end_def iswhitespace_def)

lemma plain_simps [simp]: "plain []" "plain (CHR '' '' # r)"
  by (simp_all add: plain_def newline_def EOF_def)

lemma keyword_words:
  "word ''COURSE''" "word ''PROFESSOR''" "word ''ASSISTANT''" "word ''ASSIGNMENT''" "word ''SECTION''"
  "word ''STUDENT''" "word ''SCORE''" "word ''WEIGHT''" "word ''NORMALIZE''" "word ''MAXIMUM''"
  "word ''QUANTILE''" "word ''SCALE''" "word ''BYCLASS''" "word ''BYSECTION''" "word ''LINEAR''"
  "word ''USERAW''" "word ''USENORM''" "word ''USELIKEAVG''" "word ''USECLASSAVG''"
  by (simp_all add: word_def word_char_def iswhitespace_def newline_def EOF_def)

section \<open>Assignments\<close>

text \<open>The steps of the loop in \<open>readnorm\<close>.\<close>

lemma norm_step_end:
  assumes "pos s0 None (newline # r) s"
  shows "runs (norm_step a s) (\<lambda>x s'. x = None \<and> pos s0 None (newline # r) s')"
  unfolding norm_step_def
  by (rule runs_no(1) [OF check_newline [OF assms]], (rule runs_no(1) [OF check_newline], assumption)+) simp

text \<open>A word that is none of the keywords tested so far stays in the token buffer.\<close>

lemma norm_step_word:
  assumes "ahead s0 (ws @ w @ r) s" "white ws" "word w" "line_end r"
  shows "w = ''QUANTILE'' \<Longrightarrow> runs (norm_step a s) (\<lambda>x s'. x = Some (a\<lparr>as_npolicy := QUANTILE\<rparr>) \<and> pos s0 None r s')"
    "w = ''BYCLASS'' \<Longrightarrow> runs (norm_step a s) (\<lambda>x s'. x = Some (a\<lparr>as_ngroup := BYCLASS\<rparr>) \<and> pos s0 None r s')"
    "w = ''BYSECTION'' \<Longrightarrow> runs (norm_step a s) (\<lambda>x s'. x = Some (a\<lparr>as_ngroup := BYSECTION\<rparr>) \<and> pos s0 None r s')"
    "w = ''LINEAR'' \<Longrightarrow> runs (norm_step a s) (\<lambda>x s'. x = None \<and> ahead s0 (ws @ w @ r) s')"
proof -
  note no = keyword_else(1) [OF _ assms(2-4)] and yes = keyword_here(1) [OF _ assms(2-4)]
  show "w = ''QUANTILE'' \<Longrightarrow> runs (norm_step a s) (\<lambda>x s'. x = Some (a\<lparr>as_npolicy := QUANTILE\<rparr>) \<and> pos s0 None r s')"
    unfolding norm_step_def
    by (rule no, rule assms(1), (simp; fail), (rule no, assumption, (simp; fail))+, rule yes, assumption) simp_all
  show "w = ''BYCLASS'' \<Longrightarrow> runs (norm_step a s) (\<lambda>x s'. x = Some (a\<lparr>as_ngroup := BYCLASS\<rparr>) \<and> pos s0 None r s')"
    unfolding norm_step_def
    by (rule no, rule assms(1), (simp; fail), (rule no, assumption, (simp; fail))+, rule yes, assumption) simp_all
  show "w = ''BYSECTION'' \<Longrightarrow> runs (norm_step a s) (\<lambda>x s'. x = Some (a\<lparr>as_ngroup := BYSECTION\<rparr>) \<and> pos s0 None r s')"
    unfolding norm_step_def
    by (rule no, rule assms(1), (simp; fail), (rule no, assumption, (simp; fail))+, rule yes, assumption) simp_all
  show "w = ''LINEAR'' \<Longrightarrow> runs (norm_step a s) (\<lambda>x s'. x = None \<and> ahead s0 (ws @ w @ r) s')"
    unfolding norm_step_def
    by (rule no, rule assms(1), (simp; fail), (rule no, assumption, (simp; fail))+) simp
qed

lemma readparam_pos:
  assumes "pos s0 None (ws @ show_float x @ r) s" "white ws" "number_ok x" "line_end r"
  shows "runs (readparam msg d s) (\<lambda>f s'. f = x \<and> pos s0 None r s')"
  unfolding readparam_def
  by (rule runs_bnd, rule advancetoken_word [OF assms(1,2) show_float_word [OF assms(3)] assms(4)],
      rule runs_bnd, erule readnum_pos, rule assms(3)) auto

lemma readweight_pos:
  assumes "pos s0 None (ws @ show_float x @ r) s" "white ws" "number_ok x" "line_end r"
  shows "runs (readweight a s) (\<lambda>a' s'. a' = a\<lparr>as_wpolicy := WEIGHT, as_weight := x\<rparr> \<and> pos s0 None r s')"
  unfolding readweight_def
  by (rule runs_bnd, rule advancetoken_word [OF assms(1,2) show_float_word [OF assms(3)] assms(4)],
      rule runs_bnd, erule readnum_pos, rule assms(3)) auto

lemma readmax_pos:
  assumes "pos s0 None (ws @ show_float x @ r) s" "white ws" "number_ok x" "line_end r"
  shows "runs (readmax a s) (\<lambda>a' s'. a' = a\<lparr>as_max := x\<rparr> \<and> pos s0 None r s')"
  unfolding readmax_def
  by (rule runs_bnd, rule advancetoken_word [OF assms(1,2) show_float_word [OF assms(3)] assms(4)],
      rule runs_bnd, erule readnum_pos, rule assms(3)) auto

lemma norm_step_scale:
  assumes "ahead s0 (ws @ ''SCALE'' @ CHR '' '' # show_float x @ r) s" "white ws" "number_ok x" "line_end r"
  shows "runs (norm_step a s) (\<lambda>y s'. y = Some (a\<lparr>as_npolicy := SCALE, as_scale := x\<rparr>) \<and> pos s0 None r s')"
proof -
  define q where "q = CHR '' '' # show_float x @ r"
  define w where "w = ''SCALE''"
  have a: "ahead s0 (ws @ w @ q) s" "word w" "line_end q" using assms(1) by (simp_all add: q_def w_def keyword_words)
  note no = keyword_else(1) [OF _ assms(2) a(2,3)] and yes = keyword_here(1) [OF _ assms(2) a(2,3)]
  have p: "runs (readparam msg d s) (\<lambda>f s'. f = x \<and> pos s0 None r s')" if "pos s0 None q s" for msg d s
    using readparam_pos [of s0 "'' ''" x r s] that assms(3,4) by (simp add: q_def)
  show ?thesis
    unfolding norm_step_def
    by (rule no, rule a(1), simp add: w_def, (rule no, assumption, (simp add: w_def; fail))+, rule yes, assumption,
        simp add: w_def, rule runs_bnd, erule p) simp
qed

lemma norm_loop_step:
  assumes "runs (norm_step a s) (\<lambda>x s'. x = Some a' \<and> P s')" "\<And>s'. P s' \<Longrightarrow> runs (norm_loop (found + 1) a' s') Q"
  shows "runs (norm_loop found a s) Q"
  using assms by (subst norm_loop.simps) (auto simp: runs_def)

lemma norm_loop_end:
  assumes "runs (norm_step a s) (\<lambda>x s'. x = None \<and> P s')" "\<And>s'. P s' \<Longrightarrow> Q (found, a) s'"
  shows "runs (norm_loop found a s) Q"
  using assms by (subst norm_loop.simps) (auto simp: runs_def)

definition group_word :: "Ngroup \<Rightarrow> cstring" where
  "group_word g = (if g = BYCLASS then ''BYCLASS'' else ''BYSECTION'')"

lemma norm_step_group:
  assumes "pos s0 None (CHR '' '' # group_word g @ newline # r) s"
  shows "runs (norm_step a s) (\<lambda>x s'. x = Some (a\<lparr>as_ngroup := g\<rparr>) \<and> pos s0 None (newline # r) s')"
  using norm_step_word(2,3) [of s0 "'' ''" "group_word g" "newline # r" s] pos_ahead [OF assms]
  by (cases g) (simp_all add: group_word_def keyword_words)

lemma norm_loop_group:
  assumes "pos s0 None (CHR '' '' # group_word g @ newline # r) s"
  shows "runs (norm_loop found a s) (\<lambda>(k, a') s'. k = found + 1 \<and> a' = a\<lparr>as_ngroup := g\<rparr> \<and> pos s0 None (newline # r) s')"
  by (rule norm_loop_step [OF norm_step_group [OF assms]], rule norm_loop_end [OF norm_step_end]) auto

text \<open>The policy that a line with the keyword \<open>NORMALIZE\<close> sets, and its text.\<close>

definition set_norm :: "Assignment \<Rightarrow> Assignment \<Rightarrow> Assignment" where
  "set_norm a b =
    (if as_npolicy a = SCALE then b\<lparr>as_npolicy := SCALE, as_scale := as_scale a, as_ngroup := as_ngroup a\<rparr>
     else b\<lparr>as_npolicy := QUANTILE, as_ngroup := as_ngroup a\<rparr>)"

definition norm_words :: "Assignment \<Rightarrow> char list" where
  "norm_words a =
    (if as_npolicy a = SCALE then '' SCALE '' @ show_float (as_scale a) else '' QUANTILE'')
    @ '' '' @ group_word (as_ngroup a)"

lemma readnorm_pos:
  assumes "pos s0 None (norm_words a @ newline # r) s" "as_npolicy a = SCALE \<longrightarrow> number_ok (as_scale a)"
  shows "runs (readnorm b s) (\<lambda>b' s'. b' = set_norm a b \<and> pos s0 None (newline # r) s')"
proof -
  let ?g = "CHR '' '' # group_word (as_ngroup a) @ newline # r"
  have "runs (norm_step b s) (\<lambda>x s'. x = Some ((set_norm a b)\<lparr>as_ngroup := as_ngroup b\<rparr>) \<and> pos s0 None ?g s')"
  proof (cases "as_npolicy a = SCALE")
    case True
    then show ?thesis
      using norm_step_scale [of s0 "'' ''" "as_scale a" ?g s b] pos_ahead [OF assms(1)] assms(2)
      by (simp add: norm_words_def set_norm_def)
  next
    case False
    then show ?thesis
      using norm_step_word(1) [of s0 "'' ''" "''QUANTILE''" ?g s b] pos_ahead [OF assms(1)]
      by (simp add: norm_words_def set_norm_def keyword_words)
  qed
  then have "runs (norm_loop 0 b s) (\<lambda>(k, a') s'. k = 2 \<and> a' = set_norm a b \<and> pos s0 None (newline # r) s')"
  proof (rule norm_loop_step)
    fix s'
    assume "pos s0 None ?g s'"
    from norm_loop_group [OF this]
    show "runs (norm_loop (0 + 1) ((set_norm a b)\<lparr>as_ngroup := as_ngroup b\<rparr>) s')
        (\<lambda>(k, a') s'. k = 2 \<and> a' = set_norm a b \<and> pos s0 None (newline # r) s')"
      by (rule runs_weaken) (auto simp: set_norm_def)
  qed
  then show ?thesis unfolding readnorm_def by (rule runs_bnd) auto
qed

text \<open>The lines that may follow the first line of an assignment.\<close>

lemma newline_pos:
  "pos s0 None (newline # r) s \<Longrightarrow> plain r \<Longrightarrow> runs (expectnewline s) (\<lambda>_. ahead s0 r)"
  using expectnewline_pos [of s0 "[]" r s] by (auto simp: ahead_def runs_def)

lemma option_weight:
  assumes "ahead s0 (''  WEIGHT '' @ show_float x @ newline # r) s" "number_ok x" "plain r"
  shows "runs (option_step a s) (\<lambda>o' s'. o' = Some (a\<lparr>as_wpolicy := WEIGHT, as_weight := x\<rparr>) \<and> ahead s0 r s')"
proof -
  have a: "ahead s0 (''  '' @ ''WEIGHT'' @ CHR '' '' # show_float x @ newline # r) s" using assms(1) by simp
  have w: "runs (readweight a s) (\<lambda>a' s'. a' = a\<lparr>as_wpolicy := WEIGHT, as_weight := x\<rparr> \<and> pos s0 None (newline # r) s')"
    if "pos s0 None (CHR '' '' # show_float x @ newline # r) s" for s
    using readweight_pos [of s0 "'' ''" x "newline # r" s] that assms(2) by simp
  show ?thesis
    unfolding option_step_def
    by (rule keyword_here(1) [OF a], simp_all add: keyword_words,
        rule runs_bnd, erule w, rule runs_bnd, rule newline_pos [OF _ assms(3)]) auto
qed

lemma option_norm:
  assumes "ahead s0 (''  NORMALIZE'' @ norm_words b @ newline # r) s" "as_npolicy b = SCALE \<longrightarrow> number_ok (as_scale b)" "plain r"
  shows "runs (option_step a s) (\<lambda>o' s'. o' = Some (set_norm b a) \<and> ahead s0 r s')"
proof -
  have a: "ahead s0 (''  '' @ ''NORMALIZE'' @ norm_words b @ newline # r) s" using assms(1) by simp
  have e: "line_end (norm_words b @ newline # r)" by (simp add: norm_words_def)
  show ?thesis
    unfolding option_step_def
    by (rule keyword_else(1) [OF a _ _ e], simp_all only: keyword_words white_simps, simp,
        rule keyword_here(1) [OF _ _ _ e, where ws = "''  ''" and w = "''NORMALIZE''"], assumption,
        simp_all only: keyword_words white_simps,
        rule runs_bnd, erule readnorm_pos, rule assms(2), rule runs_bnd, rule newline_pos [OF _ assms(3)]) auto
qed

lemma option_max:
  assumes "ahead s0 (''  MAXIMUM '' @ show_float x @ newline # r) s" "number_ok x" "plain r"
  shows "runs (option_step a s) (\<lambda>o' s'. o' = Some (a\<lparr>as_max := x\<rparr>) \<and> ahead s0 r s')"
proof -
  let ?q = "CHR '' '' # show_float x @ newline # r"
  have a: "ahead s0 (''  '' @ ''MAXIMUM'' @ ?q) s" using assms(1) by simp
  have w: "runs (readmax a s) (\<lambda>a' s'. a' = a\<lparr>as_max := x\<rparr> \<and> pos s0 None (newline # r) s')"
    if "pos s0 None ?q s" for s
    using readmax_pos [of s0 "'' ''" x "newline # r" s] that assms(2) by simp
  note else_max = keyword_else(1) [where ws = "''  ''" and w = "''MAXIMUM''" and r = ?q]
  show ?thesis
    unfolding option_step_def
    by (rule else_max [OF a], simp_all only: keyword_words white_simps line_end_simps, simp,
        rule else_max, assumption, simp_all only: keyword_words white_simps line_end_simps, simp,
        rule keyword_here(1) [where ws = "''  ''" and w = "''MAXIMUM''" and r = ?q], assumption,
        simp_all only: keyword_words white_simps line_end_simps,
        rule runs_bnd, erule w, rule runs_bnd, rule newline_pos [OF _ assms(3)]) auto
qed

lemma no_keyword:
  assumes "ahead s0 txt s" "leads K txt" "key \<notin> K" "\<And>s. ahead s0 txt s \<Longrightarrow> runs (g s) Q"
  shows "runs (bnd (checktoken key s) (\<lambda>b s. if b then f s else g s)) Q"
    "runs (bnd (checktoken key s) (\<lambda>b s. if \<not> b then g s else f s)) Q"
  using checktoken_leads [OF assms(1-3)] assms(4) by (auto simp: runs_def)

lemma option_none:
  assumes "ahead s0 txt s" "leads {''SECTION'', ''ASSIGNMENT''} txt"
  shows "runs (option_step a s) (\<lambda>o' s'. o' = None \<and> ahead s0 txt s')"
  unfolding option_step_def
  by (rule no_keyword(1) [OF assms], simp, rule no_keyword(1) [OF _ assms(2)], assumption, simp,
      rule no_keyword(1) [OF _ assms(2)], assumption, simp) simp

lemma options_loop_step:
  assumes "runs (option_step a s) (\<lambda>o' s'. o' = Some a' \<and> P s')" "\<And>s'. P s' \<Longrightarrow> runs (options_loop a' s') Q"
  shows "runs (options_loop a s) Q"
  using assms by (subst options_loop.simps) (auto simp: runs_def)

lemma options_loop_end:
  assumes "runs (option_step a s) (\<lambda>o' s'. o' = None \<and> P s')" "\<And>s'. P s' \<Longrightarrow> Q a s'"
  shows "runs (options_loop a s) Q"
  using assms by (subst options_loop.simps) (auto simp: runs_def)

text \<open>An assignment that can be written and read back.\<close>

definition assignment_ok :: "Assignment \<Rightarrow> bool" where
  "assignment_ok a \<longleftrightarrow> word (as_name a) \<and> word (as_atype a) \<and> as_npolicy a \<noteq> LINEAR
     \<and> (as_wpolicy a = WEIGHT \<longrightarrow> number_ok (as_weight a))
     \<and> (as_npolicy a = SCALE \<longrightarrow> number_ok (as_scale a)) \<and> number_ok (as_max a)"

text \<open>The fields that the file format keeps.\<close>

definition canon_assignment :: "Assignment \<Rightarrow> Assignment" where
  "canon_assignment a = \<lparr>as_name = as_name a, as_atype = as_atype a, as_wpolicy = as_wpolicy a,
     as_weight = (if as_wpolicy a = WEIGHT then as_weight a else 0), as_npolicy = as_npolicy a, as_max = as_max a,
     as_mean = 0, as_stddev = 0, as_scale = (if as_npolicy a = SCALE then as_scale a else 0),
     as_ngroup = (if as_npolicy a = RAW then BYCLASS else as_ngroup a)\<rparr>"

definition weight_line :: "Assignment \<Rightarrow> char list" where
  "weight_line a = (if as_wpolicy a = WEIGHT then ''  WEIGHT '' @ show_float (as_weight a) @ [newline] else [])"

definition norm_line :: "Assignment \<Rightarrow> char list" where
  "norm_line a = (if as_npolicy a \<noteq> RAW then ''  NORMALIZE'' @ norm_words a @ [newline] else [])"

definition max_line :: "Assignment \<Rightarrow> char list" where
  "max_line a = (if as_max a \<noteq> 0 then ''  MAXIMUM '' @ show_float (as_max a) @ [newline] else [])"

lemma writeassignment_lines:
  "as_npolicy a \<noteq> LINEAR \<Longrightarrow>
   writeassignment a = '' ASSIGNMENT '' @ as_name a @ '' '' @ as_atype a @ [newline] @ weight_line a @ norm_line a @ max_line a"
  by (cases "as_npolicy a") (simp_all add: writeassignment_def weight_line_def norm_line_def max_line_def norm_words_def group_word_def)

lemma plain_lines: "plain r \<Longrightarrow> plain (max_line a @ r)" "plain r \<Longrightarrow> plain (norm_line a @ r)" "plain r \<Longrightarrow> plain (weight_line a @ r)"
  by (simp_all add: max_line_def norm_line_def weight_line_def)

lemma options_max:
  assumes "ahead s0 (max_line a @ r) s" "number_ok (as_max a)" "leads {''SECTION'', ''ASSIGNMENT''} r" "as_max b = 0"
  shows "runs (options_loop b s) (\<lambda>b' s'. b' = b\<lparr>as_max := as_max a\<rparr> \<and> ahead s0 r s')"
proof -
  have e: "runs (options_loop b s) (\<lambda>b' s'. b' = b \<and> ahead s0 r s')" if "ahead s0 r s" for b s
    by (rule options_loop_end [OF option_none [OF that assms(3)]]) simp
  show ?thesis
  proof (cases "as_max a = 0")
    case True
    have "b\<lparr>as_max := 0\<rparr> = b" using assms(4) by (cases b) simp
    then show ?thesis using e [of s b] assms(1) True by (simp add: max_line_def)
  next
    case False
    then have "ahead s0 (''  MAXIMUM '' @ show_float (as_max a) @ newline # r) s" using assms(1) by (simp add: max_line_def)
    then show ?thesis
      by (rule options_loop_step [OF option_max [OF _ assms(2) leads_plain [OF assms(3)]]]) (erule e)
  qed
qed

lemma options_norm:
  assumes "ahead s0 (norm_line a @ max_line a @ r) s" "assignment_ok a" "leads {''SECTION'', ''ASSIGNMENT''} r" "as_max b = 0"
  shows "runs (options_loop b s)
    (\<lambda>b' s'. b' = (if as_npolicy a = RAW then b else set_norm a b)\<lparr>as_max := as_max a\<rparr> \<and> ahead s0 r s')"
proof (cases "as_npolicy a = RAW")
  case True
  then show ?thesis using options_max [of s0 a r s b] assms by (simp add: norm_line_def assignment_ok_def)
next
  case False
  then have n: "ahead s0 (''  NORMALIZE'' @ norm_words a @ newline # (max_line a @ r)) s"
    using assms(1) by (simp add: norm_line_def)
  have sc: "as_npolicy a = SCALE \<longrightarrow> number_ok (as_scale a)" "number_ok (as_max a)"
    using assms(2) by (simp_all add: assignment_ok_def)
  have m: "as_max (set_norm a b) = 0" using assms(4) by (simp add: set_norm_def)
  show ?thesis
    by (rule options_loop_step [OF option_norm [OF n sc(1) plain_lines(1) [OF leads_plain [OF assms(3)]]]])
      (rule runs_weaken [OF options_max [OF _ sc(2) assms(3) m]], auto simp: False)
qed

lemma options_all:
  assumes "ahead s0 (weight_line a @ norm_line a @ max_line a @ r) s" "assignment_ok a" "leads {''SECTION'', ''ASSIGNMENT''} r"
  shows "runs (options_loop (new_assignment (as_name a) (as_atype a)) s) (\<lambda>b s'. b = canon_assignment a \<and> ahead s0 r s')"
proof -
  let ?b = "new_assignment (as_name a) (as_atype a)"
  let ?w = "\<lambda>b. (if as_npolicy a = RAW then b else set_norm a b)\<lparr>as_max := as_max a\<rparr>"
  have p: "plain (norm_line a @ max_line a @ r)" using plain_lines leads_plain [OF assms(3)] by simp
  have np: "as_npolicy a \<in> {RAW, QUANTILE, SCALE}" using assms(2) by (cases "as_npolicy a") (auto simp: assignment_ok_def)
  show ?thesis
  proof (cases "as_wpolicy a = WEIGHT")
    case True
    let ?b' = "?b\<lparr>as_wpolicy := WEIGHT, as_weight := as_weight a\<rparr>"
    have w: "ahead s0 (''  WEIGHT '' @ show_float (as_weight a) @ newline # (norm_line a @ max_line a @ r)) s"
      "number_ok (as_weight a)" using assms(1,2) True by (simp_all add: weight_line_def assignment_ok_def)
    have "?w ?b' = canon_assignment a"
      using True np by (auto simp: canon_assignment_def new_assignment_def set_norm_def)
    then show ?thesis
      using options_norm [OF _ assms(2,3), of s0 _ ?b']
      by (intro options_loop_step [OF option_weight [OF w p]]) (simp add: new_assignment_def)
  next
    case False
    then have "?w ?b = canon_assignment a"
      using np by (cases "as_wpolicy a") (auto simp: canon_assignment_def new_assignment_def set_norm_def)
    then show ?thesis
      using options_norm [OF _ assms(2,3), of s0 s ?b] assms(1) False by (simp add: weight_line_def new_assignment_def)
  qed
qed

lemma leads_keyword:
  assumes "white ws" "word w" "line_end r" "w \<in> K" "hd w \<noteq> CHR ''#''"
  shows "leads K (ws @ w @ r)"
  using assms unfolding leads_def by blast

lemma leads_assignments:
  "list_all assignment_ok as \<Longrightarrow> leads {''SECTION''} r \<Longrightarrow> leads {''SECTION'', ''ASSIGNMENT''} (concat (map writeassignment as) @ r)"
proof (cases as)
  case (Cons a as')
  moreover assume "list_all assignment_ok as"
  ultimately have "as_npolicy a \<noteq> LINEAR" by (simp add: assignment_ok_def)
  then show ?thesis
    using leads_keyword [of "'' ''" "''ASSIGNMENT''" "CHR '' '' # as_name a @ '' '' @ as_atype a @ [newline] @ weight_line a @ norm_line a
      @ max_line a @ concat (map writeassignment as') @ r" "{''SECTION'', ''ASSIGNMENT''}"] Cons
    by (simp add: writeassignment_lines keyword_words)
qed (auto elim: leads_mono)

lemma readassignment_head:
  assumes "pos s0 None (CHR '' '' # n @ '' '' @ t @ newline # r) s" "word n" "word t" "plain r"
    and o: "\<And>s. ahead s0 r s \<Longrightarrow> runs (options_loop (new_assignment n t) s) Q"
  shows "runs (readassignment s) Q"
proof -
  have i: "runs (readid s) (\<lambda>n' s'. n' = n \<and> pos s0 None (CHR '' '' # t @ newline # r) s')"
    using read_words(1) [of s0 "'' ''" n "CHR '' '' # t @ newline # r" s] assms(1,2) by simp
  have ty: "runs (readatype s) (\<lambda>t' s'. t' = t \<and> pos s0 None (newline # r) s')"
    if "pos s0 None (CHR '' '' # t @ newline # r) s" for s
    using read_words(3) [of s0 "'' ''" t "newline # r" s] that assms(3) by simp
  show ?thesis
    unfolding readassignment_def
    by (rule runs_bnd [OF i], elim conjE, rule runs_bnd, erule ty, elim conjE, rule runs_bnd,
        erule newline_pos [OF _ assms(4)]) (simp add: o)
qed

lemma readassignment_pos:
  assumes "pos s0 None (CHR '' '' # as_name a @ '' '' @ as_atype a @ newline # weight_line a @ norm_line a @ max_line a @ r) s"
    "assignment_ok a" "leads {''SECTION'', ''ASSIGNMENT''} r"
  shows "runs (readassignment s) (\<lambda>b s'. b = canon_assignment a \<and> ahead s0 r s')"
proof (rule readassignment_head [OF assms(1)])
  show "word (as_name a)" "word (as_atype a)" using assms(2) by (simp_all add: assignment_ok_def)
  show "plain (weight_line a @ norm_line a @ max_line a @ r)" using plain_lines leads_plain [OF assms(3)] by simp
qed (rule options_all [OF _ assms(2,3)])

lemma readassignments_pos:
  assumes "ahead s0 (concat (map writeassignment as) @ r) s" "list_all assignment_ok as" "leads {''SECTION''} r"
  shows "runs (readassignments s) (\<lambda>bs s'. bs = map canon_assignment as \<and> ahead s0 r s')"
  using assms(1,2)
proof (induction as arbitrary: s)
  case Nil
  then show ?case
    by (subst readassignments.simps) (rule no_keyword(2) [OF _ assms(3)], simp_all)
next
  case (Cons a as)
  let ?r = "concat (map writeassignment as) @ r"
  let ?q = "CHR '' '' # as_name a @ '' '' @ as_atype a @ newline # weight_line a @ norm_line a @ max_line a @ ?r"
  have a: "assignment_ok a" "leads {''SECTION'', ''ASSIGNMENT''} ?r"
    using Cons.prems(2) leads_assignments [OF _ assms(3)] by simp_all
  have h: "ahead s0 ('' '' @ ''ASSIGNMENT'' @ ?q) s"
    using Cons.prems(1) a(1) writeassignment_lines [of a] by (simp add: assignment_ok_def)
  have ih: "runs (readassignments s) (\<lambda>bs s'. bs = map canon_assignment as \<and> ahead s0 r s')" if "ahead s0 ?r s" for s
    using Cons.IH [OF that] Cons.prems(2) by simp
  show ?case
    by (subst readassignments.simps, rule keyword_here(2) [OF h], simp_all only: keyword_words white_simps line_end_simps,
        rule runs_bnd, erule readassignment_pos [OF _ a], rule runs_bnd, erule conjE, erule ih) auto
qed

section \<open>Scores\<close>

lemma need_token_ahead:
  assumes "ahead s0 (ws @ w @ r) s" "white ws" "word w" "line_end r"
  shows "runs (need_token s) (\<lambda>_. pos s0 (Some w) r)"
  using assms(1) unfolding ahead_def
proof (elim disjE exE conjE)
  assume "pos s0 None (ws @ w @ r) s"
  then show ?thesis by (rule need_token_word [OF _ assms(2-4)])
next
  fix ws' w' r'
  assume h: "ws @ w @ r = ws' @ w' @ r'" "white ws'" "word w'" "line_end r'" "pos s0 (Some w') r' s"
  have "w' = w" "r' = r"
    using split_word [OF assms(2-4)] split_word [OF h(2-4)] h(1) by simp_all
  then show ?thesis using h(5) by (simp add: need_token_def istoken_def pos_def)
qed

text \<open>A grade that is not above the declared maximum, so that reading it gives no warning.\<close>

definition grade_ok :: "Assignment \<Rightarrow> real \<Rightarrow> bool" where
  "grade_ok a g \<longleftrightarrow> number_ok g \<and> (as_max a = 0 \<or> g \<le> as_max a)"

lemma readraw_pos:
  assumes "ahead s0 (ws @ show_float x @ r) s" "white ws" "grade_ok a x" "line_end r"
  shows "runs (readraw msg a sc s) (\<lambda>sc' s'. sc' = sc\<lparr>sc_grade := x\<rparr> \<and> pos s0 None r s')"
proof -
  have n: "number_ok x" "\<not> (as_max a \<noteq> 0 \<and> as_max a < x)" using assms(3) by (auto simp: grade_ok_def)
  show ?thesis
    unfolding readraw_def
    by (rule runs_bnd, rule need_token_ahead [OF assms(1,2) show_float_word [OF n(1)] assms(4)],
        rule runs_bnd, erule readnum_pos, rule n(1)) (use n(2) in auto)
qed

lemma show_float_hd: "hd (show_float x) \<noteq> CHR ''U''"
proof -
  obtain d ds where d: "show_nat (millionths x div 1000000) = d # ds"
    by (cases "show_nat (millionths x div 1000000)") auto
  have "is_digit d" using show_nat_digits [of "millionths x div 1000000"] by (simp add: d)
  then have "d \<noteq> CHR ''U''" by (auto simp: is_digit_def ord_def)
  then show ?thesis by (simp add: show_float_def d)
qed

lemma readsubst_number:
  assumes "ahead s0 (ws @ show_float x @ r) s" "white ws" "number_ok x" "line_end r"
  shows "runs (readsubst s) (\<lambda>u s'. u = None \<and> ahead s0 (ws @ show_float x @ r) s')"
proof -
  note no = keyword_else(1) [OF _ assms(2) show_float_word [OF assms(3)] assms(4)]
  have ne: "show_float x \<noteq> CHR ''U'' # cs" for cs using show_float_hd [of x] by auto
  show ?thesis
    unfolding readsubst_def by (rule no, rule assms(1), rule ne, (rule no, assumption, rule ne)+) simp
qed

definition subst_word :: "Gsubst \<Rightarrow> cstring" where
  "subst_word u = (case u of USERAW \<Rightarrow> ''USERAW'' | USENORM \<Rightarrow> ''USENORM'' | USELIKEAVG \<Rightarrow> ''USELIKEAVG''
     | USECLASSAVG \<Rightarrow> ''USECLASSAVG'')"

lemma readsubst_word:
  assumes "ahead s0 (ws @ subst_word u @ r) s" "white ws" "line_end r"
  shows "runs (readsubst s) (\<lambda>x s'. x = Some u \<and> pos s0 None r s')"
proof -
  have w: "word (subst_word u)" by (cases u) (simp_all add: subst_word_def keyword_words)
  note no = keyword_else(1) [OF _ assms(2) w assms(3)] and yes = keyword_here(1) [OF _ assms(2) w assms(3)]
  show ?thesis
  proof (cases u)
    case u: USERAW
    show ?thesis
      unfolding readsubst_def by (rule yes, rule assms(1)) (simp_all add: u subst_word_def)
  next
    case u: USENORM
    show ?thesis
      unfolding readsubst_def
      by (rule no, rule assms(1), simp add: u subst_word_def, rule yes, assumption) (simp_all add: u subst_word_def)
  next
    case u: USELIKEAVG
    show ?thesis
      unfolding readsubst_def
      by (rule no, rule assms(1), simp add: u subst_word_def, rule no, assumption, simp add: u subst_word_def,
          rule yes, assumption) (simp_all add: u subst_word_def)
  next
    case u: USECLASSAVG
    show ?thesis
      unfolding readsubst_def
      by (rule no, rule assms(1), simp add: u subst_word_def, (rule no, assumption, (simp add: u subst_word_def; fail))+,
          rule yes, assumption) (simp_all add: u subst_word_def)
  qed
qed

text \<open>A score that can be written and read back: not a substituted normalized score.\<close>

definition score_ok :: "Assignment list \<Rightarrow> Score \<Rightarrow> bool" where
  "score_ok as sc \<longleftrightarrow> sc_asgt sc < length as
     \<and> (if sc_flag sc = VALID then grade_ok (as ! sc_asgt sc) (sc_grade sc)
        else sc_subst sc \<noteq> USENORM \<and> name_ok (sc_code sc)
          \<and> (sc_subst sc = USERAW \<longrightarrow> grade_ok (as ! sc_asgt sc) (sc_grade sc)))"

definition canon_score :: "Score \<Rightarrow> Score" where
  "canon_score sc =
    (if sc_flag sc = VALID then (fresh_score (sc_asgt sc))\<lparr>sc_flag := VALID, sc_grade := sc_grade sc\<rparr>
     else (fresh_score (sc_asgt sc))\<lparr>sc_flag := INVALID, sc_subst := sc_subst sc,
       sc_grade := (if sc_subst sc = USERAW then sc_grade sc else 0), sc_code := sc_code sc\<rparr>)"

text \<open>The text of a score after the name of the assignment.\<close>

definition score_tail :: "Score \<Rightarrow> char list" where
  "score_tail sc =
    (if sc_flag sc = VALID then '' '' @ show_float (sc_grade sc)
     else '' '' @ subst_word (sc_subst sc) @ (if sc_subst sc = USERAW then '' '' @ show_float (sc_grade sc) else [])
       @ '' '' @ sc_code sc)"

lemma writescore_tail:
  "score_ok as sc \<Longrightarrow> writescore as sc = ''   SCORE '' @ as_name (as ! sc_asgt sc) @ score_tail sc @ [newline]"
  by (cases "sc_subst sc") (auto simp: score_ok_def writescore_def writesubst_def score_tail_def subst_word_def split: if_splits)

lemma code_pos:
  assumes "pos s0 None (CHR '' '' # c @ newline # r) s" "name_ok c"
  shows "runs (bnd (advanceeol s) (\<lambda>_ s. Inr (sc\<lparr>sc_code := tokenptr s\<rparr>, flushtoken s)))
    (\<lambda>sc' s'. sc' = sc\<lparr>sc_code := c\<rparr> \<and> pos s0 None (newline # r) s')"
proof -
  have "runs (advanceeol s) (\<lambda>_. pos s0 (Some c) (newline # r))"
    using advanceeol_pos [of s0 "'' ''" c r s] assms by simp
  then show ?thesis
    by (rule runs_bnd) (auto simp: name_tokenptr [OF assms(2)] pos_def flushtoken_def)
qed

lemma readgrade_pos:
  assumes "pos s0 None (score_tail sc @ newline # r) s" "score_ok as sc" "as_max a = as_max (as ! sc_asgt sc)"
  shows "runs (readgrade a (fresh_score (sc_asgt sc)) s) (\<lambda>sc' s'. sc' = canon_score sc \<and> pos s0 None (newline # r) s')"
proof (cases "sc_flag sc = VALID")
  case True
  have g: "grade_ok a (sc_grade sc)" "number_ok (sc_grade sc)"
    using assms(2,3) True by (simp_all add: score_ok_def grade_ok_def)
  have "ahead s0 ('' '' @ show_float (sc_grade sc) @ newline # r) s"
    using pos_ahead [OF assms(1)] True by (simp add: score_tail_def)
  then have r1: "runs (readsubst s) (\<lambda>u s'. u = None \<and> ahead s0 ('' '' @ show_float (sc_grade sc) @ newline # r) s')"
    by (rule readsubst_number) (simp_all add: g)
  have r2: "runs (readraw ''Expected a numeric score.'' a ((fresh_score (sc_asgt sc))\<lparr>sc_flag := VALID\<rparr>) s')
      (\<lambda>sc' s'. sc' = canon_score sc \<and> pos s0 None (newline # r) s')"
    if "ahead s0 ('' '' @ show_float (sc_grade sc) @ newline # r) s'" for s'
    using readraw_pos [OF that _ g(1)] True by (simp add: canon_score_def)
  show ?thesis
    unfolding readgrade_def by (rule runs_bnd [OF r1]) (auto intro: r2 simp del: append_Cons append_Nil)
next
  case False
  let ?u = "sc_subst sc"
  let ?c = "CHR '' '' # sc_code sc @ newline # r"
  let ?sc = "(fresh_score (sc_asgt sc))\<lparr>sc_flag := INVALID, sc_subst := ?u\<rparr>"
  define q where "q = (if ?u = USERAW then CHR '' '' # show_float (sc_grade sc) @ ?c else ?c)"
  have ok: "?u \<noteq> USENORM" "name_ok (sc_code sc)" "?u = USERAW \<Longrightarrow> grade_ok a (sc_grade sc)"
    using assms(2,3) False by (simp_all add: score_ok_def grade_ok_def)
  have "ahead s0 ('' '' @ subst_word ?u @ q) s" "line_end q"
    using pos_ahead [OF assms(1)] False by (auto simp: score_tail_def q_def)
  then have r1: "runs (readsubst s) (\<lambda>u s'. u = Some ?u \<and> pos s0 None q s')"
    using readsubst_word [of s0 "'' ''" ?u q s] by simp
  have r2: "runs (case ?u of USERAW \<Rightarrow> readraw ''Expected a numeric value.'' a ?sc s
        | USENORM \<Rightarrow> readsubstnorm a ?sc s | USELIKEAVG \<Rightarrow> Inr (?sc, s) | USECLASSAVG \<Rightarrow> Inr (?sc, s))
      (\<lambda>sc' s'. sc' = ?sc\<lparr>sc_grade := (if ?u = USERAW then sc_grade sc else 0)\<rparr> \<and> pos s0 None ?c s')"
    if "pos s0 None q s" for s
    using that ok readraw_pos [of s0 "'' ''" "sc_grade sc" ?c s a _ ?sc] pos_ahead [OF that]
    by (cases ?u) (simp_all add: q_def fresh_score_def)
  have r3: "runs (bnd (advanceeol s) (\<lambda>_ s. Inr (?sc\<lparr>sc_grade := (if ?u = USERAW then sc_grade sc else 0), sc_code := tokenptr s\<rparr>, flushtoken s)))
      (\<lambda>sc' s'. sc' = canon_score sc \<and> pos s0 None (newline # r) s')" if "pos s0 None ?c s" for s
    using code_pos [OF that ok(2), of "?sc\<lparr>sc_grade := (if ?u = USERAW then sc_grade sc else 0)\<rparr>"] False
    by (simp add: canon_score_def)
  show ?thesis
    unfolding readgrade_def Let_def
    by (rule runs_bnd [OF r1], clarify, simp only: option.case, rule runs_bnd, erule r2, clarify, erule r3)
qed

lemma find_asgt_nth:
  "i < length as \<Longrightarrow> distinct (map as_name as) \<Longrightarrow> find_asgt k (map canon_assignment as) (as_name (as ! i)) = Some (k + i)"
proof (induction as arbitrary: i k)
  case (Cons a as)
  show ?case
  proof (cases i)
    case (Suc j)
    then have "as_name (as ! j) \<in> set (map as_name as)" using Cons.prems(1) by simp
    then have "as_name a \<noteq> as_name (as ! j)" using Cons.prems(2) by auto
    then show ?thesis using Cons.IH [of j "k + 1"] Cons.prems Suc by (simp add: canon_assignment_def)
  qed (simp add: canon_assignment_def)
qed simp

lemma readscore_pos:
  assumes "pos s0 None (CHR '' '' # as_name (as ! sc_asgt sc) @ score_tail sc @ newline # r) s"
    "list_all assignment_ok as" "distinct (map as_name as)" "score_ok as sc" "plain r"
  shows "runs (readscore (map canon_assignment as) s) (\<lambda>sc' s'. sc' = canon_score sc \<and> ahead s0 r s')"
proof -
  let ?i = "sc_asgt sc" and ?n = "as_name (as ! sc_asgt sc)" and ?q = "score_tail sc @ newline # r"
  have i: "?i < length as" using assms(4) by (simp add: score_ok_def)
  then have w: "word ?n" using assms(2) by (simp add: list_all_length assignment_ok_def)
  have e: "line_end ?q" by (simp add: score_tail_def)
  have t: "runs (need_token s) (\<lambda>_. pos s0 (Some ?n) ?q)"
    using need_token_word [of s0 "'' ''" ?n ?q s] assms(1) w e by simp
  have g: "runs (readgrade (map canon_assignment as ! ?i) (fresh_score ?i) s) (\<lambda>sc' s'. sc' = canon_score sc \<and> pos s0 None (newline # r) s')"
    if "pos s0 None ?q s" for s
    by (rule readgrade_pos [OF that assms(4)]) (simp add: i canon_assignment_def)
  show ?thesis
    unfolding readscore_def
  proof (rule runs_bnd [OF t])
    fix s1
    assume p: "pos s0 (Some ?n) ?q s1"
    then have "istoken s1" "tokenptr s1 = ?n" using word_tokenptr [OF w] by (simp_all add: pos_def istoken_def)
    then show "runs (if istoken s1 then
        (case find_asgt 0 (map canon_assignment as) (tokenptr s1) of
           None \<Rightarrow> fatal (''Undeclared assignment '' @ tokenptr s1 @ '' encountered in student scores.'') s1
         | Some i \<Rightarrow> bnd (readgrade (map canon_assignment as ! i) (fresh_score i) (flushtoken s1)) (\<lambda>sc s.
            bnd (expectnewline s) (\<lambda>_ s. Inr (sc, s))))
      else fatal ''Expecting assignment ID.'' s1) (\<lambda>sc' s'. sc' = canon_score sc \<and> ahead s0 r s')"
      using find_asgt_nth [OF i assms(3), of 0] runs_bnd [OF g [OF flush_pos [OF p]]] newline_pos [OF _ assms(5)]
      by (auto intro!: runs_bnd [OF g [OF flush_pos [OF p]]] runs_bnd)
  qed
qed

lemma leads_scores:
  assumes "leads K r" "list_all (score_ok as) scs"
  shows "leads (insert ''SCORE'' K) (concat (map (writescore as) scs) @ r)"
proof (cases scs)
  case (Cons sc scs')
  then show ?thesis
    using leads_keyword [of "''   ''" "''SCORE''" "CHR '' '' # as_name (as ! sc_asgt sc) @ score_tail sc @ newline # concat (map (writescore as) scs') @ r"
        "insert ''SCORE'' K"] assms(2)
    by (simp add: writescore_tail keyword_words)
qed (use assms(1) in \<open>auto elim: leads_mono\<close>)

lemma readscores_pos:
  assumes "ahead s0 (concat (map (writescore as) scs) @ r) s" "list_all (score_ok as) scs" "leads {''STUDENT'', ''SECTION''} r"
    "list_all assignment_ok as" "distinct (map as_name as)"
  shows "runs (readscores (map canon_assignment as) s) (\<lambda>xs s'. xs = map canon_score scs \<and> ahead s0 r s')"
  using assms(1,2)
proof (induction scs arbitrary: s)
  case Nil
  then show ?case
    by (subst readscores.simps) (rule no_keyword(2) [OF _ assms(3)], simp_all)
next
  case (Cons sc scs)
  let ?r = "concat (map (writescore as) scs) @ r"
  let ?q = "CHR '' '' # as_name (as ! sc_asgt sc) @ score_tail sc @ newline # ?r"
  have sc: "score_ok as sc" "plain ?r" using Cons.prems(2) leads_plain [OF leads_scores [OF assms(3)]] by simp_all
  have h: "ahead s0 (''   '' @ ''SCORE'' @ ?q) s"
    using Cons.prems(1) writescore_tail [OF sc(1)] by simp
  have ih: "runs (readscores (map canon_assignment as) s) (\<lambda>xs s'. xs = map canon_score scs \<and> ahead s0 r s')" if "ahead s0 ?r s" for s
    using Cons.IH [OF that] Cons.prems(2) by simp
  show ?case
    by (subst readscores.simps, rule keyword_here(2) [OF h], simp_all only: keyword_words white_simps line_end_simps,
        rule runs_bnd, erule readscore_pos [OF _ assms(4,5) sc], rule runs_bnd, erule conjE, erule ih) auto
qed

end
