(* ===== verification/Grades_Round.thy ===== *)
theory Grades_Round
  imports Grades_Lines
begin

text \<open>
  The round trip of the grades program: what \<open>writefile\<close> writes is read back by \<open>readfile\<close> as the same
  course, for courses within the limits of the file format, and what is lost outside them.
\<close>

section \<open>Students\<close>

text \<open>The students of a roster chain.\<close>

fun students :: "heap \<Rightarrow> addr option \<Rightarrow> Student list \<Rightarrow> bool" where
  "students h p [] \<longleftrightarrow> p = None"
| "students h p (st # sts) \<longleftrightarrow> (\<exists>a. p = Some a \<and> h a = st \<and> students h (st_next st) sts)"

lemma writestudents_text:
  "students h p sts \<Longrightarrow> writestudents as h p = Some (concat (map (writestudent as) sts))"
proof (induction sts arbitrary: p)
  case Nil
  then show ?case by (subst writestudents.simps) simp
next
  case (Cons st sts)
  then obtain a where a: "p = Some a" "h a = st" "students h (st_next st) sts" by auto
  then show ?case using Cons.IH [OF a(3)] by (subst writestudents.simps) simp
qed

definition student_ok :: "Assignment list \<Rightarrow> Student \<Rightarrow> bool" where
  "student_ok as st \<longleftrightarrow> word (st_id st) \<and> word (st_surname st) \<and> name_ok (st_name st)
     \<and> list_all (score_ok as) (st_rawscores st)"

definition canon_student :: "Student \<Rightarrow> Student" where
  "canon_student st = new_student (st_id st) (st_surname st) (st_name st) (map canon_score (st_rawscores st)) 0"

lemma canon_score_idem [simp]: "canon_score (canon_score sc) = canon_score sc"
  by (simp add: canon_score_def fresh_score_def)

text \<open>A chain through cells with increasing addresses between two bounds.\<close>

fun chain_in :: "heap \<Rightarrow> addr \<Rightarrow> addr \<Rightarrow> addr option \<Rightarrow> Student list \<Rightarrow> bool" where
  "chain_in h lo hi p [] \<longleftrightarrow> p = None"
| "chain_in h lo hi p (st # sts) \<longleftrightarrow>
    (\<exists>a. p = Some a \<and> lo \<le> a \<and> a < hi \<and> h a = st \<and> chain_in h (a + 1) hi (st_next st) sts)"

lemma chain_in_cong:
  "(\<And>x. lo \<le> x \<Longrightarrow> x < hi \<Longrightarrow> h x = h' x) \<Longrightarrow> chain_in h lo hi p sts = chain_in h' lo hi p sts"
proof (induction sts arbitrary: lo p)
  case (Cons st sts)
  have "chain_in h (a + 1) hi q sts = chain_in h' (a + 1) hi q sts" if "lo \<le> a" for a q
    using Cons.IH [of "a + 1" q] Cons.prems that by simp
  then show ?case using Cons.prems by (auto; metis)
qed simp

lemma chain_in_students: "chain_in h lo hi p sts \<Longrightarrow> students h p sts"
  by (induction sts arbitrary: lo p) auto

lemma chain_in_mono: "chain_in h lo hi p sts \<Longrightarrow> hi \<le> hi' \<Longrightarrow> lo' \<le> lo \<Longrightarrow> chain_in h lo' hi' p sts"
  by (induction sts arbitrary: lo lo' p) fastforce+

lemma ahead_update:
  "ahead s0 txt s \<Longrightarrow> ahead (s0\<lparr>rd_heap := H\<rparr>) txt (s\<lparr>rd_heap := H\<rparr>)"
  "pos s0 tok txt s \<Longrightarrow> pos (s0\<lparr>rd_new := n\<rparr>) tok txt (s\<lparr>rd_new := n\<rparr>)"
  by (auto simp: ahead_def pos_def)

lemma ahead_fields: "ahead s0 txt s \<Longrightarrow> rd_heap s = rd_heap s0 \<and> rd_new s = rd_new s0"
  by (auto simp: ahead_def pos_def)

definition student_tail :: "Assignment list \<Rightarrow> Student \<Rightarrow> char list" where
  "student_tail as st = CHR '' '' # st_id st @ '' '' @ st_surname st @ '', '' @ st_name st @ newline # concat (map (writescore as) (st_rawscores st))"

lemma readstudent_pos:
  assumes "pos s0 None (student_tail as st @ r) s" "student_ok as st" "leads {''STUDENT'', ''SECTION''} r"
    "list_all assignment_ok as" "distinct (map as_name as)"
  shows "runs (readstudent (map canon_assignment as) sep s) (\<lambda>a s'. a = rd_new s0 \<and>
    ahead (s0\<lparr>rd_new := rd_new s0 + 1, rd_heap := (rd_heap s0)(rd_new s0 :=
      new_student (st_id st) (st_surname st) (st_name st) (map canon_score (st_rawscores st)) sep)\<rparr>) r s')"
proof -
  let ?sc = "concat (map (writescore as) (st_rawscores st)) @ r"
  let ?s0 = "s0\<lparr>rd_new := rd_new s0 + 1\<rparr>"
  have ok: "word (st_id st)" "word (st_surname st)" "name_ok (st_name st)" "list_all (score_ok as) (st_rawscores st)"
    using assms(2) by (simp_all add: student_ok_def)
  have pl: "plain ?sc" by (rule leads_plain [OF leads_scores [OF assms(3) ok(4)]])
  have a: "rd_new s = rd_new s0" "rd_heap s = rd_heap s0" using assms(1) by (simp_all add: pos_def)
  have 1: "runs (readid (s\<lparr>rd_new := rd_new s0 + 1\<rparr>)) (\<lambda>n s'. n = st_id st \<and> pos ?s0 None ('' '' @ st_surname st @ '', '' @ st_name st @ newline # ?sc) s')"
    using read_words(1) [of ?s0 "'' ''" "st_id st" "'' '' @ st_surname st @ '', '' @ st_name st @ newline # ?sc" "s\<lparr>rd_new := rd_new s0 + 1\<rparr>"]
      ahead_update(2) [OF assms(1)] ok(1) by (simp add: student_tail_def)
  have 2: "runs (readsurname s) (\<lambda>n s'. n = st_surname st \<and> pos ?s0 None ('', '' @ st_name st @ newline # ?sc) s')"
    if "pos ?s0 None ('' '' @ st_surname st @ '', '' @ st_name st @ newline # ?sc) s" for s
    using read_words(2) [OF that] ok(2) by simp
  have 3: "runs (readname s) (\<lambda>n s'. n = st_name st \<and> pos ?s0 None ?sc s')"
    if "pos ?s0 None ('', '' @ st_name st @ newline # ?sc) s" for s
    using readname_pos [OF that _ ok(3) pl] by simp
  have 4: "runs (readscores (map canon_assignment as) s) (\<lambda>xs s'. xs = map canon_score (st_rawscores st) \<and> ahead ?s0 r s')"
    if "pos ?s0 None ?sc s" for s
    by (rule readscores_pos [OF pos_ahead [OF that] ok(4) assms(3-5)])
  have 5: "ahead (s0\<lparr>rd_new := rd_new s0 + 1, rd_heap := (rd_heap s0)(rd_new s0 := x)\<rparr>) r
      (s\<lparr>rd_heap := (rd_heap s)(rd_new s0 := x)\<rparr>)" if "ahead ?s0 r s" for s x
    using ahead_update(1) [OF that, of "(rd_heap s)(rd_new s0 := x)"] ahead_fields [OF that] by simp
  show ?thesis
    unfolding readstudent_def Let_def a
    apply (rule runs_bnd [OF 1], erule conjE)
    apply (rule runs_bnd, erule 2, erule conjE)
    apply (rule runs_bnd, erule 3, erule conjE)
    apply (rule runs_bnd, erule 4)
    apply (clarify, simp only: runs_Inr, intro conjI refl, erule 5)
    done
qed

lemma writestudent_tail: "writestudent as st = ''  STUDENT'' @ student_tail as st"
  by (simp add: writestudent_def student_tail_def)

lemma leads_students:
  assumes "leads {''SECTION''} r"
  shows "leads {''STUDENT'', ''SECTION''} (concat (map (writestudent as) sts) @ r)"
proof (cases sts)
  case (Cons st sts')
  have "line_end (student_tail as st @ concat (map (writestudent as) sts') @ r)" by (simp add: student_tail_def)
  from leads_keyword [OF _ _ this, of "''  ''" "''STUDENT''" "{''STUDENT'', ''SECTION''}"]
  show ?thesis using Cons by (simp add: writestudent_tail keyword_words)
qed (use assms in \<open>auto elim: leads_mono\<close>)

text \<open>What reading a roster leaves: the cells below the old bound as they were, and the students in new cells.\<close>

definition roster_read :: "reader \<Rightarrow> Student list \<Rightarrow> nat \<Rightarrow> char list \<Rightarrow> addr option \<Rightarrow> reader \<Rightarrow> bool" where
  "roster_read s0 sts sep r p s \<longleftrightarrow>
    (\<exists>H N sts'. ahead (s0\<lparr>rd_new := N, rd_heap := H\<rparr>) r s \<and> rd_new s0 \<le> N \<and> (\<forall>x < rd_new s0. H x = rd_heap s0 x)
       \<and> chain_in H (rd_new s0) N p sts' \<and> map canon_student sts' = map canon_student sts
       \<and> list_all (\<lambda>st. st_section st = sep) sts')"

lemma readstudents_pos:
  assumes "ahead s0 (concat (map (writestudent as) sts) @ r) s" "list_all (student_ok as) sts" "leads {''SECTION''} r"
    "list_all assignment_ok as" "distinct (map as_name as)"
  shows "runs (readstudents (map canon_assignment as) sep s) (roster_read s0 sts sep r)"
  using assms(1,2)
proof (induction sts arbitrary: s0 s)
  case Nil
  have "roster_read s0 [] sep r None s'" if "ahead s0 r s'" for s'
    unfolding roster_read_def
    by (rule exI [of _ "rd_heap s0"], rule exI [of _ "rd_new s0"], rule exI [of _ "[]"]) (use that in simp)
  then show ?case
    using Nil by (subst readstudents.simps) (rule no_keyword(2) [OF _ assms(3)], simp_all)
next
  case (Cons st sts)
  let ?r = "concat (map (writestudent as) sts) @ r" and ?a = "rd_new s0"
  let ?st = "new_student (st_id st) (st_surname st) (st_name st) (map canon_score (st_rawscores st)) sep"
  let ?s0 = "s0\<lparr>rd_new := ?a + 1, rd_heap := (rd_heap s0)(?a := ?st)\<rparr>"
  have st: "student_ok as st" "leads {''STUDENT'', ''SECTION''} ?r"
    using Cons.prems(2) leads_students [OF assms(3)] by simp_all
  have h: "ahead s0 (''  '' @ ''STUDENT'' @ student_tail as st @ ?r) s" "line_end (student_tail as st @ ?r)"
    using Cons.prems(1) writestudent_tail [of as st] by (simp, simp add: student_tail_def)
  have ih: "runs (readstudents (map canon_assignment as) sep s) (roster_read ?s0 sts sep r)" if "ahead ?s0 ?r s" for s
    using Cons.IH [OF that] Cons.prems(2) by simp
  have fin: "roster_read s0 (st # sts) sep r (Some ?a) (s\<lparr>rd_heap := (rd_heap s)(?a := (rd_heap s ?a)\<lparr>st_next := nx\<rparr>)\<rparr>)"
    if rr: "roster_read ?s0 sts sep r nx s" for nx s
  proof -
    obtain H N sts' where H: "ahead (s0\<lparr>rd_new := N, rd_heap := H\<rparr>) r s" "?a + 1 \<le> N"
      "\<forall>x < ?a + 1. H x = ((rd_heap s0)(?a := ?st)) x" "chain_in H (?a + 1) N nx sts'"
      "map canon_student sts' = map canon_student sts" "list_all (\<lambda>st. st_section st = sep) sts'"
      using rr by (auto simp: roster_read_def)
    let ?H = "H(?a := ?st\<lparr>st_next := nx\<rparr>)"
    have hs: "rd_heap s = H" "H ?a = ?st" using ahead_fields [OF H(1)] H(3) by simp_all
    have "chain_in ?H (?a + 1) N nx sts'" using chain_in_cong [of "?a + 1" N H ?H nx sts'] H(4) by simp
    then have "chain_in ?H ?a N (Some ?a) (?st\<lparr>st_next := nx\<rparr> # sts')" using H(2) by simp
    moreover have "ahead (s0\<lparr>rd_new := N, rd_heap := ?H\<rparr>) r (s\<lparr>rd_heap := ?H\<rparr>)"
      using ahead_update(1) [OF H(1), of ?H] by simp
    moreover have "canon_student (?st\<lparr>st_next := nx\<rparr>) = canon_student st"
      by (simp add: canon_student_def new_student_def comp_def)
    ultimately show ?thesis
      unfolding roster_read_def
      by (intro exI [of _ ?H] exI [of _ N] exI [of _ "?st\<lparr>st_next := nx\<rparr> # sts'"])
        (use H hs in \<open>auto simp: new_student_def\<close>)
  qed
  show ?case
    by (subst readstudents.simps, rule keyword_here(2) [OF h(1) _ _ h(2)], simp_all only: keyword_words white_simps,
        rule runs_bnd, erule readstudent_pos [OF _ st assms(4,5)], erule conjE, rule runs_bnd, erule ih, clarify, simp only: runs_Inr, erule fin)
qed

section \<open>Sections\<close>

type_synonym section_doc = "cstring \<times> Assistant option \<times> Student list"

definition section_text :: "Assignment list \<Rightarrow> section_doc \<Rightarrow> char list" where
  "section_text as d = (case d of (n, ta, sts) \<Rightarrow>
     '' SECTION '' @ n @ [newline] @ writeassistant ta @ concat (map (writestudent as) sts))"

lemma section_text_eq:
  "section_text as (n, ta, sts) = '' SECTION '' @ n @ [newline] @ writeassistant ta @ concat (map (writestudent as) sts)"
  by (simp add: section_text_def)

definition assistant_ok :: "Assistant option \<Rightarrow> bool" where
  "assistant_ok ta = (case ta of None \<Rightarrow> True | Some a \<Rightarrow> word (at_surname a) \<and> name_ok (at_name a))"

definition section_ok :: "Assignment list \<Rightarrow> section_doc \<Rightarrow> bool" where
  "section_ok as d = (case d of (n, ta, sts) \<Rightarrow> name_ok n \<and> assistant_ok ta \<and> list_all (student_ok as) sts)"

lemma readassistant_pos:
  assumes "ahead s0 (writeassistant ta @ r) s" "assistant_ok ta" "leads {''STUDENT'', ''SECTION''} r"
  shows "runs (readassistant s) (\<lambda>x s'. x = ta \<and> ahead s0 r s')"
proof (cases ta)
  case None
  then show ?thesis
    using assms(1) unfolding readassistant_def writeassistant_def by (auto intro: no_keyword(2) [OF _ assms(3)])
next
  case (Some a)
  let ?q = "CHR '' '' # at_surname a @ '', '' @ at_name a @ newline # r"
  have ok: "word (at_surname a)" "name_ok (at_name a)" using assms(2) Some by (simp_all add: assistant_ok_def)
  have h: "ahead s0 ('' '' @ ''ASSISTANT'' @ ?q) s" using assms(1) Some by (simp add: writeassistant_def)
  have 1: "runs (readsurname s) (\<lambda>n s'. n = at_surname a \<and> pos s0 None ('', '' @ at_name a @ newline # r) s')"
    if "pos s0 None ?q s" for s
    using read_words(2) [of s0 "'' ''" "at_surname a" "'', '' @ at_name a @ newline # r" s] that ok(1) by simp
  have 2: "runs (readname s) (\<lambda>n s'. n = at_name a \<and> pos s0 None r s')"
    if "pos s0 None ('', '' @ at_name a @ newline # r) s" for s
    using readname_pos [OF that _ ok(2) leads_plain [OF assms(3)]] by simp
  show ?thesis
    unfolding readassistant_def
    by (rule keyword_here(2) [OF h], simp_all only: keyword_words white_simps line_end_simps,
        rule runs_bnd, erule 1, erule conjE, rule runs_bnd, erule 2) (use Some pos_ahead in auto)
qed

lemma plain_assistant: "plain r \<Longrightarrow> plain (writeassistant ta @ r)"
  by (cases ta) (simp_all add: writeassistant_def)

lemma readsection_pos:
  assumes "pos s0 None (CHR '' '' # n @ newline # writeassistant ta @ concat (map (writestudent as) sts) @ r) s"
    "section_ok as (n, ta, sts)" "leads {''SECTION''} r" "list_all assignment_ok as" "distinct (map as_name as)"
  shows "runs (readsection (map canon_assignment as) k s)
    (\<lambda>sec s'. se_name sec = n \<and> se_assistant sec = ta \<and> roster_read s0 sts k r (se_roster sec) s')"
proof -
  let ?st = "concat (map (writestudent as) sts) @ r"
  have ok: "name_ok n" "assistant_ok ta" "list_all (student_ok as) sts" using assms(2) by (simp_all add: section_ok_def)
  have l: "leads {''STUDENT'', ''SECTION''} ?st" by (rule leads_students [OF assms(3)])
  have 1: "runs (readname s) (\<lambda>n' s'. n' = n \<and> pos s0 None (writeassistant ta @ ?st) s')"
    using readname_pos [of s0 "'' ''" n "writeassistant ta @ ?st" s] assms(1) ok(1) plain_assistant [OF leads_plain [OF l]] by simp
  show ?thesis
    unfolding readsection_def
    by (rule runs_bnd [OF 1], erule conjE, rule runs_bnd, rule readassistant_pos [OF pos_ahead ok(2) l], assumption,
        erule conjE, rule runs_bnd, erule readstudents_pos [OF _ ok(3) assms(3-5)]) simp
qed

text \<open>The sections that were read, their students in cells between the bounds, section after section.\<close>

fun sections_in :: "heap \<Rightarrow> addr \<Rightarrow> addr \<Rightarrow> nat \<Rightarrow> Section list \<Rightarrow> section_doc list \<Rightarrow> bool" where
  "sections_in h lo hi k [] ds \<longleftrightarrow> ds = []"
| "sections_in h lo hi k (sec # secs) [] \<longleftrightarrow> False"
| "sections_in h lo hi k (sec # secs) ((n, ta, sts) # ds) \<longleftrightarrow>
    se_name sec = n \<and> se_assistant sec = ta
    \<and> (\<exists>sts' m. lo \<le> m \<and> m \<le> hi \<and> chain_in h lo m (se_roster sec) sts' \<and> map canon_student sts' = map canon_student sts
         \<and> list_all (\<lambda>st. st_section st = k) sts' \<and> sections_in h m hi (k + 1) secs ds)"

text \<open>A computation that ends, does not stop and whose result has a property.\<close>

definition oruns :: "'a scan option \<Rightarrow> ('a \<Rightarrow> reader \<Rightarrow> bool) \<Rightarrow> bool" where
  "oruns m P \<longleftrightarrow> (\<exists>x s. m = Some (Inr (x, s)) \<and> P x s)"

lemma oruns_Some [simp]: "oruns (Some (Inr (x, s))) P \<longleftrightarrow> P x s"
  by (simp add: oruns_def)

lemma oruns_obnd: "runs m P \<Longrightarrow> (\<And>x s. P x s \<Longrightarrow> oruns (f x s) Q) \<Longrightarrow> oruns (obnd m f) Q"
  by (auto simp: runs_def)

lemma oruns_bind: "oruns m P \<Longrightarrow> (\<And>x s. P x s \<Longrightarrow> oruns (f x s) Q) \<Longrightarrow> oruns (Option.bind m (\<lambda>r. obnd r f)) Q"
  by (auto simp: oruns_def)

lemma next_token_ahead:
  assumes "ahead s0 (ws @ w @ r) s" "white ws" "word w" "line_end r"
  shows "runs (next_token_file s) (\<lambda>t s'. t \<and> ahead s0 (ws @ w @ r) s')"
proof (cases "istoken s")
  case False
  then have "runs (advancetoken s) (\<lambda>_. pos s0 (Some w) r)"
    using need_token_ahead [OF assms] by (simp add: need_token_def)
  moreover have "istoken s' \<and> ahead s0 (ws @ w @ r) s'" if "pos s0 (Some w) r s'" for s'
    using that assms(2-4) by (auto simp: ahead_def istoken_def pos_def)
  ultimately show ?thesis
    using False by (subst next_token_file.simps) (auto simp: runs_def)
qed (use assms(1) in \<open>subst next_token_file.simps, simp\<close>)

lemma next_token_end:
  assumes "ahead s0 [] s" "rd_prev s0 = []"
  shows "runs (next_token_file s) (\<lambda>t s'. \<not> t \<and> ahead s0 [] s')"
  using assms
  by (subst next_token_file.simps)
    (auto simp: ahead_def word_def istoken_def pos_def advancetoken_def discard_def gobblewhitespace_def set_rest_def flushtoken_def)

lemma leads_sections: "leads {''SECTION''} (concat (map (section_text as) ds))"
proof (cases ds)
  case (Cons d ds')
  then show ?thesis
    using leads_keyword [of "'' ''" "''SECTION''" "CHR '' '' # fst d @ newline # writeassistant (fst (snd d)) @
      concat (map (writestudent as) (snd (snd d))) @ concat (map (section_text as) ds')" "{''SECTION''}"]
    by (simp add: section_text_def keyword_words case_prod_beta)
qed (simp add: leads_def)

definition sections_read :: "reader \<Rightarrow> section_doc list \<Rightarrow> nat \<Rightarrow> Section list \<Rightarrow> reader \<Rightarrow> bool" where
  "sections_read s0 ds k secs s \<longleftrightarrow>
    (\<exists>H N. ahead (s0\<lparr>rd_new := N, rd_heap := H\<rparr>) [] s \<and> rd_new s0 \<le> N \<and> (\<forall>x < rd_new s0. H x = rd_heap s0 x)
       \<and> sections_in H (rd_new s0) N k secs ds)"

lemma sections_read_Cons:
  assumes "roster_read s0 sts k r p s" "sections_read s1 ds (k + 1) secs s'"
    and s1: "\<And>H N. ahead (s0\<lparr>rd_new := N, rd_heap := H\<rparr>) r s \<Longrightarrow> s1 = s0\<lparr>rd_new := N, rd_heap := H\<rparr>"
  shows "sections_read s0 ((n, ta, sts) # ds) k (\<lparr>se_name = n, se_assistant = ta, se_roster = p\<rparr> # secs) s'"
proof -
  obtain H N sts' where H: "ahead (s0\<lparr>rd_new := N, rd_heap := H\<rparr>) r s" "rd_new s0 \<le> N" "\<forall>x < rd_new s0. H x = rd_heap s0 x"
    "chain_in H (rd_new s0) N p sts'" "map canon_student sts' = map canon_student sts" "list_all (\<lambda>st. st_section st = k) sts'"
    using assms(1) by (auto simp: roster_read_def)
  note e = s1 [OF H(1)]
  obtain H' N' where H': "ahead (s1\<lparr>rd_new := N', rd_heap := H'\<rparr>) [] s'" "N \<le> N'" "\<forall>x < N. H' x = H x"
    "sections_in H' N N' (k + 1) secs ds"
    using assms(2) e by (auto simp: sections_read_def)
  have "chain_in H' (rd_new s0) N p sts'" using H(4) chain_in_cong [of "rd_new s0" N H' H] H'(3) by simp
  then have "sections_in H' (rd_new s0) N' k (\<lparr>se_name = n, se_assistant = ta, se_roster = p\<rparr> # secs) ((n, ta, sts) # ds)"
    using H(2,5,6) H'(2,4) by auto
  moreover have "\<forall>x < rd_new s0. H' x = rd_heap s0 x" using H(2,3) H'(3) by simp
  moreover have "ahead (s0\<lparr>rd_new := N', rd_heap := H'\<rparr>) [] s'" using H'(1) e by simp
  ultimately show ?thesis
    unfolding sections_read_def using H(2) H'(2) by (intro exI [of _ H'] exI [of _ N']) simp
qed

lemma readsections_pos:
  assumes "ahead s0 (concat (map (section_text as) ds)) s" "list_all (section_ok as) ds" "rd_prev s0 = []"
    "list_all assignment_ok as" "distinct (map as_name as)"
  shows "oruns (readsections fs (map canon_assignment as) k s) (sections_read s0 ds k)"
  using assms(1-3)
proof (induction ds arbitrary: s0 s k)
  case Nil
  have "runs (next_token_file s) (\<lambda>t s'. \<not> t \<and> ahead s0 [] s')" using next_token_end Nil.prems by simp
  then show ?case
    by (subst readsections.simps, elim oruns_obnd)
      (auto simp: sections_read_def intro!: exI [of _ "rd_heap s0"] exI [of _ "rd_new s0"])
next
  case (Cons d ds)
  obtain n ta sts where d: "d = (n, ta, sts)" by (cases d) auto
  let ?r = "concat (map (section_text as) ds)"
  let ?q = "CHR '' '' # n @ newline # writeassistant ta @ concat (map (writestudent as) sts) @ ?r"
  have l: "leads {''SECTION''} ?r" by (rule leads_sections)
  have ok: "section_ok as (n, ta, sts)" "list_all (section_ok as) ds" using Cons.prems(2) d by simp_all
  have h: "ahead s0 ('' '' @ ''SECTION'' @ ?q) s" using Cons.prems(1) section_text_eq [of as n ta sts] by (simp add: d)
  have kw: "white '' ''" "word ''SECTION''" "line_end ?q" by (simp_all add: keyword_words)
  have 1: "runs (next_token_file s) (\<lambda>t s'. t \<and> ahead s0 ('' '' @ ''SECTION'' @ ?q) s')" by (rule next_token_ahead [OF h kw])
  have 2: "runs (checktoken ''FILE'' s) (\<lambda>b s'. \<not> b \<and> ahead s0 ('' '' @ ''SECTION'' @ ?q) s')"
    if "ahead s0 ('' '' @ ''SECTION'' @ ?q) s" for s by (rule check_no [OF that kw]) simp
  have 3: "runs (checktoken ''SECTION'' s) (\<lambda>b s'. b \<and> pos s0 None ?q s')"
    if "ahead s0 ('' '' @ ''SECTION'' @ ?q) s" for s by (rule check_yes [OF that kw])
  have 4: "runs (readsection (map canon_assignment as) k s)
      (\<lambda>sec s'. se_name sec = n \<and> se_assistant sec = ta \<and> roster_read s0 sts k ?r (se_roster sec) s')"
    if "pos s0 None ?q s" for s by (rule readsection_pos [OF that ok(1) l assms(4,5)])
  have 5: "oruns (readsections fs (map canon_assignment as) (k + 1) s)
      (\<lambda>secs. sections_read s0 ((n, ta, sts) # ds) k (\<lparr>se_name = n, se_assistant = ta, se_roster = p\<rparr> # secs))"
    if rr: "roster_read s0 sts k ?r p s" for p s
  proof -
    obtain H N where H: "ahead (s0\<lparr>rd_new := N, rd_heap := H\<rparr>) ?r s" using rr by (auto simp: roster_read_def)
    let ?s1 = "s0\<lparr>rd_new := N, rd_heap := H\<rparr>"
    have eq: "?s1 = s0\<lparr>rd_new := N', rd_heap := H'\<rparr>" if "ahead (s0\<lparr>rd_new := N', rd_heap := H'\<rparr>) ?r s" for H' N'
      using ahead_fields [OF that] ahead_fields [OF H] by simp
    have ih: "oruns (readsections fs (map canon_assignment as) (k + 1) s) (sections_read ?s1 ds (k + 1))"
      using Cons.IH [OF H ok(2), of "k + 1"] Cons.prems(3) by simp
    obtain secs s' where o: "readsections fs (map canon_assignment as) (k + 1) s = Some (Inr (secs, s'))" "sections_read ?s1 ds (k + 1) secs s'"
      using ih by (auto simp: oruns_def)
    show ?thesis using sections_read_Cons [OF rr o(2) eq] o(1) by (auto simp: oruns_def)
  qed
  show ?case
    apply (subst readsections.simps)
    apply (rule oruns_obnd [OF 1], elim conjE, simp only: not_True_eq_False if_False simp_thms)
    apply (rule oruns_obnd, erule 2, elim conjE, simp only: if_False simp_thms)
    apply (rule oruns_obnd, erule 3, elim conjE, simp only: not_True_eq_False if_False simp_thms)
    apply (rule oruns_obnd, erule 4, elim conjE)
    apply (rule oruns_bind, erule 5)
    subgoal for _ _ _ _ _ _ sec by (cases sec) (simp add: d)
    done
qed

section \<open>The round trip\<close>

definition professor_ok :: "Professor option \<Rightarrow> bool" where
  "professor_ok p = (case p of None \<Rightarrow> True | Some p \<Rightarrow> word (pr_surname p) \<and> name_ok (pr_name p))"

lemma readprofessor_pos:
  assumes "ahead s0 (writeprofessor p @ r) s" "professor_ok p" "leads {''SECTION'', ''ASSIGNMENT''} r"
  shows "runs (readprofessor s) (\<lambda>x s'. x = p \<and> ahead s0 r s')"
proof (cases p)
  case None
  then show ?thesis
    using assms(1) unfolding readprofessor_def writeprofessor_def by (auto intro: no_keyword(2) [OF _ assms(3)])
next
  case (Some a)
  let ?q = "CHR '' '' # pr_surname a @ '', '' @ pr_name a @ newline # r"
  have ok: "word (pr_surname a)" "name_ok (pr_name a)" using assms(2) Some by (simp_all add: professor_ok_def)
  have h: "ahead s0 ('' '' @ ''PROFESSOR'' @ ?q) s" using assms(1) Some by (simp add: writeprofessor_def)
  have 1: "runs (readsurname s) (\<lambda>n s'. n = pr_surname a \<and> pos s0 None ('', '' @ pr_name a @ newline # r) s')"
    if "pos s0 None ?q s" for s
    using read_words(2) [of s0 "'' ''" "pr_surname a" "'', '' @ pr_name a @ newline # r" s] that ok(1) by simp
  have 2: "runs (readname s) (\<lambda>n s'. n = pr_name a \<and> pos s0 None r s')"
    if "pos s0 None ('', '' @ pr_name a @ newline # r) s" for s
    using readname_pos [OF that _ ok(2) leads_plain [OF assms(3)]] by simp
  show ?thesis
    unfolding readprofessor_def
    by (rule keyword_here(2) [OF h], simp_all only: keyword_words white_simps line_end_simps,
        rule runs_bnd, erule 1, erule conjE, rule runs_bnd, erule 2) (use Some pos_ahead in auto)
qed

lemma plain_professor: "plain r \<Longrightarrow> plain (writeprofessor p @ r)"
  by (cases p) (simp_all add: writeprofessor_def)

lemma expecttoken_pos:
  assumes "pos s0 None (key @ r) s" "word key" "line_end r"
  shows "runs (expecttoken key s) (\<lambda>_. pos s0 None r)"
proof -
  have "runs (need_token s) (\<lambda>_. pos s0 (Some key) r)" using need_token_word [of s0 "[]" key r s] assms by simp
  then show ?thesis
    unfolding expecttoken_def
    by (rule runs_bnd) (use word_tokenptr [OF assms(2)] flush_pos in \<open>auto simp: istoken_def pos_def flushtoken_def\<close>)
qed

text \<open>The sections of a course with the students of their rosters.\<close>

definition holds :: "heap \<Rightarrow> Course \<Rightarrow> section_doc list \<Rightarrow> bool" where
  "holds h c ds \<longleftrightarrow> list_all2 (\<lambda>sec d. case d of (n, ta, sts) \<Rightarrow>
     se_name sec = n \<and> se_assistant sec = ta \<and> students h (se_roster sec) sts) (co_sections c) ds"

text \<open>
  The limits of the file format: words and names without the characters that separate them and
  of at most 63 characters, numbers with at most six decimals, no linear normalization, no
  substituted normalized scores, no grade above the declared maximum, and assignments with
  different names.
\<close>

definition course_ok :: "Course \<Rightarrow> section_doc list \<Rightarrow> bool" where
  "course_ok c ds \<longleftrightarrow> word (co_number c) \<and> name_ok (co_title c) \<and> professor_ok (co_professor c)
     \<and> list_all assignment_ok (co_assignments c) \<and> distinct (map as_name (co_assignments c))
     \<and> list_all (section_ok (co_assignments c)) ds"

definition canon_section :: "section_doc \<Rightarrow> section_doc" where
  "canon_section d = (case d of (n, ta, sts) \<Rightarrow> (n, ta, map canon_student sts))"

lemma canon_section_eq: "canon_section (n, ta, sts) = (n, ta, map canon_student sts)"
  by (simp add: canon_section_def)

definition course_text :: "Course \<Rightarrow> section_doc list \<Rightarrow> char list" where
  "course_text c ds = ''COURSE '' @ co_number c @ '' '' @ co_title c @ [newline] @ writeprofessor (co_professor c)
     @ concat (map writeassignment (co_assignments c)) @ concat (map (section_text (co_assignments c)) ds)"

lemma writecourse_text:
  assumes "holds h c ds"
  shows "writecourse h c = Some (course_text c ds)"
proof -
  have "writesections as h secs = Some (concat (map (section_text as) ds))"
    if "list_all2 (\<lambda>sec d. case d of (n, ta, sts) \<Rightarrow> se_name sec = n \<and> se_assistant sec = ta \<and> students h (se_roster sec) sts) secs ds"
    for as secs
    using that
  proof (induction secs ds rule: list_all2_induct)
    case (Cons sec secs d ds)
    then show ?case using writestudents_text [of h "se_roster sec" _ as]
      by (cases d) (simp add: writesection_def section_text_eq)
  qed simp
  then show ?thesis using assms by (simp add: writecourse_def holds_def course_text_def)
qed

lemma sections_in_holds:
  "sections_in h lo hi k secs ds \<Longrightarrow>
   \<exists>ds'. list_all2 (\<lambda>sec d. case d of (n, ta, sts) \<Rightarrow> se_name sec = n \<and> se_assistant sec = ta \<and> students h (se_roster sec) sts) secs ds'
     \<and> map canon_section ds' = map canon_section ds"
proof (induction h lo hi k secs ds rule: sections_in.induct)
  case (3 h lo hi k sec secs n ta sts ds)
  obtain sts' m where m: "chain_in h lo m (se_roster sec) sts'" "map canon_student sts' = map canon_student sts"
    "sections_in h m hi (k + 1) secs ds" using 3(2) by auto
  from chain_in_students [OF m(1)] m(2) 3(1) [OF m(3)] obtain ds' where s: "students h (se_roster sec) sts'"
    "map canon_student sts' = map canon_student sts"
    "list_all2 (\<lambda>sec d. case d of (n, ta, sts) \<Rightarrow> se_name sec = n \<and> se_assistant sec = ta \<and> students h (se_roster sec) sts) secs ds'"
    "map canon_section ds' = map canon_section ds"
    by blast
  then show ?case using 3(2) by (intro exI [of _ "(n, ta, sts') # ds'"]) (simp add: canon_section_eq)
qed auto

lemma readcourse_pos:
  assumes "pos s0 None (course_text c ds) s" "course_ok c ds" "rd_prev s0 = []"
  shows "oruns (readcourse fs s) (\<lambda>c' s'. co_number c' = co_number c \<and> co_title c' = co_title c
    \<and> co_professor c' = co_professor c \<and> co_assignments c' = map canon_assignment (co_assignments c)
    \<and> sections_read s0 ds 0 (co_sections c') s')"
proof -
  let ?as = "co_assignments c"
  let ?S = "concat (map (section_text ?as) ds)"
  let ?A = "concat (map writeassignment ?as) @ ?S"
  let ?P = "writeprofessor (co_professor c) @ ?A"
  have ok: "word (co_number c)" "name_ok (co_title c)" "professor_ok (co_professor c)" "list_all assignment_ok ?as"
    "distinct (map as_name ?as)" "list_all (section_ok ?as) ds" using assms(2) by (simp_all add: course_ok_def)
  have l: "leads {''SECTION'', ''ASSIGNMENT''} ?A" by (rule leads_assignments [OF ok(4) leads_sections])
  have 1: "runs (expecttoken ''COURSE'' s) (\<lambda>_. pos s0 None ('' '' @ co_number c @ '' '' @ co_title c @ newline # ?P))"
    using expecttoken_pos [of s0 "''COURSE''" "'' '' @ co_number c @ '' '' @ co_title c @ newline # ?P" s] assms(1)
    by (simp add: course_text_def keyword_words)
  have 2: "runs (readid s) (\<lambda>n s'. n = co_number c \<and> pos s0 None ('' '' @ co_title c @ newline # ?P) s')"
    if "pos s0 None ('' '' @ co_number c @ '' '' @ co_title c @ newline # ?P) s" for s
    using read_words(1) [OF that] ok(1) by simp
  have 3: "runs (readname s) (\<lambda>n s'. n = co_title c \<and> pos s0 None ?P s')"
    if "pos s0 None ('' '' @ co_title c @ newline # ?P) s" for s
    using readname_pos [OF that _ ok(2) plain_professor [OF leads_plain [OF l]]] by simp
  show ?thesis
    unfolding readcourse_def
    by (rule oruns_obnd [OF 1], rule oruns_obnd, erule 2, elim conjE, rule oruns_obnd, erule 3, elim conjE,
        rule oruns_obnd, rule readprofessor_pos [OF pos_ahead ok(3) l], assumption, elim conjE,
        rule oruns_obnd, erule readassignments_pos [OF _ ok(4) leads_sections], elim conjE, simp only:,
        rule oruns_bind, erule readsections_pos [OF _ ok(6) assms(3) ok(4,5)]) simp
qed

lemma ahead_end: "ahead s0 [] s \<longleftrightarrow> pos s0 None [] s"
  by (auto simp: ahead_def word_def)

lemma readfile_sections:
  assumes "fs f = Some (course_text c ds)" "course_ok c ds"
  shows "oruns (readfile fs f) (\<lambda>c' s. rd_messages s = [] \<and> co_number c' = co_number c \<and> co_title c' = co_title c
    \<and> co_professor c' = co_professor c \<and> co_assignments c' = map canon_assignment (co_assignments c)
    \<and> (\<exists>N. sections_in (rd_heap s) 0 N 0 (co_sections c') ds))"
proof -
  define s0 where "s0 = \<lparr>rd_ifile = \<lparr>if_name = Some f, if_line = 1, if_rest = course_text c ds\<rparr>, rd_prev = [],
    rd_token = None, rd_messages = [], rd_heap = (\<lambda>_. blank_student), rd_new = 0\<rparr>"
  have p: "pos s0 None (course_text c ds) s0" by (simp add: pos_def s0_def)
  have pl: "plain (course_text c ds)" by (simp add: plain_def course_text_def newline_def EOF_def)
  have 1: "runs (gobbleblanklines s0) (\<lambda>_ s. s = s0)"
    using blank_loop_plain [of s0] pl by (simp add: gobbleblanklines_def istoken_def s0_def)
  have 2: "rd_messages (expecteof s) = [] \<and> rd_heap (expecteof s) = H"
    if "ahead (s0\<lparr>rd_new := N, rd_heap := H\<rparr>) [] s" for H N s
    using that by (simp add: ahead_end expecteof_def pos_def istoken_def s0_def set_rest_def)
  have 3: "runs (gobbleblanklines s) (\<lambda>_ s'. s' = s)" if "sections_read s0 ds 0 secs s" for secs s
    using blank_loop_plain [of s] that
    by (auto simp: gobbleblanklines_def istoken_def sections_read_def ahead_end pos_def plain_def)
  have 4: "rd_messages (expecteof s) = [] \<and>
      (\<exists>N. sections_in (rd_heap (expecteof s)) 0 N 0 (co_sections c') ds)"
    if sr: "sections_read s0 ds 0 (co_sections c') s" for c' s
  proof -
    obtain H N where H: "ahead (s0\<lparr>rd_new := N, rd_heap := H\<rparr>) [] s"
      "sections_in H (rd_new s0) N 0 (co_sections c') ds"
      using sr unfolding sections_read_def by (elim exE conjE)
    show ?thesis using 2 [OF H(1)] H(2) by (auto simp: s0_def)
  qed
  show ?thesis
    unfolding readfile_def assms(1) option.case Let_def s0_def [symmetric]
    by (rule oruns_obnd [OF 1], simp only:, rule oruns_bind, rule readcourse_pos [OF p assms(2)], simp add: s0_def,
        elim conjE, rule oruns_obnd, erule 3, simp only: oruns_Some 4 simp_thms)
qed

lemma readfile_pos:
  assumes "fs f = Some (course_text c ds)" "course_ok c ds"
  shows "oruns (readfile fs f) (\<lambda>c' s. rd_messages s = [] \<and> co_number c' = co_number c \<and> co_title c' = co_title c
    \<and> co_professor c' = co_professor c \<and> co_assignments c' = map canon_assignment (co_assignments c)
    \<and> (\<exists>ds'. holds (rd_heap s) c' ds' \<and> map canon_section ds' = map canon_section ds))"
  using readfile_sections [where fs = fs and f = f, OF assms] unfolding oruns_def holds_def by (blast dest: sections_in_holds)

text \<open>
  C7. A course that is written by \<open>writefile\<close> is read back by \<open>readfile\<close>, without an error message:
  the number, the title, the professor, the assignments and the students of every section with
  their scores are those that were written, for a course within the limits of the file format
  and rosters that are chains of cells. The fields that a file does not keep (statistics, the
  mean and deviation of an assignment, normalized scores) are at their initial values.
\<close>

theorem write_read_roundtrip:
  assumes "holds h c ds" "course_ok c ds" "opens f"
  shows "\<exists>fs' c' s ds'. writefile opens f h c fs = Some fs' \<and> readfile fs' f = Some (Inr (c', s))
    \<and> rd_messages s = [] \<and> co_number c' = co_number c \<and> co_title c' = co_title c
    \<and> co_professor c' = co_professor c \<and> co_assignments c' = map canon_assignment (co_assignments c)
    \<and> holds (rd_heap s) c' ds' \<and> map canon_section ds' = map canon_section ds"
proof -
  have w: "writefile opens f h c fs = Some (fs(f \<mapsto> course_text c ds))"
    using assms(3) by (simp add: writefile_def writecourse_text [OF assms(1)])
  have "oruns (readfile (fs(f \<mapsto> course_text c ds)) f) (\<lambda>c' s. rd_messages s = [] \<and> co_number c' = co_number c \<and> co_title c' = co_title c
    \<and> co_professor c' = co_professor c \<and> co_assignments c' = map canon_assignment (co_assignments c)
    \<and> (\<exists>ds'. holds (rd_heap s) c' ds' \<and> map canon_section ds' = map canon_section ds))"
    by (rule readfile_pos [OF _ assms(2)]) simp
  then show ?thesis unfolding w oruns_def by blast
qed

section \<open>What is not read back\<close>

text \<open>A line that is not at its end is skipped with a message.\<close>

lemma skip_comment_line:
  "list_all (\<lambda>c. c \<noteq> newline \<and> c \<noteq> EOF) t \<Longrightarrow> skip_comment (t @ newline # r) = Some r"
  by (induction t) auto

lemma expectnewline_skips:
  assumes "ahead s0 (ws @ w @ t @ newline # r) s" "white ws" "word w" "line_end (t @ [newline])"
    "list_all (\<lambda>c. c \<noteq> newline \<and> c \<noteq> EOF) t"
  shows "runs (expectnewline s) (\<lambda>_ s'. \<exists>f l.
    pos (s0\<lparr>rd_messages := rd_messages s0 @ [Error f l ''Expected newline, scanning ahead.'']\<rparr>) None r s')"
proof -
  have le: "line_end (t @ newline # r)" using assms(4) by (cases t) (auto simp: line_end_def)
  obtain c cs where w: "w = c # cs" "c \<noteq> newline" using word_hd [OF assms(3)] by (cases w) auto
  have wc: "list_all (\<lambda>c. c \<noteq> newline \<and> c \<noteq> EOF) w" using assms(3) by (auto simp: word_def word_char_def list_all_iff)
  have sk: "skip_comment (cs @ t @ newline # r) = Some r" "skip_comment (t @ newline # r) = Some r"
    using skip_comment_line [of "cs @ t" r] skip_comment_line [OF assms(5)] wc assms(5) w by simp_all
  from assms(1) show ?thesis unfolding ahead_def
  proof (elim disjE exE conjE)
    assume p: "pos s0 None (ws @ w @ t @ newline # r) s"
    have "skip_white (ws @ w @ t @ newline # r) = w @ t @ newline # r"
      using assms(2) word_hd [OF assms(3)] by (intro skip_white_append) auto
    then show ?thesis
      using p w sk word_hd [OF assms(3)]
      by (auto simp: expectnewline_def gobblewhitespace_def nextchar_def istoken_def pos_def set_rest_def flushtoken_def
          error_def next_line_def)
  next
    fix ws' w' r'
    assume h: "ws @ w @ t @ newline # r = ws' @ w' @ r'" "white ws'" "word w'" "line_end r'" "pos s0 (Some w') r' s"
    have "w' = w" "r' = t @ newline # r"
      using split_word [OF assms(2,3) le] split_word [OF h(2-4)] h(1) by simp_all
    then show ?thesis
      using h(5) w sk
      by (auto simp: expectnewline_def gobblewhitespace_def nextchar_def istoken_def pos_def set_rest_def flushtoken_def
          error_def next_line_def)
  qed
qed

lemma readnorm_linear:
  assumes "ahead s0 ('' '' @ ''LINEAR'' @ r) s" "line_end r"
  shows "runs (readnorm a s) (\<lambda>b s'. b = a\<lparr>as_npolicy := RAW, as_ngroup := BYCLASS\<rparr> \<and> (\<exists>f l.
    ahead (s0\<lparr>rd_messages := rd_messages s0 @ [Error f l ''Expected normalization information.'']\<rparr>) ('' '' @ ''LINEAR'' @ r) s'))"
proof -
  have st: "runs (norm_step a s) (\<lambda>x s'. x = None \<and> ahead s0 ('' '' @ ''LINEAR'' @ r) s')"
    using norm_step_word(4) [OF assms(1) _ _ assms(2)] by (simp add: keyword_words)
  have l: "runs (norm_loop 0 a s) (\<lambda>x s'. x = (0, a) \<and> ahead s0 ('' '' @ ''LINEAR'' @ r) s')"
    using st by (subst norm_loop.simps) (auto simp: runs_def)
  have e: "\<exists>f l. ahead (s0\<lparr>rd_messages := rd_messages s0 @ [Error f l m]\<rparr>) x (error m s)" if "ahead s0 x s" for m x s
  proof (intro exI)
    show "ahead (s0\<lparr>rd_messages := rd_messages s0 @ [Error (if_name (rd_ifile s)) (if_line (rd_ifile s)) m]\<rparr>) x (error m s)"
      using that by (auto simp: ahead_def pos_def error_def)
  qed
  show ?thesis unfolding readnorm_def by (rule runs_bnd [OF l]) (auto dest: e)
qed

definition linear_line :: "Assignment \<Rightarrow> char list" where
  "linear_line a = '': '' @ show_float (as_mean a) @ '', '' @ show_float (as_stddev a) @ '' '' @ group_word (as_ngroup a)"

lemma linear_line_ok: "list_all (\<lambda>c. c \<noteq> newline \<and> c \<noteq> EOF) (linear_line a)" "line_end (linear_line a @ r)"
proof -
  have "list_all (\<lambda>c. c \<noteq> newline \<and> c \<noteq> EOF) (show_nat k)" "list_all (\<lambda>c. c \<noteq> newline \<and> c \<noteq> EOF) (last_digits i k)" for i k
    using show_nat_digits [of k] last_digits_digits [of i k] digit_word_char by (auto simp: list_all_iff word_char_def)
  then show "list_all (\<lambda>c. c \<noteq> newline \<and> c \<noteq> EOF) (linear_line a)"
    by (simp add: linear_line_def show_float_def group_word_def newline_def EOF_def)
qed (simp add: linear_line_def line_end_def iswhitespace_def)

lemma option_linear:
  assumes "ahead s0 (''  NORMALIZE LINEAR'' @ linear_line a @ newline # r) s"
  shows "runs (option_step b s) (\<lambda>o' s'. o' = Some (b\<lparr>as_npolicy := RAW, as_ngroup := BYCLASS\<rparr>) \<and> (\<exists>f l f' l'.
    pos (s0\<lparr>rd_messages := rd_messages s0 @ [Error f l ''Expected normalization information.'',
      Error f' l' ''Expected newline, scanning ahead.'']\<rparr>) None r s'))"
proof -
  let ?q = "'' '' @ ''LINEAR'' @ linear_line a @ newline # r"
  have h: "ahead s0 (''  '' @ ''NORMALIZE'' @ ?q) s" using assms by simp
  have n: "runs (readnorm b s) (\<lambda>b' s'. b' = b\<lparr>as_npolicy := RAW, as_ngroup := BYCLASS\<rparr> \<and> (\<exists>f l.
      ahead (s0\<lparr>rd_messages := rd_messages s0 @ [Error f l ''Expected normalization information.'']\<rparr>) ?q s'))"
    if "pos s0 None ?q s" for s
    by (rule readnorm_linear [OF pos_ahead [OF that] linear_line_ok(2)])
  have e: "runs (expectnewline s) (\<lambda>_ s'. \<exists>f l f' l'. pos (s0\<lparr>rd_messages := rd_messages s0 @ [Error f l m,
      Error f' l' ''Expected newline, scanning ahead.'']\<rparr>) None r s')"
    if q: "\<exists>f l. ahead (s0\<lparr>rd_messages := rd_messages s0 @ [Error f l m]\<rparr>) ?q s" for s m
  proof -
    obtain f l where a: "ahead (s0\<lparr>rd_messages := rd_messages s0 @ [Error f l m]\<rparr>) ?q s" using q by blast
    show ?thesis
      using expectnewline_skips [OF a _ _ linear_line_ok(2) linear_line_ok(1)]
      by (simp add: keyword_words) (erule runs_weaken, blast)
  qed
  have w: "white ''  ''" "line_end ?q" by simp_all
  show ?thesis
    unfolding option_step_def
    by (rule keyword_else(1) [OF h w(1) keyword_words(9) w(2)], (simp; fail),
        rule keyword_here(1) [OF _ w(1) keyword_words(9) w(2)], assumption, rule refl,
        rule runs_bnd, erule n, elim conjE, rule runs_bnd, erule e) simp
qed


text \<open>
  A linear normalization policy does not survive a file: \<open>writeassignment\<close> writes it as
  \<open>LINEAR:\<close>, which \<open>readnorm\<close> does not know (it expects \<open>STDLINEAR\<close> or \<open>GENLINEAR\<close>), so that reading
  the assignment back gives the policy \<open>RAW\<close> by class and two error messages; the weight and the
  maximum score are read back.
\<close>

theorem linear_policy_lost:
  assumes "as_npolicy a = LINEAR" "assignment_ok (a\<lparr>as_npolicy := RAW\<rparr>)" "rd_token s = None" "rd_rest s = writeassignment a"
  shows "\<exists>s' f l f' l'. readassignments s = Inr ([canon_assignment (a\<lparr>as_npolicy := RAW\<rparr>)], s')
    \<and> rd_messages s' = rd_messages s @ [Error f l ''Expected normalization information.'',
        Error f' l' ''Expected newline, scanning ahead.'']"
proof -
  let ?M = "\<lambda>f l f' l'. s\<lparr>rd_messages := rd_messages s @ [Error f l ''Expected normalization information.'',
        Error f' l' ''Expected newline, scanning ahead.'']\<rparr>"
  let ?b = "a\<lparr>as_npolicy := RAW\<rparr>" and ?n = "''  NORMALIZE LINEAR'' @ linear_line a @ newline # max_line a"
  let ?q = "CHR '' '' # as_name a @ '' '' @ as_atype a @ newline # weight_line a @ ?n"
  have ok: "word (as_name a)" "word (as_atype a)" "as_wpolicy a = WEIGHT \<Longrightarrow> number_ok (as_weight a)" "number_ok (as_max a)"
    using assms(2) by (simp_all add: assignment_ok_def)
  have h: "ahead s ('' '' @ ''ASSIGNMENT'' @ ?q) s"
    using assms(1,3,4) by (auto simp: ahead_def pos_def writeassignment_def weight_line_def linear_line_def max_line_def group_word_def)
  have o1: "runs (options_loop b s') (\<lambda>b' s'. b' = b\<lparr>as_npolicy := RAW, as_ngroup := BYCLASS, as_max := as_max a\<rparr> \<and>
      (\<exists>f l f' l'. ahead (?M f l f' l') [] s'))" if "ahead s ?n s'" "as_max b = 0" for b s'
  proof (rule options_loop_step [OF option_linear [OF that(1)]], elim exE)
    fix s' f l f' l'
    assume "pos (?M f l f' l') None (max_line a) s'"
    then have "ahead (?M f l f' l') (max_line a @ []) s'" using pos_ahead by simp
    from options_max [OF this ok(4), of "b\<lparr>as_npolicy := RAW, as_ngroup := BYCLASS\<rparr>"] that(2)
    show "runs (options_loop (b\<lparr>as_npolicy := RAW, as_ngroup := BYCLASS\<rparr>) s') (\<lambda>b' s'. b' = b\<lparr>as_npolicy := RAW, as_ngroup := BYCLASS, as_max := as_max a\<rparr> \<and>
      (\<exists>f l f' l'. ahead (?M f l f' l') [] s'))"
      by (simp add: leads_def) (erule runs_weaken, auto)
  qed
  let ?R = "\<lambda>b s'. b = canon_assignment ?b \<and> (\<exists>f l f' l'. ahead (?M f l f' l') [] s')"
  have o2: "runs (options_loop (new_assignment (as_name a) (as_atype a)) s') ?R" if w: "ahead s (weight_line a @ ?n) s'" for s'
  proof (cases "as_wpolicy a = WEIGHT")
    case True
    then have "ahead s (''  WEIGHT '' @ show_float (as_weight a) @ newline # ?n) s'" using w by (simp add: weight_line_def)
    from options_loop_step [OF option_weight [OF this ok(3) [OF True]] o1, of "new_assignment (as_name a) (as_atype a)"] True
    show ?thesis by (simp add: canon_assignment_def new_assignment_def)
  next
    case False
    then show ?thesis using o1 [of s' "new_assignment (as_name a) (as_atype a)"] w
      by (cases "as_wpolicy a") (simp_all add: weight_line_def canon_assignment_def new_assignment_def)
  qed
  have "plain (weight_line a @ ?n)" by (rule plain_lines) simp
  then have ra: "runs (readassignment s') ?R" if "pos s None ?q s'" for s'
    by (rule readassignment_head [OF that ok(1,2) _ o2])
  have e: "runs (readassignments s') (\<lambda>bs s'. bs = [] \<and> ahead s0 [] s')" if "ahead s0 [] s'" for s0 s'
    using that by (subst readassignments.simps) (rule no_keyword(2) [of _ "[]" _ "{}"], simp_all add: leads_def)
  have w: "white '' ''" "line_end ?q" by simp_all
  have "runs (readassignments s) (\<lambda>bs s'. bs = [canon_assignment ?b] \<and> (\<exists>f l f' l'. ahead (?M f l f' l') [] s'))"
    by (subst readassignments.simps, rule keyword_here(2) [OF h w(1) keyword_words(4) w(2) refl], rule runs_bnd, erule ra,
        elim conjE exE, rule runs_bnd, erule e) auto
  then show ?thesis by (auto simp: runs_def ahead_end pos_def)
qed


lemma advanceeol_overflow:
  assumes "pos s0 None (ws @ n @ newline # r) s" "white ws" "64 \<le> length n" "\<not> iswhitespace (hd n)"
    "list_all (\<lambda>c. c \<noteq> newline \<and> c \<noteq> EOF \<and> c \<noteq> CHR 0x00) n"
  shows "advanceeol s = Inl Overflow"
proof -
  have "hd n \<in> set n" using assms(3) by (cases n) auto
  then have "skip_white (ws @ n @ newline # r) = n @ newline # r"
    using assms(2-5) by (intro skip_white_append) (cases n; auto simp: list_all_iff)+
  then show ?thesis
    using assms(1,3) take_line_append [OF assms(5), of r]
    by (auto simp: advanceeol_def discard_def gobblewhitespace_def istoken_def pos_def flushtoken_def set_rest_def)
qed

lemma obnd_runs: "runs m P \<Longrightarrow> (\<And>x s. P x s \<Longrightarrow> f x s = y) \<Longrightarrow> obnd m f = y"
  by (auto simp: runs_def)

text \<open>
  The token buffer has 64 bytes and does not grow: a course whose title has 64 characters
  or more is written, and reading the file overflows the buffer.
\<close>

theorem long_title_overflows:
  assumes "holds h c ds" "opens f" "word (co_number c)" "64 \<le> length (co_title c)" "\<not> iswhitespace (hd (co_title c))"
    "list_all (\<lambda>c. c \<noteq> newline \<and> c \<noteq> EOF \<and> c \<noteq> CHR 0x00) (co_title c)"
  shows "\<exists>fs'. writefile opens f h c fs = Some fs' \<and> readfile fs' f = Some (Inl Overflow)"
proof -
  let ?t = "course_text c ds"
  define s0 where "s0 = \<lparr>rd_ifile = \<lparr>if_name = Some f, if_line = 1, if_rest = ?t\<rparr>, rd_prev = [],
    rd_token = None, rd_messages = [], rd_heap = (\<lambda>_. blank_student), rd_new = 0\<rparr>"
  define r where "r = writeprofessor (co_professor c) @ concat (map writeassignment (co_assignments c))
    @ concat (map (section_text (co_assignments c)) ds)"
  have t: "?t = ''COURSE'' @ '' '' @ co_number c @ '' '' @ co_title c @ newline # r" by (simp add: course_text_def r_def)
  have p: "pos s0 None ?t s0" by (simp add: pos_def s0_def)
  have "plain ?t" by (simp add: plain_def course_text_def newline_def EOF_def)
  then have 1: "runs (gobbleblanklines s0) (\<lambda>_ s. s = s0)"
    using blank_loop_plain [of s0] by (simp add: gobbleblanklines_def istoken_def s0_def)
  have 2: "runs (expecttoken ''COURSE'' s0) (\<lambda>_. pos s0 None ('' '' @ co_number c @ '' '' @ co_title c @ newline # r))"
    using expecttoken_pos [of s0 "''COURSE''" _ s0] p unfolding t by (simp add: keyword_words)
  have 3: "runs (readid s) (\<lambda>_. pos s0 None ('' '' @ co_title c @ newline # r))"
    if "pos s0 None ('' '' @ co_number c @ '' '' @ co_title c @ newline # r) s" for s
    using read_words(1) [OF that] assms(3) by (auto simp: runs_def)
  have 4: "readname s = Inl Overflow" if "pos s0 None ('' '' @ co_title c @ newline # r) s" for s
    using advanceeol_overflow [OF that _ assms(4-6)] by (simp add: readname_def)
  have rc: "readcourse fs s0 = Some (Inl Overflow)" for fs
    unfolding readcourse_def by (rule obnd_runs [OF 2], rule obnd_runs, erule 3) (simp add: 4)
  have "readfile (fs(f \<mapsto> ?t)) f = Some (Inl Overflow)"
    unfolding readfile_def fun_upd_same option.case Let_def s0_def [symmetric]
    by (rule obnd_runs [OF 1]) (simp add: rc)
  then show ?thesis using assms(2) by (simp add: writefile_def writecourse_text [OF assms(1)])
qed

definition sample_assignment :: Assignment where
  "sample_assignment = \<lparr>as_name = ''hw1'', as_atype = ''HW'', as_wpolicy = WEIGHT, as_weight = 5, as_npolicy = QUANTILE,
     as_max = 10, as_mean = 3, as_stddev = 1, as_scale = 0, as_ngroup = BYSECTION\<rparr>"

definition sample_students :: "Student list" where
  "sample_students =
    [(new_student ''1'' ''Doe'' ''Jane'' [(fresh_score 0)\<lparr>sc_flag := VALID, sc_grade := 9\<rparr>] 0)\<lparr>st_next := Some 7\<rparr>,
     new_student ''2'' ''Roe'' ''Rick R.'' [(fresh_score 0)\<lparr>sc_flag := INVALID, sc_subst := USECLASSAVG, sc_code := ''ill''\<rparr>] 0]"

definition sample_heap :: heap where
  "sample_heap = (\<lambda>_. blank_student)(4 := sample_students ! 0, 7 := sample_students ! 1)"

definition sample_course :: Course where
  "sample_course = \<lparr>co_number = ''CSE320'', co_title = ''Systems Programming'', co_professor = Some \<lparr>pr_surname = ''Poe'', pr_name = ''P''\<rparr>,
     co_assignments = [sample_assignment], co_sections = [\<lparr>se_name = ''R01'', se_assistant = None, se_roster = Some 4\<rparr>], co_roster = None\<rparr>"

lemma sample_numbers: "number_ok 5" "number_ok 10" "number_ok 9" "number_ok 3" "number_ok 1"
  by (simp_all add: number_ok_def show_float_def millionths_def show_nat.simps)

lemma sample_holds: "holds sample_heap sample_course [(''R01'', None, sample_students)]"
  by (simp add: holds_def sample_course_def sample_heap_def sample_students_def new_student_def)

lemma sample_ok: "course_ok sample_course [(''R01'', None, sample_students)]"
  by (simp add: course_ok_def sample_course_def sample_assignment_def sample_students_def assignment_ok_def section_ok_def
      assistant_ok_def professor_ok_def student_ok_def score_ok_def grade_ok_def new_student_def fresh_score_def sample_numbers
      word_def word_char_def name_ok_def iswhitespace_def newline_def EOF_def)

theorem write_read_roundtrip_witness:
  "\<exists>fs' c' s ds'. writefile (\<lambda>_. True) ''out.dat'' sample_heap sample_course (\<lambda>_. None) = Some fs'
    \<and> readfile fs' ''out.dat'' = Some (Inr (c', s)) \<and> rd_messages s = [] \<and> co_title c' = ''Systems Programming''
    \<and> co_assignments c' = [canon_assignment sample_assignment]
    \<and> holds (rd_heap s) c' ds' \<and> map canon_section ds' = [canon_section (''R01'', None, sample_students)]"
  using write_read_roundtrip [OF sample_holds sample_ok, of "\<lambda>_. True" "''out.dat''" "\<lambda>_. None"]
  by (simp add: sample_course_def) metis

theorem linear_policy_lost_witness:
  "\<exists>s' f l f' l'. readassignments \<lparr>rd_ifile = \<lparr>if_name = None, if_line = 1, if_rest = writeassignment (sample_assignment\<lparr>as_npolicy := LINEAR\<rparr>)\<rparr>,
        rd_prev = [], rd_token = None, rd_messages = [], rd_heap = sample_heap, rd_new = 8\<rparr>
      = Inr ([canon_assignment (sample_assignment\<lparr>as_npolicy := RAW\<rparr>)], s')
    \<and> rd_messages s' = [Error f l ''Expected normalization information.'', Error f' l' ''Expected newline, scanning ahead.'']"
proof -
  have "assignment_ok (sample_assignment\<lparr>as_npolicy := RAW\<rparr>)"
    by (simp add: assignment_ok_def sample_assignment_def sample_numbers word_def word_char_def iswhitespace_def newline_def EOF_def)
  then show ?thesis
    using linear_policy_lost [of "sample_assignment\<lparr>as_npolicy := LINEAR\<rparr>"
      "\<lparr>rd_ifile = \<lparr>if_name = None, if_line = 1, if_rest = writeassignment (sample_assignment\<lparr>as_npolicy := LINEAR\<rparr>)\<rparr>,
        rd_prev = [], rd_token = None, rd_messages = [], rd_heap = sample_heap, rd_new = 8\<rparr>"]
    by simp
qed

theorem long_title_overflows_witness:
  "\<exists>fs'. writefile (\<lambda>_. True) ''out.dat'' sample_heap (sample_course\<lparr>co_title := replicate 64 CHR ''x''\<rparr>) (\<lambda>_. None) = Some fs'
    \<and> readfile fs' ''out.dat'' = Some (Inl Overflow)"
proof -
  have "holds sample_heap (sample_course\<lparr>co_title := replicate 64 CHR ''x''\<rparr>) [(''R01'', None, sample_students)]"
    using sample_holds by (simp add: holds_def)
  then show ?thesis
    by (rule long_title_overflows)
      (simp_all add: sample_course_def word_def word_char_def iswhitespace_def newline_def EOF_def list_all_iff)
qed

end
