(* ===== verification/Xacto_Trans.thy ===== *)
theory Xacto_Trans
  imports C_Prelude
begin

text \<open>
  The transaction manager of the xacto server (\<open>xacto/src/transaction.c\<close>). Transactions live at
  addresses; \<open>trans_list\<close> is the circular list of all transactions as the list of the addresses
  between the sentinel's two ends, so that it holds exactly the allocated transactions. Each transaction is
  driven by the thread that serves its client. A thread is a program counter; one step is one access to
  shared state, or one critical section where a mutex that all accesses of the field use protects it, so that every
  interleaving of these accesses is an execution: the unlocked increment of \<open>unique_id\<close>, the increment of a
  wait count under the mutex of another transaction, and the unlocked test of a reference count
  are two steps each, and the cell of a dependency is visible before its reference is taken.

  Not covered are the races of the unlocked pointer updates of the circular list, which is for debugging only: linking and
  unlinking is one step. Freed memory is not reused, and its contents can still be read; that a thread
  only uses allocated transactions is not a statement of this theory. Fewer than \<open>2 ^ 31\<close> threads wait for a transaction.
\<close>

section \<open>Transactions\<close>

datatype TRANS_STATUS = TRANS_PENDING | TRANS_COMMITTED | TRANS_ABORTED

type_synonym taddr = nat

record TRANSACTION =
  tr_id :: u32
  tr_refcnt :: u32
  tr_status :: TRANS_STATUS
  tr_depends :: "taddr list"
  tr_waitcnt :: nat
  tr_sem :: nat

text \<open>Where the thread of a transaction stands. \<open>NewId\<close>, \<open>GotId\<close> and \<open>Link\<close> are in \<open>trans_create\<close>, \<open>Depending\<close>
  is in \<open>trans_add_dependency\<close>; \<open>Check\<close>, \<open>Inc\<close>, \<open>Put\<close> and \<open>Wait\<close> are the first loop
  of \<open>trans_commit\<close>, \<open>Scan\<close> is its second loop; the numbers count down the posts.\<close>

datatype pc =
    Running
  | NewId | GotId u32 | Link | Depending taddr
  | Check "taddr list" | Inc taddr "taddr list" | Put taddr nat "taddr list" | Wait taddr "taddr list" | Scan "taddr list"
  | CRead | CPost nat | CSet | CUnref | CFree
  | AStart | ARead | APost nat | AUnref | AFree
  | Finished TRANS_STATUS | Crashed

record manager =
  mem :: "taddr \<Rightarrow> TRANSACTION"
  trans_list :: "taddr list"
  unique_id :: u32
  fresh :: taddr
  pcs :: "taddr \<Rightarrow> pc"

abbreviation upd :: "taddr \<Rightarrow> (TRANSACTION \<Rightarrow> TRANSACTION) \<Rightarrow> manager \<Rightarrow> manager" where
  "upd t f s \<equiv> s\<lparr>mem := (mem s)(t := f (mem s t))\<rparr>"

abbreviation goto :: "taddr \<Rightarrow> pc \<Rightarrow> manager \<Rightarrow> manager" where
  "goto t p s \<equiv> s\<lparr>pcs := (pcs s)(t := p)\<rparr>"

section \<open>Operations\<close>

definition trans_init :: manager where
  "trans_init = \<lparr>mem = (\<lambda>_. \<lparr>tr_id = 0, tr_refcnt = 0, tr_status = TRANS_PENDING, tr_depends = [],
     tr_waitcnt = 0, tr_sem = 0\<rparr>), trans_list = [], unique_id = 0, fresh = 0, pcs = (\<lambda>_. Running)\<rparr>"

definition trans_ref :: "taddr \<Rightarrow> manager \<Rightarrow> manager" where
  "trans_ref tp s = upd tp (\<lambda>t. t\<lparr>tr_refcnt := tr_refcnt t + 1\<rparr>) s"

text \<open>\<open>trans_create\<close>: the zeroed memory, the id that is read and later written back, and the rest.\<close>

definition trans_alloc :: "manager \<Rightarrow> manager" where
  "trans_alloc s = s\<lparr>mem := (mem s)(fresh s := \<lparr>tr_id = 0, tr_refcnt = 0, tr_status = TRANS_PENDING, tr_depends = [],
     tr_waitcnt = 0, tr_sem = 0\<rparr>), fresh := fresh s + 1\<rparr>"

definition trans_set_id :: "taddr \<Rightarrow> u32 \<Rightarrow> manager \<Rightarrow> manager" where
  "trans_set_id tp i s = (upd tp (\<lambda>t. t\<lparr>tr_id := i\<rparr>) s)\<lparr>unique_id := i + 1\<rparr>"

definition trans_link :: "taddr \<Rightarrow> manager \<Rightarrow> manager" where
  "trans_link tp s = (let s = trans_ref tp s in s\<lparr>trans_list := trans_list s @ [tp]\<rparr>)"

definition trans_create :: "manager \<Rightarrow> manager" where
  "trans_create s = (let tp = fresh s; s = trans_alloc s in trans_link tp (trans_set_id tp (unique_id s) s))"

text \<open>The count is decremented with the mutex; after that it is tested, and a transaction whose count is 0 is unlinked and freed;
  its dependencies are freed as list cells, without giving back the references they stand for.\<close>

definition trans_release :: "taddr \<Rightarrow> manager \<Rightarrow> manager" where
  "trans_release tp s = upd tp (\<lambda>t. t\<lparr>tr_refcnt := tr_refcnt t - 1\<rparr>) s"

definition trans_free :: "taddr \<Rightarrow> manager \<Rightarrow> manager" where
  "trans_free tp s =
    (if tr_refcnt (mem s tp) = 0 then s\<lparr>trans_list := filter (\<lambda>t. t \<noteq> tp) (trans_list s)\<rparr> else s)"

definition trans_unref :: "taddr \<Rightarrow> manager \<Rightarrow> manager" where
  "trans_unref tp s = trans_free tp (trans_release tp s)"

text \<open>The search of \<open>trans_add_dependency\<close> looks at all elements but the last one.\<close>

definition already_dependent :: "manager \<Rightarrow> taddr list \<Rightarrow> taddr \<Rightarrow> bool" where
  "already_dependent s ds dtp \<longleftrightarrow> (\<exists>d \<in> set (butlast ds). tr_id (mem s d) = tr_id (mem s dtp))"

definition add_cell :: "taddr \<Rightarrow> taddr \<Rightarrow> manager \<Rightarrow> manager" where
  "add_cell tp dtp s = upd tp (\<lambda>t. t\<lparr>tr_depends := tr_depends t @ [dtp]\<rparr>) s"

definition trans_add_dependency :: "taddr \<Rightarrow> taddr \<Rightarrow> manager \<Rightarrow> manager" where
  "trans_add_dependency tp dtp s =
    (if already_dependent s (tr_depends (mem s tp)) dtp then s else trans_ref dtp (add_cell tp dtp s))"

definition trans_get_status :: "taddr \<Rightarrow> manager \<Rightarrow> TRANS_STATUS" where
  "trans_get_status tp s = tr_status (mem s tp)"

section \<open>Threads\<close>

text \<open>One step of the thread of \<open>tp\<close>; \<open>None\<close> when it is blocked or has nothing to do.\<close>

definition run :: "taddr \<Rightarrow> manager \<Rightarrow> manager option" where
  "run tp s =
    (case pcs s tp of
       Running \<Rightarrow> None
     | NewId \<Rightarrow> Some (goto tp (GotId (unique_id s)) s)
     | GotId i \<Rightarrow> Some (goto tp Link (trans_set_id tp i s))
     | Link \<Rightarrow> Some (goto tp Running (trans_link tp s))
     | Depending d \<Rightarrow> Some (goto tp Running (trans_ref d s))
     | Check [] \<Rightarrow> Some (goto tp (Scan (tr_depends (mem s tp))) s)
     | Check (d # ds) \<Rightarrow>
        (if tr_status (mem s d) = TRANS_PENDING then Some (goto tp (Inc d ds) s)
         else Some (goto tp (Check ds) s))
     | Inc d ds \<Rightarrow> Some (goto tp (Put d (tr_waitcnt (mem s d)) ds) s)
     | Put d n ds \<Rightarrow> Some (goto tp (Wait d ds) (upd d (\<lambda>t. t\<lparr>tr_waitcnt := n + 1\<rparr>) s))
     | Wait d ds \<Rightarrow>
        (if tr_sem (mem s d) > 0
         then Some (goto tp (Check ds) (upd d (\<lambda>t. t\<lparr>tr_sem := tr_sem t - 1\<rparr>) s)) else None)
     | Scan [] \<Rightarrow> Some (goto tp CRead s)
     | Scan (d # ds) \<Rightarrow>
        (if tr_status (mem s d) = TRANS_ABORTED then Some (goto tp AStart s)
         else Some (goto tp (Scan ds) s))
     | CRead \<Rightarrow> Some (goto tp (CPost (tr_waitcnt (mem s tp))) s)
     | CPost (Suc n) \<Rightarrow> Some (goto tp (CPost n) (upd tp (\<lambda>t. t\<lparr>tr_sem := tr_sem t + 1\<rparr>) s))
     | CPost 0 \<Rightarrow> Some (goto tp CSet s)
     | CSet \<Rightarrow> Some (goto tp CUnref (upd tp (\<lambda>t. t\<lparr>tr_status := TRANS_COMMITTED\<rparr>) s))
     | CUnref \<Rightarrow> Some (goto tp CFree (trans_release tp s))
     | CFree \<Rightarrow> Some (goto tp (Finished TRANS_COMMITTED) (trans_free tp s))
     | AStart \<Rightarrow>
        (case tr_status (mem s tp) of
           TRANS_PENDING \<Rightarrow> Some (goto tp ARead (upd tp (\<lambda>t. t\<lparr>tr_status := TRANS_ABORTED\<rparr>) s))
         | TRANS_COMMITTED \<Rightarrow> Some (goto tp Crashed (trans_unref tp s))
         | TRANS_ABORTED \<Rightarrow> Some (goto tp ARead s))
     | ARead \<Rightarrow> Some (goto tp (APost (tr_waitcnt (mem s tp))) s)
     | APost (Suc n) \<Rightarrow> Some (goto tp (APost n) (upd tp (\<lambda>t. t\<lparr>tr_sem := tr_sem t + 1\<rparr>) s))
     | APost 0 \<Rightarrow> Some (goto tp AUnref s)
     | AUnref \<Rightarrow> Some (goto tp AFree (trans_release tp s))
     | AFree \<Rightarrow> Some (goto tp (Finished TRANS_ABORTED) (trans_free tp s))
     | Finished _ \<Rightarrow> None
     | Crashed \<Rightarrow> None)"

definition trans_commit :: "taddr \<Rightarrow> manager \<Rightarrow> manager" where
  "trans_commit tp s = goto tp (Check (tr_depends (mem s tp))) s"

definition trans_abort :: "taddr \<Rightarrow> manager \<Rightarrow> manager" where
  "trans_abort tp s = goto tp AStart s"

text \<open>
  What the service threads do: create a transaction, add a dependency to their own
  transaction on one that is still allocated, call commit or abort once, and run.
\<close>

datatype action = Create | Depend taddr taddr | Commit taddr | Abort taddr | Run taddr

definition act :: "action \<Rightarrow> manager \<Rightarrow> manager option" where
  "act a s =
    (case a of
       Create \<Rightarrow> Some (goto (fresh s) NewId (trans_alloc s))
     | Depend tp dtp \<Rightarrow>
        (if tp \<in> set (trans_list s) \<and> pcs s tp = Running \<and> dtp \<in> set (trans_list s)
         then Some (if already_dependent s (tr_depends (mem s tp)) dtp then s
                    else goto tp (Depending dtp) (add_cell tp dtp s))
         else None)
     | Commit tp \<Rightarrow>
        (if tp \<in> set (trans_list s) \<and> pcs s tp = Running then Some (trans_commit tp s) else None)
     | Abort tp \<Rightarrow>
        (if tp \<in> set (trans_list s) \<and> pcs s tp = Running then Some (trans_abort tp s) else None)
     | Run tp \<Rightarrow> run tp s)"

fun acts :: "action list \<Rightarrow> manager \<Rightarrow> manager option" where
  "acts [] s = Some s"
| "acts (a # as) s = Option.bind (act a s) (acts as)"

inductive reachable :: "manager \<Rightarrow> bool" where
  start: "reachable trans_init"
| step: "reachable s \<Longrightarrow> act a s = Some s' \<Longrightarrow> reachable s'"

text \<open>The operations on the shared state, without their control.\<close>

lemmas trans_ops = trans_ref_def trans_alloc_def trans_set_id_def trans_link_def trans_release_def trans_free_def
  trans_unref_def add_cell_def Let_def

lemma reachable_acts: "reachable s \<Longrightarrow> acts as s = Some s' \<Longrightarrow> reachable s'"
  by (induction as arbitrary: s) (auto intro: reachable.step split: bind_splits)

section \<open>Dependencies are respected\<close>

text \<open>A thread that has passed the point where it posts its semaphore, and a thread that can
  only end in a commit.\<close>

fun resolved :: "pc \<Rightarrow> bool" where
  "resolved (CPost n) = True" | "resolved CSet = True" | "resolved CUnref = True" | "resolved CFree = True"
| "resolved ARead = True" | "resolved (APost n) = True" | "resolved AUnref = True" | "resolved AFree = True"
| "resolved (Finished st) = True" | "resolved _ = False"

fun decided :: "pc \<Rightarrow> bool" where
  "decided CRead = True" | "decided (CPost n) = True" | "decided CSet = True" | "decided CUnref = True" | "decided CFree = True"
| "decided (Finished TRANS_COMMITTED) = True" | "decided _ = False"

fun status_at :: "pc \<Rightarrow> TRANS_STATUS option" where
  "status_at CUnref = Some TRANS_COMMITTED" | "status_at CFree = Some TRANS_COMMITTED"
| "status_at ARead = Some TRANS_ABORTED" | "status_at (APost n) = Some TRANS_ABORTED"
| "status_at AUnref = Some TRANS_ABORTED" | "status_at AFree = Some TRANS_ABORTED"
| "status_at (Finished st) = (if st = TRANS_PENDING then None else Some st)"
| "status_at Crashed = None"
| "status_at _ = Some TRANS_PENDING"

text \<open>What the position of a thread tells about the transactions it depends on.\<close>

fun settled :: "pc \<Rightarrow> taddr list \<Rightarrow> (taddr \<Rightarrow> bool) \<Rightarrow> (taddr \<Rightarrow> bool) \<Rightarrow> bool" where
  "settled (Check ds) deps res dec \<longleftrightarrow> (\<exists>pre. deps = pre @ ds \<and> list_all res pre)"
| "settled (Inc d ds) deps res dec \<longleftrightarrow> (\<exists>pre. deps = pre @ d # ds \<and> list_all res pre)"
| "settled (Put d n ds) deps res dec \<longleftrightarrow> (\<exists>pre. deps = pre @ d # ds \<and> list_all res pre)"
| "settled (Wait d ds) deps res dec \<longleftrightarrow> (\<exists>pre. deps = pre @ d # ds \<and> list_all res pre)"
| "settled (Scan ds) deps res dec \<longleftrightarrow>
    list_all res deps \<and> (\<exists>pre. deps = pre @ ds \<and> list_all dec pre)"
| "settled p deps res dec \<longleftrightarrow> (decided p \<longrightarrow> list_all dec deps)"

definition res :: "manager \<Rightarrow> taddr \<Rightarrow> bool" where
  "res s t \<longleftrightarrow> resolved (pcs s t)"

definition dec :: "manager \<Rightarrow> taddr \<Rightarrow> bool" where
  "dec s t \<longleftrightarrow> decided (pcs s t)"

definition thread_ok :: "manager \<Rightarrow> taddr \<Rightarrow> bool" where
  "thread_ok s t \<longleftrightarrow> status_at (pcs s t) = Some (tr_status (mem s t))
    \<and> (0 < tr_sem (mem s t) \<longrightarrow> res s t)
    \<and> settled (pcs s t) (tr_depends (mem s t)) (res s) (dec s)
    \<and> (fresh s \<le> t \<longrightarrow> pcs s t = Running)"

lemma settled_mono:
  assumes "settled p deps r d" "\<And>t. r t \<Longrightarrow> r' t" "\<And>t. d t \<Longrightarrow> d' t"
  shows "settled p deps r' d'"
  using assms by (cases p) (auto simp: list_all_iff)

lemma thread_ok_other:
  assumes "thread_ok s t" "pcs s' t = pcs s t" "tr_status (mem s' t) = tr_status (mem s t)"
    "tr_sem (mem s' t) \<le> tr_sem (mem s t)" "tr_depends (mem s' t) = tr_depends (mem s t)"
    "fresh s \<le> fresh s'" "\<And>u. res s u \<Longrightarrow> res s' u" "\<And>u. dec s u \<Longrightarrow> dec s' u"
  shows "thread_ok s' t"
  using assms settled_mono [of "pcs s t" "tr_depends (mem s t)" "res s" "dec s" "res s'" "dec s'"]
  unfolding thread_ok_def by auto

lemma resolved_status: "status_at p = Some st \<Longrightarrow> st \<noteq> TRANS_PENDING \<Longrightarrow> resolved p"
  by (cases p rule: status_at.cases) auto

lemma resolved_decided: "status_at p = Some st \<Longrightarrow> st \<noteq> TRANS_ABORTED \<Longrightarrow> resolved p \<Longrightarrow> decided p"
  by (cases p rule: status_at.cases; cases st) (auto split: if_splits)

lemma run_moves:
  assumes "run tp s = Some s'" "status_at (pcs s tp) = Some (tr_status (mem s tp))"
  shows "\<And>u. res s u \<Longrightarrow> res s' u" and "\<And>u. dec s u \<Longrightarrow> dec s' u" and "fresh s' = fresh s"
    and "\<And>u. u \<noteq> tp \<Longrightarrow> pcs s' u = pcs s u" and "\<And>u. tr_depends (mem s' u) = tr_depends (mem s u)"
    and "\<And>u. u \<noteq> tp \<Longrightarrow> tr_status (mem s' u) = tr_status (mem s u)"
    and "\<And>u. u \<noteq> tp \<Longrightarrow> tr_sem (mem s' u) \<le> tr_sem (mem s u)"
  using assms
  by (auto simp: run_def res_def dec_def trans_ops
      split: pc.splits list.splits nat.splits if_splits TRANS_STATUS.splits)

lemma run_settles:
  assumes r: "run tp s = Some s'" and ok: "\<And>t. thread_ok s t"
  shows "settled (pcs s' tp) (tr_depends (mem s tp)) (res s) (dec s)"
proof -
  have st: "settled (pcs s tp) (tr_depends (mem s tp)) (res s) (dec s)" using ok by (simp add: thread_ok_def)
  have res: "tr_status (mem s d) \<noteq> TRANS_PENDING \<Longrightarrow> res s d" "0 < tr_sem (mem s d) \<Longrightarrow> res s d"
    "res s d \<Longrightarrow> tr_status (mem s d) \<noteq> TRANS_ABORTED \<Longrightarrow> dec s d" for d
    using ok [of d] resolved_status resolved_decided by (auto simp: thread_ok_def res_def dec_def)
  note defs = r run_def
  show ?thesis
  proof (cases "pcs s tp")
    case (Check ds)
    then obtain pre where pre: "tr_depends (mem s tp) = pre @ ds" "list_all (res s) pre" using st by auto
    show ?thesis
    proof (cases ds)
      case Nil
      then show ?thesis using pre r Check by (auto simp: run_def)
    next
      case (Cons d ds')
      then show ?thesis
        using pre r Check res(1) [of d] by (auto simp: run_def split: if_splits intro: exI [of _ "pre @ [d]"])
    qed
  next
    case (Inc d ds)
    then show ?thesis using st r by (auto simp: run_def)
  next
    case (Wait d ds)
    then obtain pre where "tr_depends (mem s tp) = pre @ d # ds" "list_all (res s) pre" using st by auto
    then show ?thesis
      using r Wait res(2) [of d] by (auto simp: run_def split: if_splits intro: exI [of _ "pre @ [d]"])
  next
    case (Scan ds)
    then obtain pre where pre: "tr_depends (mem s tp) = pre @ ds" "list_all (dec s) pre"
      "list_all (res s) (pre @ ds)" using st by auto
    show ?thesis
    proof (cases ds)
      case Nil
      then show ?thesis using pre r Scan by (auto simp: run_def)
    next
      case (Cons d ds')
      then show ?thesis
        using pre r Scan res(3) [of d] by (auto simp: run_def split: if_splits intro: exI [of _ "pre @ [d]"])
    qed
  qed (use st r ok [of tp] in \<open>auto simp: run_def thread_ok_def trans_ops
        split: nat.splits TRANS_STATUS.splits\<close>)
qed

lemma run_ok:
  assumes r: "run tp s = Some s'" and ok: "\<And>t. thread_ok s t"
  shows "thread_ok s' t"
proof -
  have sa: "status_at (pcs s tp) = Some (tr_status (mem s tp))" using ok by (simp add: thread_ok_def)
  note mv = run_moves [OF r sa]
  show ?thesis
  proof (cases "t = tp")
    case False
    then show ?thesis using thread_ok_other [OF ok] mv by simp
  next
    case True
    have "settled (pcs s' tp) (tr_depends (mem s' tp)) (res s') (dec s')"
      using settled_mono [OF run_settles [OF r ok]] mv by simp
    moreover have "status_at (pcs s' tp) = Some (tr_status (mem s' tp))"
      using r sa by (auto simp: run_def trans_ops
          split: pc.splits list.splits nat.splits if_splits TRANS_STATUS.splits)
    moreover have "0 < tr_sem (mem s' tp) \<longrightarrow> res s' tp"
    proof (cases "tr_sem (mem s' tp) \<le> tr_sem (mem s tp)")
      case True
      then show ?thesis using ok [of tp] mv(1) [of tp] by (auto simp: thread_ok_def)
    next
      case False
      then show ?thesis
        using r by (auto simp: run_def res_def trans_ops
            split: pc.splits list.splits nat.splits if_splits TRANS_STATUS.splits)
    qed
    moreover have "fresh s' \<le> tp \<longrightarrow> pcs s' tp = Running"
      using ok [of tp] r mv(3) by (auto simp: thread_ok_def run_def)
    ultimately show ?thesis using True by (simp add: thread_ok_def)
  qed
qed

lemma run_list:
  "run tp s = Some s' \<Longrightarrow> set (trans_list s') \<subseteq> insert tp (set (trans_list s))"
  by (auto simp: run_def trans_ops
      split: pc.splits list.splits nat.splits if_splits TRANS_STATUS.splits)

lemma act_cases [consumes 1, case_names Create Depend Duplicate Commit Abort Run]:
  assumes "act a s = Some s'"
  obtains "s' = goto (fresh s) NewId (trans_alloc s)"
  | tp dtp where "s' = goto tp (Depending dtp) (add_cell tp dtp s)" "tp \<in> set (trans_list s)" "pcs s tp = Running"
      "dtp \<in> set (trans_list s)"
  | "s' = s"
  | tp where "s' = trans_commit tp s" "tp \<in> set (trans_list s)" "pcs s tp = Running"
  | tp where "s' = trans_abort tp s" "tp \<in> set (trans_list s)" "pcs s tp = Running"
  | tp where "run tp s = Some s'"
proof (cases a)
  case Create
  with assms show ?thesis by (intro that(1)) (simp add: act_def)
next
  case (Depend tp dtp)
  show ?thesis
  proof (cases "already_dependent s (tr_depends (mem s tp)) dtp")
    case True
    with Depend assms show ?thesis by (intro that(3)) (simp add: act_def split: if_splits)
  next
    case False
    with Depend assms show ?thesis by (intro that(2) [of tp dtp]) (simp_all add: act_def split: if_splits)
  qed
next
  case (Commit tp)
  with assms show ?thesis by (intro that(4) [of tp]) (simp_all add: act_def split: if_splits)
next
  case (Abort tp)
  with assms show ?thesis by (intro that(5) [of tp]) (simp_all add: act_def split: if_splits)
next
  case (Run tp)
  with assms show ?thesis by (intro that(6) [of tp]) (simp add: act_def)
qed

lemma reachable_ok: "reachable s \<Longrightarrow> (\<forall>t \<in> set (trans_list s). t < fresh s) \<and> (\<forall>t. thread_ok s t)"
proof (induction rule: reachable.induct)
  case start
  show ?case by (simp add: thread_ok_def trans_init_def res_def)
next
  case (step s a s')
  have ok: "thread_ok s t" for t using step.IH by blast
  have li: "t < fresh s" if "t \<in> set (trans_list s)" for t using step.IH that by blast
  have fresh: "pcs s (fresh s) = Running" using ok [of "fresh s"] by (simp add: thread_ok_def)
  have other: "thread_ok s' t" if "pcs s' t = pcs s t" "tr_status (mem s' t) = tr_status (mem s t)"
    "tr_sem (mem s' t) \<le> tr_sem (mem s t)" "tr_depends (mem s' t) = tr_depends (mem s t)" "fresh s \<le> fresh s'"
    "\<And>u. res s u \<Longrightarrow> res s' u" "\<And>u. dec s u \<Longrightarrow> dec s' u" for t
    by (rule thread_ok_other [OF ok that])
  from step.hyps(2) show ?case
  proof (cases rule: act_cases)
    case Create
    have "thread_ok s' (fresh s)" using Create by (simp add: trans_ops thread_ok_def)
    moreover have "thread_ok s' t" if "t \<noteq> fresh s" for t
      by (rule other) (use Create fresh that in \<open>auto simp: trans_ops res_def dec_def\<close>)
    ultimately have "thread_ok s' t" for t by (cases "t = fresh s") simp_all
    moreover have "\<forall>t \<in> set (trans_list s'). t < fresh s'" using Create li by (auto simp: trans_ops intro: less_SucI)
    ultimately show ?thesis by simp
  next
    case (Depend tp dtp)
    have "thread_ok s' tp" using Depend ok [of tp] li [of tp] by (auto simp: trans_ops thread_ok_def res_def)
    moreover have "thread_ok s' t" if "t \<noteq> tp" for t
      by (rule other) (use Depend that in \<open>auto simp: trans_ops res_def dec_def\<close>)
    ultimately have "thread_ok s' t" for t by (cases "t = tp") simp_all
    moreover have "\<forall>t \<in> set (trans_list s'). t < fresh s'" using Depend li by (simp add: trans_ops)
    ultimately show ?thesis by simp
  next
    case Duplicate
    then show ?thesis using step.IH by simp
  next
    case (Commit tp)
    have "thread_ok s' tp" using Commit ok [of tp] li [of tp] by (auto simp: trans_commit_def thread_ok_def res_def)
    moreover have "thread_ok s' t" if "t \<noteq> tp" for t
      by (rule other) (use Commit that in \<open>auto simp: trans_commit_def res_def dec_def\<close>)
    ultimately have "thread_ok s' t" for t by (cases "t = tp") simp_all
    moreover have "\<forall>t \<in> set (trans_list s'). t < fresh s'" using Commit li by (simp add: trans_commit_def)
    ultimately show ?thesis by simp
  next
    case (Abort tp)
    have "thread_ok s' tp" using Abort ok [of tp] li [of tp] by (auto simp: trans_abort_def thread_ok_def res_def)
    moreover have "thread_ok s' t" if "t \<noteq> tp" for t
      by (rule other) (use Abort that in \<open>auto simp: trans_abort_def res_def dec_def\<close>)
    ultimately have "thread_ok s' t" for t by (cases "t = tp") simp_all
    moreover have "\<forall>t \<in> set (trans_list s'). t < fresh s'" using Abort li by (simp add: trans_abort_def)
    ultimately show ?thesis by simp
  next
    case (Run tp)
    have sa: "status_at (pcs s tp) = Some (tr_status (mem s tp))" using ok by (simp add: thread_ok_def)
    have "tp < fresh s" using Run ok [of tp] by (force simp: thread_ok_def run_def)
    then show ?thesis using run_ok [OF Run ok] run_list [OF Run] run_moves(3) [OF Run sa] li by auto
  qed
qed

lemma reachable_thread_ok: "reachable s \<Longrightarrow> thread_ok s t"
  using reachable_ok by blast

lemma acts_append: "acts (as @ bs) s = Option.bind (acts as s) (acts bs)"
  by (induction as arbitrary: s) (auto split: bind_splits)

section \<open>Threads that wait forever\<close>

definition stuck :: "taddr \<Rightarrow> taddr \<Rightarrow> manager \<Rightarrow> bool" where
  "stuck t d s \<longleftrightarrow> (\<exists>ds. pcs s t = Wait d ds) \<and> tr_sem (mem s d) = 0 \<and> (\<exists>st. pcs s d = Finished st)"

lemma stuck_step:
  assumes "reachable s" "stuck t d s" "act a s = Some s'"
  shows "stuck t d s'"
proof -
  from assms(2) obtain ds st where st: "pcs s t = Wait d ds" "tr_sem (mem s d) = 0" "pcs s d = Finished st"
    by (auto simp: stuck_def)
  have d: "d < fresh s" using reachable_thread_ok [OF assms(1), of d] st(3) by (force simp: thread_ok_def)
  have t: "t < fresh s" using reachable_thread_ok [OF assms(1), of t] st(1) by (force simp: thread_ok_def)
  from assms(3) show ?thesis
  proof (cases rule: act_cases)
    case Create
    then show ?thesis using st d t by (auto simp: trans_ops stuck_def)
  next
    case (Depend tp dtp)
    then show ?thesis using st by (auto simp: trans_ops stuck_def)
  next
    case Duplicate
    then show ?thesis using assms(2) by simp
  next
    case (Commit tp)
    then show ?thesis using st by (auto simp: trans_commit_def stuck_def)
  next
    case (Abort tp)
    then show ?thesis using st by (auto simp: trans_abort_def stuck_def)
  next
    case (Run tp)
    have sa: "status_at (pcs s tp) = Some (tr_status (mem s tp))"
      using reachable_thread_ok [OF assms(1)] by (simp add: thread_ok_def)
    have "tp \<noteq> t" "tp \<noteq> d" using Run st by (auto simp: run_def)
    then show ?thesis using run_moves(4,7) [OF Run sa] st by (metis le_zero_eq stuck_def)
  qed
qed

lemma stuck_forever:
  "reachable s \<Longrightarrow> stuck t d s \<Longrightarrow> acts as s = Some s' \<Longrightarrow> stuck t d s'"
proof (induction as arbitrary: s)
  case (Cons a as)
  then obtain s1 where s1: "act a s = Some s1" "acts as s1 = Some s'" by (auto split: bind_splits)
  then show ?case using Cons.IH [of s1] Cons.prems stuck_step reachable.step by blast
qed simp

section \<open>Properties\<close>

text \<open>
  C6. In every interleaving, a transaction that has committed depends only on transactions that
  have not aborted and never will: each of them has committed or its thread is past the point
  from which it can only commit. In particular a dependency that is finished is committed.
\<close>

theorem commit_respects_dependencies:
  assumes "reachable s" "tr_status (mem s t) = TRANS_COMMITTED" "d \<in> set (tr_depends (mem s t))"
  shows "tr_status (mem s d) \<noteq> TRANS_ABORTED \<and> decided (pcs s d)
    \<and> (\<forall>st. pcs s d = Finished st \<longrightarrow> st = TRANS_COMMITTED \<and> tr_status (mem s d) = TRANS_COMMITTED)"
proof -
  note ok = reachable_thread_ok [OF assms(1)]
  have "decided (pcs s t)"
    using ok [of t] assms(2) resolved_status [of "pcs s t" TRANS_COMMITTED]
      resolved_decided [of "pcs s t" TRANS_COMMITTED] by (simp add: thread_ok_def)
  then have "list_all (dec s) (tr_depends (mem s t))"
    using ok [of t] by (cases "pcs s t") (auto simp: thread_ok_def)
  then have d: "decided (pcs s d)" using assms(3) by (auto simp: list_all_iff dec_def)
  then have "tr_status (mem s d) \<noteq> TRANS_ABORTED"
    using ok [of d] by (cases "pcs s d" rule: decided.cases) (auto simp: thread_ok_def)
  moreover have "st = TRANS_COMMITTED \<and> tr_status (mem s d) = TRANS_COMMITTED" if "pcs s d = Finished st" for st
    using d that ok [of d] by (cases st) (auto simp: thread_ok_def)
  ultimately show ?thesis using d by blast
qed

text \<open>Two transactions of which the second depends on the first and waits for it properly.\<close>

definition two :: "action list" where
  "two = [Create, Run 0, Run 0, Run 0, Create, Run 1, Run 1, Run 1, Depend 1 0, Run 1]"

definition orderly :: "action list" where
  "orderly = two @ [Commit 1, Run 1, Run 1, Run 1, Commit 0, Run 0, Run 0, Run 0, Run 0,
     Run 1, Run 1, Run 1, Run 1, Run 1, Run 1, Run 1, Run 1]"

lemmas schedule_simps = act_def run_def trans_ops already_dependent_def trans_commit_def trans_abort_def trans_init_def two_def

lemma orderly_run:
  "\<exists>s. acts orderly trans_init = Some s \<and> tr_status (mem s 1) = TRANS_COMMITTED
    \<and> tr_depends (mem s 1) = [0] \<and> pcs s 0 = CPost 0"
  by (simp add: orderly_def schedule_simps)

theorem commit_respects_dependencies_witness:
  "\<exists>s. reachable s \<and> tr_status (mem s 1) = TRANS_COMMITTED \<and> tr_depends (mem s 1) = [0]
    \<and> tr_status (mem s 0) \<noteq> TRANS_ABORTED"
proof -
  obtain s where s: "acts orderly trans_init = Some s" "tr_status (mem s 1) = TRANS_COMMITTED"
    "tr_depends (mem s 1) = [0]" using orderly_run by blast
  then have "reachable s" using reachable_acts reachable.start by blast
  with s commit_respects_dependencies [of s 1 0] show ?thesis by auto
qed

text \<open>
  The first transaction of \<open>two\<close> reads its wait count, posts nothing and commits between the test of its status by the second
  one and the registration of the second one as a waiter.
\<close>

definition late :: "action list" where
  "late = two @ [Commit 1, Run 1, Commit 0, Run 0, Run 0, Run 0, Run 0, Run 0, Run 0, Run 0, Run 1, Run 1]"

lemma late_run: "\<exists>s. acts late trans_init = Some s \<and> tr_status (mem s 0) = TRANS_COMMITTED \<and> stuck 1 0 s"
  by (simp add: late_def schedule_simps stuck_def)

text \<open>
  C35. A wake-up can be lost: there is a schedule, \<open>late\<close>, after which a transaction has committed and its thread is finished while another thread
  waits for it and no post is left; and whenever a thread waits for a finished transaction without a post,
  it is blocked in every continuation of the execution.
\<close>

theorem lost_wakeup:
  "(\<exists>s. acts late trans_init = Some s \<and> tr_status (mem s 0) = TRANS_COMMITTED \<and> stuck 1 0 s)
    \<and> (\<forall>s t d as s'. reachable s \<and> stuck t d s \<and> acts as s = Some s' \<longrightarrow> (\<exists>ds. pcs s' t = Wait d ds) \<and> run t s' = None)"
proof (intro conjI allI impI)
  fix s t d as s'
  assume a: "reachable s \<and> stuck t d s \<and> acts as s = Some s'"
  then have "stuck t d s'" using stuck_forever [of s t d as s'] by blast
  then show "\<exists>ds. pcs s' t = Wait d ds" "run t s' = None" by (auto simp: stuck_def run_def)
qed (rule late_run)

theorem lost_wakeup_witness:
  "\<exists>s. reachable s \<and> tr_status (mem s 0) = TRANS_COMMITTED \<and> run 1 s = None \<and> (\<exists>ds. pcs s 1 = Wait 0 ds)"
  using lost_wakeup reachable_acts [OF reachable.start] acts.simps(1) by blast

lemma stuck_blocks:
  assumes "reachable s" "stuck t d s"
  shows "\<forall>as s'. acts as s = Some s' \<longrightarrow> (\<exists>ds. pcs s' t = Wait d ds) \<and> run t s' = None"
proof (intro allI impI)
  fix as s'
  assume "acts as s = Some s'"
  then have "stuck t d s'" by (rule stuck_forever [OF assms])
  then show "(\<exists>ds. pcs s' t = Wait d ds) \<and> run t s' = None" by (auto simp: stuck_def run_def)
qed

text \<open>
  Two waiters that increment the wait count of the same transaction at the same time, each under its own mutex, are counted once: one
  of them is never woken up, although both registered before the transaction read its count.
\<close>

definition counted_once :: "action list" where
  "counted_once = two @ [Create, Run 2, Run 2, Run 2, Depend 2 0, Run 2, Commit 1, Run 1, Commit 2, Run 2, Run 1, Run 2, Run 1, Run 2,
     Commit 0, Run 0, Run 0, Run 0, Run 0, Run 0, Run 0, Run 0, Run 0, Run 1]"

theorem lost_count:
  "\<exists>s. acts counted_once trans_init = Some s \<and> tr_status (mem s 0) = TRANS_COMMITTED \<and> pcs s 1 = Check []
    \<and> (\<forall>as s'. acts as s = Some s' \<longrightarrow> (\<exists>ds. pcs s' 2 = Wait 0 ds) \<and> run 2 s' = None)"
proof -
  obtain s where s: "acts counted_once trans_init = Some s" "tr_status (mem s 0) = TRANS_COMMITTED" "pcs s 1 = Check []" "stuck 2 0 s"
    by (simp add: counted_once_def schedule_simps stuck_def)
  then show ?thesis using stuck_blocks [OF reachable_acts [OF reachable.start s(1)] s(4)] by blast
qed

text \<open>
  A transaction can be entered twice in a dependency list, because the duplicate test does
  not look at the last element. The thread that commits then waits twice for the same
  transaction; when the first wait is answered while the status is not yet written, the second
  one is never answered, in any continuation, without any test having raced.
\<close>

definition twice :: "action list" where
  "twice = [Commit 1, Run 1, Run 1, Run 1, Commit 0, Run 0, Run 0, Run 0, Run 0, Run 1, Run 1, Run 1, Run 1, Run 0, Run 0, Run 0, Run 0]"

theorem duplicate_dependency_deadlock:
  "\<exists>s s'. acts (two @ [Depend 1 0, Run 1]) trans_init = Some s \<and> tr_depends (mem s 1) = [0, 0]
    \<and> acts twice s = Some s'
    \<and> tr_status (mem s' 0) = TRANS_COMMITTED
    \<and> (\<forall>as s''. acts as s' = Some s'' \<longrightarrow> (\<exists>ds. pcs s'' 1 = Wait 0 ds) \<and> run 1 s'' = None)"
proof -
  let ?a = "two @ [Depend 1 0, Run 1]"
  obtain s where s: "acts ?a trans_init = Some s" "tr_depends (mem s 1) = [0, 0]"
    by (simp add: schedule_simps)
  obtain s' where s': "acts (?a @ twice) trans_init = Some s'" "tr_status (mem s' 0) = TRANS_COMMITTED" "stuck 1 0 s'"
    by (simp add: schedule_simps twice_def stuck_def)
  have "acts twice s = Some s'" using s'(1) s(1) acts_append [of ?a twice trans_init] by simp
  then show ?thesis using s s'(2) stuck_blocks [OF reachable_acts [OF reachable.start s'(1)] s'(3)] by blast
qed

text \<open>The id that a transaction gets is read and written back without a mutex, so that two transactions can have the same one.\<close>

theorem ids_not_unique:
  "\<exists>s. acts [Create, Create, Run 0, Run 1, Run 0, Run 1, Run 0, Run 1] trans_init = Some s
    \<and> trans_list s = [0, 1] \<and> tr_id (mem s 0) = tr_id (mem s 1)"
  by (simp add: schedule_simps)

end
