(* ===== verification/Xacto_Data.thy ===== *)
theory Xacto_Data
  imports Xacto_Trans "HOL-Library.Signed_Division"
begin

text \<open>
  The data objects of the xacto server (\<open>xacto/src/data.c\<close>): blobs with reference counts, keys and
  versions. Objects live at addresses; an address without an object was freed or never allocated,
  and using it is the result \<open>None\<close>. The content of a blob is its buffer with the NUL that
  \<open>blob_create\<close> adds. Locking a mutex that the thread has already locked never returns, which
  is also the result \<open>None\<close>. Allocation does not fail (the wrappers of \<open>csapp.c\<close> end the program).
\<close>

section \<open>Objects\<close>

type_synonym baddr = nat
type_synonym kaddr = nat
type_synonym vaddr = nat

record BLOB =
  bl_refcnt :: int
  bl_size :: nat
  bl_content :: "u8 list option"

record KEY =
  ky_hash :: int
  ky_blob :: baddr

record VERSION =
  ve_creator :: taddr
  ve_blob :: "baddr option"

record xdata =
  blobs :: "baddr \<Rightarrow> BLOB option"
  keys_at :: "kaddr \<Rightarrow> KEY option"
  versions_at :: "vaddr \<Rightarrow> VERSION option"
  xtrans :: manager
  bfresh :: baddr
  kfresh :: kaddr
  vfresh :: vaddr

definition NUM_BUCKETS :: int where
  "NUM_BUCKETS = 8"

section \<open>Blobs\<close>

definition blob_create :: "u8 list option \<Rightarrow> nat \<Rightarrow> xdata \<Rightarrow> baddr \<times> xdata" where
  "blob_create content sz d =
    (bfresh d, d\<lparr>blobs := (blobs d)(bfresh d \<mapsto>
       \<lparr>bl_refcnt = 1, bl_size = sz, bl_content = map_option (\<lambda>c. take sz c @ [0]) content\<rparr>), bfresh := bfresh d + 1\<rparr>)"

text \<open>The count is an \<open>int\<close>, whose overflow is undefined.\<close>

definition INT_MAX :: int where
  "INT_MAX = 2 ^ 31 - 1"

definition blob_ref :: "baddr \<Rightarrow> xdata \<Rightarrow> xdata option" where
  "blob_ref bp d =
    (case blobs d bp of
       None \<Rightarrow> None
     | Some b \<Rightarrow>
         if bl_refcnt b = INT_MAX then None
         else Some (d\<lparr>blobs := (blobs d)(bp \<mapsto> b\<lparr>bl_refcnt := bl_refcnt b + 1\<rparr>)\<rparr>))"

definition blob_unref :: "baddr option \<Rightarrow> xdata \<Rightarrow> xdata option" where
  "blob_unref bp d =
    (case bp of
       None \<Rightarrow> Some d
     | Some a \<Rightarrow>
        (case blobs d a of
           None \<Rightarrow> None
         | Some b \<Rightarrow>
            let b = b\<lparr>bl_refcnt := bl_refcnt b - 1\<rparr>
            in Some (d\<lparr>blobs := (blobs d)(a := (if bl_refcnt b = 0 then None else Some b))\<rparr>)))"

text \<open>The sign of \<open>strncmp\<close> on two buffers with a NUL.\<close>

fun strncmp :: "u8 list \<Rightarrow> u8 list \<Rightarrow> nat \<Rightarrow> int" where
  "strncmp (x # xs) (y # ys) (Suc n) =
    (if x < y then -1 else if y < x then 1 else if x = 0 then 0 else strncmp xs ys n)"
| "strncmp xs ys n = 0"

definition blob_compare :: "baddr \<Rightarrow> baddr \<Rightarrow> xdata \<Rightarrow> int option" where
  "blob_compare bp1 bp2 d =
    (if bp1 = bp2 then None
     else case (blobs d bp1, blobs d bp2) of
       (Some b1, Some b2) \<Rightarrow>
         (case (bl_content b1, bl_content b2) of
            (Some c1, Some c2) \<Rightarrow> Some (strncmp c1 c2 (max (bl_size b1) (bl_size b2)))
          | _ \<Rightarrow> None)
     | _ \<Rightarrow> None)"

text \<open>A \<open>char\<close> is signed, and so is the remainder.\<close>

definition content_hash :: "u8 list \<Rightarrow> int" where
  "content_hash c = (sint (hd c) :: int) smod NUM_BUCKETS"

definition blob_hash :: "baddr option \<Rightarrow> xdata \<Rightarrow> int option" where
  "blob_hash bp d =
    (case bp of
       None \<Rightarrow> Some (-1)
     | Some a \<Rightarrow>
        (case blobs d a of
           None \<Rightarrow> None
         | Some b \<Rightarrow> Some (case bl_content b of None \<Rightarrow> 0 | Some c \<Rightarrow> content_hash c)))"

section \<open>Keys and versions\<close>

definition key_create :: "baddr option \<Rightarrow> xdata \<Rightarrow> (kaddr option \<times> xdata) option" where
  "key_create bp d =
    (case bp of
       None \<Rightarrow> Some (None, d)
     | Some a \<Rightarrow>
        Option.bind (blob_hash bp d) (\<lambda>h.
          Some (Some (kfresh d), d\<lparr>keys_at := (keys_at d)(kfresh d \<mapsto> \<lparr>ky_hash = h, ky_blob = a\<rparr>), kfresh := kfresh d + 1\<rparr>)))"

definition key_dispose :: "kaddr option \<Rightarrow> xdata \<Rightarrow> xdata option" where
  "key_dispose kp d =
    (case kp of
       None \<Rightarrow> Some d
     | Some k \<Rightarrow>
        (case keys_at d k of
           None \<Rightarrow> None
         | Some ky \<Rightarrow>
            Option.bind (blob_unref (Some (ky_blob ky)) d) (\<lambda>d.
              Some (d\<lparr>keys_at := (keys_at d)(k := None)\<rparr>))))"

definition key_compare :: "kaddr \<Rightarrow> kaddr \<Rightarrow> xdata \<Rightarrow> int option" where
  "key_compare kp1 kp2 d =
    (case (keys_at d kp1, keys_at d kp2) of
       (Some k1, Some k2) \<Rightarrow>
         if ky_hash k1 = ky_hash k2 then blob_compare (ky_blob k1) (ky_blob k2) d else Some (-1)
     | _ \<Rightarrow> None)"

definition version_create :: "taddr option \<Rightarrow> baddr option \<Rightarrow> xdata \<Rightarrow> vaddr \<times> xdata" where
  "version_create tp bp d =
    (let (t, d) = (case tp of
                     None \<Rightarrow> (fresh (xtrans d), d\<lparr>xtrans := trans_create (xtrans d)\<rparr>)
                   | Some t \<Rightarrow> (t, d))
     in (vfresh d, d\<lparr>xtrans := trans_ref t (xtrans d), versions_at := (versions_at d)(vfresh d \<mapsto> \<lparr>ve_creator = t, ve_blob = bp\<rparr>),
           vfresh := vfresh d + 1\<rparr>))"

definition version_dispose :: "vaddr option \<Rightarrow> xdata \<Rightarrow> xdata option" where
  "version_dispose vp d =
    (case vp of
       None \<Rightarrow> Some d
     | Some v \<Rightarrow>
        (case versions_at d v of
           None \<Rightarrow> None
         | Some ve \<Rightarrow>
            Option.bind (blob_unref (ve_blob ve) (d\<lparr>xtrans := trans_unref (ve_creator ve) (xtrans d)\<rparr>)) (\<lambda>d.
              Some (d\<lparr>versions_at := (versions_at d)(v := None)\<rparr>))))"

section \<open>Comparing keys\<close>

definition c_prefix :: "u8 list \<Rightarrow> u8 list" where
  "c_prefix c = takeWhile (\<lambda>x. x \<noteq> 0) c"

lemma strncmp_0:
  "strncmp (c1 @ [0]) (c2 @ [0]) n = 0 \<longleftrightarrow> c_prefix c1 = c_prefix c2" if "length c1 \<le> n" "length c2 \<le> n"
  using that
proof (induction c1 arbitrary: c2 n)
  case Nil
  then show ?case by (cases c2; cases n) (auto simp: c_prefix_def word_neq_0_conv)
next
  case (Cons x c1)
  then obtain m where n: "n = Suc m" by (cases n) auto
  show ?case
  proof (cases c2)
    case Nil
    then show ?thesis using n by (auto simp: c_prefix_def word_neq_0_conv)
  next
    case c2: (Cons y c2')
    then show ?thesis using n Cons.IH [of m c2'] Cons.prems by (auto simp: c_prefix_def)
  qed
qed

lemma hash_prefix: "c_prefix c1 = c_prefix c2 \<Longrightarrow> content_hash (c1 @ [0]) = content_hash (c2 @ [0])"
  by (cases c1; cases c2) (auto simp: c_prefix_def content_hash_def split: if_splits)

text \<open>A blob with content and a key that was created from it.\<close>

definition has_content :: "baddr \<Rightarrow> u8 list \<Rightarrow> xdata \<Rightarrow> bool" where
  "has_content bp c d \<longleftrightarrow> (\<exists>b. blobs d bp = Some b \<and> bl_content b = Some (c @ [0]) \<and> bl_size b = length c)"

text \<open>
  C21. The comparison of two keys that were created from different blobs agrees with the comparison
  of their contents as C strings: it is 0 exactly when the contents agree up to their first NUL. The
  comparison of the hashes first never changes that. So contents that differ only after a NUL count as the
  same key, although the documentation of \<open>blob_compare\<close> says that the contents are compared.
\<close>

theorem key_compare_strings:
  assumes "has_content b1 c1 d" "has_content b2 c2 d" "b1 \<noteq> b2"
    "key_create (Some b1) d = Some (Some k1, d1)" "key_create (Some b2) d1 = Some (Some k2, d2)"
  shows "\<exists>r. key_compare k1 k2 d2 = Some r \<and> (r = 0 \<longleftrightarrow> c_prefix c1 = c_prefix c2)"
proof -
  obtain x y where b: "blobs d b1 = Some x" "bl_content x = Some (c1 @ [0])" "bl_size x = length c1"
    "blobs d b2 = Some y" "bl_content y = Some (c2 @ [0])" "bl_size y = length c2"
    using assms(1,2) by (auto simp: has_content_def)
  have k: "keys_at d2 k1 = Some \<lparr>ky_hash = content_hash (c1 @ [0]), ky_blob = b1\<rparr>"
    "keys_at d2 k2 = Some \<lparr>ky_hash = content_hash (c2 @ [0]), ky_blob = b2\<rparr>" "blobs d2 = blobs d"
    using assms(4,5) b by (auto simp: key_create_def blob_hash_def)
  show ?thesis
    using b k assms(3) strncmp_0 [of c1 "max (length c1) (length c2)" c2] hash_prefix [of c1 c2]
    by (auto simp: key_compare_def blob_compare_def)
qed

definition no_data :: xdata where
  "no_data = \<lparr>blobs = (\<lambda>_. None), keys_at = (\<lambda>_. None), versions_at = (\<lambda>_. None), xtrans = trans_init,
     bfresh = 0, kfresh = 0, vfresh = 0\<rparr>"

theorem key_compare_strings_witness:
  "\<exists>d k1 k2 d1 d2. has_content 0 [97, 0, 98] d \<and> has_content 1 [97, 0, 99] d \<and> key_create (Some 0) d = Some (Some k1, d1)
    \<and> key_create (Some 1) d1 = Some (Some k2, d2) \<and> key_compare k1 k2 d2 = Some 0"
proof -
  define d where "d = snd (blob_create (Some [97, 0, 99]) 3 (snd (blob_create (Some [97, 0, 98]) 3 no_data)))"
  have c: "has_content 0 [97, 0, 98] d" "has_content 1 [97, 0, 99] d"
    by (simp_all add: d_def has_content_def blob_create_def no_data_def)
  obtain k1 d1 where k1: "key_create (Some 0) d = Some (Some k1, d1)"
    by (simp add: key_create_def blob_hash_def d_def blob_create_def no_data_def)
  obtain k2 d2 where k2: "key_create (Some 1) d1 = Some (Some k2, d2)"
    using k1 by (auto simp: key_create_def blob_hash_def d_def blob_create_def no_data_def)
  from key_compare_strings [OF c _ k1 k2] c k1 k2 show ?thesis by (auto simp: c_prefix_def)
qed

section \<open>Reference counts\<close>

text \<open>How many objects of a store have a property.\<close>

definition cnt :: "(nat \<Rightarrow> 'a option) \<Rightarrow> ('a \<Rightarrow> bool) \<Rightarrow> nat" where
  "cnt m P = card {k. \<exists>x. m k = Some x \<and> P x}"

definition bounded :: "nat \<Rightarrow> (nat \<Rightarrow> 'a option) \<Rightarrow> bool" where
  "bounded n m \<longleftrightarrow> (\<forall>k \<ge> n. m k = None)"

lemma bounded_finite: "bounded n m \<Longrightarrow> finite {k. \<exists>x. m k = Some x \<and> P x}"
proof (rule finite_subset)
  show "bounded n m \<Longrightarrow> {k. \<exists>x. m k = Some x \<and> P x} \<subseteq> {..<n}"
    by (rule subsetI, rule lessThan_iff [THEN iffD2], rule ccontr) (auto simp: bounded_def)
qed simp

lemma bounded_updates:
  "bounded n m \<Longrightarrow> bounded (n + 1) (m(n \<mapsto> x))" "bounded n m \<Longrightarrow> bounded n (m(k := None))"
  "bounded n m \<Longrightarrow> m k \<noteq> None \<Longrightarrow> bounded n (m(k \<mapsto> y))"
  by (auto simp: bounded_def)

lemma cnt_new: "bounded n m \<Longrightarrow> cnt (m(n \<mapsto> x)) P = cnt m P + (if P x then 1 else 0)"
proof -
  assume b: "bounded n m"
  have "{k. \<exists>y. (m(n \<mapsto> x)) k = Some y \<and> P y} = (if P x then {n} else {}) \<union> {k. \<exists>y. m k = Some y \<and> P y}"
    using b by (auto simp: bounded_def)
  moreover have "n \<notin> {k. \<exists>y. m k = Some y \<and> P y}" using b by (auto simp: bounded_def)
  ultimately show ?thesis using bounded_finite [OF b, of P] by (simp add: cnt_def)
qed

lemma cnt_gone: "bounded n m \<Longrightarrow> m k = Some x \<Longrightarrow> cnt m P = cnt (m(k := None)) P + (if P x then 1 else 0)"
proof -
  assume b: "bounded n m" "m k = Some x"
  have "{j. \<exists>y. m j = Some y \<and> P y} = (if P x then {k} else {}) \<union> {j. \<exists>y. (m(k := None)) j = Some y \<and> P y}"
    using b(2) by auto
  then show ?thesis using bounded_finite [OF bounded_updates(2) [OF b(1)], of k P] by (simp add: cnt_def)
qed

text \<open>
  The operations of a client that follows the rules of \<open>data.h\<close>: it uses a reference only while it
  holds one, does not take one more than \<open>INT_MAX\<close>, and gives up a key or a version only once. The function counts the references that callers hold.
\<close>

datatype data_op =
    Blob_Create "u8 list option" nat | Blob_Ref baddr | Blob_Unref baddr
  | Key_Create baddr | Key_Dispose kaddr
  | Version_Create taddr "baddr option" | Version_Dispose vaddr

type_synonym held = "baddr \<Rightarrow> nat"

definition not_full :: "baddr \<Rightarrow> xdata \<Rightarrow> bool" where
  "not_full b d \<longleftrightarrow> (\<forall>x. blobs d b = Some x \<longrightarrow> bl_refcnt x < INT_MAX)"

fun allowed :: "data_op \<Rightarrow> xdata \<times> held \<Rightarrow> bool" where
  "allowed (Blob_Create c n) (d, h) \<longleftrightarrow> True"
| "allowed (Blob_Ref b) (d, h) \<longleftrightarrow> 0 < h b \<and> not_full b d"
| "allowed (Blob_Unref b) (d, h) \<longleftrightarrow> 0 < h b"
| "allowed (Key_Create b) (d, h) \<longleftrightarrow> 0 < h b"
| "allowed (Key_Dispose k) (d, h) \<longleftrightarrow> keys_at d k \<noteq> None"
| "allowed (Version_Create t bp) (d, h) \<longleftrightarrow> (case bp of None \<Rightarrow> True | Some b \<Rightarrow> 0 < h b)"
| "allowed (Version_Dispose v) (d, h) \<longleftrightarrow> versions_at d v \<noteq> None"

fun perform :: "data_op \<Rightarrow> xdata \<times> held \<Rightarrow> (xdata \<times> held) option" where
  "perform (Blob_Create c n) (d, h) = (let (b, d) = blob_create c n d in Some (d, h(b := h b + 1)))"
| "perform (Blob_Ref b) (d, h) = Option.bind (blob_ref b d) (\<lambda>d. Some (d, h(b := h b + 1)))"
| "perform (Blob_Unref b) (d, h) = Option.bind (blob_unref (Some b) d) (\<lambda>d. Some (d, h(b := h b - 1)))"
| "perform (Key_Create b) (d, h) = Option.bind (key_create (Some b) d) (\<lambda>(_, d). Some (d, h(b := h b - 1)))"
| "perform (Key_Dispose k) (d, h) = Option.bind (key_dispose (Some k) d) (\<lambda>d. Some (d, h))"
| "perform (Version_Create t bp) (d, h) =
    (let (v, d) = version_create (Some t) bp d
     in Some (d, case bp of None \<Rightarrow> h | Some b \<Rightarrow> h(b := h b - 1)))"
| "perform (Version_Dispose v) (d, h) = Option.bind (version_dispose (Some v) d) (\<lambda>d. Some (d, h))"

inductive held_state :: "manager \<Rightarrow> xdata \<times> held \<Rightarrow> bool" for m0 :: manager where
  start: "held_state m0 (no_data\<lparr>xtrans := m0\<rparr>, \<lambda>_. 0)"
| step: "held_state m0 s \<Longrightarrow> allowed a s \<Longrightarrow> perform a s = Some s' \<Longrightarrow> held_state m0 s'"

text \<open>The references to a blob: those of callers, keys and versions.\<close>

definition refs :: "xdata \<Rightarrow> held \<Rightarrow> baddr \<Rightarrow> nat" where
  "refs d h b = h b + cnt (keys_at d) (\<lambda>k. ky_blob k = b) + cnt (versions_at d) (\<lambda>v. ve_blob v = Some b)"

definition blob_ok :: "BLOB option \<Rightarrow> nat \<Rightarrow> bool" where
  "blob_ok b n \<longleftrightarrow> (case b of None \<Rightarrow> n = 0 | Some x \<Rightarrow> bl_refcnt x = int n \<and> 0 < n)"

definition counted :: "xdata \<Rightarrow> held \<Rightarrow> bool" where
  "counted d h \<longleftrightarrow> (\<forall>b. blob_ok (blobs d b) (refs d h b))
     \<and> bounded (bfresh d) (blobs d) \<and> bounded (kfresh d) (keys_at d) \<and> bounded (vfresh d) (versions_at d)"

lemma counted_live: "counted d h \<Longrightarrow> 0 < refs d h b \<Longrightarrow> \<exists>x. blobs d b = Some x \<and> bl_refcnt x = int (refs d h b)"
  unfolding counted_def blob_ok_def by (cases "blobs d b") (auto split: option.splits dest!: spec [of _ b])

lemma counted_new: "counted d h \<Longrightarrow> refs d h (bfresh d) = 0"
  unfolding counted_def blob_ok_def bounded_def by (auto split: option.splits dest!: spec [of _ "bfresh d"])

text \<open>Giving up one reference.\<close>

lemma counted_unref:
  assumes c: "counted d h" and r: "0 < refs d h b"
  shows "\<exists>m. blob_unref (Some b) d = Some (d\<lparr>blobs := m\<rparr>) \<and> bounded (bfresh d) m
    \<and> (\<forall>a. blob_ok (m a) (if a = b then refs d h b - 1 else refs d h a))"
proof -
  obtain x where x: "blobs d b = Some x" "bl_refcnt x = int (refs d h b)" using counted_live [OF assms] by blast
  have "bounded (bfresh d) (blobs d)" "\<forall>a. blob_ok (blobs d a) (refs d h a)" using c by (simp_all add: counted_def)
  then show ?thesis
    using x r bounded_updates(2,3) [of "bfresh d" "blobs d" b]
    by (auto simp: blob_unref_def Let_def of_nat_diff blob_ok_def)
qed

lemma perform_counted_blob_create:
  assumes "counted d h" shows "\<exists>d' h'. perform (Blob_Create c n) (d, h) = Some (d', h') \<and> counted d' h'"
proof -
  define x where "x = \<lparr>bl_refcnt = 1, bl_size = n, bl_content = map_option (\<lambda>c. take n c @ [0]) c\<rparr>"
  define d' where "d' = d\<lparr>blobs := (blobs d)(bfresh d \<mapsto> x), bfresh := bfresh d + 1\<rparr>"
  define h' where "h' = h(bfresh d := h (bfresh d) + 1)"
  have p: "perform (Blob_Create c n) (d, h) = Some (d', h')" by (simp add: blob_create_def d'_def h'_def x_def)
  have "refs d' h' a = refs d h a + (if a = bfresh d then 1 else 0)" for a by (simp add: refs_def d'_def h'_def)
  then have "blob_ok (blobs d' a) (refs d' h' a)" for a
    using assms counted_new [OF assms] by (simp add: d'_def x_def counted_def) (simp add: blob_ok_def)
  with p assms bounded_updates(1) [of "bfresh d" "blobs d"] show ?thesis by (auto simp: counted_def d'_def)
qed

lemma perform_counted_blob_ref:
  assumes "counted d h" "0 < h b" "not_full b d"
  shows "\<exists>d' h'. perform (Blob_Ref b) (d, h) = Some (d', h') \<and> counted d' h'"
proof -
  have "0 < refs d h b" using assms(2) by (simp add: refs_def)
  then obtain x where x: "blobs d b = Some x" "bl_refcnt x = int (refs d h b)" using counted_live [OF assms(1)] by blast
  define d' where "d' = d\<lparr>blobs := (blobs d)(b \<mapsto> x\<lparr>bl_refcnt := bl_refcnt x + 1\<rparr>)\<rparr>"
  define h' where "h' = h(b := h b + 1)"
  have p: "perform (Blob_Ref b) (d, h) = Some (d', h')" using x(1) assms(3) by (auto simp: blob_ref_def d'_def h'_def not_full_def)
  have "refs d' h' a = refs d h a + (if a = b then 1 else 0)" for a by (simp add: refs_def d'_def h'_def)
  then have "blob_ok (blobs d' a) (refs d' h' a)" for a
    using assms(1) x(2) by (simp add: d'_def counted_def) (simp add: blob_ok_def)
  with p assms x(1) bounded_updates(3) [of "bfresh d" "blobs d"] show ?thesis by (auto simp: counted_def d'_def)
qed

lemma perform_counted_blob_unref:
  assumes "counted d h" "0 < h b" shows "\<exists>d' h'. perform (Blob_Unref b) (d, h) = Some (d', h') \<and> counted d' h'"
proof -
  have r: "0 < refs d h b" using assms(2) by (simp add: refs_def)
  obtain m where m: "blob_unref (Some b) d = Some (d\<lparr>blobs := m\<rparr>)" "bounded (bfresh d) m"
    "\<forall>a. blob_ok (m a) (if a = b then refs d h b - 1 else refs d h a)"
    using counted_unref [OF assms(1) r] by blast
  have "refs (d\<lparr>blobs := m\<rparr>) (h(b := h b - 1)) a = (if a = b then refs d h b - 1 else refs d h a)" for a
    using assms(2) by (simp add: refs_def)
  with m assms(1) show ?thesis by (auto simp: counted_def)
qed

lemma perform_counted_key_create:
  assumes "counted d h" "0 < h b" shows "\<exists>d' h'. perform (Key_Create b) (d, h) = Some (d', h') \<and> counted d' h'"
proof -
  have r: "0 < refs d h b" using assms(2) by (simp add: refs_def)
  then obtain x where x: "blobs d b = Some x" using counted_live [OF assms(1)] by blast
  define hs where "hs = the (blob_hash (Some b) d)"
  define d' where "d' = d\<lparr>keys_at := (keys_at d)(kfresh d \<mapsto> \<lparr>ky_hash = hs, ky_blob = b\<rparr>), kfresh := kfresh d + 1\<rparr>"
  have p: "perform (Key_Create b) (d, h) = Some (d', h(b := h b - 1))"
    using x by (simp add: key_create_def blob_hash_def d'_def hs_def)
  have k: "bounded (kfresh d) (keys_at d)" using assms(1) by (simp add: counted_def)
  have "refs d' (h(b := h b - 1)) a = refs d h a" for a
    using assms(2) by (auto simp: refs_def d'_def cnt_new [OF k])
  with p assms(1) bounded_updates(1) [OF k] show ?thesis by (auto simp: counted_def d'_def)
qed

lemma perform_counted_key_dispose:
  assumes "counted d h" "keys_at d k \<noteq> None" shows "\<exists>d' h'. perform (Key_Dispose k) (d, h) = Some (d', h') \<and> counted d' h'"
proof -
  obtain ky where ky: "keys_at d k = Some ky" using assms(2) by auto
  have kb: "bounded (kfresh d) (keys_at d)" using assms(1) by (simp add: counted_def)
  have one: "cnt (keys_at d) P = cnt ((keys_at d)(k := None)) P + (if P ky then 1 else 0)" for P
    by (rule cnt_gone [OF kb ky])
  have r: "0 < refs d h (ky_blob ky)" by (simp add: refs_def one)
  obtain m where m: "blob_unref (Some (ky_blob ky)) d = Some (d\<lparr>blobs := m\<rparr>)" "bounded (bfresh d) m"
    "\<forall>a. blob_ok (m a) (if a = ky_blob ky then refs d h (ky_blob ky) - 1 else refs d h a)"
    using counted_unref [OF assms(1) r] by blast
  define d' where "d' = d\<lparr>blobs := m, keys_at := (keys_at d)(k := None)\<rparr>"
  have p: "perform (Key_Dispose k) (d, h) = Some (d', h)" using ky m(1) by (simp add: key_dispose_def d'_def)
  have "refs d' h a = (if a = ky_blob ky then refs d h (ky_blob ky) - 1 else refs d h a)" for a
    by (simp add: refs_def d'_def one)
  with p m(2,3) assms(1) bounded_updates(2) [OF kb] show ?thesis by (auto simp: counted_def d'_def)
qed

lemma perform_counted_version_create:
  assumes "counted d h" "case bp of None \<Rightarrow> True | Some b \<Rightarrow> 0 < h b"
  shows "\<exists>d' h'. perform (Version_Create t bp) (d, h) = Some (d', h') \<and> counted d' h'"
proof -
  define d' where "d' = d\<lparr>xtrans := trans_ref t (xtrans d),
    versions_at := (versions_at d)(vfresh d \<mapsto> \<lparr>ve_creator = t, ve_blob = bp\<rparr>), vfresh := vfresh d + 1\<rparr>"
  define h' where "h' = (case bp of None \<Rightarrow> h | Some b \<Rightarrow> h(b := h b - 1))"
  have p: "perform (Version_Create t bp) (d, h) = Some (d', h')"
    by (simp add: version_create_def d'_def h'_def)
  have v: "bounded (vfresh d) (versions_at d)" using assms(1) by (simp add: counted_def)
  have "refs d' h' a = refs d h a" for a
    using assms(2) by (auto simp: refs_def d'_def h'_def cnt_new [OF v] split: option.splits)
  with p assms(1) bounded_updates(1) [OF v] show ?thesis by (auto simp: counted_def d'_def)
qed

lemma perform_counted_version_dispose:
  assumes "counted d h" "versions_at d v \<noteq> None"
  shows "\<exists>d' h'. perform (Version_Dispose v) (d, h) = Some (d', h') \<and> counted d' h'"
proof -
  obtain ve where ve: "versions_at d v = Some ve" using assms(2) by auto
  define e where "e = d\<lparr>xtrans := trans_unref (ve_creator ve) (xtrans d)\<rparr>"
  have e: "counted e h" "versions_at e v = Some ve" using assms(1) ve by (simp_all add: e_def counted_def refs_def)
  have vb: "bounded (vfresh e) (versions_at e)" using e(1) by (simp add: counted_def)
  have one: "cnt (versions_at e) P = cnt ((versions_at e)(v := None)) P + (if P ve then 1 else 0)" for P
    by (rule cnt_gone [OF vb e(2)])
  have "\<exists>m. blob_unref (ve_blob ve) e = Some (e\<lparr>blobs := m\<rparr>) \<and> bounded (bfresh e) m
    \<and> (\<forall>a. blob_ok (m a) (if ve_blob ve = Some a then refs e h a - 1 else refs e h a))"
  proof (cases "ve_blob ve")
    case None
    then show ?thesis using e(1) by (auto simp: blob_unref_def counted_def intro!: exI [of _ "blobs e"])
  next
    case (Some b)
    have "0 < refs e h b" by (simp add: refs_def one Some)
    from counted_unref [OF e(1) this] obtain m where "blob_unref (Some b) e = Some (e\<lparr>blobs := m\<rparr>)" "bounded (bfresh e) m"
      "\<forall>a. blob_ok (m a) (if a = b then refs e h b - 1 else refs e h a)" by blast
    then show ?thesis unfolding Some by (intro exI [of _ m] conjI) (auto split: if_splits)
  qed
  then obtain m where m: "blob_unref (ve_blob ve) e = Some (e\<lparr>blobs := m\<rparr>)" "bounded (bfresh e) m"
    "\<forall>a. blob_ok (m a) (if ve_blob ve = Some a then refs e h a - 1 else refs e h a)" by blast
  define d' where "d' = e\<lparr>blobs := m, versions_at := (versions_at e)(v := None)\<rparr>"
  have p: "perform (Version_Dispose v) (d, h) = Some (d', h)"
    using ve m(1) by (simp add: version_dispose_def d'_def e_def)
  have "refs d' h a = (if ve_blob ve = Some a then refs e h a - 1 else refs e h a)" for a
    by (simp add: refs_def d'_def one)
  with p m(2,3) e(1) bounded_updates(2) [OF vb] show ?thesis by (auto simp: counted_def d'_def)
qed

lemmas perform_counted_cases = perform_counted_blob_create perform_counted_blob_ref perform_counted_blob_unref
  perform_counted_key_create perform_counted_key_dispose perform_counted_version_create perform_counted_version_dispose

lemma perform_counted:
  "counted d h \<Longrightarrow> allowed a (d, h) \<Longrightarrow> \<exists>d' h'. perform a (d, h) = Some (d', h') \<and> counted d' h'"
  by (cases a) (simp_all only: allowed.simps perform_counted_cases not_False_eq_True simp_thms)

lemma counted_start: "counted (no_data\<lparr>xtrans := m0\<rparr>) (\<lambda>_. 0)"
  by (simp add: counted_def no_data_def refs_def cnt_def bounded_def blob_ok_def)

lemma held_state_counted: "held_state m0 s \<Longrightarrow> counted (fst s) (snd s)"
proof (induction rule: held_state.induct)
  case start
  show ?case by (simp add: counted_start)
next
  case (step s a s')
  then show ?case using perform_counted [of "fst s" "snd s" a] by auto
qed

text \<open>The references that versions hold on their creators.\<close>

definition creators :: "manager \<Rightarrow> xdata \<Rightarrow> bool" where
  "creators m0 d \<longleftrightarrow> (\<forall>t. tr_refcnt (mem (xtrans d) t) = tr_refcnt (mem m0 t) + of_nat (cnt (versions_at d) (\<lambda>v. ve_creator v = t)))"

lemma trans_ref_refcnt: "tr_refcnt (mem (trans_ref tp s) t) = tr_refcnt (mem s t) + (if t = tp then 1 else 0)"
  by (simp add: trans_ref_def)

lemma trans_unref_refcnt: "tr_refcnt (mem (trans_unref tp s) t) = tr_refcnt (mem s t) - (if t = tp then 1 else 0)"
  by (simp add: trans_ops)

lemma blob_unref_frame: "blob_unref bp d = Some d' \<Longrightarrow> xtrans d' = xtrans d \<and> versions_at d' = versions_at d"
  by (auto simp: blob_unref_def Let_def split: option.splits)

lemma creators_same: "xtrans d' = xtrans d \<Longrightarrow> versions_at d' = versions_at d \<Longrightarrow> creators m0 d' = creators m0 d"
  by (simp add: creators_def)

lemma perform_creators:
  assumes "counted d h" "creators m0 d" "allowed a (d, h)" "perform a (d, h) = Some (d', h')"
  shows "creators m0 d'"
proof (cases a)
  case (Version_Create t bp)
  have v: "bounded (vfresh d) (versions_at d)" using assms(1) by (simp add: counted_def)
  show ?thesis
    using assms(2,4) Version_Create
    by (auto simp: version_create_def creators_def cnt_new [OF v] trans_ref_refcnt)
next
  case (Version_Dispose v)
  have vb: "bounded (vfresh d) (versions_at d)" using assms(1) by (simp add: counted_def)
  obtain ve where ve: "versions_at d v = Some ve" using assms(3) Version_Dispose by auto
  obtain e where e: "blob_unref (ve_blob ve) (d\<lparr>xtrans := trans_unref (ve_creator ve) (xtrans d)\<rparr>) = Some e"
    "d' = e\<lparr>versions_at := (versions_at e)(v := None)\<rparr>"
    using assms(4) Version_Dispose ve by (auto simp: version_dispose_def split: bind_splits)
  have d': "xtrans d' = trans_unref (ve_creator ve) (xtrans d)" "versions_at d' = (versions_at d)(v := None)"
    using blob_unref_frame [OF e(1)] e(2) by simp_all
  show ?thesis
    using assms(2) by (simp add: creators_def d' trans_unref_refcnt cnt_gone [OF vb ve])
next
  case (Key_Dispose k)
  then show ?thesis
    using assms(2,4) by (auto simp: key_dispose_def dest!: blob_unref_frame split: option.splits bind_splits simp: creators_def)
next
  case (Blob_Unref b)
  then show ?thesis using assms(2,4) by (auto dest!: blob_unref_frame split: bind_splits simp: creators_def)
qed (use assms(2,4) in \<open>auto simp: blob_create_def blob_ref_def key_create_def creators_def split: option.splits bind_splits if_splits\<close>)

lemma held_state_creators: "held_state m0 s \<Longrightarrow> creators m0 (fst s)"
proof (induction rule: held_state.induct)
  case start
  show ?case by (simp add: creators_def no_data_def cnt_def)
next
  case (step s a s')
  then show ?case
    using perform_creators [of "fst s" "snd s" m0 a "fst s'" "snd s'"] held_state_counted [of m0 s] by simp
qed

text \<open>
  C5. Reference counting is exact for clients that follow the rules of \<open>data.h\<close> and do not take a reference to a blob that has
  \<open>INT_MAX\<close> of them. After any such
  sequence of operations a blob is allocated exactly as long as a caller, a key or a version refers to it,
  its count is the number of these references; the count of a transaction, modulo \<open>2 ^ 32\<close>, exceeds the one it had at the start by
  its versions; and no operation that the rules allow uses a freed object or overflows a count.
\<close>

theorem blob_refcounts_exact:
  assumes "held_state m0 (d, h)"
  shows "(\<forall>b. blobs d b = None \<longleftrightarrow> refs d h b = 0) \<and> (\<forall>b x. blobs d b = Some x \<longrightarrow> bl_refcnt x = int (refs d h b))
    \<and> (\<forall>t. tr_refcnt (mem (xtrans d) t) = tr_refcnt (mem m0 t) + of_nat (cnt (versions_at d) (\<lambda>v. ve_creator v = t)))
    \<and> (\<forall>a. allowed a (d, h) \<longrightarrow> perform a (d, h) \<noteq> None)"
proof -
  have c: "counted d h" "creators m0 d" using held_state_counted [OF assms] held_state_creators [OF assms] by simp_all
  then have "blob_ok (blobs d b) (refs d h b)" for b by (simp add: counted_def)
  then have "blobs d b = None \<longleftrightarrow> refs d h b = 0" "blobs d b = Some x \<longrightarrow> bl_refcnt x = int (refs d h b)" for b x
    by (auto simp: blob_ok_def split: option.splits dest!: meta_spec [of _ b])
  moreover have "allowed a (d, h) \<Longrightarrow> perform a (d, h) \<noteq> None" for a using perform_counted [OF c(1)] by fastforce
  ultimately show ?thesis using c(2) by (simp add: creators_def)
qed

fun performs :: "data_op list \<Rightarrow> xdata \<times> held \<Rightarrow> (xdata \<times> held) option" where
  "performs [] s = Some s"
| "performs (a # as) s = (if allowed a s then Option.bind (perform a s) (performs as) else None)"

lemma held_state_performs: "held_state m0 s \<Longrightarrow> performs as s = Some s' \<Longrightarrow> held_state m0 s'"
  by (induction as arbitrary: s) (auto intro: held_state.step split: if_splits bind_splits)

text \<open>A blob that is shared by a key and a version.\<close>

definition sharing :: "data_op list" where
  "sharing = [Blob_Create (Some [107]) 1, Blob_Ref 0, Key_Create 0, Version_Create 0 (Some 0), Key_Dispose 0]"

theorem blob_refcounts_exact_witness:
  "\<exists>d h x. performs sharing (no_data\<lparr>xtrans := trans_create trans_init\<rparr>, \<lambda>_. 0) = Some (d, h)
    \<and> h 0 = 0 \<and> blobs d 0 = Some x \<and> bl_refcnt x = int (refs d h 0) \<and> bl_refcnt x = 1
    \<and> tr_refcnt (mem (xtrans d) 0) = 1 + of_nat (cnt (versions_at d) (\<lambda>v. ve_creator v = 0))
    \<and> perform (Version_Dispose 0) (d, h) \<noteq> None"
proof -
  define m where "m = trans_create trans_init"
  have m: "tr_refcnt (mem m 0) = 1" by (simp add: m_def trans_create_def trans_init_def trans_ops)
  obtain d h where p: "performs sharing (no_data\<lparr>xtrans := m\<rparr>, \<lambda>_. 0) = Some (d, h)"
    and h: "h 0 = 0" and b: "blobs d 0 = Some \<lparr>bl_refcnt = 1, bl_size = 1, bl_content = Some [107, 0]\<rparr>"
    and v: "allowed (Version_Dispose 0) (d, h)"
    by (simp add: sharing_def blob_create_def blob_ref_def blob_unref_def key_create_def key_dispose_def version_create_def
        no_data_def blob_hash_def Let_def not_full_def INT_MAX_def)
  note e = blob_refcounts_exact [OF held_state_performs [OF held_state.start p]]
  from e have "perform (Version_Dispose 0) (d, h) \<noteq> None" using v by blast
  moreover from e have "tr_refcnt (mem (xtrans d) 0) = 1 + of_nat (cnt (versions_at d) (\<lambda>v. ve_creator v = 0))" using m by simp
  moreover from e have "bl_refcnt \<lparr>bl_refcnt = 1, bl_size = 1, bl_content = Some [107, 0]\<rparr> = int (refs d h 0)" using b by blast
  ultimately show ?thesis using p h b unfolding m_def [symmetric] by (intro exI [of _ d] exI [of _ h] exI conjI) (assumption | simp)+
qed

end
