(* ===== verification/Xacto_Net.thy ===== *)
theory Xacto_Net
  imports C_Digits
begin

text \<open>
  The connection side of the xacto server: the robust reads and writes of \<open>csapp.c\<close> that the
  protocol uses, the packets of \<open>protocol.c\<close>, the client registry and the port check of
  \<open>main.c\<close>. A connection is the list of the bytes that are still to be read; how many bytes
  one call of \<open>read\<close> or \<open>write\<close> transfers is chosen by an argument, which stands for the
  operating system. A write to a broken connection fails.
\<close>

section \<open>Robust I/O\<close>

text \<open>The \<open>k\<close>-th call of \<open>read\<close> with room for \<open>nleft\<close> bytes: at end of file nothing, otherwise at
  least one byte.\<close>

definition read_len :: "(nat \<Rightarrow> nat) \<Rightarrow> nat \<Rightarrow> nat \<Rightarrow> u8 list \<Rightarrow> nat" where
  "read_len os k nleft stream = min (max 1 (os k)) (min nleft (length stream))"

function rio_readn :: "(nat \<Rightarrow> nat) \<Rightarrow> nat \<Rightarrow> nat \<Rightarrow> u8 list \<Rightarrow> u8 list \<Rightarrow> u8 list \<times> u8 list" where
  "rio_readn os k nleft buf stream =
    (if nleft > 0 then
       let nread = read_len os k nleft stream
       in if nread = 0 then (buf, stream)
          else rio_readn os (k + 1) (nleft - nread) (buf @ take nread stream) (drop nread stream)
     else (buf, stream))"
  by pat_completeness auto
termination by (relation "measure (\<lambda>(kern, k, n, b, s). n)") (auto simp: read_len_def)

declare rio_readn.simps [simp del]

text \<open>A connection to write to: the bytes the peer will read, and whether it is broken.\<close>

record conn =
  cn_out :: "u8 list"
  cn_broken :: bool

function rio_writen :: "(nat \<Rightarrow> nat) \<Rightarrow> nat \<Rightarrow> u8 list \<Rightarrow> conn \<Rightarrow> conn option" where
  "rio_writen os k bytes c =
    (if length bytes > 0 then
       (if cn_broken c then None
        else let nwritten = min (max 1 (os k)) (length bytes)
             in rio_writen os (k + 1) (drop nwritten bytes)
                  (c\<lparr>cn_out := cn_out c @ take nwritten bytes\<rparr>))
     else Some c)"
  by pat_completeness auto
termination by (relation "measure (\<lambda>(kern, k, b, c). length b)") auto

declare rio_writen.simps [simp del]

lemma rio_readn_take:
  "rio_readn os k n buf stream = (buf @ take n stream, drop n stream)"
proof (induction os k n buf stream rule: rio_readn.induct)
  case (1 os k n buf stream)
  let ?m = "read_len os k n stream"
  show ?case
  proof (cases "n > 0 \<and> ?m \<noteq> 0")
    case True
    then have "rio_readn os k n buf stream =
        rio_readn os (k + 1) (n - ?m) (buf @ take ?m stream) (drop ?m stream)"
      by (subst rio_readn.simps) (simp add: Let_def)
    also have "\<dots> = ((buf @ take ?m stream) @ take (n - ?m) (drop ?m stream), drop (n - ?m) (drop ?m stream))"
      using True by (intro 1) auto
    also have "\<dots> = (buf @ take n stream, drop n stream)"
    proof -
      have "?m \<le> n" by (simp add: read_len_def)
      then show ?thesis using take_add [of ?m "n - ?m" stream] by simp
    qed
    finally show ?thesis .
  next
    case False
    then have "n = 0 \<or> stream = []" by (auto simp: read_len_def)
    then show ?thesis using False by (subst rio_readn.simps) (auto simp: Let_def)
  qed
qed

lemma rio_writen_append:
  "\<not> cn_broken c \<Longrightarrow> rio_writen os k bytes c = Some (c\<lparr>cn_out := cn_out c @ bytes\<rparr>)"
proof (induction os k bytes c rule: rio_writen.induct)
  case (1 os k bytes c)
  show ?case
  proof (cases "bytes = []")
    case True
    then show ?thesis by (simp add: rio_writen.simps)
  next
    case False
    let ?m = "min (max 1 (os k)) (length bytes)"
    have "rio_writen os k bytes c =
        rio_writen os (k + 1) (drop ?m bytes) (c\<lparr>cn_out := cn_out c @ take ?m bytes\<rparr>)"
      using False "1.prems" by (subst rio_writen.simps) (simp add: Let_def)
    also have "\<dots> = Some (c\<lparr>cn_out := (cn_out c @ take ?m bytes) @ drop ?m bytes\<rparr>)"
      using False "1.prems" 1 by simp
    finally show ?thesis by simp
  qed
qed

section \<open>Packets\<close>

record XACTO_PACKET =
  pk_type :: u8
  pk_status :: u8
  pk_null :: u8
  pk_size :: u32
  pk_sec :: u32
  pk_nsec :: u32

text \<open>\<open>htonl\<close> and \<open>ntohl\<close> on a little-endian machine swap the bytes of a word.\<close>

definition htonl :: "u32 \<Rightarrow> u32" where
  "htonl w = be32 (byte_of 0 w) (byte_of 1 w) (byte_of 2 w) (byte_of 3 w)"

text \<open>The memory of the structure: three bytes, one byte of padding, three words in little-endian
  order.\<close>

definition word_bytes :: "u32 \<Rightarrow> u8 list" where
  "word_bytes w = [byte_of 0 w, byte_of 1 w, byte_of 2 w, byte_of 3 w]"

definition bytes_word :: "u8 list \<Rightarrow> u32" where
  "bytes_word bs = be32 (bs ! 3) (bs ! 2) (bs ! 1) (bs ! 0)"

definition struct_bytes :: "u8 \<Rightarrow> XACTO_PACKET \<Rightarrow> u8 list" where
  "struct_bytes pad p = [pk_type p, pk_status p, pk_null p, pad] @ word_bytes (pk_size p)
     @ word_bytes (pk_sec p) @ word_bytes (pk_nsec p)"

definition bytes_struct :: "u8 list \<Rightarrow> XACTO_PACKET" where
  "bytes_struct bs = \<lparr>pk_type = bs ! 0, pk_status = bs ! 1, pk_null = bs ! 2,
     pk_size = bytes_word (take 4 (drop 4 bs)), pk_sec = bytes_word (take 4 (drop 8 bs)),
     pk_nsec = bytes_word (take 4 (drop 12 bs))\<rparr>"

definition proto_send_packet :: "(nat \<Rightarrow> nat) \<Rightarrow> u8 \<Rightarrow> XACTO_PACKET \<Rightarrow> u8 list option \<Rightarrow> conn
    \<Rightarrow> conn option" where
  "proto_send_packet os pad pkt data c =
    (let old_size = (if data \<noteq> None then unat (pk_size pkt) else 0);
         pkt = pkt\<lparr>pk_size := htonl (pk_size pkt), pk_sec := htonl (pk_sec pkt), pk_nsec := htonl (pk_nsec pkt)\<rparr>
     in Option.bind (rio_writen os 0 (struct_bytes pad pkt) c) (\<lambda>c.
          if old_size \<noteq> 0 then rio_writen os 0 (take old_size (the data)) c else Some c))"

text \<open>
  A short read overwrites only the first bytes of its buffer: the structure of the caller or
  the zeroed payload. \<open>want\<close> tells whether \<open>datap\<close> is not \<open>NULL\<close>; the result is the packet, the
  payload that was stored, and the bytes left in the connection.
\<close>

definition proto_recv_packet :: "(nat \<Rightarrow> nat) \<Rightarrow> u8 list \<Rightarrow> bool \<Rightarrow> u8 list
    \<Rightarrow> (XACTO_PACKET \<times> u8 list option \<times> u8 list) option" where
  "proto_recv_packet os pktmem want stream =
    (let (hd_bytes, stream) = rio_readn os 0 16 [] stream
     in if length hd_bytes = 0 then None
        else
          let pkt = bytes_struct (hd_bytes @ drop (length hd_bytes) pktmem);
              pkt = pkt\<lparr>pk_size := htonl (pk_size pkt), pk_sec := htonl (pk_sec pkt), pk_nsec := htonl (pk_nsec pkt)\<rparr>
          in if want \<and> pk_size pkt \<noteq> 0 then
               let n = unat (pk_size pkt); (payload, stream) = rio_readn os 0 n [] stream
               in if length payload = 0 then None
                  else Some (pkt, Some (payload @ replicate (n - length payload) 0), stream)
             else Some (pkt, None, stream))"

section \<open>The client registry\<close>

record CLIENT_REGISTRY =
  cr_fds :: "nat set"
  cr_sem :: nat
  cr_val :: u32

definition creg_init :: CLIENT_REGISTRY where
  "creg_init = \<lparr>cr_fds = {}, cr_sem = 0, cr_val = 0\<rparr>"

definition creg_register :: "nat \<Rightarrow> CLIENT_REGISTRY \<Rightarrow> CLIENT_REGISTRY" where
  "creg_register fd cr = cr\<lparr>cr_val := cr_val cr + 1, cr_fds := insert fd (cr_fds cr)\<rparr>"

text \<open>Unregistering is a critical section followed, without the mutex, by a test of the count and a post. The
  descriptors are less than \<open>FD_SETSIZE\<close>.\<close>

definition creg_remove :: "nat \<Rightarrow> CLIENT_REGISTRY \<Rightarrow> CLIENT_REGISTRY" where
  "creg_remove fd cr = cr\<lparr>cr_val := cr_val cr - 1, cr_fds := cr_fds cr - {fd}\<rparr>"

definition creg_is_empty :: "CLIENT_REGISTRY \<Rightarrow> bool" where
  "creg_is_empty cr \<longleftrightarrow> cr_val cr = 0"

definition creg_post :: "CLIENT_REGISTRY \<Rightarrow> CLIENT_REGISTRY" where
  "creg_post cr = cr\<lparr>cr_sem := cr_sem cr + 1\<rparr>"

definition creg_unregister :: "nat \<Rightarrow> CLIENT_REGISTRY \<Rightarrow> CLIENT_REGISTRY" where
  "creg_unregister fd cr = (let cr = creg_remove fd cr in if creg_is_empty cr then creg_post cr else cr)"

text \<open>\<open>None\<close>: the caller is blocked.\<close>

definition creg_wait_for_empty :: "CLIENT_REGISTRY \<Rightarrow> CLIENT_REGISTRY option" where
  "creg_wait_for_empty cr = (if cr_sem cr > 0 then Some (cr\<lparr>cr_sem := cr_sem cr - 1\<rparr>) else None)"

text \<open>The descriptors that are shut down, in order; \<open>FD_SETSIZE\<close> is 1024.\<close>

definition creg_shutdown_all :: "CLIENT_REGISTRY \<Rightarrow> nat list" where
  "creg_shutdown_all cr = filter (\<lambda>i. i \<in> cr_fds cr) [0..<1024]"

text \<open>
  Threads that use the registry, one access at a time: besides the registry, the number of threads that have removed
  their client and not yet tested the count, of those that will post, whether the set was ever emptied, and the
  number of waits that have returned.
\<close>

inductive registry_run :: "CLIENT_REGISTRY \<times> nat \<times> nat \<times> bool \<times> nat \<Rightarrow> bool" where
  init: "registry_run (creg_init, 0, 0, False, 0)"
| register: "registry_run (cr, tests, posts, emptied, waits) \<Longrightarrow> fd < 1024 \<Longrightarrow> fd \<notin> cr_fds cr
    \<Longrightarrow> registry_run (creg_register fd cr, tests, posts, emptied, waits)"
| remove: "registry_run (cr, tests, posts, emptied, waits) \<Longrightarrow> fd \<in> cr_fds cr
    \<Longrightarrow> registry_run (creg_remove fd cr, tests + 1, posts, emptied \<or> cr_fds cr = {fd}, waits)"
| test: "registry_run (cr, Suc tests, posts, emptied, waits)
    \<Longrightarrow> registry_run (cr, tests, if creg_is_empty cr then posts + 1 else posts, emptied, waits)"
| post: "registry_run (cr, tests, Suc posts, emptied, waits) \<Longrightarrow> registry_run (creg_post cr, tests, posts, emptied, waits)"
| wait: "registry_run (cr, tests, posts, emptied, waits) \<Longrightarrow> creg_wait_for_empty cr = Some cr'
    \<Longrightarrow> registry_run (cr', tests, posts, emptied, waits + 1)"

section \<open>The port check\<close>

fun valid_port_loop :: "cstring \<Rightarrow> i32 \<Rightarrow> i32 option" where
  "valid_port_loop [] port = Some port"
| "valid_port_loop (c # cs) port =
    (if ord c < 48 \<or> ord c > 57 then None
     else valid_port_loop cs (port * 10 + of_nat (ord c - 48)))"

definition valid_port :: "cstring \<Rightarrow> int" where
  "valid_port str =
    (case valid_port_loop str 0 of
       None \<Rightarrow> -1
     | Some port \<Rightarrow> if sint port < 0 \<or> sint port > 65535 then -1 else 1)"

section \<open>Sending and receiving\<close>

lemma htonl_htonl [simp]: "htonl (htonl w) = w"
  by (simp only: htonl_def byte_of_be32 be32_bytes)

lemma bytes_word_bytes [simp]: "bytes_word (word_bytes w) = w"
  using be32_bytes [of w] by (simp add: bytes_word_def word_bytes_def numeral_3_eq_3 numeral_2_eq_2)

lemma length_word_bytes [simp]: "length (word_bytes w) = 4"
  by (simp add: word_bytes_def)

lemma length_struct_bytes [simp]: "length (struct_bytes pad p) = 16"
  by (simp add: struct_bytes_def)

lemma bytes_struct_bytes [simp]: "bytes_struct (struct_bytes pad p) = p"
  by (cases p) (simp add: bytes_struct_def struct_bytes_def)

definition to_net :: "XACTO_PACKET \<Rightarrow> XACTO_PACKET" where
  "to_net p = p\<lparr>pk_size := htonl (pk_size p), pk_sec := htonl (pk_sec p), pk_nsec := htonl (pk_nsec p)\<rparr>"

lemma to_net_to_net [simp]: "to_net (to_net p) = p"
  by (simp add: to_net_def)

text \<open>The bytes of a packet with its payload on the wire.\<close>

definition wire :: "u8 \<Rightarrow> XACTO_PACKET \<Rightarrow> u8 list option \<Rightarrow> u8 list" where
  "wire pad p data = struct_bytes pad (to_net p) @ (case data of None \<Rightarrow> [] | Some d \<Rightarrow> d)"

lemma send_wire:
  assumes "\<not> cn_broken c" "case data of None \<Rightarrow> True | Some d \<Rightarrow> length d = unat (pk_size p)"
  shows "proto_send_packet os pad p data c = Some (c\<lparr>cn_out := cn_out c @ wire pad p data\<rparr>)"
  using assms by (cases data) (auto simp: proto_send_packet_def rio_writen_append wire_def to_net_def Let_def)

lemma bytes_struct_prefix: "length hdr = 16 \<Longrightarrow> bytes_struct (hdr @ m) = bytes_struct hdr"
  by (simp add: bytes_struct_def nth_append)

lemma recv_header:
  assumes "length hdr = 16"
  shows "proto_recv_packet os m want (hdr @ rest) =
    (let pkt = to_net (bytes_struct hdr) in
     if want \<and> pk_size pkt \<noteq> 0 then
       let n = unat (pk_size pkt); payload = take n rest
       in if payload = [] then None
          else Some (pkt, Some (payload @ replicate (n - length payload) 0), drop n rest)
     else Some (pkt, None, rest))"
proof -
  have "rio_readn os 0 16 [] (hdr @ rest) = (hdr, rest)" using assms by (simp add: rio_readn_take)
  moreover have "rio_readn os 0 n [] rest = (take n rest, drop n rest)" for n by (simp add: rio_readn_take)
  ultimately show ?thesis
    unfolding proto_recv_packet_def using assms
    by (simp only: Let_def prod.case length_0_conv bytes_struct_prefix to_net_def [symmetric]) auto
qed

section \<open>Properties\<close>

text \<open>
  C20. A packet that \<open>proto_send_packet\<close> has written is read back by \<open>proto_recv_packet\<close>, with its
  fields in host order, its payload and the rest of the connection untouched, however the
  operating system splits the transfers; with no payload when none is wanted or sent.
\<close>

theorem proto_roundtrip:
  assumes "\<not> cn_broken c" "length d = unat (pk_size p)" "0 < length d"
  shows "\<exists>c' bytes. proto_send_packet os pad p (Some d) c = Some c' \<and> cn_out c' = cn_out c @ bytes
    \<and> proto_recv_packet os' m True (bytes @ rest) = Some (p, Some d, rest)"
proof -
  have "proto_recv_packet os' m True (wire pad p (Some d) @ rest) = Some (p, Some d, rest)"
    using recv_header [of "struct_bytes pad (to_net p)" os' m True "d @ rest"] assms
    by (auto simp: wire_def Let_def)
  then show ?thesis using send_wire [OF assms(1), of p "Some d" os pad] assms(2) by auto
qed

definition put_packet :: XACTO_PACKET where
  "put_packet = \<lparr>pk_type = 3, pk_status = 0, pk_null = 0, pk_size = 2, pk_sec = 0x12345678, pk_nsec = 5\<rparr>"

theorem proto_roundtrip_witness:
  "\<exists>c' bytes. proto_send_packet (\<lambda>k. k) 0 put_packet (Some [65, 66]) \<lparr>cn_out = [1], cn_broken = False\<rparr> = Some c'
    \<and> cn_out c' = [1] @ bytes
    \<and> proto_recv_packet (\<lambda>k. 3) [] True (bytes @ [9]) = Some (put_packet, Some [65, 66], [9])"
  using proto_roundtrip [of "\<lparr>cn_out = [1], cn_broken = False\<rparr>" "[65, 66]" put_packet "\<lambda>k. k" 0 "\<lambda>k. 3" "[]" "[9]"]
  by (simp add: put_packet_def)

text \<open>
  A connection that ends in the middle of a payload is not reported as an error: as soon as
  one byte of the payload has arrived, \<open>proto_recv_packet\<close> succeeds and hands out a payload of
  the announced size whose missing bytes are 0.
\<close>

theorem truncated_payload_accepted:
  assumes "length hdr = 16" "n = unat (htonl (pk_size (bytes_struct hdr)))"
    and "0 < length part" "length part < n"
  shows "\<exists>p. proto_recv_packet os m True (hdr @ part) = Some (p, Some (part @ replicate (n - length part) 0), [])
    \<and> pk_size p = of_nat n"
proof -
  have n: "pk_size (to_net (bytes_struct hdr)) = htonl (pk_size (bytes_struct hdr))" by (simp add: to_net_def)
  then have "pk_size (to_net (bytes_struct hdr)) = of_nat n" using assms(2) by simp
  moreover have "pk_size (to_net (bytes_struct hdr)) \<noteq> 0" using assms(2,4) n by auto
  ultimately show ?thesis
    using recv_header [OF assms(1), of os m True part] assms n by (auto simp: Let_def)
qed

theorem truncated_payload_accepted_witness:
  "\<exists>p. proto_recv_packet (\<lambda>k. 1) [] True (struct_bytes 0 (to_net put_packet) @ [65]) = Some (p, Some [65, 0], [])"
proof -
  have "2 = unat (htonl (pk_size (bytes_struct (struct_bytes 0 (to_net put_packet)))))"
    by (simp add: to_net_def put_packet_def)
  from truncated_payload_accepted [OF length_struct_bytes this, of "[65]" "\<lambda>k. 1" "[]"] show ?thesis by simp blast
qed

section \<open>The registry counts its clients\<close>

text \<open>The count is exact; a post, made or to come, or a return needs an emptied set, and an emptied set that is still
  empty has one of them, unless a test is still to come.\<close>

definition registry_ok :: "CLIENT_REGISTRY \<Rightarrow> nat \<Rightarrow> nat \<Rightarrow> bool \<Rightarrow> nat \<Rightarrow> bool" where
  "registry_ok cr tests posts emptied waits \<longleftrightarrow> cr_fds cr \<subseteq> {..<1024} \<and> cr_val cr = of_nat (card (cr_fds cr))
     \<and> (cr_fds cr = {} \<longrightarrow> 0 < tests \<longrightarrow> emptied) \<and> (0 < posts + cr_sem cr + waits \<longrightarrow> emptied)
     \<and> (cr_fds cr = {} \<longrightarrow> emptied \<longrightarrow> 0 < tests + posts + cr_sem cr + waits)"

lemma small_card: "A \<subseteq> {..<1024} \<Longrightarrow> finite A \<and> card A \<le> 1024" for A :: "nat set"
  using card_mono [of "{..<1024}" A] finite_subset [of A "{..<1024}"] by auto

lemma registry_val:
  assumes "cr_fds cr \<subseteq> {..<1024}" "cr_val cr = of_nat (card (cr_fds cr))"
  shows "unat (cr_val cr) = card (cr_fds cr)" "creg_is_empty cr \<longleftrightarrow> cr_fds cr = {}"
proof -
  have c: "finite (cr_fds cr)" "card (cr_fds cr) \<le> 1024" using small_card [OF assms(1)] by auto
  then show u: "unat (cr_val cr) = card (cr_fds cr)"
    unfolding assms(2) by (simp add: unsigned_of_nat take_bit_nat_eq_self)
  have "creg_is_empty cr \<longleftrightarrow> unat (cr_val cr) = 0" by (simp add: creg_is_empty_def unat_eq_zero)
  then show "creg_is_empty cr \<longleftrightarrow> cr_fds cr = {}" using u c(1) by simp
qed

lemma registry_register:
  assumes "registry_ok cr tests posts emptied waits" "fd < 1024" "fd \<notin> cr_fds cr"
  shows "registry_ok (creg_register fd cr) tests posts emptied waits"
proof -
  have "finite (cr_fds cr)" using assms(1) small_card by (auto simp: registry_ok_def)
  then show ?thesis using assms by (simp add: registry_ok_def creg_register_def)
qed

lemma registry_remove:
  assumes "registry_ok cr tests posts emptied waits" "fd \<in> cr_fds cr"
  shows "registry_ok (creg_remove fd cr) (tests + 1) posts (emptied \<or> cr_fds cr = {fd}) waits"
proof -
  have f: "finite (cr_fds cr)" using assms(1) small_card by (auto simp: registry_ok_def)
  then have "card (cr_fds cr) = Suc (card (cr_fds cr - {fd}))" using assms(2) by (metis card_Suc_Diff1)
  then have "cr_val cr - 1 = of_nat (card (cr_fds cr - {fd}))" using assms(1) by (simp add: registry_ok_def)
  then show ?thesis using assms by (auto simp: registry_ok_def creg_remove_def)
qed

lemma registry_test:
  assumes "registry_ok cr (Suc tests) posts emptied waits"
  shows "registry_ok cr tests (if creg_is_empty cr then posts + 1 else posts) emptied waits"
  using assms registry_val(2) [of cr] by (auto simp: registry_ok_def)

lemma registry_run_ok: "registry_run (cr, tests, posts, emptied, waits) \<Longrightarrow> registry_ok cr tests posts emptied waits"
proof (induction "(cr, tests, posts, emptied, waits)" arbitrary: cr tests posts emptied waits rule: registry_run.induct)
  case init
  show ?case by (simp add: registry_ok_def creg_init_def)
next
  case (register cr tests posts emptied waits fd)
  then show ?case by (intro registry_register)
next
  case (remove cr tests posts emptied waits fd)
  then show ?case by (intro registry_remove)
next
  case (test cr tests posts emptied waits)
  then show ?case by (intro registry_test)
next
  case (post cr tests posts emptied waits)
  then show ?case by (auto simp: registry_ok_def creg_post_def)
next
  case (wait cr tests posts emptied waits cr')
  then show ?case by (auto simp: registry_ok_def creg_wait_for_empty_def split: if_splits)
qed

text \<open>
  C31. In every interleaving of the critical sections, tests and posts of the registry's threads, its count is the number
  of connected clients; a call of \<open>creg_wait_for_empty\<close> returns only after the set of clients was emptied at some
  time, whether or not clients are connected now, so that it blocks forever when no client ever connected; and
  when the set was emptied and is empty, and no unregistration is under way, a call returns or one has returned.
\<close>

theorem creg_wait_history:
  assumes "registry_run (cr, tests, posts, emptied, waits)"
  shows "unat (cr_val cr) = card (cr_fds cr)
    \<and> (creg_wait_for_empty cr \<noteq> None \<or> 0 < waits \<longrightarrow> emptied)
    \<and> (emptied \<and> cr_fds cr = {} \<and> tests = 0 \<and> posts = 0 \<longrightarrow> creg_wait_for_empty cr \<noteq> None \<or> 0 < waits)"
  using registry_run_ok [OF assms] registry_val(1) [of cr]
  by (auto simp: registry_ok_def creg_wait_for_empty_def)

text \<open>Clients 4 and 5 leave at the same time, and their threads both see an empty set; then client 6 connects.\<close>

lemma both_post: "registry_run (creg_register 6 (creg_post (creg_post (creg_remove 5 (creg_remove 4 (creg_register 5
    (creg_register 4 creg_init)))))), 0, 0, True, 0)"
proof -
  let ?c = "creg_register 5 (creg_register 4 creg_init)"
  have 1: "registry_run (?c, 0, 0, False, 0)"
    by (intro registry_run.register registry_run.init) (simp_all add: creg_register_def creg_init_def)
  have 2: "registry_run (creg_remove 4 ?c, 1, 0, False, 0)"
    using registry_run.remove [OF 1, of 4] by (simp add: creg_register_def creg_init_def doubleton_eq_iff)
  have e5: "cr_fds (creg_remove 4 ?c) = {5}" by (auto simp: creg_register_def creg_init_def creg_remove_def)
  have 3: "registry_run (creg_remove 5 (creg_remove 4 ?c), 2, 0, True, 0)"
    using registry_run.remove [OF 2, of 5] e5 by (simp add: numeral_2_eq_2)
  have e: "creg_is_empty (creg_remove 5 (creg_remove 4 ?c))"
    by (simp add: creg_is_empty_def creg_remove_def creg_register_def creg_init_def)
  have 4: "registry_run (creg_remove 5 (creg_remove 4 ?c), 0, 2, True, 0)"
    using registry_run.test [of "creg_remove 5 (creg_remove 4 ?c)" 1 0 True 0] 3
      registry_run.test [of "creg_remove 5 (creg_remove 4 ?c)" 0 1 True 0] e by (simp add: numeral_2_eq_2)
  have 5: "registry_run (creg_post (creg_post (creg_remove 5 (creg_remove 4 ?c))), 0, 0, True, 0)"
    using 4 by (intro registry_run.post) (simp add: numeral_2_eq_2)
  show ?thesis
    by (rule registry_run.register [OF 5]) (simp_all add: creg_post_def creg_remove_def creg_register_def creg_init_def)
qed

theorem creg_wait_history_witness:
  "\<exists>cr. registry_run (cr, 0, 0, True, 0) \<and> unat (cr_val cr) = 1 \<and> creg_wait_for_empty cr \<noteq> None"
proof -
  let ?c = "creg_register 6 (creg_post (creg_post (creg_remove 5 (creg_remove 4 (creg_register 5 (creg_register 4 creg_init))))))"
  have "cr_fds ?c = {6}" "creg_wait_for_empty ?c \<noteq> None"
    by (auto simp: creg_wait_for_empty_def creg_post_def creg_remove_def creg_register_def creg_init_def)
  then show ?thesis using creg_wait_history [OF both_post] both_post by (intro exI [of _ ?c]) simp
qed

section \<open>Ports\<close>

lemma valid_port_loop_value:
  "valid_port_loop s (of_nat a) =
    (if list_all is_digit s then Some (of_nat (foldl (\<lambda>a c. a * 10 + (ord c - 48)) a s)) else None)"
proof (induction s arbitrary: a)
  case (Cons c s)
  have "valid_port_loop (c # s) (of_nat a) =
      (if is_digit c then valid_port_loop s (of_nat (a * 10 + (ord c - 48))) else None)"
    by (simp add: is_digit_def not_less algebra_simps)
  then show ?case using Cons [of "a * 10 + (ord c - 48)"] by simp
qed simp

text \<open>
  For a string of at most nine characters, \<open>valid_port\<close> accepts exactly the decimal numbers up
  to 65535; the empty string is accepted as 0.
\<close>

theorem valid_port_iff:
  assumes "length s \<le> 9"
  shows "valid_port s = 1 \<longleftrightarrow> list_all is_digit s \<and> dec_value s \<le> 65535"
proof (cases "list_all is_digit s")
  case True
  have "dec_value s < 10 ^ 9"
    using dec_value_less [OF True] power_increasing [OF assms, of "10 :: nat"] by simp
  then have "sint (of_nat (dec_value s) :: i32) = int (dec_value s)"
    by (simp add: signed_of_nat signed_take_bit_int_eq_self)
  then show ?thesis
    using valid_port_loop_value [of s 0] True by (simp add: valid_port_def dec_value_def)
next
  case False
  then show ?thesis using valid_port_loop_value [of s 0] by (simp add: valid_port_def)
qed

theorem valid_port_iff_witness: "valid_port ''8080'' = 1 \<and> valid_port ''65536'' \<noteq> 1 \<and> valid_port '''' = 1"
  using valid_port_iff [of "''8080''"] valid_port_iff [of "''65536''"] valid_port_iff [of "''''"]
  by (simp add: is_digit_def dec_value_def ord_def)

end
