(* ===== verification/Xacto_Server.thy ===== *)
theory Xacto_Server
  imports Xacto_Data Xacto_Net
begin

text \<open>
  The service of one client of the xacto server (\<open>xacto/src/server.c\<close>): it composes the protocol, the
  blobs and keys, the transactions, the client registry and the store. The store is an
  argument; \<open>store_c\<close> is the one of \<open>xacto/src/store.c\<close>. The result \<open>None\<close> means that the thread
  blocks forever, that the process is aborted, or that freed memory is used. The operating system chooses, for
  every call numbered by \<open>sv_calls\<close>, how transfers are split, the padding of a structure, the
  time and whether the connection breaks.
\<close>

section \<open>The environment of a service\<close>

record environ =
  e_os :: "nat \<Rightarrow> nat \<Rightarrow> nat"
  e_pad :: "nat \<Rightarrow> u8"
  e_clock :: "nat \<Rightarrow> u32 \<times> u32"
  e_break :: "nat \<Rightarrow> bool"

record store_ops =
  st_put :: "taddr \<Rightarrow> kaddr \<Rightarrow> baddr \<Rightarrow> xdata \<Rightarrow> int \<times> xdata"
  st_get :: "taddr \<Rightarrow> kaddr \<Rightarrow> baddr option \<Rightarrow> xdata \<Rightarrow> int \<times> baddr option \<times> xdata"

definition store_put :: "taddr \<Rightarrow> kaddr \<Rightarrow> baddr \<Rightarrow> xdata \<Rightarrow> int \<times> xdata" where
  "store_put tp key val d = (-1, d)"

definition store_get :: "taddr \<Rightarrow> kaddr \<Rightarrow> baddr option \<Rightarrow> xdata \<Rightarrow> int \<times> baddr option \<times> xdata" where
  "store_get tp key valuep d = (-1, valuep, d)"

definition store_c :: store_ops where
  "store_c = \<lparr>st_put = store_put, st_get = store_get\<rparr>"

record service =
  sv_in :: "u8 list"
  sv_conn :: conn
  sv_data :: xdata
  sv_reg :: CLIENT_REGISTRY
  sv_calls :: nat

section \<open>Codes\<close>

definition XACTO_PUT_PKT :: u8 where "XACTO_PUT_PKT = 1"
definition XACTO_GET_PKT :: u8 where "XACTO_GET_PKT = 2"
definition XACTO_DATA_PKT :: u8 where "XACTO_DATA_PKT = 3"
definition XACTO_COMMIT_PKT :: u8 where "XACTO_COMMIT_PKT = 4"
definition XACTO_REPLY_PKT :: u8 where "XACTO_REPLY_PKT = 5"

fun status_code :: "TRANS_STATUS \<Rightarrow> int" where
  "status_code TRANS_PENDING = 0"
| "status_code TRANS_COMMITTED = 1"
| "status_code TRANS_ABORTED = 2"

section \<open>Transactions to their end\<close>

text \<open>The thread of a transaction runs until \<open>trans_commit\<close> or \<open>trans_abort\<close> returns. Calling them with a transaction that
  was freed is undefined.\<close>

partial_function (option) thread_end :: "taddr \<Rightarrow> manager \<Rightarrow> (TRANS_STATUS \<times> manager) option" where
  "thread_end tp m =
    (case pcs m tp of
       Finished st \<Rightarrow> Some (st, m)
     | _ \<Rightarrow> Option.bind (run tp m) (thread_end tp))"

definition allocated :: "taddr \<Rightarrow> manager \<Rightarrow> bool" where
  "allocated tp m \<longleftrightarrow> tp \<in> set (trans_list m)"

definition commit_call :: "taddr \<Rightarrow> service \<Rightarrow> (TRANS_STATUS \<times> service) option" where
  "commit_call tp sv =
    (if allocated tp (xtrans (sv_data sv)) then
       Option.bind (thread_end tp (trans_commit tp (xtrans (sv_data sv)))) (\<lambda>(st, m).
         Some (st, sv\<lparr>sv_data := (sv_data sv)\<lparr>xtrans := m\<rparr>\<rparr>))
     else None)"

definition abort_call :: "taddr \<Rightarrow> service \<Rightarrow> service option" where
  "abort_call tp sv =
    (if allocated tp (xtrans (sv_data sv)) then
       Option.bind (thread_end tp (trans_abort tp (xtrans (sv_data sv)))) (\<lambda>(st, m).
         Some (sv\<lparr>sv_data := (sv_data sv)\<lparr>xtrans := m\<rparr>\<rparr>))
     else None)"

section \<open>Packets\<close>

text \<open>Receiving into zeroed memory; nothing is left to read when it fails.\<close>

definition recv :: "environ \<Rightarrow> bool \<Rightarrow> service \<Rightarrow> (XACTO_PACKET \<times> u8 list option) option \<times> service" where
  "recv E want sv =
    (let sv' = sv\<lparr>sv_calls := sv_calls sv + 1\<rparr>
     in case proto_recv_packet (e_os E (sv_calls sv)) (replicate 16 0) want (sv_in sv) of
          None \<Rightarrow> (None, sv'\<lparr>sv_in := []\<rparr>)
        | Some (pkt, payload, rest) \<Rightarrow> (Some (pkt, payload), sv'\<lparr>sv_in := rest\<rparr>))"

text \<open>\<open>reply\<close>: 0 or -1.\<close>

definition reply :: "environ \<Rightarrow> u8 \<Rightarrow> int \<Rightarrow> baddr option \<Rightarrow> service \<Rightarrow> (int \<times> service) option" where
  "reply E type status bp sv =
    (let i = sv_calls sv;
         is_reply = (type = XACTO_REPLY_PKT);
         blob = (case bp of None \<Rightarrow> None | Some a \<Rightarrow> blobs (sv_data sv) a);
         pkt = \<lparr>pk_type = type, pk_status = of_int status,
                pk_null = (if bp \<noteq> None \<or> is_reply then 0 else 1),
                pk_size = (case blob of Some b \<Rightarrow> if is_reply then 0 else of_nat (bl_size b) | None \<Rightarrow> 0),
                pk_sec = fst (e_clock E i), pk_nsec = snd (e_clock E i)\<rparr>;
         content = Option.bind blob bl_content;
         c = (sv_conn sv)\<lparr>cn_broken := cn_broken (sv_conn sv) \<or> e_break E i\<rparr>;
         sv = sv\<lparr>sv_calls := i + 1\<rparr>
     in if bp \<noteq> None \<and> blob = None then None
        else case proto_send_packet (e_os E i) (e_pad E i) pkt content c of
               None \<Rightarrow> Some (-1, sv\<lparr>sv_conn := c\<rparr>)
             | Some c \<Rightarrow> Some (0, sv\<lparr>sv_conn := c\<rparr>))"

text \<open>The result of a handler: whether the loop goes on.\<close>

definition abort_end :: "environ \<Rightarrow> taddr \<Rightarrow> service \<Rightarrow> (bool \<times> service) option" where
  "abort_end E tp sv =
    Option.bind (reply E XACTO_REPLY_PKT (status_code TRANS_ABORTED) None sv) (\<lambda>(_, sv).
    Option.bind (abort_call tp sv) (\<lambda>sv. Some (False, sv)))"

section \<open>Requests\<close>

definition xacto_put_pkt :: "environ \<Rightarrow> store_ops \<Rightarrow> taddr \<Rightarrow> service \<Rightarrow> (bool \<times> service) option" where
  "xacto_put_pkt E S tp sv =
    (case recv E True sv of
       (None, sv) \<Rightarrow> abort_end E tp sv
     | (Some (pkt1, key), sv) \<Rightarrow>
        (case recv E True sv of
           (None, sv) \<Rightarrow> abort_end E tp sv
         | (Some (pkt2, val), sv) \<Rightarrow>
            (let (bp1, d) = blob_create key (unat (pk_size pkt1)) (sv_data sv)
             in Option.bind (key_create (Some bp1) d) (\<lambda>(kp, d).
                let (bp2, d) = blob_create val (unat (pk_size pkt2)) d;
                    (st, d) = st_put S tp (the kp) bp2 d;
                    sv = sv\<lparr>sv_data := d\<rparr>
                in if st = status_code TRANS_ABORTED then abort_end E tp sv
                   else Option.bind (reply E XACTO_REPLY_PKT (status_code TRANS_PENDING) None sv) (\<lambda>(r, sv).
                     if r = -1 then abort_end E tp sv else Some (True, sv))))))"

definition xacto_get_pkt :: "environ \<Rightarrow> store_ops \<Rightarrow> taddr \<Rightarrow> service \<Rightarrow> (bool \<times> service) option" where
  "xacto_get_pkt E S tp sv =
    (case recv E True sv of
       (None, sv) \<Rightarrow> abort_end E tp sv
     | (Some (pkt1, key), sv) \<Rightarrow>
        (let (bp1, d) = blob_create key (unat (pk_size pkt1)) (sv_data sv)
         in Option.bind (key_create (Some bp1) d) (\<lambda>(kp, d).
            let (st, bp, d) = st_get S tp (the kp) (Some bp1) d;
                sv = sv\<lparr>sv_data := d\<rparr>
            in if st = status_code TRANS_ABORTED then abort_end E tp sv
               else Option.bind (reply E XACTO_REPLY_PKT (status_code TRANS_PENDING) bp sv) (\<lambda>(r, sv).
                 if r = -1 then abort_end E tp sv
                 else
                   let has = (case bp of None \<Rightarrow> False | Some a \<Rightarrow> Option.bind (blobs (sv_data sv) a) bl_content \<noteq> None)
                   in Option.bind (if has then blob_unref bp (sv_data sv) else Some (sv_data sv)) (\<lambda>d.
                      Option.bind (reply E XACTO_DATA_PKT (status_code TRANS_PENDING) bp (sv\<lparr>sv_data := d\<rparr>)) (\<lambda>(r, sv).
                        if r = -1 then abort_end E tp sv else Some (True, sv)))))))"

definition service_step :: "environ \<Rightarrow> store_ops \<Rightarrow> taddr \<Rightarrow> service \<Rightarrow> (bool \<times> service) option" where
  "service_step E S tp sv =
    (case recv E False sv of
       (None, sv) \<Rightarrow> abort_end E tp sv
     | (Some (pkt, _), sv) \<Rightarrow>
        (if pk_type pkt = XACTO_PUT_PKT then xacto_put_pkt E S tp sv
         else if pk_type pkt = XACTO_GET_PKT then xacto_get_pkt E S tp sv
         else if pk_type pkt = XACTO_COMMIT_PKT then
           Option.bind (commit_call tp sv) (\<lambda>(st, sv).
             Option.bind (reply E XACTO_REPLY_PKT (status_code st) None sv) (\<lambda>(r, sv).
               if st = TRANS_ABORTED then Some (False, sv)
               else if r = -1 then abort_end E tp sv
               else Some (False, sv)))
         else abort_end E tp sv))"

section \<open>The service loop\<close>

text \<open>Only a received packet keeps the loop going, and it takes bytes from the connection.\<close>

lemma recv_length:
  "recv E want sv = (r, sv') \<Longrightarrow> length (sv_in sv') \<le> length (sv_in sv) \<and> (r \<noteq> None \<longrightarrow> length (sv_in sv') < length (sv_in sv))"
  by (auto simp: recv_def proto_recv_packet_def rio_readn_take Let_def split: option.splits prod.splits if_splits)

lemma reply_in: "reply E t st bp sv = Some (r, sv') \<Longrightarrow> sv_in sv' = sv_in sv"
  by (auto simp: reply_def Let_def split: option.splits if_splits)

lemma abort_end_stops: "abort_end E tp sv = Some (go, sv') \<Longrightarrow> \<not> go"
  by (auto simp: abort_end_def split: bind_splits)

lemma put_length:
  "xacto_put_pkt E S tp sv = Some (True, sv') \<Longrightarrow> length (sv_in sv') \<le> length (sv_in sv)"
  by (auto simp: xacto_put_pkt_def Let_def split: prod.splits option.splits bind_splits if_splits
      dest!: recv_length reply_in abort_end_stops)

lemma get_length:
  "xacto_get_pkt E S tp sv = Some (True, sv') \<Longrightarrow> length (sv_in sv') \<le> length (sv_in sv)"
  by (auto simp: xacto_get_pkt_def Let_def split: prod.splits option.splits bind_splits if_splits
      dest!: recv_length reply_in abort_end_stops)

lemma service_step_length:
  "service_step E S tp sv = Some (True, sv') \<Longrightarrow> length (sv_in sv') < length (sv_in sv)"
  by (auto simp: service_step_def split: prod.splits option.splits bind_splits if_splits
      dest!: recv_length put_length get_length abort_end_stops)

function service_loop :: "environ \<Rightarrow> store_ops \<Rightarrow> taddr \<Rightarrow> service \<Rightarrow> service option" where
  "service_loop E S tp sv =
    Option.bind (service_step E S tp sv) (\<lambda>(go, sv). if go then service_loop E S tp sv else Some sv)"
  by pat_completeness auto
termination
  by (relation "measure (\<lambda>(E, S, tp, sv). length (sv_in sv))") (auto dest: service_step_length)

declare service_loop.simps [simp del]

definition xacto_client_service :: "environ \<Rightarrow> store_ops \<Rightarrow> nat \<Rightarrow> service \<Rightarrow> service option" where
  "xacto_client_service E S fd sv =
    (let sv = sv\<lparr>sv_reg := creg_register fd (sv_reg sv)\<rparr>;
         tp = fresh (xtrans (sv_data sv));
         sv = sv\<lparr>sv_data := (sv_data sv)\<lparr>xtrans := trans_create (xtrans (sv_data sv))\<rparr>\<rparr>
     in Option.bind (service_loop E S tp sv) (\<lambda>sv.
          Some (sv\<lparr>sv_reg := creg_unregister fd (sv_reg sv)\<rparr>)))"

section \<open>One call at a time\<close>

lemma thread_end_step: "run tp m = Some m' \<Longrightarrow> thread_end tp m = thread_end tp m'"
  by (subst thread_end.simps) (auto simp: run_def split: pc.split)

lemma thread_end_finished: "pcs m tp = Finished st \<Longrightarrow> thread_end tp m = Some (st, m)"
  by (subst thread_end.simps) simp

text \<open>A transaction with no dependencies that nobody waits for ends at once.\<close>

definition alone :: "taddr \<Rightarrow> manager \<Rightarrow> bool" where
  "alone tp m \<longleftrightarrow> tr_depends (mem m tp) = [] \<and> tr_waitcnt (mem m tp) = 0 \<and> tr_refcnt (mem m tp) = 1
     \<and> tr_status (mem m tp) = TRANS_PENDING \<and> allocated tp m"

lemma alone_create: "alone (fresh m) (trans_create m)"
  by (simp add: alone_def allocated_def trans_create_def trans_ops)

lemma commit_alone:
  assumes "alone tp m"
  shows "\<exists>m'. thread_end tp (trans_commit tp m) = Some (TRANS_COMMITTED, m') \<and> tr_status (mem m' tp) = TRANS_COMMITTED
    \<and> tr_refcnt (mem m' tp) = 0 \<and> \<not> allocated tp m'"
proof -
  note m = assms [unfolded alone_def]
  have "thread_end tp (trans_commit tp m) = thread_end tp (goto tp (Check []) m)"
    using m by (simp add: trans_commit_def)
  also have "\<dots> = thread_end tp (goto tp (Scan []) m)" by (rule thread_end_step) (use m in \<open>simp add: run_def\<close>)
  also have "\<dots> = thread_end tp (goto tp CRead m)" by (rule thread_end_step) (simp add: run_def)
  also have "\<dots> = thread_end tp (goto tp (CPost 0) m)" by (rule thread_end_step) (use m in \<open>simp add: run_def\<close>)
  also have "\<dots> = thread_end tp (goto tp CSet m)" by (rule thread_end_step) (simp add: run_def)
  also have "\<dots> = thread_end tp (goto tp CUnref (upd tp (\<lambda>t. t\<lparr>tr_status := TRANS_COMMITTED\<rparr>) m))"
    by (rule thread_end_step) (simp add: run_def)
  also have "\<dots> = thread_end tp (goto tp CFree (trans_release tp (goto tp CUnref (upd tp (\<lambda>t. t\<lparr>tr_status := TRANS_COMMITTED\<rparr>) m))))"
    by (rule thread_end_step) (simp add: run_def)
  also have "\<dots> = thread_end tp (goto tp (Finished TRANS_COMMITTED) (trans_free tp
      (goto tp CFree (trans_release tp (goto tp CUnref (upd tp (\<lambda>t. t\<lparr>tr_status := TRANS_COMMITTED\<rparr>) m))))))"
    by (rule thread_end_step) (simp add: run_def)
  finally show ?thesis using m by (simp add: thread_end_finished trans_ops allocated_def)
qed

lemma abort_alone:
  assumes "alone tp m"
  shows "\<exists>m'. thread_end tp (trans_abort tp m) = Some (TRANS_ABORTED, m') \<and> tr_status (mem m' tp) = TRANS_ABORTED
    \<and> tr_refcnt (mem m' tp) = 0"
proof -
  note m = assms [unfolded alone_def]
  define n where "n = upd tp (\<lambda>t. t\<lparr>tr_status := TRANS_ABORTED\<rparr>) m"
  have "thread_end tp (trans_abort tp m) = thread_end tp (goto tp ARead n)"
    by (rule thread_end_step) (use m in \<open>simp add: run_def trans_abort_def n_def\<close>)
  also have "\<dots> = thread_end tp (goto tp (APost 0) n)" by (rule thread_end_step) (use m in \<open>simp add: run_def n_def\<close>)
  also have "\<dots> = thread_end tp (goto tp AUnref n)" by (rule thread_end_step) (simp add: run_def)
  also have "\<dots> = thread_end tp (goto tp AFree (trans_release tp (goto tp AUnref n)))"
    by (rule thread_end_step) (simp add: run_def)
  also have "\<dots> = thread_end tp (goto tp (Finished TRANS_ABORTED) (trans_free tp (goto tp AFree (trans_release tp (goto tp AUnref n)))))"
    by (rule thread_end_step) (simp add: run_def)
  finally show ?thesis using m by (simp add: thread_end_finished trans_ops n_def)
qed

text \<open>Receiving a packet that is complete on the connection.\<close>

definition payload :: "u8 list \<Rightarrow> u8 list option" where
  "payload d = (if d = [] then None else Some d)"

lemma recv_wire:
  assumes "sv_in sv = wire pad p (Some d) @ rest" "length d = unat (pk_size p)"
  shows "recv E True sv = (Some (p, payload d), sv\<lparr>sv_calls := sv_calls sv + 1, sv_in := rest\<rparr>)"
proof -
  have "pk_size p = 0 \<longleftrightarrow> d = []" using assms(2) by (simp add: unat_eq_zero flip: length_0_conv)
  then show ?thesis
    using recv_header [of "struct_bytes pad (to_net p)" "e_os E (sv_calls sv)" "replicate 16 0" True "d @ rest"] assms
    by (auto simp: recv_def wire_def Let_def payload_def)
qed

lemma recv_header_only:
  assumes "sv_in sv = wire pad p None @ rest"
  shows "recv E False sv = (Some (p, None), sv\<lparr>sv_calls := sv_calls sv + 1, sv_in := rest\<rparr>)"
  using recv_header [of "struct_bytes pad (to_net p)" "e_os E (sv_calls sv)" "replicate 16 0" False rest] assms
  by (simp add: recv_def wire_def Let_def)

lemma recv_eof: "sv_in sv = [] \<Longrightarrow> recv E want sv = (None, sv\<lparr>sv_calls := sv_calls sv + 1\<rparr>)"
  by (cases sv) (simp add: recv_def proto_recv_packet_def rio_readn_take)

text \<open>A reply on a connection that works.\<close>

definition reply_packet :: "environ \<Rightarrow> nat \<Rightarrow> int \<Rightarrow> XACTO_PACKET" where
  "reply_packet E i status = \<lparr>pk_type = XACTO_REPLY_PKT, pk_status = of_int status, pk_null = 0, pk_size = 0,
     pk_sec = fst (e_clock E i), pk_nsec = snd (e_clock E i)\<rparr>"

definition working :: "environ \<Rightarrow> service \<Rightarrow> bool" where
  "working E sv \<longleftrightarrow> \<not> cn_broken (sv_conn sv) \<and> (\<forall>i. \<not> e_break E i)"

definition said :: "u8 list \<Rightarrow> service \<Rightarrow> service" where
  "said bytes sv = sv\<lparr>sv_conn := (sv_conn sv)\<lparr>cn_out := cn_out (sv_conn sv) @ bytes\<rparr>\<rparr>"

lemma reply_works:
  assumes "working E sv"
  shows "reply E XACTO_REPLY_PKT st None sv
    = Some (0, said (wire (e_pad E (sv_calls sv)) (reply_packet E (sv_calls sv) st) None) (sv\<lparr>sv_calls := sv_calls sv + 1\<rparr>))"
  using assms by (simp add: reply_def working_def send_wire reply_packet_def said_def Let_def)

section \<open>Clients that put and end\<close>

text \<open>A PUT request: its packet, the key and the value, each with its packet; the numbers are the padding.\<close>

type_synonym put_request = "(u8 \<times> XACTO_PACKET) \<times> (u8 \<times> XACTO_PACKET \<times> u8 list) \<times> (u8 \<times> XACTO_PACKET \<times> u8 list)"

fun valid_put :: "put_request \<Rightarrow> bool" where
  "valid_put ((n, p), (nk, pk, k), (nv, pv, v)) \<longleftrightarrow>
     pk_type p = XACTO_PUT_PKT \<and> length k = unat (pk_size pk) \<and> length v = unat (pk_size pv)"

fun put_wire :: "put_request \<Rightarrow> u8 list" where
  "put_wire ((n, p), (nk, pk, k), (nv, pv, v)) = wire n p None @ wire nk pk (Some k) @ wire nv pv (Some v)"

text \<open>What the client sends after its last PUT: nothing, or a packet that is neither PUT nor GET.\<close>

definition ends :: "u8 list \<Rightarrow> TRANS_STATUS \<Rightarrow> bool" where
  "ends bytes st \<longleftrightarrow> (bytes = [] \<and> st = TRANS_ABORTED)
     \<or> (\<exists>n p rest. bytes = wire n p None @ rest \<and> pk_type p \<notin> {XACTO_PUT_PKT, XACTO_GET_PKT}
          \<and> st = (if pk_type p = XACTO_COMMIT_PKT then TRANS_COMMITTED else TRANS_ABORTED))"

text \<open>The service goes from one state to another with the same transaction and registry and has sent replies with some statuses.\<close>

definition answers :: "service \<Rightarrow> int list \<Rightarrow> service \<Rightarrow> bool" where
  "answers sv sts sv' \<longleftrightarrow> (\<exists>ps. cn_out (sv_conn sv') = cn_out (sv_conn sv) @ concat (map (\<lambda>(n, p). wire n p None) ps)
       \<and> map (\<lambda>(n, p). (pk_type p, pk_status p)) ps = map (\<lambda>st. (XACTO_REPLY_PKT, of_int st)) sts)
     \<and> cn_broken (sv_conn sv') = cn_broken (sv_conn sv) \<and> sv_reg sv' = sv_reg sv"

lemma answers_refl: "answers sv [] sv"
  by (simp add: answers_def)

lemma answers_trans: "answers sv xs sv' \<Longrightarrow> answers sv' ys sv'' \<Longrightarrow> answers sv (xs @ ys) sv''"
  unfolding answers_def
proof (elim conjE exE, intro conjI)
  fix ps qs
  assume p: "cn_out (sv_conn sv') = cn_out (sv_conn sv) @ concat (map (\<lambda>(n, p). wire n p None) ps)"
    "map (\<lambda>(n, p). (pk_type p, pk_status p)) ps = map (\<lambda>st. (XACTO_REPLY_PKT, of_int st)) xs"
    and q: "cn_out (sv_conn sv'') = cn_out (sv_conn sv') @ concat (map (\<lambda>(n, p). wire n p None) qs)"
    "map (\<lambda>(n, p). (pk_type p, pk_status p)) qs = map (\<lambda>st. (XACTO_REPLY_PKT, of_int st)) ys"
  show "\<exists>ps. cn_out (sv_conn sv'') = cn_out (sv_conn sv) @ concat (map (\<lambda>(n, p). wire n p None) ps)
       \<and> map (\<lambda>(n, p). (pk_type p, pk_status p)) ps = map (\<lambda>st. (XACTO_REPLY_PKT, of_int st)) (xs @ ys)"
    using p q by (intro exI [of _ "ps @ qs"]) simp
qed simp_all

lemma answers_reply:
  "sv_conn sv' = sv_conn sv \<Longrightarrow> sv_reg sv' = sv_reg sv \<Longrightarrow> answers sv [st] (said (wire n (reply_packet E i st) None) sv')"
  unfolding answers_def by (auto simp: said_def reply_packet_def intro!: exI [of _ "[(n, reply_packet E i st)]"])

lemma put_step:
  assumes "working E sv" "valid_put r" "sv_in sv = put_wire r @ rest"
  shows "\<exists>sv'. service_step E store_c tp sv = Some (True, sv') \<and> answers sv [0] sv' \<and> sv_in sv' = rest
    \<and> xtrans (sv_data sv') = xtrans (sv_data sv)"
proof -
  obtain n p nk pk k nv pv v where r: "r = ((n, p), (nk, pk, k), (nv, pv, v))" by (cases r rule: valid_put.cases)
  note v = assms(2) [unfolded r valid_put.simps]
  define sv1 where "sv1 = sv\<lparr>sv_calls := sv_calls sv + 1, sv_in := wire nk pk (Some k) @ wire nv pv (Some v) @ rest\<rparr>"
  define sv2 where "sv2 = sv1\<lparr>sv_calls := sv_calls sv1 + 1, sv_in := wire nv pv (Some v) @ rest\<rparr>"
  define sv3 where "sv3 = sv2\<lparr>sv_calls := sv_calls sv2 + 1, sv_in := rest\<rparr>"
  have r1: "recv E False sv = (Some (p, None), sv1)"
    using recv_header_only [of sv n p] assms(3) r by (simp add: sv1_def)
  have r2: "recv E True sv1 = (Some (pk, payload k), sv2)"
    using recv_wire [of sv1 nk pk k] v by (simp add: sv1_def sv2_def)
  have r3: "recv E True sv2 = (Some (pv, payload v), sv3)"
    using recv_wire [of sv2 nv pv v] v by (simp add: sv2_def sv3_def)
  have f: "sv_data sv3 = sv_data sv" "sv_conn sv3 = sv_conn sv" "sv_reg sv3 = sv_reg sv" "sv_in sv3 = rest"
    by (simp_all add: sv1_def sv2_def sv3_def)
  obtain d where d: "xacto_put_pkt E store_c tp sv1
      = Option.bind (reply E XACTO_REPLY_PKT 0 None (sv3\<lparr>sv_data := d\<rparr>)) (\<lambda>(r, sv). if r = -1 then abort_end E tp sv else Some (True, sv))"
    "xtrans d = xtrans (sv_data sv)"
    by (simp add: xacto_put_pkt_def r2 r3 store_c_def store_put_def key_create_def blob_hash_def blob_create_def f Let_def)
  have s: "service_step E store_c tp sv = xacto_put_pkt E store_c tp sv1"
    using v by (simp add: service_step_def r1)
  define sv4 where "sv4 = sv3\<lparr>sv_data := d\<rparr>"
  have "working E sv4" using assms(1) by (simp add: working_def sv4_def f)
  note rep = reply_works [OF this, of 0]
  show ?thesis
    unfolding s d(1) sv4_def [symmetric] rep
    by (simp add: answers_reply sv4_def f) (simp add: said_def f d(2))
qed

lemma abort_step:
  assumes "working E sv" "alone tp (xtrans (sv_data sv))"
  shows "\<exists>sv'. abort_end E tp sv = Some (False, sv') \<and> answers sv [2] sv'
    \<and> tr_status (mem (xtrans (sv_data sv')) tp) = TRANS_ABORTED \<and> tr_refcnt (mem (xtrans (sv_data sv')) tp) = 0"
proof -
  define sv1 where "sv1 = said (wire (e_pad E (sv_calls sv)) (reply_packet E (sv_calls sv) 2) None) (sv\<lparr>sv_calls := sv_calls sv + 1\<rparr>)"
  have x: "xtrans (sv_data sv1) = xtrans (sv_data sv)" "answers sv [2] sv1"
    by (simp_all add: sv1_def answers_reply) (simp add: said_def)
  obtain m' where m: "thread_end tp (trans_abort tp (xtrans (sv_data sv1))) = Some (TRANS_ABORTED, m')"
    "tr_status (mem m' tp) = TRANS_ABORTED" "tr_refcnt (mem m' tp) = 0"
    using abort_alone [OF assms(2)] x(1) by auto
  have al: "allocated tp (xtrans (sv_data sv1))" using assms(2) x(1) by (simp add: alone_def)
  have "abort_end E tp sv = Some (False, sv1\<lparr>sv_data := (sv_data sv1)\<lparr>xtrans := m'\<rparr>\<rparr>)"
    using reply_works [OF assms(1), of 2] m(1) al by (simp add: abort_end_def abort_call_def sv1_def)
  then show ?thesis using m x(2) by (simp add: answers_def)
qed

lemma ends_step:
  assumes "working E sv" "alone tp (xtrans (sv_data sv))" "ends (sv_in sv) st"
  shows "\<exists>sv'. service_step E S tp sv = Some (False, sv') \<and> answers sv [status_code st] sv'
    \<and> tr_status (mem (xtrans (sv_data sv')) tp) = st \<and> tr_refcnt (mem (xtrans (sv_data sv')) tp) = 0"
  using assms(3) unfolding ends_def
proof (elim disjE exE conjE)
  assume e: "sv_in sv = []" "st = TRANS_ABORTED"
  define sv1 where "sv1 = sv\<lparr>sv_calls := sv_calls sv + 1\<rparr>"
  have "working E sv1" "alone tp (xtrans (sv_data sv1))" "service_step E S tp sv = abort_end E tp sv1"
    using assms e by (simp_all add: sv1_def working_def service_step_def recv_eof)
  with abort_step [of E sv1 tp] show ?thesis by (simp add: e sv1_def answers_def)
next
  fix n p rest
  assume e: "sv_in sv = wire n p None @ rest" "pk_type p \<notin> {XACTO_PUT_PKT, XACTO_GET_PKT}"
    "st = (if pk_type p = XACTO_COMMIT_PKT then TRANS_COMMITTED else TRANS_ABORTED)"
  define sv1 where "sv1 = sv\<lparr>sv_calls := sv_calls sv + 1, sv_in := rest\<rparr>"
  have w: "working E sv1" "alone tp (xtrans (sv_data sv1))" and r: "recv E False sv = (Some (p, None), sv1)"
    using assms recv_header_only [OF e(1)] by (simp_all add: sv1_def working_def)
  show ?thesis
  proof (cases "pk_type p = XACTO_COMMIT_PKT")
    case False
    then have "service_step E S tp sv = abort_end E tp sv1" using e(2) by (simp add: service_step_def r)
    with abort_step [OF w] False show ?thesis by (simp add: e(3) sv1_def answers_def)
  next
    case True
    obtain m' where m: "thread_end tp (trans_commit tp (xtrans (sv_data sv1))) = Some (TRANS_COMMITTED, m')"
      "tr_status (mem m' tp) = TRANS_COMMITTED" "tr_refcnt (mem m' tp) = 0"
      using commit_alone [OF w(2)] by auto
    define sv2 where "sv2 = sv1\<lparr>sv_data := (sv_data sv1)\<lparr>xtrans := m'\<rparr>\<rparr>"
    have w2: "working E sv2" using w(1) by (simp add: working_def sv2_def)
    have c: "commit_call tp sv1 = Some (TRANS_COMMITTED, sv2)" using m(1) w(2) by (simp add: commit_call_def sv2_def alone_def)
    have s: "service_step E S tp sv
        = Some (False, said (wire (e_pad E (sv_calls sv2)) (reply_packet E (sv_calls sv2) 1) None) (sv2\<lparr>sv_calls := sv_calls sv2 + 1\<rparr>))"
      using True e(2) reply_works [OF w2, of 1] by (simp add: service_step_def r c XACTO_PUT_PKT_def XACTO_GET_PKT_def XACTO_COMMIT_PKT_def)
    show ?thesis
      using m True unfolding s by (simp add: e(3) answers_reply sv2_def sv1_def) (simp add: said_def)
  qed
qed

lemma service_loop_puts:
  assumes "working E sv" "alone tp (xtrans (sv_data sv))" "list_all valid_put puts"
    "sv_in sv = concat (map put_wire puts) @ bytes" "ends bytes st"
  shows "\<exists>sv'. service_loop E store_c tp sv = Some sv' \<and> answers sv (replicate (length puts) 0 @ [status_code st]) sv'
    \<and> tr_status (mem (xtrans (sv_data sv')) tp) = st \<and> tr_refcnt (mem (xtrans (sv_data sv')) tp) = 0"
  using assms
proof (induction puts arbitrary: sv)
  case Nil
  then have "ends (sv_in sv) st" by simp
  from ends_step [OF Nil(1,2) this, of store_c] show ?case
    by (subst service_loop.simps) auto
next
  case (Cons r puts)
  obtain sv1 where s: "service_step E store_c tp sv = Some (True, sv1)" "answers sv [0] sv1"
    "sv_in sv1 = concat (map put_wire puts) @ bytes" "xtrans (sv_data sv1) = xtrans (sv_data sv)"
    using put_step [OF Cons.prems(1), of r "concat (map put_wire puts) @ bytes" tp] Cons.prems(3,4) by auto
  have "working E sv1" using Cons.prems(1) s(2) by (simp add: working_def answers_def)
  from Cons.IH [OF this] obtain sv' where "service_loop E store_c tp sv1 = Some sv'"
    "answers sv1 (replicate (length puts) 0 @ [status_code st]) sv'"
    "tr_status (mem (xtrans (sv_data sv')) tp) = st" "tr_refcnt (mem (xtrans (sv_data sv')) tp) = 0"
    using Cons.prems s(3,4) by auto
  with answers_trans [OF s(2)] s(1) show ?case by (subst service_loop.simps) auto
qed

text \<open>
  C11. A client that sends any number of PUT requests and then ends, over a connection that works and
  however the transfers are split, is served to the end: it gets one reply with status pending per PUT,
  in order, and a last reply with the final status, committed exactly when it asked for that and aborted when it hangs
  up or sends another packet. Its transaction then has that status and no reference is left to it, and
  the descriptor is no longer registered.
\<close>

theorem puts_are_served:
  assumes "\<not> cn_broken (sv_conn sv)" "\<forall>i. \<not> e_break E i" "list_all valid_put puts"
    "sv_in sv = concat (map put_wire puts) @ bytes" "ends bytes st"
  shows "\<exists>sv' ps. xacto_client_service E store_c fd sv = Some sv'
    \<and> cn_out (sv_conn sv') = cn_out (sv_conn sv) @ concat (map (\<lambda>(n, p). wire n p None) ps)
    \<and> map (\<lambda>(n, p). (pk_type p, pk_status p)) ps
      = replicate (length puts) (XACTO_REPLY_PKT, 0) @ [(XACTO_REPLY_PKT, of_int (status_code st))]
    \<and> (let t = mem (xtrans (sv_data sv')) (fresh (xtrans (sv_data sv))) in tr_status t = st \<and> tr_refcnt t = 0)
    \<and> cr_fds (sv_reg sv') = cr_fds (sv_reg sv) - {fd}"
proof -
  define tp where "tp = fresh (xtrans (sv_data sv))"
  define sv1 where "sv1 = sv\<lparr>sv_reg := creg_register fd (sv_reg sv), sv_data := (sv_data sv)\<lparr>xtrans := trans_create (xtrans (sv_data sv))\<rparr>\<rparr>"
  have 1: "working E sv1" "alone tp (xtrans (sv_data sv1))" "sv_in sv1 = concat (map put_wire puts) @ bytes"
    "sv_conn sv1 = sv_conn sv" "sv_reg sv1 = creg_register fd (sv_reg sv)"
    using assms(1,2,4) alone_create by (simp_all add: sv1_def working_def tp_def)
  obtain sv2 where 2: "service_loop E store_c tp sv1 = Some sv2"
    "answers sv1 (replicate (length puts) 0 @ [status_code st]) sv2"
    "tr_status (mem (xtrans (sv_data sv2)) tp) = st" "tr_refcnt (mem (xtrans (sv_data sv2)) tp) = 0"
    using service_loop_puts [OF 1(1,2) assms(3) 1(3) assms(5)] by blast
  define sv3 where "sv3 = sv2\<lparr>sv_reg := creg_unregister fd (sv_reg sv2)\<rparr>"
  have 3: "xacto_client_service E store_c fd sv = Some sv3"
    using 2(1) unfolding sv3_def by (simp add: xacto_client_service_def Let_def sv1_def [simplified] tp_def)
  have "cr_fds (sv_reg sv3) = cr_fds (sv_reg sv) - {fd}"
    using 2(2) 1(5) by (auto simp: sv3_def answers_def creg_unregister_def creg_remove_def creg_post_def creg_register_def Let_def)
  with 2 3 1(4) show ?thesis
    by (auto simp: answers_def sv3_def tp_def Let_def map_replicate_const)
qed

definition quiet :: environ where
  "quiet = \<lparr>e_os = (\<lambda>i k. 3), e_pad = (\<lambda>_. 0), e_clock = (\<lambda>i. (of_nat i, 0)), e_break = (\<lambda>_. False)\<rparr>"

definition pkt :: "u8 \<Rightarrow> u32 \<Rightarrow> XACTO_PACKET" where
  "pkt t n = \<lparr>pk_type = t, pk_status = 0, pk_null = 0, pk_size = n, pk_sec = 0, pk_nsec = 0\<rparr>"

definition accepted :: "u8 list \<Rightarrow> service" where
  "accepted bytes = \<lparr>sv_in = bytes, sv_conn = \<lparr>cn_out = [], cn_broken = False\<rparr>,
     sv_data = no_data, sv_reg = creg_init, sv_calls = 0\<rparr>"

definition one_put :: put_request where
  "one_put = ((0, pkt XACTO_PUT_PKT 0), (0, pkt XACTO_DATA_PKT 1, [107]), (0, pkt XACTO_DATA_PKT 2, [118, 119]))"

theorem puts_are_served_witness:
  "\<exists>sv' ps. xacto_client_service quiet store_c 4 (accepted (put_wire one_put @ wire 0 (pkt XACTO_COMMIT_PKT 0) None)) = Some sv'
    \<and> cn_out (sv_conn sv') = concat (map (\<lambda>(n, p). wire n p None) ps)
    \<and> map (\<lambda>(n, p). (pk_type p, pk_status p)) ps = [(XACTO_REPLY_PKT, 0), (XACTO_REPLY_PKT, 1)]
    \<and> tr_status (mem (xtrans (sv_data sv')) 0) = TRANS_COMMITTED"
proof -
  have v: "list_all valid_put [one_put]"
    by (simp add: one_put_def pkt_def)
  have e: "ends (wire 0 (pkt XACTO_COMMIT_PKT 0) None) TRANS_COMMITTED"
    unfolding ends_def
    by (intro disjI2 exI [of _ 0] exI [of _ "pkt XACTO_COMMIT_PKT 0"] exI [of _ "[]"])
      (simp add: pkt_def XACTO_COMMIT_PKT_def XACTO_PUT_PKT_def XACTO_GET_PKT_def)
  define sv where "sv = accepted (put_wire one_put @ wire 0 (pkt XACTO_COMMIT_PKT 0) None)"
  have s: "\<not> cn_broken (sv_conn sv)" "\<forall>i. \<not> e_break quiet i" "fresh (xtrans (sv_data sv)) = 0"
    "sv_in sv = concat (map put_wire [one_put]) @ wire 0 (pkt XACTO_COMMIT_PKT 0) None"
    by (simp_all add: sv_def accepted_def quiet_def no_data_def trans_init_def)
  obtain sv' ps where r: "xacto_client_service quiet store_c 4 sv = Some sv'"
    "cn_out (sv_conn sv') = cn_out (sv_conn sv) @ concat (map (\<lambda>(n, p). wire n p None) ps)"
    "map (\<lambda>(n, p). (pk_type p, pk_status p)) ps
      = replicate (length [one_put]) (XACTO_REPLY_PKT, 0) @ [(XACTO_REPLY_PKT, of_int (status_code TRANS_COMMITTED))]"
    "let t = mem (xtrans (sv_data sv')) (fresh (xtrans (sv_data sv))) in tr_status t = TRANS_COMMITTED \<and> tr_refcnt t = 0"
    using puts_are_served [OF s(1,2) v s(4) e, of 4] by (elim exE conjE) (rule that, assumption+)
  have "map (\<lambda>(n, p). (pk_type p, pk_status p)) ps = [(XACTO_REPLY_PKT, 0), (XACTO_REPLY_PKT, 1)]"
    unfolding r(3) by simp
  moreover have "tr_status (mem (xtrans (sv_data sv')) 0) = TRANS_COMMITTED"
    using r(4) unfolding s(3) Let_def by (rule conjunct1)
  moreover have "cn_out (sv_conn sv') = concat (map (\<lambda>(n, p). wire n p None) ps)"
    using r(2) by (simp add: sv_def accepted_def)
  ultimately show ?thesis using r(1) unfolding sv_def by (intro exI [of _ sv'] exI [of _ ps] conjI)
qed

section \<open>GET\<close>

lemma reply_blob:
  assumes "working E sv" "blobs (sv_data sv) a = Some b" "type = XACTO_REPLY_PKT"
  shows "reply E type 0 (Some a) sv
    = Some (0, said (wire (e_pad E (sv_calls sv)) (reply_packet E (sv_calls sv) 0) None) (sv\<lparr>sv_calls := sv_calls sv + 1\<rparr>))"
proof -
  have same: "proto_send_packet os n (reply_packet E i 0) x c = proto_send_packet os n (reply_packet E i 0) None c" for os n i x c
    by (simp add: proto_send_packet_def reply_packet_def Let_def)
  have "\<not> cn_broken c \<Longrightarrow> proto_send_packet os n (reply_packet E i 0) x c
      = Some (c\<lparr>cn_out := cn_out c @ wire n (reply_packet E i 0) None\<rparr>)" for os n i x c
    using send_wire [of c "reply_packet E i 0" None os n] same [of os n i x c] by simp
  note this [unfolded reply_packet_def, simplified]
  with assms show ?thesis
    by (simp add: reply_def working_def said_def reply_packet_def Let_def)
qed

text \<open>The DATA packet that carries the content of a blob.\<close>

definition data_packet :: "environ \<Rightarrow> nat \<Rightarrow> nat \<Rightarrow> XACTO_PACKET" where
  "data_packet E i n = \<lparr>pk_type = XACTO_DATA_PKT, pk_status = 0, pk_null = 0, pk_size = of_nat n,
     pk_sec = fst (e_clock E i), pk_nsec = snd (e_clock E i)\<rparr>"

lemma send_content:
  assumes "\<not> cn_broken c" "length v < 2 ^ 32"
  shows "proto_send_packet os pad (data_packet E i (length v)) (Some (v @ [0])) c
    = Some (c\<lparr>cn_out := cn_out c @ wire pad (data_packet E i (length v)) (Some v)\<rparr>)"
proof -
  have n: "unat (pk_size (data_packet E i (length v))) = length v"
    using assms(2) by (simp add: data_packet_def unsigned_of_nat take_bit_nat_eq_self)
  have "proto_send_packet os pad (data_packet E i (length v)) (Some (v @ [0])) c
    = proto_send_packet os pad (data_packet E i (length v)) (Some v) c"
    by (simp add: proto_send_packet_def n Let_def cong: if_cong)
  also have "\<dots> = Some (c\<lparr>cn_out := cn_out c @ wire pad (data_packet E i (length v)) (Some v)\<rparr>)"
    by (rule send_wire [OF assms(1)]) (simp add: n)
  finally show ?thesis .
qed

lemma reply_data:
  assumes "working E sv" "blobs (sv_data sv) a = Some b" "bl_content b = Some (v @ [0])" "bl_size b = length v" "length v < 2 ^ 32"
  shows "reply E XACTO_DATA_PKT 0 (Some a) sv
    = Some (0, said (wire (e_pad E (sv_calls sv)) (data_packet E (sv_calls sv) (length v)) (Some v)) (sv\<lparr>sv_calls := sv_calls sv + 1\<rparr>))"
proof -
  have t: "XACTO_DATA_PKT \<noteq> XACTO_REPLY_PKT" by (simp add: XACTO_DATA_PKT_def XACTO_REPLY_PKT_def)
  have "\<not> cn_broken ((sv_conn sv)\<lparr>cn_broken := False\<rparr>)" by simp
  note s = send_content [OF this assms(5)]
  show ?thesis
    using assms(1-4) t s by (simp add: reply_def working_def said_def Let_def data_packet_def [symmetric])
qed

text \<open>
  C23. What a GET request does with the store. When \<open>store_get\<close> hands out a blob for the value, the client
  gets a reply and then a DATA packet with the content of that blob, and the handler gives up one reference on it;
  but it gives the reference up before it sends the content, so that the content is read after it was
  freed exactly when the handler held the last reference.
\<close>

theorem get_sends_the_value:
  assumes "working E sv" "pk_type p = XACTO_GET_PKT" "length k = unat (pk_size pk)"
    "sv_in sv = wire n p None @ wire nk pk (Some k) @ rest"
    "\<And>kp bp d. \<exists>d'. st_get S tp kp bp d = (0, Some (vof bp), d') \<and> blobs d' (vof bp) = Some b"
    "bl_content b = Some (v @ [0])" "bl_size b = length v" "length v < 2 ^ 32"
  shows "if bl_refcnt b = 1 then service_step E S tp sv = None
    else \<exists>sv'. service_step E S tp sv = Some (True, sv') \<and> sv_in sv' = rest
      \<and> blobs (sv_data sv') (vof (Some (bfresh (sv_data sv)))) = Some (b\<lparr>bl_refcnt := bl_refcnt b - 1\<rparr>)
      \<and> cn_out (sv_conn sv') = cn_out (sv_conn sv) @ wire (e_pad E (sv_calls sv + 2)) (reply_packet E (sv_calls sv + 2) 0) None
          @ wire (e_pad E (sv_calls sv + 3)) (data_packet E (sv_calls sv + 3) (length v)) (Some v)"
proof -
  define sv1 where "sv1 = sv\<lparr>sv_calls := sv_calls sv + 1, sv_in := wire nk pk (Some k) @ rest\<rparr>"
  define sv2 where "sv2 = sv1\<lparr>sv_calls := sv_calls sv1 + 1, sv_in := rest\<rparr>"
  have r1: "recv E False sv = (Some (p, None), sv1)" using recv_header_only [OF assms(4)] by (simp add: sv1_def)
  have r2: "recv E True sv1 = (Some (pk, payload k), sv2)"
    using recv_wire [of sv1 nk pk k rest] assms(3) by (simp add: sv1_def sv2_def)
  have f: "sv_data sv2 = sv_data sv" "sv_conn sv2 = sv_conn sv" "sv_in sv2 = rest" "sv_calls sv2 = sv_calls sv + 2"
    by (simp_all add: sv1_def sv2_def)
  define a where "a = vof (Some (bfresh (sv_data sv)))"
  define d where "d = snd (blob_create (payload k) (unat (pk_size pk)) (sv_data sv))"
  have bc: "blob_create (payload k) (unat (pk_size pk)) (sv_data sv) = (bfresh (sv_data sv), d)"
    by (simp add: d_def blob_create_def)
  obtain kp d1 where kc: "key_create (Some (bfresh (sv_data sv))) d = Some (Some kp, d1)"
    by (simp add: key_create_def blob_hash_def d_def blob_create_def)
  obtain d' where g: "st_get S tp kp (Some (bfresh (sv_data sv))) d1 = (0, Some a, d')" "blobs d' a = Some b"
    using assms(5) unfolding a_def by blast
  define sv3 where "sv3 = sv2\<lparr>sv_data := d'\<rparr>"
  define sv4 where "sv4 = said (wire (e_pad E (sv_calls sv3)) (reply_packet E (sv_calls sv3) 0) None) (sv3\<lparr>sv_calls := sv_calls sv3 + 1\<rparr>)"
  have w: "working E sv3" using assms(1) by (simp add: working_def sv3_def f)
  have rep: "reply E XACTO_REPLY_PKT 0 (Some a) sv3 = Some (0, sv4)"
    using reply_blob [OF w _ refl] g(2) by (simp add: sv4_def sv3_def)
  have f4: "sv_data sv4 = d'" by (simp add: sv4_def sv3_def said_def)
  have s: "service_step E S tp sv
    = Option.bind (blob_unref (Some a) d') (\<lambda>d. Option.bind (reply E XACTO_DATA_PKT 0 (Some a) (sv4\<lparr>sv_data := d\<rparr>))
        (\<lambda>(r, sv). if r = -1 then abort_end E tp sv else Some (True, sv)))"
    using assms(2,6) g
    by (simp add: service_step_def r1 xacto_get_pkt_def r2 f bc kc sv3_def [symmetric] rep f4 XACTO_PUT_PKT_def XACTO_GET_PKT_def)
  show ?thesis
  proof (cases "bl_refcnt b = 1")
    case True
    then have "blob_unref (Some a) d' = Some (d'\<lparr>blobs := (blobs d')(a := None)\<rparr>)" using g(2) by (simp add: blob_unref_def)
    then show ?thesis using True s by (simp add: reply_def Let_def)
  next
    case False
    define b' where "b' = b\<lparr>bl_refcnt := bl_refcnt b - 1\<rparr>"
    define sv5 where "sv5 = sv4\<lparr>sv_data := d'\<lparr>blobs := (blobs d')(a \<mapsto> b')\<rparr>\<rparr>"
    have u: "blob_unref (Some a) d' = Some (d'\<lparr>blobs := (blobs d')(a \<mapsto> b')\<rparr>)"
      using g(2) False by (simp add: blob_unref_def b'_def)
    have w5: "working E sv5" using w by (simp add: working_def sv5_def sv4_def said_def)
    have r5: "reply E XACTO_DATA_PKT 0 (Some a) sv5
      = Some (0, said (wire (e_pad E (sv_calls sv5)) (data_packet E (sv_calls sv5) (length v)) (Some v)) (sv5\<lparr>sv_calls := sv_calls sv5 + 1\<rparr>))"
      by (rule reply_data [OF w5, of a b']) (use assms(6-8) in \<open>simp_all add: sv5_def b'_def\<close>)
    have c: "sv_calls sv4 = sv_calls sv + 3" "sv_calls sv3 = sv_calls sv + 2" by (simp_all add: sv4_def sv3_def said_def f)
    show ?thesis
      using False unfolding s u by (simp add: sv5_def [symmetric] r5) (simp add: said_def sv5_def sv4_def c a_def b'_def f sv3_def eval_nat_numeral)
  qed
qed

definition kept :: "BLOB" where
  "kept = \<lparr>bl_refcnt = 2, bl_size = 2, bl_content = Some ([118, 119] @ [0])\<rparr>"

definition holding :: "store_ops" where
  "holding = \<lparr>st_put = store_put, st_get = (\<lambda>tp kp bp d. (0, Some 9, d\<lparr>blobs := (blobs d)(9 \<mapsto> kept)\<rparr>))\<rparr>"

theorem get_sends_the_value_witness:
  "\<exists>sv'. service_step quiet holding 0 (accepted (wire 0 (pkt XACTO_GET_PKT 0) None @ wire 0 (pkt XACTO_DATA_PKT 1) (Some [107]) @ [])) = Some (True, sv')
    \<and> blobs (sv_data sv') 9 = Some (kept\<lparr>bl_refcnt := 1\<rparr>)
    \<and> cn_out (sv_conn sv') = wire 0 (reply_packet quiet 2 0) None @ wire 0 (data_packet quiet 3 2) (Some [118, 119])"
proof -
  define sv where "sv = accepted (wire 0 (pkt XACTO_GET_PKT 0) None @ wire 0 (pkt XACTO_DATA_PKT 1) (Some [107]) @ [])"
  have a: "working quiet sv" "pk_type (pkt XACTO_GET_PKT 0) = XACTO_GET_PKT" "length [107 :: u8] = unat (pk_size (pkt XACTO_DATA_PKT 1))"
    "sv_in sv = wire 0 (pkt XACTO_GET_PKT 0) None @ wire 0 (pkt XACTO_DATA_PKT 1) (Some [107]) @ []"
    by (simp_all add: sv_def accepted_def working_def quiet_def pkt_def)
  have g: "\<exists>d'. st_get holding 0 kp bp d = (0, Some ((\<lambda>_. 9) bp), d') \<and> blobs d' ((\<lambda>_. 9) bp) = Some kept" for kp bp d
    by (simp add: holding_def)
  have k: "bl_content kept = Some ([118, 119] @ [0])" "bl_size kept = length [118 :: u8, 119]" "length [118 :: u8, 119] < 2 ^ 32"
    by (simp_all add: kept_def)
  have c: "e_pad quiet i = 0" "sv_calls sv = 0" "cn_out (sv_conn sv) = []" "bl_refcnt kept = 2" for i
    by (simp_all add: quiet_def sv_def accepted_def kept_def)
  from get_sends_the_value [OF a g k] show ?thesis
    unfolding sv_def [symmetric] by (simp add: c eval_nat_numeral) blast
qed

text \<open>
  The store of the repository answers every GET with a failure status that is not \<open>TRANS_ABORTED\<close> and leaves the blob
  of the key in place: the handler takes it for the value, frees it, and then sends its content.
\<close>

theorem store_c_get_uses_freed_blob:
  assumes "working E sv" "pk_type p = XACTO_GET_PKT" "length k = unat (pk_size pk)" "0 < length k"
    "sv_in sv = wire n p None @ wire nk pk (Some k) @ rest"
  shows "service_step E store_c tp sv = None"
proof -
  define sv1 where "sv1 = sv\<lparr>sv_calls := sv_calls sv + 1, sv_in := wire nk pk (Some k) @ rest\<rparr>"
  define sv2 where "sv2 = sv1\<lparr>sv_calls := sv_calls sv1 + 1, sv_in := rest\<rparr>"
  have r1: "recv E False sv = (Some (p, None), sv1)" using recv_header_only [OF assms(5)] by (simp add: sv1_def)
  have r2: "recv E True sv1 = (Some (pk, Some k), sv2)"
    using recv_wire [of sv1 nk pk k rest E] assms(3) length_greater_0_conv [THEN iffD1, OF assms(4)] by (simp add: sv1_def sv2_def payload_def)
  define a where "a = bfresh (sv_data sv2)"
  define b where "b = \<lparr>bl_refcnt = 1, bl_size = length k, bl_content = Some (k @ [0])\<rparr>"
  obtain kp d where d: "key_create (Some a) (snd (blob_create (Some k) (length k) (sv_data sv2))) = Some (Some kp, d)" "blobs d a = Some b"
    by (simp add: key_create_def blob_hash_def blob_create_def a_def b_def)
  have bc: "blob_create (Some k) (length k) (sv_data sv2) = (a, snd (blob_create (Some k) (length k) (sv_data sv2)))"
    by (simp add: blob_create_def a_def)
  define sv3 where "sv3 = sv2\<lparr>sv_data := d\<rparr>"
  have w: "working E sv3" "blobs (sv_data sv3) a = Some b" using assms(1) d(2) by (simp_all add: working_def sv3_def sv2_def sv1_def)
  obtain sv4 where r4: "reply E XACTO_REPLY_PKT 0 (Some a) sv3 = Some (0, sv4)" "sv_data sv4 = d"
    using reply_blob [OF w refl] by (auto simp: said_def sv3_def)
  have u: "blob_unref (Some a) d = Some (d\<lparr>blobs := (blobs d)(a := None)\<rparr>)" using d(2) by (simp add: blob_unref_def b_def)
  have l: "unat (pk_size pk) = length k" using assms(3) by simp
  have "service_step E store_c tp sv = xacto_get_pkt E store_c tp sv1"
    using assms(2) by (simp add: service_step_def r1 XACTO_PUT_PKT_def XACTO_GET_PKT_def)
  also have "\<dots> = Option.bind (reply E XACTO_DATA_PKT 0 (Some a) (sv4\<lparr>sv_data := d\<lparr>blobs := (blobs d)(a := None)\<rparr>\<rparr>))
      (\<lambda>(r, sv). if r = -1 then abort_end E tp sv else Some (True, sv))"
    unfolding xacto_get_pkt_def r2 prod.case option.case l by (subst bc) (simp add: d store_c_def store_get_def sv3_def [symmetric] r4 b_def u)
  also have "\<dots> = None" by (simp add: reply_def Let_def)
  finally show ?thesis .
qed

lemma reply_broken:
  assumes "cn_broken (sv_conn sv) \<or> e_break E (sv_calls sv)"
  shows "\<exists>sv'. reply E t st None sv = Some (-1, sv') \<and> sv_data sv' = sv_data sv \<and> cn_broken (sv_conn sv')"
proof -
  have "proto_send_packet os n p None c = None" if "cn_broken c" for os n p c
    using that by (simp add: proto_send_packet_def Let_def rio_writen.simps struct_bytes_def)
  with assms show ?thesis by (simp add: reply_def Let_def)
qed

lemma abort_freed: "\<not> allocated tp (xtrans (sv_data sv)) \<Longrightarrow> abort_call tp sv = None"
  by (simp add: abort_call_def)

text \<open>
  C36. A COMMIT whose reply cannot be sent makes the service use freed memory: \<open>trans_commit\<close> succeeds and frees
  the transaction, whose only reference it consumes; the reply fails; and \<open>abort_end\<close>, to which the service then goes, calls
  \<open>trans_abort\<close> with the transaction that is no longer allocated.
\<close>

theorem commit_reply_failure_is_fatal:
  assumes "cn_broken (sv_conn sv) \<or> e_break E (sv_calls sv + 1)" "alone tp (xtrans (sv_data sv))"
    "sv_in sv = wire n p None @ rest" "pk_type p = XACTO_COMMIT_PKT"
  shows "\<exists>sv1 sv2 sv3 sv4. recv E False sv = (Some (p, None), sv1)
    \<and> commit_call tp sv1 = Some (TRANS_COMMITTED, sv2) \<and> \<not> allocated tp (xtrans (sv_data sv2))
    \<and> reply E XACTO_REPLY_PKT (status_code TRANS_COMMITTED) None sv2 = Some (-1, sv3) \<and> service_step E S tp sv = abort_end E tp sv3
    \<and> reply E XACTO_REPLY_PKT (status_code TRANS_ABORTED) None sv3 = Some (-1, sv4) \<and> \<not> allocated tp (xtrans (sv_data sv4))
    \<and> abort_end E tp sv3 = Option.bind (abort_call tp sv4) (\<lambda>sv. Some (False, sv)) \<and> abort_call tp sv4 = None"
proof -
  define sv1 where "sv1 = sv\<lparr>sv_calls := sv_calls sv + 1, sv_in := rest\<rparr>"
  have r: "recv E False sv = (Some (p, None), sv1)" using recv_header_only [OF assms(3)] by (simp add: sv1_def)
  have al: "alone tp (xtrans (sv_data sv1))" using assms(2) by (simp add: sv1_def)
  from commit_alone [OF this] obtain m' where m: "thread_end tp (trans_commit tp (xtrans (sv_data sv1))) = Some (TRANS_COMMITTED, m')"
    "\<not> allocated tp m'" by blast
  define sv2 where "sv2 = sv1\<lparr>sv_data := (sv_data sv1)\<lparr>xtrans := m'\<rparr>\<rparr>"
  have c: "commit_call tp sv1 = Some (TRANS_COMMITTED, sv2)" using m(1) al by (simp add: commit_call_def sv2_def alone_def)
  have n2: "\<not> allocated tp (xtrans (sv_data sv2))" using m(2) by (simp add: sv2_def)
  have "cn_broken (sv_conn sv2) \<or> e_break E (sv_calls sv2)" using assms(1) by (simp add: sv2_def sv1_def)
  from reply_broken [OF this] obtain sv3 where b: "reply E XACTO_REPLY_PKT 1 None sv2 = Some (-1, sv3)" "sv_data sv3 = sv_data sv2"
    "cn_broken (sv_conn sv3)" by blast
  obtain sv4 where d: "reply E XACTO_REPLY_PKT 2 None sv3 = Some (-1, sv4)" "sv_data sv4 = sv_data sv3"
    using reply_broken [of sv3 E XACTO_REPLY_PKT 2] b(3) by blast
  have n4: "\<not> allocated tp (xtrans (sv_data sv4))" using n2 b(2) d(2) by simp
  have "service_step E S tp sv = abort_end E tp sv3"
    using assms(4) by (simp add: service_step_def r c b XACTO_PUT_PKT_def XACTO_GET_PKT_def XACTO_COMMIT_PKT_def)
  moreover have "abort_end E tp sv3 = Option.bind (abort_call tp sv4) (\<lambda>sv. Some (False, sv))" using d(1) by (simp add: abort_end_def)
  ultimately show ?thesis using r c n2 b(1) d(1) n4 abort_freed [OF n4]
    by (intro exI [of _ sv1] exI [of _ sv2] exI [of _ sv3] exI [of _ sv4]) simp
qed

theorem commit_reply_failure_is_fatal_witness:
  "\<exists>E sv. service_step E store_c 0 sv = None \<and> \<not> cn_broken (sv_conn sv) \<and> alone 0 (xtrans (sv_data sv))
    \<and> (\<exists>sv1 sv2. recv E False sv = (Some (pkt XACTO_COMMIT_PKT 0, None), sv1) \<and> commit_call 0 sv1 = Some (TRANS_COMMITTED, sv2))"
proof -
  define sv where "sv = (accepted (wire 0 (pkt XACTO_COMMIT_PKT 0) None @ []))\<lparr>sv_data := no_data\<lparr>xtrans := trans_create trans_init\<rparr>\<rparr>"
  define E where "E = quiet\<lparr>e_break := \<lambda>i. i = 1\<rparr>"
  have "alone (fresh trans_init) (trans_create trans_init)" by (rule alone_create)
  then have al: "alone 0 (xtrans (sv_data sv))" by (simp add: sv_def trans_init_def)
  have br: "cn_broken (sv_conn sv) \<or> e_break E (sv_calls sv + 1)" and i: "sv_in sv = wire 0 (pkt XACTO_COMMIT_PKT 0) None @ []"
    and nb: "\<not> cn_broken (sv_conn sv)"
    by (simp_all add: sv_def accepted_def E_def)
  have t: "pk_type (pkt XACTO_COMMIT_PKT 0) = XACTO_COMMIT_PKT" by (simp add: pkt_def)
  from commit_reply_failure_is_fatal [OF br al i t, of store_c] obtain sv1 sv2 sv3 sv4
    where f: "recv E False sv = (Some (pkt XACTO_COMMIT_PKT 0, None), sv1)" "commit_call 0 sv1 = Some (TRANS_COMMITTED, sv2)"
      "service_step E store_c 0 sv = abort_end E 0 sv3" "abort_end E 0 sv3 = Option.bind (abort_call 0 sv4) (\<lambda>sv. Some (False, sv))"
      "abort_call 0 sv4 = None" by blast
  have "service_step E store_c 0 sv = None" by (simp only: f(3,4,5) Option.bind.simps)
  with f(1,2) nb al show ?thesis by blast
qed

end
