(* ===== verification/Audible_Args.thy ===== *)
theory Audible_Args
  imports C_Digits
begin

text \<open>
  The string helpers and the command line validation of the audio recoder
  (\<open>audible/src/hw1.c\<close>). \<open>global_options\<close> is passed and returned: each operation yields its
  result and the new bitmap. Bits 63 to 60 are the modes \<open>-h\<close>, \<open>-u\<close>, \<open>-d\<close> and \<open>-c\<close>, bit 59 is
  \<open>-p\<close>, bits 57 to 48 the factor minus 1 and bits 31 to 0 the key. A returned \<open>int\<close> that
  is only 0 or 1 is a \<open>bool\<close>.
\<close>

section \<open>String helpers\<close>

fun stringEquals_au :: "cstring \<Rightarrow> cstring \<Rightarrow> bool" where
  "stringEquals_au [] [] = True"
| "stringEquals_au (x # xs) (y # ys) = (if x = y then stringEquals_au xs ys else False)"
| "stringEquals_au _ _ = False"

fun stringLength :: "cstring \<Rightarrow> int" where
  "stringLength [] = 0"
| "stringLength (c # cs) = 1 + stringLength cs"

text \<open>The loop of \<open>decStrToDec\<close> returns the number and what is left of the string.\<close>

fun dec_loop :: "i32 \<Rightarrow> cstring \<Rightarrow> i32 \<times> cstring" where
  "dec_loop num [] = (num, [])"
| "dec_loop num (c # cs) =
    (if ord c > 47 \<and> ord c < 58 then dec_loop (num * 10 + of_nat (ord c - 48)) cs
     else (num, c # cs))"

definition decStrToDec :: "cstring \<Rightarrow> i32" where
  "decStrToDec str =
    (let (sign, str) = (if deref str = CHR ''-'' then (-1, tl str) else (1, str));
         (num, str) = dec_loop 0 str
     in if deref str = CHR 0x00 then num * sign else -1)"

fun isHex :: "cstring \<Rightarrow> bool" where
  "isHex [] = True"
| "isHex (c # cs) =
    (if (ord c > 47 \<and> ord c < 58) \<or> (ord c > 64 \<and> ord c < 71) \<or> (ord c > 96 \<and> ord c < 103)
     then isHex cs else False)"

fun hex_loop :: "u32 \<Rightarrow> cstring \<Rightarrow> i32" where
  "hex_loop num [] = num"
| "hex_loop num (c # cs) =
    (if ord c > 47 \<and> ord c < 58 then hex_loop (num * 16 + of_nat (ord c - 48)) cs
     else if ord c > 64 \<and> ord c < 71 then hex_loop (num * 16 + of_nat (ord c - 65 + 10)) cs
     else if ord c > 96 \<and> ord c < 103 then hex_loop (num * 16 + of_nat (ord c - 97 + 10)) cs
     else -1)"

definition hexStrToDec :: "cstring \<Rightarrow> i32" where
  "hexStrToDec str = hex_loop 0 str"

section \<open>Options\<close>

definition factor :: "cstring \<Rightarrow> u64 \<Rightarrow> bool \<times> u64" where
  "factor str global_options =
    (let decimalValue = sint (decStrToDec str)
     in if decimalValue > 0 \<and> decimalValue < 1025
        then (True, global_options OR push_bit 48 (word_of_int (decimalValue - 1)))
        else (False, 0))"

definition key :: "cstring \<Rightarrow> u64 \<Rightarrow> bool \<times> u64" where
  "key str global_options =
    (let num = hexStrToDec str
     in if stringLength str > 8 \<or> \<not> isHex str then (False, 0)
        else (True, global_options OR ucast num))"

definition speed :: "cstring list \<Rightarrow> u64 \<Rightarrow> bool \<times> u64" where
  "speed argv g =
    (let argc = length argv
     in if argc = 3 then
          (if stringEquals_au ''-p'' (argv ! 2) then (True, g OR 0x0800000000000000) else (False, g))
        else if argc = 4 then
          (if stringEquals_au ''-f'' (argv ! 2) then factor (argv ! 3) g else (False, g))
        else if argc = 5 then
          (if stringEquals_au ''-p'' (argv ! 2) \<and> stringEquals_au ''-f'' (argv ! 3)
           then factor (argv ! 4) (g OR 0x0800000000000000)
           else if stringEquals_au ''-p'' (argv ! 4) \<and> stringEquals_au ''-f'' (argv ! 2)
           then factor (argv ! 3) (g OR 0x0800000000000000)
           else (False, g))
        else (False, g))"

definition crypt :: "cstring list \<Rightarrow> u64 \<Rightarrow> bool \<times> u64" where
  "crypt argv g =
    (let argc = length argv
     in if argc = 4 then
          (if stringEquals_au ''-k'' (argv ! 2) then key (argv ! 3) g else (False, g))
        else if argc = 5 then
          (if stringEquals_au ''-p'' (argv ! 2) \<and> stringEquals_au ''-k'' (argv ! 3)
           then key (argv ! 4) (g OR 0x0800000000000000)
           else if stringEquals_au ''-p'' (argv ! 4) \<and> stringEquals_au ''-k'' (argv ! 2)
           then key (argv ! 3) (g OR 0x0800000000000000)
           else (False, g))
        else (False, g))"

definition validargs_au :: "cstring list \<Rightarrow> bool \<times> u64" where
  "validargs_au argv =
    (let argc = length argv
     in if argc < 2 then (False, 0)
        else if stringEquals_au ''-h'' (argv ! 1) then (True, 0x8000000000000000)
        else if stringEquals_au ''-u'' (argv ! 1) then
          (if argc = 2 then (True, 0x4000000000000000) else speed argv 0x4000000000000000)
        else if stringEquals_au ''-d'' (argv ! 1) then
          (if argc = 2 then (True, 0x2000000000000000) else speed argv 0x2000000000000000)
        else if stringEquals_au ''-c'' (argv ! 1) then crypt argv 0x1000000000000000
        else (False, 0))"

section \<open>What the helpers compute\<close>

lemma equals_iff [simp]: "stringEquals_au s t \<longleftrightarrow> t = s"
  by (induction s t rule: stringEquals_au.induct) auto

lemma stringLength_eq [simp]: "stringLength s = int (length s)"
  by (induction s) auto

lemma isHex_iff [simp]: "isHex s \<longleftrightarrow> list_all hex_char s"
  by (induction s) (auto simp: hex_char_def)

lemma hex_loop_step:
  "hex_char c \<Longrightarrow> hex_loop num (c # cs) = hex_loop (num * 16 + of_nat (hex_digit c)) cs"
  by (auto simp: hex_char_def hex_digit_def algebra_simps)

lemma hex_loop_value:
  "list_all hex_char s \<Longrightarrow>
    hex_loop (of_nat a) s = of_nat (foldl (\<lambda>a c. a * 16 + hex_digit c) a s)"
proof (induction s arbitrary: a)
  case (Cons c cs)
  then show ?case
    using Cons.IH [of "a * 16 + hex_digit c"] hex_loop_step [of c "of_nat a" cs] by simp
qed simp

lemma hexStrToDec_value: "list_all hex_char s \<Longrightarrow> hexStrToDec s = of_nat (hex_value s)"
  using hex_loop_value [of s 0] by (simp add: hexStrToDec_def hex_value_def)

lemma dec_loop_value:
  "list_all is_digit s \<Longrightarrow>
    dec_loop (of_nat a) s = (of_nat (foldl (\<lambda>a c. a * 10 + (ord c - 48)) a s), [])"
proof (induction s arbitrary: a)
  case (Cons c cs)
  have "dec_loop (of_nat a) (c # cs) = dec_loop (of_nat (a * 10 + (ord c - 48))) cs"
    using Cons.prems by (auto simp: is_digit_def algebra_simps)
  then show ?case using Cons.prems Cons.IH [of "a * 10 + (ord c - 48)"] by simp
qed simp

lemma dec_loop_stop:
  "\<not> list_all is_digit s \<Longrightarrow> \<exists>n c cs. dec_loop a s = (n, c # cs) \<and> c \<in> set s"
proof (induction s arbitrary: a)
  case (Cons c cs)
  show ?case
  proof (cases "is_digit c")
    case True
    then have "\<not> list_all is_digit cs" using Cons.prems by simp
    then obtain n d ds where "dec_loop (a * 10 + of_nat (ord c - 48)) cs = (n, d # ds)" "d \<in> set cs"
      using Cons.IH by blast
    with True show ?thesis by (auto simp: is_digit_def)
  next
    case False
    then show ?thesis by (auto simp: is_digit_def)
  qed
qed simp

text \<open>The factor that an argument gives.\<close>

definition factor_arg :: "cstring \<Rightarrow> nat option" where
  "factor_arg s =
    (if list_all is_digit s \<and> 1 \<le> dec_value s \<and> dec_value s \<le> 1024 then Some (dec_value s) else None)"

lemma sint_dec_value:
  assumes "list_all is_digit s" "length s \<le> 9"
  shows "sint (of_nat (dec_value s) :: i32) = int (dec_value s)"
    and "sint (- of_nat (dec_value s) :: i32) = - int (dec_value s)"
proof -
  have "dec_value s < 10 ^ 9"
    using dec_value_less [OF assms(1)] power_increasing [OF assms(2), of "10 :: nat"] by simp
  then have b: "dec_value s < 2 ^ 31" by simp
  show p: "sint (of_nat (dec_value s) :: i32) = int (dec_value s)"
    using b by (simp add: signed_of_nat signed_take_bit_int_eq_self)
  have "sint (- of_nat (dec_value s) :: i32) = signed_take_bit 31 (- int (dec_value s))"
    using p by (simp add: sint_word_ariths)
  then show "sint (- of_nat (dec_value s) :: i32) = - int (dec_value s)"
    using b by (simp add: signed_take_bit_int_eq_self)
qed

lemma factor_value:
  assumes "length s \<le> 9" "CHR 0x00 \<notin> set s"
  shows "factor s g = (case factor_arg s of None \<Rightarrow> (False, 0)
    | Some f \<Rightarrow> (True, g OR push_bit 48 (of_nat (f - 1))))"
proof (cases "list_all is_digit s")
  case True
  then have "deref s \<noteq> CHR ''-''" by (cases s) (auto simp: is_digit_def ord_def)
  then have "decStrToDec s = of_nat (dec_value s)"
    using dec_loop_value [OF True, of 0] by (simp add: decStrToDec_def dec_value_def)
  then have "sint (decStrToDec s) = int (dec_value s)" using sint_dec_value(1) [OF True assms(1)] by simp
  then show ?thesis using True by (auto simp: factor_def factor_arg_def of_nat_diff)
next
  case False
  have "\<not> 0 < sint (decStrToDec s)"
  proof (cases "deref s = CHR ''-''")
    case m: True
    then obtain t where t: "s = CHR ''-'' # t" by (cases s) auto
    show ?thesis
    proof (cases "list_all is_digit t")
      case True
      then have "decStrToDec s = - of_nat (dec_value t)"
        using dec_loop_value [OF True, of 0] t by (simp add: decStrToDec_def dec_value_def)
      then show ?thesis using sint_dec_value(2) [OF True] t assms(1) by simp
    next
      case False
      then show ?thesis
        using dec_loop_stop [OF False, of 0] t assms(2) by (auto simp: decStrToDec_def split: if_splits)
    qed
  next
    case False
    then show ?thesis
      using dec_loop_stop [OF \<open>\<not> list_all is_digit s\<close>, of 0] assms(2) by (auto simp: decStrToDec_def split: if_splits)
  qed
  then show ?thesis using False by (simp add: factor_def factor_arg_def Let_def)
qed

text \<open>The key that an argument gives; the empty string gives 0.\<close>

definition key_arg :: "cstring \<Rightarrow> nat option" where
  "key_arg s = (if list_all hex_char s \<and> length s \<le> 8 then Some (hex_value s) else None)"

lemma key_value:
  "key s g = (case key_arg s of None \<Rightarrow> (False, 0) | Some k \<Rightarrow> (True, g OR ucast (of_nat k :: u32)))"
  by (auto simp: key_def key_arg_def hexStrToDec_value Let_def)

section \<open>Command lines\<close>

text \<open>The command lines of the usage message, and what each asks for.\<close>

datatype audio_request =
    Help
  | Speed_Up (req_factor: nat) (req_preserve: bool)
  | Slow_Down (req_factor: nat) (req_preserve: bool)
  | Crypt (req_key: nat) (req_preserve: bool)

fun with_flag :: "cstring \<Rightarrow> (cstring \<Rightarrow> nat option) \<Rightarrow> cstring list \<Rightarrow> (nat \<times> bool) option" where
  "with_flag flag arg [f, s] = (if f = flag then map_option (\<lambda>n. (n, False)) (arg s) else None)"
| "with_flag flag arg [a, b, c] =
    (if a = ''-p'' \<and> b = flag then map_option (\<lambda>n. (n, True)) (arg c)
     else if c = ''-p'' \<and> a = flag then map_option (\<lambda>n. (n, True)) (arg b) else None)"
| "with_flag flag arg _ = None"

definition speed_args :: "cstring list \<Rightarrow> (nat \<times> bool) option" where
  "speed_args args =
    (if args = [] then Some (1, False) else if args = [''-p''] then Some (1, True)
     else with_flag ''-f'' factor_arg args)"

definition audio_line :: "cstring list \<Rightarrow> audio_request option" where
  "audio_line argv =
    (case argv of
       _ # m # args \<Rightarrow>
        (if m = ''-h'' then Some Help
         else if m = ''-u'' then map_option (case_prod Speed_Up) (speed_args args)
         else if m = ''-d'' then map_option (case_prod Slow_Down) (speed_args args)
         else if m = ''-c'' then map_option (case_prod Crypt) (with_flag ''-k'' key_arg args)
         else None)
     | _ \<Rightarrow> None)"

definition p_bit :: "bool \<Rightarrow> u64" where
  "p_bit p = (if p then 0x0800000000000000 else 0)"

fun request_options :: "audio_request \<Rightarrow> u64" where
  "request_options Help = 0x8000000000000000"
| "request_options (Speed_Up f p) = 0x4000000000000000 OR p_bit p OR push_bit 48 (of_nat (f - 1))"
| "request_options (Slow_Down f p) = 0x2000000000000000 OR p_bit p OR push_bit 48 (of_nat (f - 1))"
| "request_options (Crypt k p) = 0x1000000000000000 OR p_bit p OR ucast (of_nat k :: u32)"

lemma args_cases:
  obtains "argv = []" | a where "argv = [a]" | a b where "argv = [a, b]"
  | a b c where "argv = [a, b, c]" | a b c d where "argv = [a, b, c, d]"
  | a b c d e where "argv = [a, b, c, d, e]"
  | a b c d e f g where "argv = a # b # c # d # e # f # g"
  by (metis list.exhaust)

lemma speed_value:
  assumes "\<forall>s \<in> set args. length s \<le> 9 \<and> CHR 0x00 \<notin> set s" "args \<noteq> []"
  shows "fst (speed (a # b # args) g) \<longleftrightarrow> speed_args args \<noteq> None"
    and "speed_args args = Some (f, p) \<Longrightarrow>
      snd (speed (a # b # args) g) = g OR p_bit p OR push_bit 48 (of_nat (f - 1))"
proof -
  have len: "with_flag ''-f'' factor_arg args = None" if "3 < length args"
    using that by (cases args rule: args_cases) auto
  show "fst (speed (a # b # args) g) \<longleftrightarrow> speed_args args \<noteq> None"
    using assms by (cases args rule: args_cases)
      (auto simp: speed_def speed_args_def factor_value split: option.splits)
  show "speed_args args = Some (f, p) \<Longrightarrow>
      snd (speed (a # b # args) g) = g OR p_bit p OR push_bit 48 (of_nat (f - 1))"
    using assms by (cases args rule: args_cases)
      (auto simp: speed_def speed_args_def factor_value p_bit_def or.assoc split: option.splits if_splits)
qed

lemma crypt_value:
  shows "fst (crypt (a # b # args) g) \<longleftrightarrow> with_flag ''-k'' key_arg args \<noteq> None"
    and "with_flag ''-k'' key_arg args = Some (k, p) \<Longrightarrow>
      snd (crypt (a # b # args) g) = g OR p_bit p OR ucast (of_nat k :: u32)"
proof -
  show "fst (crypt (a # b # args) g) \<longleftrightarrow> with_flag ''-k'' key_arg args \<noteq> None"
    by (cases args rule: args_cases) (auto simp: crypt_def key_value split: option.splits)
  show "with_flag ''-k'' key_arg args = Some (k, p) \<Longrightarrow>
      snd (crypt (a # b # args) g) = g OR p_bit p OR ucast (of_nat k :: u32)"
    by (cases args rule: args_cases)
      (auto simp: crypt_def key_value p_bit_def or.assoc split: option.splits if_splits)
qed


text \<open>What the program reads from the bitmap.\<close>

definition mode_of :: "u64 \<Rightarrow> bool list" where
  "mode_of g = map (\<lambda>b. g AND b \<noteq> 0)
    [0x8000000000000000, 0x4000000000000000, 0x2000000000000000, 0x1000000000000000]"

definition options_say :: "u64 \<Rightarrow> audio_request \<Rightarrow> bool" where
  "options_say g r \<longleftrightarrow>
    mode_of g = [r = Help, is_Speed_Up r, is_Slow_Down r, is_Crypt r]
    \<and> (r \<noteq> Help \<longrightarrow> drop_bit 59 g AND 1 = (if req_preserve r then 1 else 0))
    \<and> (is_Speed_Up r \<or> is_Slow_Down r \<longrightarrow> unat (drop_bit 48 g AND 0x3FF) + 1 = req_factor r)
    \<and> (is_Crypt r \<longrightarrow> unat (g AND 0xFFFFFFFF) = req_key r)"

lemma and_bit: "(g :: u64) AND push_bit n 1 \<noteq> 0 \<longleftrightarrow> bit g n"
  by (simp add: push_bit_eq_mult and_exp_eq_0_iff_not_bit)

lemma mode_bits: "mode_of g = [bit g 63, bit g 62, bit g 61, bit g 60]"
  using and_bit [of g 63] and_bit [of g 62] and_bit [of g 61] and_bit [of g 60] by (simp add: mode_of_def)


lemma low_bit: "drop_bit n (w :: u64) AND 1 = (if bit w n then 1 else 0)"
  by (simp add: and_one_eq bit_iff_odd_drop_bit mod2_eq_if)

lemma one_bit: "bit (push_bit m (1 :: u64)) n \<longleftrightarrow> n = m \<and> m < 64"
  by (simp only: bit_push_bit_iff bit_1_iff) auto

lemma bit_p_bit: "bit (p_bit p) n \<longleftrightarrow> p \<and> n = 59"
proof (cases p)
  case True
  then have "p_bit p = push_bit 59 1" by (simp add: p_bit_def)
  then show ?thesis using True by (simp only: one_bit) simp
qed (simp add: p_bit_def)

lemma request_word_fields:
  fixes w x :: u64
  assumes "w = c OR p_bit p OR push_bit 48 x" "unat x < 1024" "take_bit 60 c = 0"
  shows "\<And>n. 60 \<le> n \<Longrightarrow> bit w n \<longleftrightarrow> bit c n"
    and "drop_bit 59 w AND 1 = (if p then 1 else 0)" and "drop_bit 48 w AND 0x3FF = x"
proof -
  have x: "bit x n \<Longrightarrow> n < 10" for n
  proof -
    assume "bit x n"
    then have "bit (unat x) n" by (simp add: bit_unsigned_iff)
    moreover have "take_bit 10 (unat x) = unat x" using assms(2) by (simp add: take_bit_nat_eq_self)
    ultimately show "n < 10" by (metis bit_take_bit_iff)
  qed
  have c: "n < 60 \<Longrightarrow> \<not> bit c n" for n using assms(3) by (metis bit_0_eq bit_take_bit_iff bot_apply bot_bool_def)
  have b: "bit w n \<longleftrightarrow> bit c n \<or> p \<and> n = 59 \<or> 48 \<le> n \<and> n < 64 \<and> bit x (n - 48)" for n
    using assms(1) by (auto simp: bit_simps bit_p_bit)
  show "60 \<le> n \<Longrightarrow> bit w n \<longleftrightarrow> bit c n" for n using b x by fastforce
  show "drop_bit 59 w AND 1 = (if p then 1 else 0)" unfolding low_bit using b c x [of 11] by auto
  have m: "(0x3FF :: u64) = mask 10" by (simp add: mask_eq_exp_minus_1)
  show "drop_bit 48 w AND 0x3FF = x"
    unfolding m by (rule bit_word_eqI) (use b c x in \<open>fastforce simp: bit_simps\<close>)
qed

lemma crypt_word_fields:
  fixes w :: u64
  assumes "w = push_bit 60 1 OR p_bit p OR ucast (x :: u32)"
  shows "mode_of w = [False, False, False, True]"
    and "drop_bit 59 w AND 1 = (if p then 1 else 0)" and "w AND 0xFFFFFFFF = ucast x"
proof -
  have b: "bit w n \<longleftrightarrow> n = 60 \<or> p \<and> n = 59 \<or> bit x n" for n
    unfolding assms bit_or_iff one_bit bit_p_bit bit_ucast_iff
    using bit_imp_le_length [of x n] by auto
  have x: "bit x n \<Longrightarrow> n < 32" for n using bit_imp_le_length [of x n] by simp
  show "mode_of w = [False, False, False, True]"
    unfolding mode_bits using x [of 63] x [of 62] x [of 61] x [of 60] by (auto simp: b)
  show "drop_bit 59 w AND 1 = (if p then 1 else 0)" unfolding low_bit using x [of 59] by (auto simp: b)
  have m: "(0xFFFFFFFF :: u64) = mask 32" by (simp add: mask_eq_exp_minus_1)
  show "w AND 0xFFFFFFFF = ucast x"
    unfolding m by (rule bit_word_eqI) (use x in \<open>auto simp: bit_simps b\<close>)
qed


lemma factor_bounds:
  "speed_args args = Some (f, p) \<Longrightarrow> 1 \<le> f \<and> f \<le> 1024"
  by (cases args rule: args_cases) (auto simp: speed_args_def factor_arg_def split: if_splits)

lemma key_bounds: "with_flag ''-k'' key_arg args = Some (k, p) \<Longrightarrow> k < 2 ^ 32"
proof -
  have "key_arg s = Some k \<Longrightarrow> k < 2 ^ 32" for s
  proof -
    assume "key_arg s = Some k"
    then have k: "list_all hex_char s" "length s \<le> 8" "hex_value s = k" by (auto simp: key_arg_def split: if_splits)
    then have "k < 16 ^ length s" using hex_value_less by blast
    also have "\<dots> \<le> 16 ^ 8" using k(2) by (intro power_increasing) auto
    finally show "k < 2 ^ 32" by simp
  qed
  then show "with_flag ''-k'' key_arg args = Some (k, p) \<Longrightarrow> k < 2 ^ 32"
    by (cases args rule: args_cases) (auto split: if_splits)
qed

lemma options_say_word:
  assumes x: "unat (x :: u64) < 1024" "unat x + 1 = f"
  shows "options_say (0x4000000000000000 OR p_bit p OR push_bit 48 x) (Speed_Up f p)"
    and "options_say (0x2000000000000000 OR p_bit p OR push_bit 48 x) (Slow_Down f p)"
proof -
  have c: "take_bit 60 (0x4000000000000000 :: u64) = 0" "take_bit 60 (0x2000000000000000 :: u64) = 0" by simp_all
  note u = request_word_fields [OF refl x(1) c(1), where p = p]
    and d = request_word_fields [OF refl x(1) c(2), where p = p]
  have "bit (0x4000000000000000 :: u64) n \<longleftrightarrow> n = 62" "bit (0x2000000000000000 :: u64) n \<longleftrightarrow> n = 61" for n
    using one_bit [of 62 n] one_bit [of 61 n] by simp_all
  note n = this
  have le: "(60 :: nat) \<le> 63" "(60 :: nat) \<le> 62" "(60 :: nat) \<le> 61" "(60 :: nat) \<le> 60" by simp_all
  show "options_say (0x4000000000000000 OR p_bit p OR push_bit 48 x) (Speed_Up f p)"
    unfolding options_say_def mode_bits u(2,3) u(1) [OF le(1)] u(1) [OF le(2)]
      u(1) [OF le(3)] u(1) [OF le(4)] n using x(2) by simp
  show "options_say (0x2000000000000000 OR p_bit p OR push_bit 48 x) (Slow_Down f p)"
    unfolding options_say_def mode_bits d(2,3) d(1) [OF le(1)] d(1) [OF le(2)]
      d(1) [OF le(3)] d(1) [OF le(4)] n using x(2) by simp
qed

lemma options_say_speed:
  assumes "speed_args args = Some (f, p)"
  shows "options_say (0x4000000000000000 OR p_bit p OR push_bit 48 (of_nat (f - 1))) (Speed_Up f p)"
    and "options_say (0x2000000000000000 OR p_bit p OR push_bit 48 (of_nat (f - 1))) (Slow_Down f p)"
proof -
  have f: "1 \<le> f" "f \<le> 1024" using factor_bounds [OF assms] by auto
  have "unat (of_nat n :: u64) = n" if "n < 1024" for n using that by (simp add: unsigned_of_nat take_bit_nat_eq_self)
  from this [of "f - 1"] have "unat (of_nat (f - 1) :: u64) = f - 1" using f by fastforce
  then have x: "unat (of_nat (f - 1) :: u64) < 1024" "unat (of_nat (f - 1) :: u64) + 1 = f" using f by simp_all
  show "options_say (0x4000000000000000 OR p_bit p OR push_bit 48 (of_nat (f - 1))) (Speed_Up f p)"
    "options_say (0x2000000000000000 OR p_bit p OR push_bit 48 (of_nat (f - 1))) (Slow_Down f p)"
    by (rule options_say_word [OF x])+
qed

lemma options_say_crypt:
  assumes "with_flag ''-k'' key_arg args = Some (k, p)"
  shows "options_say (0x1000000000000000 OR p_bit p OR ucast (of_nat k :: u32)) (Crypt k p)"
proof -
  have e: "(0x1000000000000000 :: u64) = push_bit 60 1" by simp
  have "unat (ucast (of_nat k :: u32) :: u64) = k"
    using key_bounds [OF assms] by (simp add: unsigned_ucast_eq unsigned_of_nat take_bit_nat_eq_self)
  then show ?thesis
    unfolding options_say_def e using crypt_word_fields [OF refl, of p "of_nat k"] by simp
qed

lemma validargs_au_spec:
  assumes "\<forall>s \<in> set (drop 2 argv). length s \<le> 9 \<and> CHR 0x00 \<notin> set s"
  shows "case audio_line argv of
      None \<Rightarrow> \<not> fst (validargs_au argv)
    | Some r \<Rightarrow> fst (validargs_au argv) \<and> options_say (snd (validargs_au argv)) r"
proof (cases "\<exists>a b args. argv = a # b # args")
  case False
  then have "length argv < 2" by (cases argv rule: args_cases) auto
  moreover have "audio_line argv = None" using False by (auto simp: audio_line_def split: list.splits)
  ultimately show ?thesis by (simp add: validargs_au_def)
next
  case True
  then obtain a m args where argv: "argv = a # m # args" by blast
  have args: "\<forall>s \<in> set args. length s \<le> 9 \<and> CHR 0x00 \<notin> set s" using assms argv by simp
  have z: "speed_args [] = Some (1, False)" by (simp add: speed_args_def)
  consider "m = ''-h''" | "m = ''-u''" | "m = ''-d''" | "m = ''-c''"
    | "m \<noteq> ''-h''" "m \<noteq> ''-u''" "m \<noteq> ''-d''" "m \<noteq> ''-c''" by blast
  then show ?thesis
  proof cases
    case 1
    then show ?thesis
      using one_bit [of 63] by (simp add: argv audio_line_def validargs_au_def options_say_def mode_bits)
  next
    case 2
    show ?thesis
    proof (cases "args = []")
      case True
      then show ?thesis
        using 2 options_say_speed(1) [OF z] z by (simp add: argv audio_line_def validargs_au_def p_bit_def)
    next
      case False
      then show ?thesis
        using 2 speed_value [OF args False, where a = a and b = m] options_say_speed(1) [of args]
        by (auto simp: argv audio_line_def validargs_au_def split: option.splits)
    qed
  next
    case 3
    show ?thesis
    proof (cases "args = []")
      case True
      then show ?thesis
        using 3 options_say_speed(2) [OF z] z by (simp add: argv audio_line_def validargs_au_def p_bit_def)
    next
      case False
      then show ?thesis
        using 3 speed_value [OF args False, where a = a and b = m] options_say_speed(2) [of args]
        by (auto simp: argv audio_line_def validargs_au_def split: option.splits)
    qed
  next
    case 4
    then show ?thesis
      using crypt_value [where a = a and b = m and args = args] options_say_crypt [of args]
      by (auto simp: argv audio_line_def validargs_au_def split: option.splits)
  next
    case 5
    then show ?thesis by (simp add: argv audio_line_def validargs_au_def)
  qed
qed

section \<open>Property\<close>



text \<open>
  The bound on the length is needed: the conversion of a longer factor overflows an \<open>int\<close>, and where that wraps around,
  4294967297 is accepted as the factor 1.
\<close>

theorem factor_wraps:
  "fst (validargs_au [''audible'', ''-u'', ''-f'', ''4294967297''])
    \<and> options_say (snd (validargs_au [''audible'', ''-u'', ''-f'', ''4294967297''])) (Speed_Up 1 False)"
  by code_simp

end
