(* ===== verification/Audible_Codec.thy ===== *)
theory Audible_Codec
  imports Audible_Args
begin

text \<open>
  The audio recoder proper (\<open>audible/src/hw1.c\<close>, \<open>myrand.c\<close>, \<open>main.c\<close>). Standard input is the list
  of the bytes that are still to be read, standard output the list of those written so far
  and the number it still takes. The static buffers are byte lists of their size; of the
  frame buffers the first \<open>int\<close> is kept, the only one the program reads or writes before
  \<open>copyFrame\<close>. The result \<open>None\<close> is undefined behaviour: an access outside a buffer or a shift
  by 32 or more. Loop counters do not overflow. The order in which the operands of
  one expression call \<open>myrand32\<close> is not specified by C and is the argument \<open>lr\<close>.
\<close>

section \<open>Standard input and output\<close>

record io =
  inp :: "u8 list"
  outp :: "u8 list"
  room :: nat

definition getchar :: "io \<Rightarrow> u8 option \<times> io" where
  "getchar s = (case inp s of [] \<Rightarrow> (None, s) | c # cs \<Rightarrow> (Some c, s\<lparr>inp := cs\<rparr>))"

definition putchar :: "u8 \<Rightarrow> io \<Rightarrow> bool \<times> io" where
  "putchar c s = (if room s = 0 then (False, s) else (True, s\<lparr>outp := outp s @ [c], room := room s - 1\<rparr>))"

section \<open>Headers\<close>

record AUDIO_HEADER =
  magic_number :: u32
  data_offset :: u32
  data_size :: u32
  encoding :: u32
  sample_rate :: u32
  channels :: u32

fun readBytes_loop :: "nat \<Rightarrow> u32 \<Rightarrow> io \<Rightarrow> bool \<times> u32 \<times> io" where
  "readBytes_loop 0 hp s = (True, hp, s)"
| "readBytes_loop (Suc n) hp s =
    (let hp = push_bit 8 hp
     in case getchar s of
          (None, s) \<Rightarrow> (False, hp, s)
        | (Some temp, s) \<Rightarrow> readBytes_loop n (hp OR ucast temp) s)"

definition readBytes :: "u32 \<Rightarrow> io \<Rightarrow> bool \<times> u32 \<times> io" where
  "readBytes hp s = readBytes_loop 4 hp s"

definition valid_header :: "AUDIO_HEADER \<Rightarrow> bool" where
  "valid_header hp =
    (if magic_number hp \<noteq> 0x2e736e64 \<or> data_offset hp mod 8 \<noteq> 0 then False
     else if \<not> (encoding hp = 2 \<or> encoding hp = 3 \<or> encoding hp = 4 \<or> encoding hp = 5) then False
     else if channels hp \<noteq> 1 \<and> channels hp \<noteq> 2 then False
     else True)"

definition read_header :: "AUDIO_HEADER \<Rightarrow> io \<Rightarrow> bool \<times> AUDIO_HEADER \<times> io" where
  "read_header hp s =
    (let (ok, v, s) = readBytes (magic_number hp) s; hp = hp\<lparr>magic_number := v\<rparr>
     in if \<not> ok then (False, hp, s) else
     let (ok, v, s) = readBytes (data_offset hp) s; hp = hp\<lparr>data_offset := v\<rparr>
     in if \<not> ok then (False, hp, s) else
     let (ok, v, s) = readBytes (data_size hp) s; hp = hp\<lparr>data_size := v\<rparr>
     in if \<not> ok then (False, hp, s) else
     let (ok, v, s) = readBytes (encoding hp) s; hp = hp\<lparr>encoding := v\<rparr>
     in if \<not> ok then (False, hp, s) else
     let (ok, v, s) = readBytes (sample_rate hp) s; hp = hp\<lparr>sample_rate := v\<rparr>
     in if \<not> ok then (False, hp, s) else
     let (ok, v, s) = readBytes (channels hp) s; hp = hp\<lparr>channels := v\<rparr>
     in if \<not> ok then (False, hp, s) else (valid_header hp, hp, s))"

definition writeBytes :: "u32 \<Rightarrow> io \<Rightarrow> bool \<times> io" where
  "writeBytes val s =
    (let (ok, s) = putchar (ucast (drop_bit 24 val)) s in if \<not> ok then (False, s) else
     let (ok, s) = putchar (ucast (drop_bit 16 val)) s in if \<not> ok then (False, s) else
     let (ok, s) = putchar (ucast (drop_bit 8 val)) s in if \<not> ok then (False, s) else
     let (ok, s) = putchar (ucast val) s in if \<not> ok then (False, s) else (True, s))"

definition write_header :: "AUDIO_HEADER \<Rightarrow> io \<Rightarrow> bool \<times> io" where
  "write_header hp s =
    (let (ok, s) = writeBytes (magic_number hp) s in if \<not> ok then (False, s) else
     let (ok, s) = writeBytes (data_offset hp) s in if \<not> ok then (False, s) else
     let (ok, s) = writeBytes (data_size hp) s in if \<not> ok then (False, s) else
     let (ok, s) = writeBytes (encoding hp) s in if \<not> ok then (False, s) else
     let (ok, s) = writeBytes (sample_rate hp) s in if \<not> ok then (False, s) else
     let (ok, s) = writeBytes (channels hp) s in if \<not> ok then (False, s) else (True, s))"

section \<open>Annotations\<close>

definition ANNOTATION_MAX :: nat where
  "ANNOTATION_MAX = 1024"

function read_annotation_loop :: "nat \<Rightarrow> nat \<Rightarrow> u8 list \<Rightarrow> io \<Rightarrow> bool \<times> u8 list \<times> io" where
  "read_annotation_loop sz i ap s =
    (if i < sz then
       case getchar s of
         (None, s) \<Rightarrow> (False, ap, s)
       | (Some temp, s) \<Rightarrow>
           (if i = sz - 1 \<and> temp \<noteq> 0 then (False, ap, s)
            else read_annotation_loop sz (i + 1) (ap[i := temp]) s)
     else (True, ap, s))"
  by pat_completeness auto
termination by (relation "measure (\<lambda>(sz, i, ap, s). sz - i)") auto

declare read_annotation_loop.simps [simp del]

definition read_annotation :: "u8 list \<Rightarrow> nat \<Rightarrow> io \<Rightarrow> bool \<times> u8 list \<times> io" where
  "read_annotation ap sz s =
    (if sz > 1023 then (False, ap, s)
     else if sz = 0 then (True, ap, s)
     else read_annotation_loop sz 0 ap s)"

text \<open>The result of \<open>putchar\<close> is ignored.\<close>

definition write_annotation :: "u8 list \<Rightarrow> nat \<Rightarrow> io \<Rightarrow> io option" where
  "write_annotation ap sz s =
    (if sz > length ap then None else Some (fold (\<lambda>c s. snd (putchar c s)) (take sz ap) s))"

definition store :: "nat \<Rightarrow> u8 \<Rightarrow> u8 list \<Rightarrow> u8 list option" where
  "store i c buf = (if i < length buf then Some (buf[i := c]) else None)"

fun put_str :: "cstring \<Rightarrow> nat \<Rightarrow> u8 list \<Rightarrow> (nat \<times> u8 list) option" where
  "put_str [] n buf = Some (n, buf)"
| "put_str (c # cs) n buf = Option.bind (store n (of_char c) buf) (put_str cs (n + 1))"

fun put_args :: "cstring list \<Rightarrow> nat \<Rightarrow> u8 list \<Rightarrow> (nat \<times> u8 list) option" where
  "put_args [] n buf = Some (n, buf)"
| "put_args (str # argv) n buf =
    Option.bind (put_str str n buf) (\<lambda>(n, buf).
      if argv \<noteq> [] then Option.bind (store n 32 buf) (put_args argv (n + 1))
      else put_args argv n buf)"

text \<open>The copy of the input annotation: \<open>rest\<close> is what \<open>input_annotation+size_input\<close> points to.\<close>

fun copy_annotation :: "u8 list \<Rightarrow> nat \<Rightarrow> u8 list \<Rightarrow> (nat \<times> u8 list) option" where
  "copy_annotation [] n buf = None"
| "copy_annotation (c # rest) n buf =
    (if c \<noteq> 0 then Option.bind (store n c buf) (copy_annotation rest (n + 1)) else Some (n, buf))"

definition prepending :: "cstring list \<Rightarrow> u8 list \<Rightarrow> u8 list \<Rightarrow> (nat \<times> u8 list) option" where
  "prepending argv input_annotation output_annotation =
    Option.bind (put_args argv 0 output_annotation) (\<lambda>(size_output, buf).
    Option.bind (store size_output 10 buf) (\<lambda>buf.
    Option.bind (copy_annotation input_annotation (size_output + 1) buf) (\<lambda>(n, buf).
    Option.bind (store n 0 buf) (\<lambda>buf. Some (size_output + 1, buf)))))"

section \<open>Frames\<close>

fun read_frame :: "nat \<Rightarrow> i32 \<Rightarrow> io \<Rightarrow> bool \<times> i32 \<times> io" where
  "read_frame 0 fp s = (True, fp, s)"
| "read_frame (Suc n) fp s =
    (case getchar s of
       (None, s) \<Rightarrow> (False, fp, s)
     | (Some temp, s) \<Rightarrow> read_frame n (push_bit 8 fp OR ucast temp) s)"

fun write_frame :: "nat \<Rightarrow> i32 \<Rightarrow> io \<Rightarrow> (bool \<times> io) option" where
  "write_frame 0 fp s = Some (True, s)"
| "write_frame (Suc i) fp s =
    (if 32 \<le> i * 8 then None
     else let (ok, s) = putchar (ucast (signed_drop_bit (i * 8) fp)) s
          in if \<not> ok then Some (False, s) else write_frame i fp s)"

text \<open>\<open>CHANNELS_MAX * sizeof(int)\<close> is 8, the number of bytes of a frame buffer; the loop copies as
  many \<open>int\<close>s.\<close>

fun copyFrame_loop :: "nat \<Rightarrow> nat \<Rightarrow> i32 list \<Rightarrow> i32 list \<Rightarrow> i32 list option" where
  "copyFrame_loop 0 i one two = Some one"
| "copyFrame_loop (Suc n) i one two =
    (if i < length one \<and> i < length two then copyFrame_loop n (i + 1) (one[i := two ! i]) two else None)"

definition copyFrame :: "i32 list \<Rightarrow> i32 list \<Rightarrow> i32 list option" where
  "copyFrame one two = copyFrame_loop 8 0 one two"

section \<open>Pseudorandom numbers\<close>

definition myrand :: "u64 \<Rightarrow> i32 \<times> u64" where
  "myrand n =
    (let n = n * 1103515245 + 12345 in (ucast (n div 65536) mod 32768, n))"

definition mysrand :: "u32 \<Rightarrow> u64" where
  "mysrand seed = ucast seed"

fun myrand32_loop :: "nat \<Rightarrow> u32 \<Rightarrow> u64 \<Rightarrow> i32 \<times> u64" where
  "myrand32_loop 0 r n = (r, n)"
| "myrand32_loop (Suc i) r n =
    (let (v, n) = myrand n in myrand32_loop i (push_bit 8 r OR signed_drop_bit 7 (v AND 0x7fff)) n)"

definition myrand32 :: "u64 \<Rightarrow> i32 \<times> u64" where
  "myrand32 n = myrand32_loop 4 0 n"


section \<open>Recoding\<close>

text \<open>The two words that an expression with two calls of \<open>myrand32\<close> gets for its left and right
  operand.\<close>

definition two_rands :: "bool \<Rightarrow> u64 \<Rightarrow> i32 \<times> i32 \<times> u64" where
  "two_rands lr n =
    (let (a, n) = myrand32 n; (b, n) = myrand32 n in if lr then (a, b, n) else (b, a, n))"

definition key_word :: "bool \<Rightarrow> u32 \<Rightarrow> u32 \<Rightarrow> i32 \<Rightarrow> u64 \<Rightarrow> i32 \<times> u64" where
  "key_word lr enc ch output_frame n =
    (if enc = 2 then
       (if ch = 2 then let (a, b, n) = two_rands lr n in (push_bit 24 (a AND 0xFF) OR (b AND 0xFF), n)
        else let (a, n) = myrand32 n in (a AND 0xFF, n))
     else if enc = 3 then
       (if ch = 2 then let (a, b, n) = two_rands lr n in (push_bit 16 (a AND 0xFFFF) OR (b AND 0xFFFF), n)
        else let (a, n) = myrand32 n in (a AND 0xFFFF, n))
     else if enc = 4 then
       (if ch = 2 then let (a, b, n) = two_rands lr n in (push_bit 8 (a AND 0xFFFFFF) OR (b AND 0xFFFFFF), n)
        else let (a, n) = myrand32 n in (a AND 0xFFFFFF, n))
     else if enc = 5 then
       (if ch = 2 then let (a, b, n) = two_rands lr n in ((a AND 0xFFFFFFFF) OR (b AND 0xFFFFFFFF), n)
        else let (a, n) = myrand32 n in (a AND 0xFFFFFFFF, n))
     else (output_frame, n))"

text \<open>The loop of \<open>-c\<close>; \<open>k\<close> frames are left, \<open>sz\<close> is the number of bytes of a frame.\<close>

fun crypt_loop :: "bool \<Rightarrow> AUDIO_HEADER \<Rightarrow> nat \<Rightarrow> nat \<Rightarrow> i32 \<Rightarrow> i32 \<Rightarrow> u64 \<Rightarrow> bool \<Rightarrow> io \<Rightarrow> (bool \<times> io) option" where
  "crypt_loop lr hp sz 0 input_frame output_frame n noerror s = Some (noerror, s)"
| "crypt_loop lr hp sz (Suc k) input_frame output_frame n noerror s =
    (let (_, input_frame, s) = read_frame sz input_frame s;
         (output_frame, n) = key_word lr (encoding hp) (channels hp) output_frame n;
         output_frame = output_frame XOR input_frame
     in Option.bind (write_frame sz output_frame s) (\<lambda>(ok, s).
          crypt_loop lr hp sz k input_frame output_frame n (noerror \<and> ok) s))"

text \<open>The loop of \<open>-u\<close> from counter \<open>i\<close> on; the input frame is returned too.\<close>

fun speed_loop :: "nat \<Rightarrow> nat \<Rightarrow> nat \<Rightarrow> nat \<Rightarrow> i32 \<Rightarrow> bool \<Rightarrow> io \<Rightarrow> (bool \<times> i32 \<times> io) option" where
  "speed_loop f sz 0 i input_frame noerror s = Some (noerror, input_frame, s)"
| "speed_loop f sz (Suc k) i input_frame noerror s =
    (let (_, input_frame, s) = read_frame sz input_frame s
     in if i mod f = 0
        then Option.bind (write_frame sz input_frame s) (\<lambda>(ok, s).
               speed_loop f sz k (i + 1) input_frame (noerror \<and> ok) s)
        else speed_loop f sz k (i + 1) input_frame noerror s)"

text \<open>
  \<open>-d\<close>: the first frame, and the loops for one and two channels, whose first iteration copies
  the input frame to the previous one.
\<close>

definition slow_down :: "AUDIO_HEADER \<Rightarrow> u32 \<Rightarrow> i32 \<Rightarrow> bool \<Rightarrow> io \<Rightarrow> (bool \<times> i32 \<times> io) option" where
  "slow_down hp f input_frame noerror s =
    (let (_, input_frame, s) = read_frame (unat (channels hp * f)) input_frame s
     in Option.bind (write_frame (unat (channels hp * f)) input_frame s) (\<lambda>(ok, s).
          if data_size hp div (f * (encoding hp + 1)) = 0 then Some (noerror \<and> ok, input_frame, s)
          else Option.bind (copyFrame [0, 0] [input_frame, 0]) (\<lambda>_. None)))"

function pad_annotation :: "nat \<Rightarrow> u8 list \<Rightarrow> (nat \<times> u8 list) option" where
  "pad_annotation n buf =
    (if n mod 8 \<noteq> 0
     then Option.bind (store (n + 1) 0 (buf[0 := buf ! 0 + 1])) (pad_annotation (n + 1))
     else Some (n, buf))"
  by pat_completeness auto
termination
proof (relation "measure (\<lambda>(n, buf). (8 - n mod 8) mod 8)", goal_cases)
  case (2 n buf x)
  then have r: "n mod 8 \<noteq> 0" by simp
  have "(8 - (if r = 7 then 0 else r + 1)) mod 8 < (8 - r) mod 8" if "r < 8" "r \<noteq> 0" for r :: nat
    using that by (cases "r = 7") auto
  from this [of "n mod 8"] r have "(8 - (n + 1) mod 8) mod 8 < (8 - n mod 8) mod 8"
    by (simp add: mod_Suc split: if_splits)
  then show ?case by simp
qed simp

declare pad_annotation.simps [simp del]

text \<open>The header and annotation of the output; \<open>Inl\<close> is the return of 0.\<close>

definition write_head :: "bool \<Rightarrow> cstring list \<Rightarrow> AUDIO_HEADER \<Rightarrow> u8 list \<Rightarrow> nat \<Rightarrow> io
    \<Rightarrow> (io + (bool \<times> AUDIO_HEADER \<times> io)) option" where
  "write_head p argv hp input_annotation annotation_size s =
    (if \<not> p then
       Option.bind (prepending argv input_annotation (replicate ANNOTATION_MAX 0)) (\<lambda>(tempDef, output_annotation).
       Option.bind (pad_annotation (annotation_size + tempDef) input_annotation) (\<lambda>(annotation_size, input_annotation).
         let hp = hp\<lparr>data_offset := of_nat annotation_size + 24\<rparr>
         in if tempDef > ANNOTATION_MAX then Some (Inl s)
            else let (ok, s) = write_header hp s
                 in Option.bind (write_annotation output_annotation annotation_size s) (\<lambda>s. Some (Inr (ok, hp, s)))))
     else
       let (ok, s) = write_header hp s
       in Option.bind (write_annotation input_annotation annotation_size s) (\<lambda>s. Some (Inr (ok, hp, s))))"

definition scale_size :: "u64 \<Rightarrow> u32 \<Rightarrow> AUDIO_HEADER \<Rightarrow> AUDIO_HEADER" where
  "scale_size g f hp =
    (if g AND 0x4000000000000000 \<noteq> 0
     then let frame = data_size hp div (channels hp * (encoding hp - 1)) + 1
          in hp\<lparr>data_size := frame * f\<rparr>
     else if g AND 0x2000000000000000 \<noteq> 0
     then hp\<lparr>data_size := (data_size hp div f - 1) * (channels hp * (encoding hp - 1))\<rparr>
     else hp)"

text \<open>The three transformations, in the order of the code.\<close>

definition recode_data :: "bool \<Rightarrow> u64 \<Rightarrow> u32 \<Rightarrow> AUDIO_HEADER \<Rightarrow> io \<Rightarrow> (bool \<times> io) option" where
  "recode_data lr g f hp s =
    (let sz = unat (channels hp * (encoding hp - 1))
     in Option.bind
          (if g AND 0x4000000000000000 \<noteq> 0
           then speed_loop (unat f) sz (unat (data_size hp div f)) 0 0 True s else Some (True, 0, s))
          (\<lambda>(noerror, input_frame, s).
        Option.bind
          (if g AND 0x2000000000000000 \<noteq> 0 then slow_down hp f input_frame noerror s
           else Some (noerror, input_frame, s))
          (\<lambda>(noerror, input_frame, s).
          if g AND 0x1000000000000000 \<noteq> 0
          then crypt_loop lr hp sz (unat (data_size hp div (channels hp * (encoding hp - 1)))) input_frame 0
                 (mysrand (ucast (g AND 0xFFFFFFFF))) noerror s
          else Some (noerror, s))))"

definition recode :: "bool \<Rightarrow> u64 \<Rightarrow> cstring list \<Rightarrow> AUDIO_HEADER \<Rightarrow> io \<Rightarrow> (bool \<times> io) option" where
  "recode lr g argv hp s =
    (let p = (drop_bit 59 g AND 1 \<noteq> 0);
         (ok, hp, s) = read_header hp s;
         annotation_size = unat (data_offset hp - 24)
     in if annotation_size mod 8 \<noteq> 0 \<or> annotation_size > ANNOTATION_MAX then Some (False, s)
        else
          let (ok2, input_annotation, s) = read_annotation (replicate ANNOTATION_MAX 0) annotation_size s
          in if \<not> (ok \<and> ok2) then Some (False, s)
             else
               let f = ucast (drop_bit 48 g AND 0x3FF) + 1; hp = scale_size g f hp
               in Option.bind (write_head p argv hp input_annotation annotation_size s) (\<lambda>r.
                    case r of
                      Inl s \<Rightarrow> Some (False, s)
                    | Inr (ok, hp, s) \<Rightarrow> if \<not> ok then Some (False, s) else recode_data lr g f hp s))"

text \<open>The exit status, 0 for success, and the state of the streams; usage messages go to the
  standard error.\<close>

definition main_audible :: "bool \<Rightarrow> AUDIO_HEADER \<Rightarrow> cstring list \<Rightarrow> io \<Rightarrow> (nat \<times> io) option" where
  "main_audible lr hp argv s =
    (let (ok, g) = validargs_au argv
     in if \<not> ok then Some (1, s)
        else if g AND push_bit 63 1 \<noteq> 0 then Some (0, s)
        else Option.bind (recode lr g argv hp s) (\<lambda>(ok, s). Some (if ok then 0 else 1, s)))"


section \<open>Headers on the wire\<close>

definition be_bytes :: "u32 \<Rightarrow> u8 list" where
  "be_bytes w = [byte_of 3 w, byte_of 2 w, byte_of 1 w, byte_of 0 w]"

definition header_bytes :: "AUDIO_HEADER \<Rightarrow> u8 list" where
  "header_bytes hp = be_bytes (magic_number hp) @ be_bytes (data_offset hp) @ be_bytes (data_size hp)
     @ be_bytes (encoding hp) @ be_bytes (sample_rate hp) @ be_bytes (channels hp)"

lemma length_be_bytes [simp]: "length (be_bytes w) = 4"
  by (simp add: be_bytes_def)

lemma length_header_bytes [simp]: "length (header_bytes hp) = 24"
  by (simp add: header_bytes_def)

lemma readBytes_bytes:
  assumes "inp s = be_bytes w @ rest"
  shows "readBytes hp s = (True, w, s\<lparr>inp := rest\<rparr>)"
proof -
  have "push_bit 8 (push_bit 8 (push_bit 8 (push_bit 8 hp OR ucast a) OR ucast b) OR ucast c) OR ucast d
      = be32 a b c d" for a b c d :: u8
    by (rule bit_word_eqI) (auto simp: bit_be32 bit_simps not_less dest: bit_imp_le_length)
  moreover have "s\<lparr>inp := rest\<rparr> = s\<lparr>inp := x, inp := y, inp := z, inp := rest\<rparr>" for x y z by simp
  ultimately show ?thesis
    using assms be32_bytes [of w]
    by (simp add: readBytes_def be_bytes_def numeral_eq_Suc getchar_def Let_def)
qed

lemma header_update:
  fixes h0 hp :: AUDIO_HEADER
  shows "h0\<lparr>magic_number := magic_number hp, data_offset := data_offset hp, data_size := data_size hp,
      encoding := encoding hp, sample_rate := sample_rate hp, channels := channels hp\<rparr> = hp"
  by simp

lemma read_header_bytes:
  assumes "inp s = header_bytes hp @ rest"
  shows "read_header h0 s = (valid_header hp, hp, s\<lparr>inp := rest\<rparr>)"
proof -
  have "readBytes v (s\<lparr>inp := be_bytes w @ r\<rparr>) = (True, w, s\<lparr>inp := r\<rparr>)" for v w r
    using readBytes_bytes [of "s\<lparr>inp := be_bytes w @ r\<rparr>" w r] by simp
  moreover have "readBytes v s = (True, magic_number hp, s\<lparr>inp := be_bytes (data_offset hp) @ be_bytes (data_size hp)
     @ be_bytes (encoding hp) @ be_bytes (sample_rate hp) @ be_bytes (channels hp) @ rest\<rparr>)" for v
    using assms by (intro readBytes_bytes) (simp add: header_bytes_def)
  ultimately show ?thesis by (simp add: read_header_def Let_def header_update)
qed

lemma putchar_room: "room s = Suc n \<Longrightarrow> putchar c s = (True, s\<lparr>outp := outp s @ [c], room := n\<rparr>)"
  by (simp add: putchar_def)

definition emit :: "u8 list \<Rightarrow> io \<Rightarrow> io" where
  "emit bs s = s\<lparr>outp := outp s @ bs, room := room s - length bs\<rparr>"

lemma emit_simps [simp]:
  "inp (emit bs s) = inp s" "outp (emit bs s) = outp s @ bs" "room (emit bs s) = room s - length bs"
  "emit cs (emit bs s) = emit (bs @ cs) s" "emit [] s = s"
  by (simp_all add: emit_def)

lemma emit_inp: "(emit bs s)\<lparr>inp := r\<rparr> = emit bs (s\<lparr>inp := r\<rparr>)"
  by (simp add: emit_def)

lemma putchar_emit: "0 < room s \<Longrightarrow> putchar c s = (True, emit [c] s)"
  by (simp add: putchar_def emit_def)

lemma writeBytes_emit: "4 \<le> room s \<Longrightarrow> writeBytes w s = (True, emit (be_bytes w) s)"
  by (simp add: writeBytes_def putchar_emit be_bytes_def byte_of_def Let_def)

lemma write_header_emit: "24 \<le> room s \<Longrightarrow> write_header hp s = (True, emit (header_bytes hp) s)"
  by (simp add: write_header_def writeBytes_emit header_bytes_def Let_def)

lemma write_annotation_emit:
  assumes "n \<le> length ap" "n \<le> room s"
  shows "write_annotation ap n s = Some (emit (take n ap) s)"
proof -
  have "length bs \<le> room s \<Longrightarrow> fold (\<lambda>c s. snd (putchar c s)) bs s = emit bs s" for bs s
    by (induction bs arbitrary: s) (simp_all add: putchar_emit)
  from this [of "take n ap" s] show ?thesis using assms by (simp add: write_annotation_def)
qed

section \<open>Annotations\<close>

lemma read_annotation_loop_bytes:
  assumes "inp s = rest_ann @ rest" "rest_ann \<noteq> [] \<longrightarrow> last rest_ann = 0"
    "sz = length done + length rest_ann" "sz \<le> length done + length buf"
  shows "read_annotation_loop sz (length done) (done @ buf) s =
    (True, done @ rest_ann @ drop (length rest_ann) buf, s\<lparr>inp := rest\<rparr>)"
  using assms
proof (induction rest_ann arbitrary: "done" buf s)
  case Nil
  then show ?case by (simp add: read_annotation_loop.simps)
next
  case (Cons c cs)
  then obtain b bs where buf: "buf = b # bs" by (cases buf) auto
  have last: "length done = sz - 1 \<longrightarrow> c = 0" using Cons.prems by (auto split: if_splits)
  have "read_annotation_loop sz (length done) (done @ buf) s =
      read_annotation_loop sz (length (done @ [c])) ((done @ [c]) @ bs) (s\<lparr>inp := cs @ rest\<rparr>)"
    using Cons.prems last buf by (subst read_annotation_loop.simps) (auto simp: getchar_def list_update_append)
  also have "\<dots> = (True, (done @ [c]) @ cs @ drop (length cs) bs, s\<lparr>inp := cs @ rest, inp := rest\<rparr>)"
    using Cons.prems buf by (intro Cons.IH) (auto split: if_splits)
  finally show ?case using buf by simp
qed

definition good_annotation :: "u8 list \<Rightarrow> bool" where
  "good_annotation ann \<longleftrightarrow> length ann \<le> 1023 \<and> (ann = [] \<or> last ann = 0)"

lemma read_annotation_bytes:
  assumes "good_annotation ann" "inp s = ann @ rest"
  shows "read_annotation (replicate ANNOTATION_MAX 0) (length ann) s =
    (True, ann @ replicate (ANNOTATION_MAX - length ann) 0, s\<lparr>inp := rest\<rparr>)"
  using read_annotation_loop_bytes [of s ann rest "length ann" "[]" "replicate ANNOTATION_MAX 0"] assms
  by (auto simp: read_annotation_def good_annotation_def ANNOTATION_MAX_def)


section \<open>Frames\<close>

lemma byte_of_shift:
  assumes "i < 4"
  shows "byte_of i (push_bit 8 w OR ucast (c :: u8)) = (if i = 0 then c else byte_of (i - 1) w)"
  using assms
  by (intro bit_word_eqI) (auto simp: bit_byte_of bit_simps algebra_simps dest: bit_imp_le_length)

lemma byte_of_signed: "i < 4 \<Longrightarrow> ucast (signed_drop_bit (i * 8) w) = byte_of i w"
  by (rule bit_word_eqI)
    (auto simp: byte_of_def bit_simps min_def not_le less_diff_conv2 algebra_simps dest: bit_imp_le_length)

lemma byte_of_xor: "byte_of i (v XOR w) = byte_of i v XOR byte_of i w"
  by (rule bit_word_eqI) (simp add: byte_of_def bit_simps)

definition low_bytes :: "nat \<Rightarrow> u32 \<Rightarrow> u8 list" where
  "low_bytes n w = map (\<lambda>i. byte_of i w) (rev [0..<n])"

lemma length_low_bytes [simp]: "length (low_bytes n w) = n"
  by (simp add: low_bytes_def)

lemma low_bytes_shift: "Suc n \<le> 4 \<Longrightarrow> low_bytes (Suc n) (push_bit 8 w OR ucast (c :: u8)) = low_bytes n w @ [c]"
proof -
  assume n: "Suc n \<le> 4"
  have "[0..<Suc n] = 0 # map Suc [0..<n]" by (simp add: map_Suc_upt upt_conv_Cons)
  then show ?thesis using n by (auto simp: low_bytes_def rev_map byte_of_shift simp del: upt_Suc)
qed

lemma read_frame_bytes:
  assumes "inp s = bs @ rest" "length bs = sz"
  shows "\<exists>w. read_frame sz fp s = (True, w, s\<lparr>inp := rest\<rparr>) \<and>
    (\<forall>n. n + sz \<le> 4 \<longrightarrow> low_bytes (n + sz) w = low_bytes n fp @ bs)"
  using assms
proof (induction bs arbitrary: sz fp s)
  case (Cons c cs)
  let ?fp = "push_bit 8 fp OR ucast c"
  have "\<exists>w. read_frame (length cs) ?fp (s\<lparr>inp := cs @ rest\<rparr>) = (True, w, s\<lparr>inp := cs @ rest, inp := rest\<rparr>) \<and>
    (\<forall>n. n + length cs \<le> 4 \<longrightarrow> low_bytes (n + length cs) w = low_bytes n ?fp @ cs)"
    by (rule Cons.IH) auto
  then obtain w where w: "read_frame (length cs) ?fp (s\<lparr>inp := cs @ rest\<rparr>) = (True, w, s\<lparr>inp := rest\<rparr>)"
    "\<And>n. n + length cs \<le> 4 \<Longrightarrow> low_bytes (n + length cs) w = low_bytes n ?fp @ cs" by auto
  have "low_bytes (n + Suc (length cs)) w = low_bytes n fp @ c # cs" if "n + Suc (length cs) \<le> 4" for n
    using w(2) [of "Suc n"] low_bytes_shift [of n fp c] that by simp
  then show ?case using Cons.prems w(1) by (auto simp: getchar_def)
qed simp

lemma read_frame_eof: "inp s = [] \<Longrightarrow> \<exists>b. read_frame sz fp s = (b, fp, s)"
  by (cases sz) (auto simp: getchar_def)

lemma write_frame_emit:
  "sz \<le> 4 \<Longrightarrow> sz \<le> room s \<Longrightarrow> write_frame sz w s = Some (True, emit (low_bytes sz w) s)"
proof (induction sz arbitrary: s)
  case (Suc i)
  then have "write_frame (Suc i) w s = write_frame i w (emit [byte_of i w] s)"
    by (simp add: putchar_emit byte_of_signed)
  also have "\<dots> = Some (True, emit (low_bytes i w) (emit [byte_of i w] s))" using Suc by (intro Suc.IH) auto
  finally show ?case by (simp add: low_bytes_def)
qed (simp add: low_bytes_def)

lemma write_frame_wide: "4 < sz \<Longrightarrow> write_frame sz w s = None"
  by (cases sz) auto

section \<open>Encryption\<close>

text \<open>The key bytes for \<open>k\<close> frames, and the data under the key.\<close>

fun keystream :: "bool \<Rightarrow> u32 \<Rightarrow> u32 \<Rightarrow> nat \<Rightarrow> nat \<Rightarrow> u64 \<Rightarrow> u8 list" where
  "keystream lr enc ch sz 0 n = []"
| "keystream lr enc ch sz (Suc k) n =
    (let (w, n) = key_word lr enc ch 0 n in low_bytes sz w @ keystream lr enc ch sz k n)"

definition xor_bytes :: "u8 list \<Rightarrow> u8 list \<Rightarrow> u8 list" where
  "xor_bytes ks bs = map2 (XOR) ks bs"

lemma xor_bytes_twice: "length ks = length bs \<Longrightarrow> xor_bytes ks (xor_bytes ks bs) = bs"
  unfolding xor_bytes_def by (induction ks bs rule: list_induct2) (simp_all add: xor.assoc [symmetric])

lemma length_xor_bytes [simp]: "length (xor_bytes ks bs) = min (length ks) (length bs)"
  by (simp add: xor_bytes_def)

lemma length_keystream [simp]: "length (keystream lr enc ch sz k n) = k * sz"
  by (induction k arbitrary: n) (auto split: prod.splits)

lemma low_bytes_xor: "low_bytes sz (v XOR w) = xor_bytes (low_bytes sz v) (low_bytes sz w)"
  by (simp add: low_bytes_def xor_bytes_def byte_of_xor zip_map_map map_zip_map2 zip_same_conv_map)

lemma xor_bytes_append:
  "length as = length xs \<Longrightarrow> xor_bytes (as @ bs) (xs @ ys) = xor_bytes as xs @ xor_bytes bs ys"
  by (simp add: xor_bytes_def)

lemma key_word_frame:
  assumes "enc = 2 \<or> enc = 3 \<or> enc = 4 \<or> enc = 5"
  shows "key_word lr enc ch fp n = key_word lr enc ch 0 n"
  using assms by (auto simp: key_word_def)

lemma crypt_loop_bytes:
  assumes "encoding hp = 2 \<or> encoding hp = 3 \<or> encoding hp = 4 \<or> encoding hp = 5"
    "sz \<le> 4" "inp s = data @ rest" "length data = k * sz" "k * sz \<le> room s"
  shows "crypt_loop lr hp sz k fi fo n noerror s =
    Some (noerror, (emit (xor_bytes (keystream lr (encoding hp) (channels hp) sz k n) data) s)\<lparr>inp := rest\<rparr>)"
  using assms(3-5)
proof (induction k arbitrary: fi fo n noerror s data)
  case 0
  then show ?case by (simp add: xor_bytes_def emit_def)
next
  case (Suc k)
  let ?bs = "take sz data" and ?ds = "drop sz data"
  obtain w n' where kw: "key_word lr (encoding hp) (channels hp) 0 n = (w, n')" by fastforce
  have len: "length ?bs = sz" using Suc.prems by simp
  have "inp s = ?bs @ ?ds @ rest" using Suc.prems by simp
  from read_frame_bytes [OF this len, of fi] obtain v where
    v: "read_frame sz fi s = (True, v, s\<lparr>inp := ?ds @ rest\<rparr>)" "low_bytes sz v = ?bs"
    using assms(2) by (auto simp: low_bytes_def dest: spec [of _ 0])
  let ?s = "emit (low_bytes sz (w XOR v)) (s\<lparr>inp := ?ds @ rest\<rparr>)"
  have "write_frame sz (w XOR v) (s\<lparr>inp := ?ds @ rest\<rparr>) = Some (True, ?s)"
    using assms(2) Suc.prems by (intro write_frame_emit) auto
  then have "crypt_loop lr hp sz (Suc k) fi fo n noerror s = crypt_loop lr hp sz k v (w XOR v) n' noerror ?s"
    using v key_word_frame [OF assms(1), of lr "channels hp" fo n] kw by (simp add: Let_def)
  also have "\<dots> = Some (noerror, (emit (xor_bytes (keystream lr (encoding hp) (channels hp) sz k n') ?ds) ?s)\<lparr>inp := rest\<rparr>)"
    using Suc.prems by (intro Suc.IH) auto
  also have "(emit (xor_bytes (keystream lr (encoding hp) (channels hp) sz k n') ?ds) ?s)\<lparr>inp := rest\<rparr> =
      (emit (xor_bytes (keystream lr (encoding hp) (channels hp) sz (Suc k) n) data) s)\<lparr>inp := rest\<rparr>"
  proof -
    have "xor_bytes (low_bytes sz w) ?bs @ xor_bytes (keystream lr (encoding hp) (channels hp) sz k n') ?ds
        = xor_bytes (keystream lr (encoding hp) (channels hp) sz (Suc k) n) (?bs @ ?ds)"
      using len kw by (simp only: keystream.simps xor_bytes_append length_low_bytes Let_def prod.case)
    then have "emit (xor_bytes (keystream lr (encoding hp) (channels hp) sz (Suc k) n) data) (s\<lparr>inp := ?ds @ rest\<rparr>)
        = emit (xor_bytes (keystream lr (encoding hp) (channels hp) sz k n') ?ds) ?s"
      by (simp only: emit_simps low_bytes_xor v(2) append_take_drop_id)
    moreover have "(emit bs (s\<lparr>inp := i\<rparr>))\<lparr>inp := rest\<rparr> = (emit bs s)\<lparr>inp := rest\<rparr>" for bs i
      by (simp add: emit_def)
    ultimately show ?thesis by metis
  qed
  finally show ?case .
qed


section \<open>Whole files\<close>

text \<open>A header and an annotation that fit together.\<close>

definition audio_head :: "AUDIO_HEADER \<Rightarrow> u8 list \<Rightarrow> bool" where
  "audio_head hp ann \<longleftrightarrow> valid_header hp \<and> good_annotation ann \<and> data_offset hp = of_nat (24 + length ann)"

definition frame_bytes :: "AUDIO_HEADER \<Rightarrow> nat" where
  "frame_bytes hp = unat (channels hp * (encoding hp - 1))"

lemma audio_head_size:
  assumes "audio_head hp ann"
  shows "unat (data_offset hp - 24) = length ann" and "length ann mod 8 = 0"
proof -
  have d: "data_offset hp = of_nat (24 + length ann)" "length ann \<le> 1023" "data_offset hp mod 8 = 0"
    using assms by (auto simp: audio_head_def good_annotation_def valid_header_def split: if_splits)
  have u: "unat (of_nat (n :: nat) :: u32) = n" if "n < 2 ^ 32" for n
    using that by (simp add: unsigned_of_nat take_bit_nat_eq_self)
  have "data_offset hp - 24 = of_nat (length ann)" using d(1) by simp
  then show "unat (data_offset hp - 24) = length ann" using u [of "length ann"] d(2) by simp
  have "unat (data_offset hp) mod 8 = 0"
    using arg_cong [OF d(3), of unat] by (simp add: unat_mod)
  moreover have "unat (data_offset hp) = 24 + length ann"
    unfolding d(1) using d(2) by (intro u) simp
  ultimately show "length ann mod 8 = 0" by presburger
qed

lemma recode_preserved:
  assumes "audio_head hp ann" "inp s = header_bytes hp @ ann @ rest" "drop_bit 59 g AND 1 = 1"
    "24 + length ann \<le> room s" "f = ucast (drop_bit 48 g AND 0x3FF) + 1"
  shows "recode lr g argv h0 s =
    recode_data lr g f (scale_size g f hp) (emit (header_bytes (scale_size g f hp) @ ann) (s\<lparr>inp := rest\<rparr>))"
proof -
  have rh: "read_header h0 s = (True, hp, s\<lparr>inp := ann @ rest\<rparr>)"
    using read_header_bytes [OF assms(2)] assms(1) by (simp add: audio_head_def)
  have len: "length ann \<le> 1023" using assms(1) by (simp add: audio_head_def good_annotation_def)
  have ra: "read_annotation (replicate ANNOTATION_MAX 0) (length ann) (s\<lparr>inp := ann @ rest\<rparr>) =
      (True, ann @ replicate (ANNOTATION_MAX - length ann) 0, s\<lparr>inp := rest\<rparr>)"
    using read_annotation_bytes [of ann "s\<lparr>inp := ann @ rest\<rparr>" rest] assms(1) by (simp add: audio_head_def)
  have wh: "write_head True argv h (ann @ replicate (ANNOTATION_MAX - length ann) 0) (length ann) (s\<lparr>inp := rest\<rparr>) =
      Some (Inr (True, h, emit (header_bytes h @ ann) (s\<lparr>inp := rest\<rparr>)))" for h
    using assms(4) len by (simp add: write_head_def write_header_emit write_annotation_emit ANNOTATION_MAX_def)
  show ?thesis
    using audio_head_size [OF assms(1)] assms(3,5) len
    by (simp add: recode_def rh ra wh Let_def ANNOTATION_MAX_def [symmetric])
      (simp add: ANNOTATION_MAX_def)
qed


lemma main_recode:
  assumes "audio_line argv = Some r" "r \<noteq> Help"
    "\<forall>s \<in> set (drop 2 argv). length s \<le> 9 \<and> CHR 0x00 \<notin> set s"
  obtains g where "options_say g r"
    "\<And>lr h s. main_audible lr h argv s =
      Option.bind (recode lr g argv h s) (\<lambda>(ok, s). Some (if ok then 0 else 1, s))"
proof -
  obtain ok g where g: "validargs_au argv = (ok, g)" by fastforce
  have v: "ok" "options_say g r" using validargs_au_spec [OF assms(3)] assms(1) g by simp_all
  have "g AND push_bit 63 1 = 0" using v(2) assms(2) by (simp add: options_say_def mode_of_def)
  then show ?thesis using that [of g] v g by (simp add: main_audible_def)
qed

section \<open>Properties\<close>

text \<open>
  C28. The header codec: the 24 bytes that \<open>write_header\<close> puts out for a header are read back by
  \<open>read_header\<close> as the same header, whatever was in the structure before, and accepted exactly
  when the header is valid.
\<close>

theorem header_roundtrip:
  assumes "24 \<le> room s"
  shows "\<exists>bytes s'. write_header hp s = (True, s') \<and> outp s' = outp s @ bytes \<and> length bytes = 24
    \<and> (\<forall>h0 t rest. read_header h0 (t\<lparr>inp := bytes @ rest\<rparr>) = (valid_header hp, hp, t\<lparr>inp := rest\<rparr>))"
proof -
  have "read_header h0 (t\<lparr>inp := header_bytes hp @ rest\<rparr>) = (valid_header hp, hp, t\<lparr>inp := rest\<rparr>)" for h0 t rest
    using read_header_bytes [of "t\<lparr>inp := header_bytes hp @ rest\<rparr>" hp rest] by simp
  then show ?thesis using write_header_emit [OF assms] by (intro exI [of _ "header_bytes hp"]) auto
qed

definition mono16 :: AUDIO_HEADER where
  "mono16 = \<lparr>magic_number = 0x2e736e64, data_offset = 32, data_size = 4, encoding = 3, sample_rate = 8000, channels = 1\<rparr>"

theorem header_roundtrip_witness:
  "\<exists>bytes. length bytes = 24 \<and>
    read_header (mono16\<lparr>channels := 7\<rparr>) \<lparr>inp = bytes, outp = [], room = 0\<rparr> = (True, mono16, \<lparr>inp = [], outp = [], room = 0\<rparr>)"
proof -
  obtain bytes where "length bytes = 24"
    and r: "\<And>h0 t rest. read_header h0 (t\<lparr>inp := bytes @ rest\<rparr>) = (valid_header mono16, mono16, t\<lparr>inp := rest\<rparr>)"
    using header_roundtrip [of "\<lparr>inp = [], outp = [], room = 24\<rparr>" mono16] by auto
  moreover have "valid_header mono16" by (simp add: valid_header_def mono16_def)
  ultimately show ?thesis using r [where t = "\<lparr>inp = [], outp = [], room = 0\<rparr>" and rest = "[]"] by auto
qed

text \<open>
  C9. Encrypting with \<open>-p\<close> is undone by encrypting again: for a file whose frames have at most four bytes,
  \<open>-c -k KEY -p\<close> keeps the header and the annotation and replaces the data by as many other
  bytes, and the same command applied to its output gives the file back.
\<close>

theorem crypt_twice:
  assumes "audio_line argv = Some (Crypt k True)"
    "\<forall>s \<in> set (drop 2 argv). length s \<le> 9 \<and> CHR 0x00 \<notin> set s"
    "audio_head hp ann" "frame_bytes hp \<le> 4" "frame_bytes hp dvd length data"
    "length data = unat (data_size hp)" "24 + length ann + length data \<le> r"
  shows "\<exists>cipher. length cipher = length data
    \<and> main_audible lr h0 argv \<lparr>inp = header_bytes hp @ ann @ data @ rest, outp = [], room = r\<rparr> =
        Some (0, \<lparr>inp = rest, outp = header_bytes hp @ ann @ cipher, room = r - (24 + length ann + length data)\<rparr>)
    \<and> main_audible lr h0 argv \<lparr>inp = header_bytes hp @ ann @ cipher @ rest, outp = [], room = r\<rparr> =
        Some (0, \<lparr>inp = rest, outp = header_bytes hp @ ann @ data, room = r - (24 + length ann + length data)\<rparr>)"
proof -
  obtain g where g: "options_say g (Crypt k True)"
    "\<And>lr h s. main_audible lr h argv s =
      Option.bind (recode lr g argv h s) (\<lambda>(ok, s). Some (if ok then 0 else 1, s))"
    using main_recode [OF assms(1) _ assms(2)] by blast
  then have o: "g AND 0x4000000000000000 = 0" "g AND 0x2000000000000000 = 0" "g AND 0x1000000000000000 \<noteq> 0"
    "drop_bit 59 g AND 1 = 1" by (auto simp: options_say_def mode_of_def)
  have enc: "encoding hp = 2 \<or> encoding hp = 3 \<or> encoding hp = 4 \<or> encoding hp = 5"
    using assms(3) by (auto simp: audio_head_def valid_header_def split: if_splits)
  have sc: "scale_size g f hp = hp" for f using o by (simp add: scale_size_def)
  let ?n = "unat (data_size hp div (channels hp * (encoding hp - 1)))"
  have n: "?n * frame_bytes hp = length data"
    using assms(5,6) by (simp add: unat_div frame_bytes_def)
  define ks where "ks = keystream lr (encoding hp) (channels hp) (frame_bytes hp) ?n (mysrand (ucast (g AND 0xFFFFFFFF)))"
  have run: "main_audible lr h0 argv \<lparr>inp = header_bytes hp @ ann @ d @ rest, outp = [], room = r\<rparr> =
      Some (0, \<lparr>inp = rest, outp = header_bytes hp @ ann @ xor_bytes ks d, room = r - (24 + length ann + length data)\<rparr>)"
    if "length d = length data" for d
  proof -
    let ?s = "\<lparr>inp = header_bytes hp @ ann @ d @ rest, outp = [], room = r\<rparr>"
    let ?s' = "emit (header_bytes hp @ ann) (?s\<lparr>inp := d @ rest\<rparr>)"
    have l: "length ks = length data" using n by (simp add: ks_def)
    have "recode lr g argv h0 ?s = recode_data lr g (ucast (drop_bit 48 g AND 0x3FF) + 1) hp ?s'"
      using recode_preserved [OF assms(3), of ?s "d @ rest" g] o(4) assms(7) sc by simp
    also have "\<dots> = Some (True, (emit (xor_bytes ks d) ?s')\<lparr>inp := rest\<rparr>)"
      using crypt_loop_bytes [OF enc assms(4), of ?s' d rest ?n lr 0 0 _ True] o n that assms(7)
      by (simp add: recode_data_def ks_def frame_bytes_def [symmetric] Let_def)
    finally show ?thesis using g(2) that l by (simp add: emit_def)
  qed
  have "length ks = length data" using n by (simp add: ks_def)
  then show ?thesis
    using run [of data] run [of "xor_bytes ks data"] xor_bytes_twice [of ks data]
    by (intro exI [of _ "xor_bytes ks data"]) simp
qed


theorem crypt_twice_witness:
  "\<exists>cipher. length cipher = length [1, 2, 3, 4 :: u8]
    \<and> main_audible True mono16 [''audible'', ''-c'', ''-k'', ''beef'', ''-p'']
        \<lparr>inp = header_bytes mono16 @ [72, 105, 0, 0, 0, 0, 0, 0] @ [1, 2, 3, 4], outp = [], room = 99\<rparr> =
        Some (0, \<lparr>inp = [], outp = header_bytes mono16 @ [72, 105, 0, 0, 0, 0, 0, 0] @ cipher, room = 63\<rparr>)
    \<and> main_audible True mono16 [''audible'', ''-c'', ''-k'', ''beef'', ''-p'']
        \<lparr>inp = header_bytes mono16 @ [72, 105, 0, 0, 0, 0, 0, 0] @ cipher, outp = [], room = 99\<rparr> =
        Some (0, \<lparr>inp = [], outp = header_bytes mono16 @ [72, 105, 0, 0, 0, 0, 0, 0] @ [1, 2, 3, 4], room = 63\<rparr>)"
proof -
  have "audio_line [''audible'', ''-c'', ''-k'', ''beef'', ''-p''] = Some (Crypt 0xbeef True)"
    by (simp add: audio_line_def key_arg_def hex_char_def ord_def hex_value_def hex_digit_def)
  moreover have "audio_head mono16 [72, 105, 0, 0, 0, 0, 0, 0]" "frame_bytes mono16 = 2" "unat (data_size mono16) = 4"
    by (simp_all add: audio_head_def valid_header_def good_annotation_def mono16_def frame_bytes_def)
  ultimately show ?thesis
    using crypt_twice [where argv = "[''audible'', ''-c'', ''-k'', ''beef'', ''-p'']" and k = "0xbeef" and hp = mono16
        and ann = "[72, 105, 0, 0, 0, 0, 0, 0]" and data = "[1, 2, 3, 4]" and r = 99 and lr = True
        and ?h0.0 = mono16 and rest = "[]"] by simp
qed

section \<open>Speeding up and slowing down\<close>

text \<open>Every \<open>f\<close>-th frame from counter \<open>i\<close> on.\<close>

fun every :: "nat \<Rightarrow> nat \<Rightarrow> 'a list \<Rightarrow> 'a list" where
  "every f i [] = []"
| "every f i (x # xs) = (if i mod f = 0 then [x] else []) @ every f (i + 1) xs"

lemma length_concat_every: "\<forall>x \<in> set xs. length x = n \<Longrightarrow> length (concat (every f i xs)) \<le> n * length xs"
  by (induction xs arbitrary: i) (auto simp: add_increasing)

lemma every_append: "every f i (xs @ ys) = every f i xs @ every f (i + length xs) ys"
  by (induction xs arbitrary: i) auto

lemma speed_loop_frames:
  assumes "sz \<le> 4" "\<forall>x \<in> set frames. length x = sz" "inp s = concat frames @ rest"
    "sz * length frames \<le> room s"
  shows "\<exists>w. speed_loop f sz (length frames + k) i fi noerror s =
      speed_loop f sz k (i + length frames) w noerror ((emit (concat (every f i frames)) s)\<lparr>inp := rest\<rparr>)
    \<and> (frames \<noteq> [] \<longrightarrow> low_bytes sz w = last frames)"
  using assms(2-)
proof (induction frames arbitrary: i fi s)
  case Nil
  then show ?case by (auto simp: emit_def)
next
  case (Cons x frames)
  have len: "length x = sz" using Cons.prems by simp
  have "inp s = x @ concat frames @ rest" using Cons.prems by simp
  from read_frame_bytes [OF this len, of fi] obtain v where
    v: "read_frame sz fi s = (True, v, s\<lparr>inp := concat frames @ rest\<rparr>)" "low_bytes sz v = x"
    using assms(1) by (auto simp: low_bytes_def dest: spec [of _ 0])
  let ?s = "s\<lparr>inp := concat frames @ rest\<rparr>"
  let ?bs = "if i mod f = 0 then x else []"
  have x: "length x = sz" using Cons.prems by simp
  have "write_frame sz v ?s = Some (True, emit x ?s)"
    using write_frame_emit [OF assms(1), of ?s v] v(2) Cons.prems by simp
  then have A: "speed_loop f sz (length (x # frames) + k) i fi noerror s =
      speed_loop f sz (length frames + k) (i + 1) v noerror (emit ?bs ?s)"
    using v by simp
  have "\<exists>w. speed_loop f sz (length frames + k) (i + 1) v noerror (emit ?bs ?s) =
      speed_loop f sz k (i + 1 + length frames) w noerror
        ((emit (concat (every f (i + 1) frames)) (emit ?bs ?s))\<lparr>inp := rest\<rparr>)
    \<and> (frames \<noteq> [] \<longrightarrow> low_bytes sz w = last frames)"
    using Cons.prems x by (intro Cons.IH) auto
  then obtain w where w: "speed_loop f sz (length frames + k) (i + 1) v noerror (emit ?bs ?s) =
      speed_loop f sz k (i + 1 + length frames) w noerror
        ((emit (concat (every f (i + 1) frames)) (emit ?bs ?s))\<lparr>inp := rest\<rparr>)"
    "frames \<noteq> [] \<longrightarrow> low_bytes sz w = last frames" by blast
  show ?case
  proof (cases "frames = []")
    case True
    then show ?thesis using A v(2) by (intro exI [of _ v]) (simp add: emit_inp)
  next
    case False
    then show ?thesis using A w by (intro exI [of _ w]) (simp add: emit_inp)
  qed
qed


lemma frame_bytes_pos: "valid_header hp \<Longrightarrow> 0 < frame_bytes hp"
  by (auto simp: valid_header_def frame_bytes_def split: if_splits)

lemma factor_word:
  fixes g :: u64
  assumes "unat (drop_bit 48 g AND 0x3FF) + 1 = f" "f \<le> 1024"
  shows "ucast (drop_bit 48 g AND 0x3FF) + 1 = (of_nat f :: u32)"
proof -
  have "ucast (drop_bit 48 g AND 0x3FF) = (of_nat (unat (drop_bit 48 g AND 0x3FF)) :: u32)"
    by simp
  then show ?thesis using assms(1) by (metis of_nat_1 of_nat_add)
qed

lemma request_factor: "audio_line argv = Some r \<Longrightarrow> is_Speed_Up r \<or> is_Slow_Down r \<Longrightarrow> 1 \<le> req_factor r \<and> req_factor r \<le> 1024"
  by (auto simp: audio_line_def dest!: factor_bounds split: list.splits if_splits)

lemma unat_of_nat32: "n < 2 ^ 32 \<Longrightarrow> unat (of_nat n :: u32) = n"
  by (simp add: unsigned_of_nat take_bit_nat_eq_self)

text \<open>
  C29. Speeding up by \<open>f\<close> with \<open>-p\<close>: of a file with frames of at most four bytes, for which the announced size does not
  overflow 32 bits, the program writes every
  \<open>f\<close>-th frame, but it runs over one frame more than the file has, in which it finds the last
  frame again, and the data size it announces is the factor times that number of frames instead of
  the number of bytes that follow.
\<close>

theorem speed_up_frames:
  assumes "audio_line argv = Some (Speed_Up f True)"
    "\<forall>s \<in> set (drop 2 argv). length s \<le> 9 \<and> CHR 0x00 \<notin> set s"
    "audio_head hp ann" "frame_bytes hp \<le> 4" "\<forall>x \<in> set frames. length x = frame_bytes hp" "frames \<noteq> []"
    "unat (data_size hp) = frame_bytes hp * length frames" "(length frames + 1) * f < 2 ^ 32"
    "24 + length ann + frame_bytes hp * (length frames + 1) \<le> r"
  shows "\<exists>s'. main_audible lr h0 argv \<lparr>inp = header_bytes hp @ ann @ concat frames, outp = [], room = r\<rparr> = Some (0, s')
    \<and> outp s' = header_bytes (hp\<lparr>data_size := of_nat ((length frames + 1) * f)\<rparr>) @ ann
        @ concat (every f 0 (frames @ [last frames]))"
proof -
  let ?sz = "frame_bytes hp" and ?n = "length frames"
  obtain g where g: "options_say g (Speed_Up f True)"
    "\<And>lr h s. main_audible lr h argv s =
      Option.bind (recode lr g argv h s) (\<lambda>(ok, s). Some (if ok then 0 else 1, s))"
    using main_recode [OF assms(1) _ assms(2)] by blast
  then have o: "g AND 0x4000000000000000 \<noteq> 0" "g AND 0x2000000000000000 = 0" "g AND 0x1000000000000000 = 0"
    "drop_bit 59 g AND 1 = 1" "unat (drop_bit 48 g AND 0x3FF) + 1 = f" by (auto simp: options_say_def mode_of_def)
  have f: "1 \<le> f" "f \<le> 1024" using request_factor [OF assms(1)] by auto
  have fw: "ucast (drop_bit 48 g AND 0x3FF) + 1 = (of_nat f :: u32)" by (rule factor_word [OF o(5) f(2)])
  define d :: u32 where "d = data_size hp div (channels hp * (encoding hp - 1))"
  have "unat d = ?n"
    using assms(3,7) frame_bytes_pos [of hp] by (simp add: d_def unat_div frame_bytes_def [symmetric] audio_head_def)
  then have "d = of_nat ?n" by (metis of_nat_unat ucast_id)
  then have "scale_size g (of_nat f) hp = hp\<lparr>data_size := of_nat ((?n + 1) * f)\<rparr>"
    using o(1) unfolding scale_size_def d_def [symmetric] by (simp add: Let_def algebra_simps)
  then obtain h where h: "scale_size g (of_nat f) hp = h" "h = hp\<lparr>data_size := of_nat ((?n + 1) * f)\<rparr>" by blast
  let ?s = "\<lparr>inp = header_bytes hp @ ann @ concat frames, outp = [], room = r\<rparr>"
  let ?s' = "emit (header_bytes h @ ann) (?s\<lparr>inp := concat frames\<rparr>)"
  have "data_size h = of_nat ((?n + 1) * f)" using h(2) by simp
  then have "unat (data_size h) = (?n + 1) * f" using unat_of_nat32 [OF assms(8)] by (simp only:)
  then have cnt: "unat (data_size h div of_nat f) = ?n + 1"
    using f by (simp add: unat_div unat_of_nat32)
  have "recode lr g argv h0 ?s = recode_data lr g (of_nat f) h ?s'"
    using recode_preserved [OF assms(3), of ?s "concat frames" g] o(4) assms(9) fw h by simp
  also have "\<dots> = Option.bind (speed_loop f ?sz (?n + 1) 0 0 True ?s') (\<lambda>(ok, fr, s). Some (ok, s))"
  proof -
    have "unat (channels h * (encoding h - 1)) = ?sz" using h by (simp add: frame_bytes_def)
    moreover have "unat (of_nat f :: u32) = f" using f by (intro unat_of_nat32) simp
    ultimately show ?thesis using cnt o by (simp add: recode_data_def Let_def case_prod_beta')
  qed
  also have "\<exists>s'. \<dots> = Some (True, s') \<and> outp s' = header_bytes h @ ann @ concat (every f 0 (frames @ [last frames]))"
  proof -
    have i: "inp ?s' = concat frames @ []" and rm: "?sz * ?n \<le> room ?s'" using assms(9) by simp_all
    obtain w where w: "speed_loop f ?sz (?n + 1) 0 0 True ?s' =
        speed_loop f ?sz 1 (0 + ?n) w True ((emit (concat (every f 0 frames)) ?s')\<lparr>inp := []\<rparr>)" "low_bytes ?sz w = last frames"
      using speed_loop_frames [OF assms(4,5) i rm, where k = "1"] assms(6) by blast
    let ?t = "(emit (concat (every f 0 frames)) ?s')\<lparr>inp := []\<rparr>"
    obtain b where b: "read_frame ?sz w ?t = (b, w, ?t)" using read_frame_eof [of ?t] by auto
    have "length (concat (every f 0 frames)) \<le> ?sz * ?n" using length_concat_every [OF assms(5)] by simp
    then have "write_frame ?sz w ?t = Some (True, emit (last frames) ?t)"
      using write_frame_emit [OF assms(4), of ?t w] w(2) assms(9) by simp
    then show ?thesis using w b by (simp add: every_append emit_inp)
  qed
  finally show ?thesis using g(2) h(2) by auto
qed


theorem speed_up_frames_witness:
  "\<exists>s'. main_audible True mono16 [''audible'', ''-u'', ''-f'', ''2'', ''-p'']
      \<lparr>inp = header_bytes mono16 @ [72, 105, 0, 0, 0, 0, 0, 0] @ concat [[1, 2], [3, 4]], outp = [], room = 99\<rparr> = Some (0, s')
    \<and> outp s' = header_bytes (mono16\<lparr>data_size := 6\<rparr>) @ [72, 105, 0, 0, 0, 0, 0, 0] @ [1, 2, 3, 4]"
proof -
  have "audio_line [''audible'', ''-u'', ''-f'', ''2'', ''-p''] = Some (Speed_Up 2 True)"
    by (simp add: audio_line_def speed_args_def factor_arg_def is_digit_def ord_def dec_value_def)
  moreover have "audio_head mono16 [72, 105, 0, 0, 0, 0, 0, 0]" "frame_bytes mono16 = 2" "unat (data_size mono16) = 4"
    by (simp_all add: audio_head_def valid_header_def good_annotation_def mono16_def frame_bytes_def)
  ultimately show ?thesis
    using speed_up_frames [where argv = "[''audible'', ''-u'', ''-f'', ''2'', ''-p'']" and f = "2" and hp = mono16
        and ann = "[72, 105, 0, 0, 0, 0, 0, 0]" and frames = "[[1, 2], [3, 4]]" and r = "99" and lr = True
        and ?h0.0 = mono16] by simp
qed

text \<open>
  Slowing down a file as soon as one sample is to be interpolated is undefined behaviour:
  \<open>copyFrame\<close> copies eight \<open>int\<close>s between buffers of two.
\<close>

theorem slow_down_undefined:
  assumes "audio_line argv = Some (Slow_Down f True)"
    "\<forall>s \<in> set (drop 2 argv). length s \<le> 9 \<and> CHR 0x00 \<notin> set s"
    "audio_head hp ann" "24 + length ann \<le> r"
    "(data_size hp div of_nat f - 1) * (channels hp * (encoding hp - 1)) div (of_nat f * (encoding hp + 1)) \<noteq> 0"
  shows "main_audible lr h0 argv \<lparr>inp = header_bytes hp @ ann @ rest, outp = [], room = r\<rparr> = None"
proof -
  obtain g where g: "options_say g (Slow_Down f True)"
    "\<And>lr h s. main_audible lr h argv s =
      Option.bind (recode lr g argv h s) (\<lambda>(ok, s). Some (if ok then 0 else 1, s))"
    using main_recode [OF assms(1) _ assms(2)] by blast
  then have o: "g AND 0x4000000000000000 = 0" "g AND 0x2000000000000000 \<noteq> 0"
    "drop_bit 59 g AND 1 = 1" "unat (drop_bit 48 g AND 0x3FF) + 1 = f" by (auto simp: options_say_def mode_of_def)
  have fw: "ucast (drop_bit 48 g AND 0x3FF) + 1 = (of_nat f :: u32)"
    using factor_word [OF o(4)] request_factor [OF assms(1)] by simp
  let ?s = "\<lparr>inp = header_bytes hp @ ann @ rest, outp = [], room = r\<rparr>"
  define h where "h = scale_size g (of_nat f) hp"
  have h: "data_size h div (of_nat f * (encoding h + 1)) \<noteq> 0"
    using assms(5) o(1,2) by (simp add: h_def scale_size_def)
  have "slow_down h (of_nat f) fi ne s = None" for fi ne s
  proof -
    have "copyFrame [0, 0] [w, 0] = None" for w by (simp add: copyFrame_def numeral_eq_Suc)
    then show ?thesis using h by (simp add: slow_down_def case_prod_beta' bind_eq_None_conv Let_def)
  qed
  then have "recode_data lr g (of_nat f) h s = None" for s using o by (simp add: recode_data_def)
  then have "recode lr g argv h0 ?s = None"
    using recode_preserved [OF assms(3), of ?s rest g] o(3) assms(4) fw h_def by simp
  then show ?thesis using g(2) by simp
qed

theorem slow_down_undefined_witness:
  "main_audible True mono16 [''audible'', ''-d'', ''-p'']
    \<lparr>inp = header_bytes mono16 @ [72, 105, 0, 0, 0, 0, 0, 0] @ [1, 2, 3, 4], outp = [], room = 99\<rparr> = None"
proof -
  have "audio_line [''audible'', ''-d'', ''-p''] = Some (Slow_Down 1 True)"
    by (simp add: audio_line_def speed_args_def)
  moreover have "audio_head mono16 [72, 105, 0, 0, 0, 0, 0, 0]"
    by (simp add: audio_head_def valid_header_def good_annotation_def mono16_def)
  moreover have "(data_size mono16 div of_nat 1 - 1) * (channels mono16 * (encoding mono16 - 1))
      div (of_nat 1 * (encoding mono16 + 1)) \<noteq> 0" by (simp add: mono16_def)
  ultimately show ?thesis
    using slow_down_undefined [where argv = "[''audible'', ''-d'', ''-p'']" and f = "1" and hp = mono16
        and ann = "[72, 105, 0, 0, 0, 0, 0, 0]" and rest = "[1, 2, 3, 4]" and r = "99" and lr = True
        and ?h0.0 = mono16] by simp
qed


section \<open>The prepended command line\<close>

text \<open>The arguments with a space between each two.\<close>

fun joined :: "cstring list \<Rightarrow> u8 list" where
  "joined [] = []"
| "joined [str] = map of_char str"
| "joined (str # argv) = map of_char str @ 32 # joined argv"

lemma store_append: "store (length pre) c (pre @ buf) =
    (case buf of [] \<Rightarrow> None | b # bs \<Rightarrow> Some ((pre @ [c]) @ bs))"
  by (auto simp: store_def split: list.splits)

lemma put_str_append:
  "put_str cs (length pre) (pre @ buf) =
    (if length cs \<le> length buf then Some (length (pre @ map of_char cs), (pre @ map of_char cs) @ drop (length cs) buf)
     else None)"
proof (induction cs arbitrary: pre buf)
  case (Cons c cs)
  show ?case
  proof (cases buf)
    case (Cons b bs)
    then show ?thesis using Cons.IH [of "pre @ [of_char c]" bs] by (simp add: store_append)
  qed (simp add: store_append store_def)
qed simp

lemma put_args_append:
  "put_args argv (length pre) (pre @ buf) =
    (if length (joined argv) \<le> length buf
     then Some (length (pre @ joined argv), (pre @ joined argv) @ drop (length (joined argv)) buf) else None)"
proof (induction argv arbitrary: pre buf rule: joined.induct)
  case (2 str)
  then show ?case by (simp add: put_str_append)
next
  case (3 str a argv)
  let ?pre = "pre @ map of_char str" and ?buf = "drop (length str) buf"
  show ?case
  proof (cases "length str < length buf")
    case True
    then obtain b bs where b: "?buf = b # bs" by (cases ?buf) auto
    then have bs: "bs = drop (length str + 1) buf" using drop_Suc [of "length str" buf]
      by (metis add.commute drop_drop list.sel(3) drop_0 drop_Suc plus_1_eq_Suc tl_drop)
    have "store (length ?pre) 32 (?pre @ ?buf) = Some ((?pre @ [32]) @ bs)"
      using store_append [of ?pre 32 ?buf] b by simp
    then have "put_args (str # a # argv) (length pre) (pre @ buf) =
        put_args (a # argv) (length (?pre @ [32])) ((?pre @ [32]) @ bs)"
      using True put_str_append [of str pre buf] by simp
    then show ?thesis using 3 [of "?pre @ [32]" bs] True bs by (auto simp: add.commute)
  next
    case False
    then show ?thesis using put_str_append [of str pre buf] store_append [of ?pre 32 ?buf] by auto
  qed
qed simp

lemma copy_annotation_append:
  "0 \<notin> set old \<Longrightarrow> copy_annotation (old @ 0 # junk) (length pre) (pre @ buf) =
    (if length old \<le> length buf then Some (length (pre @ old), (pre @ old) @ drop (length old) buf) else None)"
proof (induction old arbitrary: pre buf)
  case (Cons c cs)
  show ?case
  proof (cases buf)
    case b: (Cons b bs)
    then show ?thesis using Cons.IH [of "pre @ [c]" bs] Cons.prems by (simp add: store_append)
  qed (use Cons.prems in \<open>simp add: store_append store_def\<close>)
qed simp

text \<open>
  C30. The new annotation is the command line, a newline and the text of the old annotation, padded
  with 0; when it does not fit into the buffer with a terminating 0, \<open>prepending\<close> writes outside the
  buffer.
\<close>

theorem prepending_exact:
  assumes "0 \<notin> set old"
  shows "prepending argv (old @ 0 # junk) (replicate ANNOTATION_MAX 0) =
    (let new = joined argv @ 10 # old
     in if length new < ANNOTATION_MAX
        then Some (length (joined argv) + 1, new @ replicate (ANNOTATION_MAX - length new) 0)
        else None)"
proof -
  let ?l = "joined argv"
  let ?b = "replicate (ANNOTATION_MAX - length ?l) (0 :: u8)"
  have a: "put_args argv 0 (replicate ANNOTATION_MAX 0) =
      (if length ?l \<le> ANNOTATION_MAX then Some (length ?l, ?l @ ?b) else None)"
    using put_args_append [of argv "[]" "replicate ANNOTATION_MAX 0"] by simp
  show ?thesis
  proof (cases "length ?l < ANNOTATION_MAX")
    case True
    let ?c = "replicate (ANNOTATION_MAX - length ?l - 1) (0 :: u8)"
    have "?b = 0 # ?c" using True by (simp flip: replicate_Suc)
    then have nl: "store (length ?l) 10 (?l @ ?b) = Some ((?l @ [10]) @ ?c)" using store_append [of ?l 10 ?b] by simp
    note c = copy_annotation_append [OF assms, of junk "?l @ [10]" ?c]
    show ?thesis
    proof (cases "length ?l + 1 + length old < ANNOTATION_MAX")
      case fits: True
      let ?d = "replicate (ANNOTATION_MAX - length ?l - 1 - length old) (0 :: u8)"
      have d: "?d = 0 # replicate (ANNOTATION_MAX - length ?l - 1 - length old - 1) 0"
        using fits by (simp flip: replicate_Suc)
      have "store (length (?l @ [10] @ old)) 0 ((?l @ [10] @ old) @ ?d) = Some ((?l @ [10] @ old) @ ?d)"
        using store_append [of "?l @ [10] @ old" 0 ?d] d by simp
      then show ?thesis using a True nl c fits by (simp add: prepending_def)
    next
      case False
      have "store n 0 ((?l @ [10] @ old)) = None" if "n = length (?l @ [10] @ old)" for n
        using that by (simp add: store_def)
      then show ?thesis using a True nl c False by (auto simp: prepending_def)
    qed
  next
    case False
    then show ?thesis using a by (auto simp: prepending_def store_def)
  qed
qed


theorem prepending_exact_witness:
  "prepending [''a'', ''-u''] [72, 0, 0] (replicate ANNOTATION_MAX 0) =
    Some (5, [97, 32, 45, 117, 10, 72] @ replicate 1018 0)"
  using prepending_exact [where old = "[72]" and argv = "[''a'', ''-u'']" and junk = "[0]"]
  by (simp add: ANNOTATION_MAX_def of_char_def)

end
