(* ===== verification/Spool_Conv.thy ===== *)
theory Spool_Conv
  imports C_Strings
begin

text \<open>
  File types and conversions of the printer spooler (\<open>Printer Spooler/src/list.c\<close>). The linked
  list of types is a list, a pointer into it is an index, and the array \<open>result\<close> with its last
  index \<open>res_loc\<close> is the list of its first \<open>res_loc + 1\<close> entries, as is \<open>queue\<close> with \<open>loc\<close>. The marks
  \<open>visited\<close>, which every search resets, are the set of the marked nodes. \<open>None\<close> as the result
  of a search is an access outside one of the arrays of 128 entries or through a null pointer.
\<close>

section \<open>Types\<close>

record Conv =
  cv_dest :: cstring
  cv_prog :: cstring
  cv_args :: "cstring option"

record Node =
  nd_data :: cstring
  nd_conv :: "Conv list"

fun search_from :: "nat \<Rightarrow> Node list \<Rightarrow> cstring \<Rightarrow> nat option" where
  "search_from i [] node = None"
| "search_from i (h # hs) node = (if nd_data h = node then Some i else search_from (i + 1) hs node)"

text \<open>\<open>search_list\<close> from the node with index \<open>start\<close> on.\<close>

definition search_list :: "Node list \<Rightarrow> nat \<Rightarrow> cstring \<Rightarrow> nat option" where
  "search_list head start node = search_from start (drop start head) node"

definition add_list :: "Node list \<Rightarrow> cstring \<Rightarrow> Node list option" where
  "add_list head new_data =
    (if search_list head 0 new_data \<noteq> None then None
     else Some (head @ [\<lparr>nd_data = new_data, nd_conv = []\<rparr>]))"

fun search_conv :: "Conv list \<Rightarrow> cstring \<Rightarrow> Conv option" where
  "search_conv [] node = None"
| "search_conv (c # cs) node = (if cv_dest c = node then Some c else search_conv cs node)"

text \<open>The new list or the type that is not known.\<close>

definition add_conv :: "Node list \<Rightarrow> cstring \<Rightarrow> cstring \<Rightarrow> cstring \<Rightarrow> cstring option \<Rightarrow> cstring + Node list" where
  "add_conv head data1 data2 conv_prog args =
    (if data1 = data2 then Inr head
     else case (search_list head 0 data1, search_list head 0 data2) of
            (None, _) \<Rightarrow> Inl data1
          | (Some d1, None) \<Rightarrow> Inl data2
          | (Some d1, Some d2) \<Rightarrow>
             (if search_conv (nd_conv (head ! d1)) data2 \<noteq> None then Inr head
              else Inr (head[d1 := (head ! d1)\<lparr>nd_conv := nd_conv (head ! d1)
                @ [\<lparr>cv_dest = data2, cv_prog = conv_prog, cv_args = args\<rparr>]\<rparr>])))"

section \<open>Searching for a chain of conversions\<close>

record search_st =
  visited :: "nat set"
  queue :: "cstring list"

text \<open>
  The calls of \<open>look\<close> that are still to be made are the list of their nodes, first call first: the
  loop over the conversions of a node makes the calls for all of them before the calls that
  were pending already. A node is \<open>None\<close> for the null pointer.
\<close>

lemma card_visit: "(i :: nat) < n \<Longrightarrow> i \<notin> V \<Longrightarrow> card ({..<n} - insert i V) < card ({..<n} - V)"
proof -
  assume "i < n" "i \<notin> V"
  then have "card (({..<n} - V) - {i}) < card ({..<n} - V)" by (intro card_Diff1_less) auto
  moreover have "({..<n} - V) - {i} = {..<n} - insert i V" by blast
  ultimately show ?thesis by (simp only:)
qed

function look :: "Node list \<Rightarrow> cstring \<Rightarrow> nat option list \<Rightarrow> search_st \<Rightarrow> search_st option" where
  "look head dest [] s = Some s"
| "look head dest (None # calls) s = look head dest calls s"
| "look head dest (Some i # calls) s =
    (if i \<in> visited s \<or> length head \<le> i then look head dest calls s
     else if length (queue s) = 128 then None
     else let node = head ! i; s' = \<lparr>visited = insert i (visited s), queue = queue s @ [nd_data node]\<rparr>
          in if nd_data node = dest then look head dest calls s'
             else if search_conv (nd_conv node) dest \<noteq> None
             then look head dest (search_list head 0 dest # calls) s'
             else look head dest (map (\<lambda>c. search_list head i (cv_dest c)) (nd_conv node) @ calls) s')"
  by pat_completeness auto
termination
proof (relation "inv_image (less_than <*lex*> less_than)
    (\<lambda>(head, dest, calls, s). (card ({..<length head} - visited s), length calls))", goal_cases)
  case (4 head dest i calls s node s')
  then show ?case using card_visit [of i "length head" "visited s"] by (auto simp del: card_Diff_insert)
next
  case (5 head dest i calls s node s')
  then show ?case using card_visit [of i "length head" "visited s"] by (auto simp del: card_Diff_insert)
next
  case (6 head dest i calls s node s')
  then show ?case using card_visit [of i "length head" "visited s"] by (auto simp del: card_Diff_insert)
qed auto

declare look.simps(3) [simp del]

text \<open>
  \<open>backtrack\<close> over the entries of \<open>queue\<close> from the found one down; the entries of \<open>result\<close> are in the
  order latest first, which is the order into which \<open>bfs\<close> turns the array afterwards.
\<close>

fun backtrack :: "Node list \<Rightarrow> cstring list \<Rightarrow> cstring list \<Rightarrow> cstring list option" where
  "backtrack head [] res = Some res"
| "backtrack head (x # q) res =
    (case search_list head 0 x of
       None \<Rightarrow> None
     | Some i \<Rightarrow>
        (if search_conv (nd_conv (head ! i)) (hd res) \<noteq> None
         then if length res = 128 then None else backtrack head q (x # res)
         else backtrack head q res))"

definition bfs :: "Node list \<Rightarrow> cstring \<Rightarrow> cstring \<Rightarrow> cstring list \<Rightarrow> cstring list option" where
  "bfs head src dest res =
    (if src = dest then (if length res = 128 then None else Some (res @ [src]))
     else Option.bind (look head dest [search_list head 0 src] \<lparr>visited = {}, queue = []\<rparr>) (\<lambda>s.
       let q = dropWhile (\<lambda>x. x \<noteq> dest) (rev (queue s))
       in if q = [] then Some []
          else if length q > 1 then backtrack head q [dest] else Some [dest]))"


section \<open>Searching the list\<close>

lemma search_from_Some:
  "search_from i hs x = Some j \<Longrightarrow> i \<le> j \<and> j < i + length hs \<and> nd_data (hs ! (j - i)) = x"
proof (induction hs arbitrary: i)
  case (Cons h hs)
  then show ?case by (fastforce split: if_splits simp: nth_Cons' Suc_diff_le)
qed simp

lemma search_from_None: "search_from i hs x = None \<longleftrightarrow> x \<notin> nd_data ` set hs"
  by (induction hs arbitrary: i) auto

lemma search_list_Some:
  assumes "search_list head i x = Some j"
  shows "i \<le> j" "j < length head" "nd_data (head ! j) = x"
  using search_from_Some [OF assms [unfolded search_list_def]] by (auto simp: nth_append)

lemma search_list_None: "search_list head 0 x = None \<longleftrightarrow> x \<notin> nd_data ` set head"
  by (simp add: search_list_def search_from_None)

text \<open>Types have distinct names.\<close>

abbreviation names :: "Node list \<Rightarrow> cstring list" where
  "names head \<equiv> map nd_data head"

lemma search_list_distinct:
  assumes "distinct (names head)" "i < length head"
  shows "search_list head 0 (nd_data (head ! i)) = Some i"
proof -
  have "search_list head 0 (nd_data (head ! i)) \<noteq> None"
    using assms(2) by (simp add: search_list_None)
  then obtain j where j: "search_list head 0 (nd_data (head ! i)) = Some j" by blast
  have "j = i"
    using search_list_Some [OF j] assms by (metis distinct_conv_nth length_map nth_map)
  with j show ?thesis by simp
qed

lemma search_conv_Some: "search_conv cs x = Some c \<Longrightarrow> c \<in> set cs \<and> cv_dest c = x"
  by (induction cs) (auto split: if_splits)

lemma search_conv_None: "search_conv cs x = None \<longleftrightarrow> x \<notin> cv_dest ` set cs"
  by (induction cs) auto

section \<open>What the search finds\<close>

text \<open>There is a conversion from \<open>a\<close> to \<open>b\<close>.\<close>

definition edge :: "Node list \<Rightarrow> cstring \<Rightarrow> cstring \<Rightarrow> bool" where
  "edge head a b \<longleftrightarrow> (\<exists>n \<in> set head. nd_data n = a \<and> b \<in> cv_dest ` set (nd_conv n))"

definition linked :: "Node list \<Rightarrow> cstring list \<Rightarrow> cstring \<Rightarrow> bool" where
  "linked head q x \<longleftrightarrow> (\<exists>y \<in> set q. edge head y x)"

text \<open>Every entry of the queue but the first comes from an earlier one.\<close>

fun grown :: "Node list \<Rightarrow> cstring list \<Rightarrow> bool" where
  "grown head [] \<longleftrightarrow> True"
| "grown head [x] \<longleftrightarrow> True"
| "grown head (x # q) \<longleftrightarrow> linked head q x \<and> grown head q"

lemma linked_mono: "linked head q x \<Longrightarrow> set q \<subseteq> set q' \<Longrightarrow> linked head q' x"
  by (auto simp: linked_def)

lemma grown_Cons: "grown head q \<Longrightarrow> q = [] \<or> linked head q x \<Longrightarrow> grown head (x # q)"
  by (cases q) auto

definition calls_ok :: "Node list \<Rightarrow> cstring list \<Rightarrow> nat option list \<Rightarrow> bool" where
  "calls_ok head q calls \<longleftrightarrow>
    (\<forall>i. Some i \<in> set calls \<longrightarrow> i < length head \<longrightarrow> linked head q (nd_data (head ! i)))"

lemma calls_ok_mono: "calls_ok head q calls \<Longrightarrow> set q \<subseteq> set q' \<Longrightarrow> calls_ok head q' calls"
  by (auto simp: calls_ok_def intro: linked_mono)

lemma calls_ok_convs:
  assumes "i < length head"
  shows "calls_ok head (q @ [nd_data (head ! i)]) (map (\<lambda>c. search_list head j (cv_dest c)) (nd_conv (head ! i)))"
    and "dest \<in> cv_dest ` set (nd_conv (head ! i)) \<Longrightarrow> calls_ok head (q @ [nd_data (head ! i)]) [search_list head 0 dest]"
proof -
  have e: "x \<in> cv_dest ` set (nd_conv (head ! i)) \<Longrightarrow> linked head (q @ [nd_data (head ! i)]) x" for x
    using assms by (auto simp: linked_def edge_def intro!: bexI [of _ "head ! i"])
  show "calls_ok head (q @ [nd_data (head ! i)]) (map (\<lambda>c. search_list head j (cv_dest c)) (nd_conv (head ! i)))"
    using e by (auto simp: calls_ok_def dest!: search_list_Some(3) [OF sym])
  show "dest \<in> cv_dest ` set (nd_conv (head ! i)) \<Longrightarrow> calls_ok head (q @ [nd_data (head ! i)]) [search_list head 0 dest]"
    using e by (auto simp: calls_ok_def dest!: search_list_Some(3) [OF sym])
qed

lemma calls_ok_append: "calls_ok head q (a @ b) \<longleftrightarrow> calls_ok head q a \<and> calls_ok head q b"
  by (auto simp: calls_ok_def)

lemma look_grows:
  assumes "look head dest calls s = Some s'" "calls_ok head (queue s) calls" "grown head (rev (queue s))"
    "queue s \<noteq> []" "set (queue s) \<subseteq> set (names head)"
  shows "grown head (rev (queue s')) \<and> (\<exists>q. queue s' = queue s @ q) \<and> set (queue s') \<subseteq> set (names head)"
  using assms
proof (induction head dest calls s rule: look.induct)
  case (2 head dest calls s)
  then show ?case by (simp add: calls_ok_def)
next
  case (3 head dest i calls s)
  let ?n = "head ! i" and ?s = "\<lparr>visited = insert i (visited s), queue = queue s @ [nd_data (head ! i)]\<rparr>"
  have rest: "calls_ok head (queue s) calls" using "3.prems"(2) by (simp add: calls_ok_def)
  show ?case
  proof (cases "i \<in> visited s \<or> length head \<le> i")
    case True
    then show ?thesis using 3 rest by (simp add: look.simps(3))
  next
    case False
    then have i: "i < length head" "i \<notin> visited s" by auto
    have q: "length (queue s) \<noteq> 128" using "3.prems"(1) False by (auto simp: look.simps(3) Let_def)
    have l: "linked head (queue s) (nd_data ?n)" using "3.prems"(2) i by (simp add: calls_ok_def)
    have g: "grown head (rev (queue ?s))"
      using "3.prems"(3) l grown_Cons [of head "rev (queue s)" "nd_data ?n"]
      by (simp add: linked_def)
    have ok: "calls_ok head (queue ?s) calls" using rest by (rule calls_ok_mono) auto
    have sub: "queue ?s \<noteq> []" "set (queue ?s) \<subseteq> set (names head)" using "3.prems"(5) i by auto
    have "grown head (rev (queue s')) \<and> (\<exists>q. queue s' = queue ?s @ q) \<and> set (queue s') \<subseteq> set (names head)"
    proof (cases "nd_data ?n = dest")
      case True
      then show ?thesis
        using "3.IH"(2) [OF _ q refl refl True _ ok g sub] False "3.prems"(1) q by (simp add: look.simps(3) Let_def)
    next
      case nd: False
      show ?thesis
      proof (cases "search_conv (nd_conv ?n) dest = None")
        case True
        then show ?thesis
          using "3.IH"(4) [OF _ q refl refl nd _ _ _ g sub] False "3.prems"(1) q nd
            calls_ok_convs(1) [OF i(1), of "queue s" i] ok by (simp add: look.simps(3) Let_def calls_ok_append)
      next
        case sc: False
        then have "dest \<in> cv_dest ` set (nd_conv ?n)" by (simp add: search_conv_None)
        then show ?thesis
          using "3.IH"(3) [OF _ q refl refl nd sc _ _ g sub] False "3.prems"(1) q nd sc
            calls_ok_convs(2) [OF i(1), of dest "queue s"] ok calls_ok_append [of head "queue ?s" "[search_list head 0 dest]" calls]
          by (simp add: look.simps(3) Let_def)
      qed
    qed
    then show ?thesis by auto
  qed
qed auto


lemma look_from:
  assumes "look head dest [Some i] \<lparr>visited = {}, queue = []\<rparr> = Some s" "i < length head" "nd_data (head ! i) \<noteq> dest"
  shows "grown head (rev (queue s)) \<and> (\<exists>q. queue s = nd_data (head ! i) # q) \<and> set (queue s) \<subseteq> set (names head)"
proof -
  let ?n = "head ! i" and ?s = "\<lparr>visited = {i}, queue = [nd_data (head ! i)]\<rparr>"
  obtain calls where "look head dest calls ?s = Some s" "calls_ok head ([] @ [nd_data ?n]) calls"
  proof (cases "search_conv (nd_conv ?n) dest = None")
    case True
    show ?thesis
    proof (rule that)
      show "look head dest (map (\<lambda>c. search_list head i (cv_dest c)) (nd_conv ?n)) ?s = Some s"
        using assms True by (simp add: look.simps(3) Let_def)
    qed (rule calls_ok_convs(1) [OF assms(2)])
  next
    case False
    show ?thesis
    proof (rule that)
      show "look head dest [search_list head 0 dest] ?s = Some s"
        using assms False by (simp add: look.simps(3) Let_def)
      show "calls_ok head ([] @ [nd_data ?n]) [search_list head 0 dest]"
        using False by (intro calls_ok_convs(2) [OF assms(2)]) (simp add: search_conv_None)
    qed
  qed
  then show ?thesis using look_grows [of head dest calls ?s s] assms(2) by simp
qed

lemma search_conv_edge:
  assumes "distinct (names head)" "search_list head 0 x = Some i"
  shows "search_conv (nd_conv (head ! i)) b \<noteq> None \<longleftrightarrow> edge head x b"
proof -
  note i = search_list_Some [OF assms(2)]
  have "n = head ! i" if n: "n \<in> set head" "nd_data n = x" for n
  proof -
    obtain j where j: "j < length head" "n = head ! j" using n(1) by (auto simp: in_set_conv_nth)
    then have "j = i" using search_list_distinct [OF assms(1) j(1)] n(2) assms(2) by simp
    with j show ?thesis by simp
  qed
  then show ?thesis using i by (auto simp: edge_def search_conv_None intro!: bexI [of _ "head ! i"])
qed

lemma grown_tail: "grown head (x # q) \<Longrightarrow> q \<noteq> [] \<Longrightarrow> linked head q x \<and> grown head q"
  by (cases q) auto

lemma grown_suffix: "grown head (p @ q) \<Longrightarrow> grown head q"
proof (induction p)
  case (Cons x p)
  then show ?case by (cases "p @ q") auto
qed simp

lemma backtrack_path:
  assumes "backtrack head q res = Some r" "distinct (names head)" "grown head q" "q \<noteq> []"
    "successively (edge head) res" "res \<noteq> []" "linked head q (hd res)"
  shows "successively (edge head) r \<and> r \<noteq> [] \<and> last r = last res \<and> hd r = last q"
  using assms
proof (induction head q res rule: backtrack.induct)
  case (2 head x q res)
  obtain i where i: "search_list head 0 x = Some i" using "2.prems"(1) by (auto split: option.splits)
  note e = search_conv_edge [OF "2.prems"(2) i]
  show ?case
  proof (cases "edge head x (hd res)")
    case True
    then have r: "backtrack head q (x # res) = Some r" "length res \<noteq> 128"
      using "2.prems"(1) i e by (auto split: if_splits)
    have p: "successively (edge head) (x # res)" using True "2.prems"(5,6) by (cases res) auto
    show ?thesis
    proof (cases "q = []")
      case True
      then show ?thesis using r p "2.prems"(6) by auto
    next
      case False
      then show ?thesis
        using "2.IH"(1) [OF i] r p grown_tail [OF "2.prems"(3) False] "2.prems"(2,6) True e by auto
    qed
  next
    case False
    then have r: "backtrack head q res = Some r" using "2.prems"(1) i e by auto
    have l: "linked head q (hd res)" using "2.prems"(7) False by (auto simp: linked_def)
    then have "q \<noteq> []" by (auto simp: linked_def)
    then show ?thesis
      using "2.IH"(2) [OF i] r l grown_tail [OF "2.prems"(3)] "2.prems"(2,5,6) False e by auto
  qed
qed simp

lemma bfs_path:
  assumes "distinct (names head)" "bfs head src dest old = Some res" "src \<noteq> dest" "res \<noteq> []"
  shows "successively (edge head) res \<and> hd res = src \<and> last res = dest"
proof -
  obtain s where s: "look head dest [search_list head 0 src] \<lparr>visited = {}, queue = []\<rparr> = Some s"
    using assms(2,3) by (auto simp: bfs_def split: bind_splits)
  let ?q = "dropWhile (\<lambda>x. x \<noteq> dest) (rev (queue s))"
  have ne: "?q \<noteq> []" using assms s by (auto simp: bfs_def Let_def split: if_splits)
  then obtain i where i: "search_list head 0 src = Some i" using s by (cases "search_list head 0 src") auto
  note n = search_list_Some [OF i]
  obtain q where q: "queue s = src # q" and g: "grown head (rev (queue s))"
    using look_from [of head dest i s] s i n assms(3) by auto
  obtain p where p: "rev (queue s) = p @ ?q" using takeWhile_dropWhile_id [of "\<lambda>x. x \<noteq> dest" "rev (queue s)"] by metis
  have hd: "hd ?q = dest" using ne hd_dropWhile [of "\<lambda>x. x \<noteq> dest"] by blast
  have last: "last ?q = src" using p q ne by (metis last_appendR last_rev list.sel(1))
  then have two: "length ?q > 1" using hd assms(3) ne by (cases ?q) (auto split: if_splits)
  then obtain q' where q': "?q = dest # q'" "q' \<noteq> []" using hd by (cases ?q) auto
  have gq: "grown head ?q" using g p grown_suffix by metis
  have b: "backtrack head ?q [dest] = Some res" using assms s two by (auto simp: bfs_def Let_def split: if_splits)
  have "linked head ?q dest"
    using grown_tail [of head dest q'] gq q' linked_mono [of head q' dest ?q] by auto
  then show ?thesis using backtrack_path [OF b assms(1) gq ne] last by simp
qed


section \<open>The search does not depend on types without conversions\<close>

text \<open>Every conversion leads to a type of the list.\<close>

definition convs_known :: "Node list \<Rightarrow> bool" where
  "convs_known head \<longleftrightarrow> (\<forall>n \<in> set head. \<forall>c \<in> set (nd_conv n). cv_dest c \<in> set (names head))"

lemma search_from_append:
  "search_from i (hs @ ts) x = (case search_from i hs x of None \<Rightarrow> search_from (i + length hs) ts x | Some j \<Rightarrow> Some j)"
  by (induction hs arbitrary: i) (auto split: option.splits)

lemma search_list_append:
  assumes "j \<le> length head"
  shows "search_list (head @ ts) j x =
    (case search_list head j x of None \<Rightarrow> search_from (length head) ts x | Some k \<Rightarrow> Some k)"
  using assms by (simp add: search_list_def search_from_append split: option.splits)

lemma add_list_types:
  assumes "add_list head x = Some head'" "distinct (names head)" "convs_known head"
  shows "distinct (names head')" "convs_known head'" "x \<notin> set (names head)"
    "head' = head @ [\<lparr>nd_data = x, nd_conv = []\<rparr>]"
  using assms by (auto simp: add_list_def search_list_None convs_known_def split: if_splits)

lemma names_update: "names (head[i := (head ! i)\<lparr>nd_conv := c\<rparr>]) = names head"
proof (cases "i < length head")
  case True
  then show ?thesis by (simp add: map_update list_update_id) (metis length_map list_update_id nth_map)
qed (simp add: list_update_beyond)

lemma add_conv_shape:
  assumes "add_conv head a b prog args = Inr head'"
  obtains "head' = head"
  | i j where "search_list head 0 a = Some i" "search_list head 0 b = Some j"
      "head' = head[i := (head ! i)\<lparr>nd_conv := nd_conv (head ! i) @ [\<lparr>cv_dest = b, cv_prog = prog, cv_args = args\<rparr>]\<rparr>]"
  using assms that unfolding add_conv_def
  by (cases "search_list head 0 a"; cases "search_list head 0 b") (auto split: if_splits)

lemma add_conv_types:
  assumes "add_conv head a b prog args = Inr head'" "distinct (names head)" "convs_known head"
  shows "distinct (names head') \<and> convs_known head' \<and> names head' = names head"
  using assms(1)
proof (cases rule: add_conv_shape)
  case 1
  then show ?thesis using assms by simp
next
  case (2 i j)
  have b: "b \<in> set (names head)" using search_list_Some [OF 2(2)] by auto
  have c: "cv_dest c \<in> set (names head)" if "n \<in> set head" "c \<in> set (nd_conv n)" for n c
    using assms(3) that by (auto simp: convs_known_def)
  let ?n = "(head ! i)\<lparr>nd_conv := nd_conv (head ! i) @ [\<lparr>cv_dest = b, cv_prog = prog, cv_args = args\<rparr>]\<rparr>"
  have "cv_dest c \<in> set (names head)" if n: "n \<in> set head'" "c \<in> set (nd_conv n)" for n c
  proof (cases "n \<in> set head")
    case True
    then show ?thesis using c n(2) by blast
  next
    case False
    then have "n = ?n" using n(1) set_update_subset_insert [of head i ?n] 2(3) by blast
    then show ?thesis using n(2) b c [of "head ! i"] search_list_Some(2) [OF 2(1)] by auto
  qed
  moreover have "names head' = names head" unfolding 2(3) by (rule names_update)
  ultimately show ?thesis using assms(2) unfolding convs_known_def by simp
qed


lemma search_list_extend:
  assumes "x \<in> set (names head)" "nd_data n \<notin> set (names head)" "j \<le> length head"
  shows "search_list (head @ [n]) j x = search_list head j x"
  using assms by (auto simp: search_list_append split: option.splits)

lemma look_extend:
  assumes "convs_known head" "dest \<in> set (names head)" "nd_data n \<notin> set (names head)"
    "\<forall>i. Some i \<in> set calls \<longrightarrow> i < length head"
  shows "look (head @ [n]) dest calls s = look head dest calls s"
  using assms
proof (induction head dest calls s rule: look.induct)
  case (3 head dest i calls s)
  have i: "i < length head" and rest: "\<forall>i. Some i \<in> set calls \<longrightarrow> i < length head" using "3.prems"(4) by auto
  let ?n = "head ! i" and ?s = "\<lparr>visited = insert i (visited s), queue = queue s @ [nd_data (head ! i)]\<rparr>"
  have nth: "(head @ [n]) ! i = head ! i" using i by (simp add: nth_append)
  have d: "search_list (head @ [n]) 0 dest = search_list head 0 dest"
    using "3.prems"(2,3) by (intro search_list_extend) auto
  have c: "map (\<lambda>c. search_list (head @ [n]) i (cv_dest c)) (nd_conv ?n) = map (\<lambda>c. search_list head i (cv_dest c)) (nd_conv ?n)"
  proof (rule map_cong [OF refl])
    fix c assume "c \<in> set (nd_conv ?n)"
    then have "cv_dest c \<in> set (names head)" using "3.prems"(1) i nth_mem [OF i] unfolding convs_known_def by blast
    then show "search_list (head @ [n]) i (cv_dest c) = search_list head i (cv_dest c)"
      using "3.prems"(3) i by (intro search_list_extend) auto
  qed
  have r1: "\<forall>k. Some k \<in> set (search_list head 0 dest # calls) \<longrightarrow> k < length head"
    using rest search_list_Some(2) [of head 0 dest] by auto
  have r2: "\<forall>k. Some k \<in> set (map (\<lambda>c. search_list head i (cv_dest c)) (nd_conv ?n) @ calls) \<longrightarrow> k < length head"
    using rest search_list_Some(2) [of head i] by (auto dest!: sym [of "Some _"])
  show ?case
  proof (cases "i \<in> visited s \<or> length (queue s) = 128")
    case True
    then show ?thesis using 3 rest i by (auto simp: look.simps(3) nth)
  next
    case False
    then have f: "\<not> (i \<in> visited s \<or> length head \<le> i)" "length (queue s) \<noteq> 128" using i by auto
    show ?thesis
      using "3.IH"(2) [OF f refl refl _ "3.prems"(1-3) rest] "3.IH"(3) [OF f refl refl _ _ "3.prems"(1-3) r1]
        "3.IH"(4) [OF f refl refl _ _ "3.prems"(1-3) r2] f
      by (auto simp: look.simps(3) nth d c Let_def simp del: map_eq_conv)
  qed
qed auto

lemma backtrack_extend:
  assumes "set q \<subseteq> set (names head)" "nd_data n \<notin> set (names head)"
  shows "backtrack (head @ [n]) q res = backtrack head q res"
  using assms
proof (induction head q res rule: backtrack.induct)
  case (2 head x q res)
  have s: "search_list (head @ [n]) 0 x = search_list head 0 x" using "2.prems" by (intro search_list_extend) auto
  show ?case
  proof (cases "search_list head 0 x")
    case (Some i)
    then have "(head @ [n]) ! i = head ! i" using search_list_Some(2) [OF Some] by (simp add: nth_append)
    then show ?thesis using 2 s Some by simp
  qed (simp add: s)
qed simp

lemma bfs_extend:
  assumes "convs_known head" "src \<in> set (names head)" "dest \<in> set (names head)" "nd_data n \<notin> set (names head)"
  shows "bfs (head @ [n]) src dest res = bfs head src dest res"
proof (cases "src = dest")
  case False
  obtain i where i: "search_list head 0 src = Some i" using assms(2) by (cases "search_list head 0 src") (auto simp: search_list_None)
  note ii = search_list_Some [OF i]
  have s: "search_list (head @ [n]) 0 src = Some i" using search_list_extend [OF assms(2,4), of 0] i by simp
  have l: "look (head @ [n]) dest [Some i] st = look head dest [Some i] st" for st
    using assms ii by (intro look_extend) auto
  show ?thesis
  proof (cases "look head dest [Some i] \<lparr>visited = {}, queue = []\<rparr>")
    case None
    then show ?thesis using False s i l by (simp add: bfs_def)
  next
    case (Some st)
    have "set (queue st) \<subseteq> set (names head)" using look_from [OF Some] ii False by simp
    then have "set (dropWhile (\<lambda>x. x \<noteq> dest) (rev (queue st))) \<subseteq> set (names head)"
      by (metis set_dropWhileD set_rev subset_code(1))
    then show ?thesis using False s i l Some backtrack_extend [OF _ assms(4)] by (auto simp: bfs_def Let_def)
  qed
qed (simp add: bfs_def)

section \<open>Properties\<close>

text \<open>
  C24. When the type of the file and the type of the printer differ, the chain of types that \<open>bfs\<close> leaves in
  \<open>result\<close>, if any, is a conversion path, whatever the array held before: it begins with the type
  of the file, ends with the type of the printer, and for each two successive types a
  conversion from one to the other was declared.
\<close>

theorem bfs_finds_paths:
  assumes "distinct (names head)" "bfs head src dest old = Some res" "src \<noteq> dest" "res \<noteq> []"
  shows "successively (edge head) res \<and> hd res = src \<and> last res = dest"
  using assms by (rule bfs_path)

definition three_types :: "Node list" where
  "three_types = [\<lparr>nd_data = ''pdf'', nd_conv = [\<lparr>cv_dest = ''txt'', cv_prog = ''x'', cv_args = None\<rparr>]\<rparr>,
     \<lparr>nd_data = ''ps'', nd_conv = [\<lparr>cv_dest = ''pdf'', cv_prog = ''y'', cv_args = None\<rparr>]\<rparr>,
     \<lparr>nd_data = ''txt'', nd_conv = []\<rparr>]"

lemmas search_simps = look.simps bfs_def search_list_def Let_def three_types_def

theorem bfs_finds_paths_witness:
  "successively (edge three_types) [''pdf'', ''txt''] \<and> hd [''pdf'', ''txt''] = ''pdf''"
proof -
  have "bfs three_types ''pdf'' ''txt'' [] = Some [''pdf'', ''txt'']" by (simp add: search_simps)
  then show ?thesis using bfs_finds_paths [of three_types "''pdf''" "''txt''" "[]" "[''pdf'', ''txt'']"]
    by (simp add: three_types_def)
qed

text \<open>
  For equal types \<open>bfs\<close> appends the type to what an earlier search has left in \<open>result\<close>, so that the chain is not
  a path.
\<close>

theorem bfs_equal_types_stale:
  assumes "length old < 128"
  shows "bfs head t t old = Some (old @ [t])"
  using assms by (simp add: bfs_def)

text \<open>
  The search looks for the next type only among those declared after the current one: a file
  whose type converts, other than directly to the type of the printer, only to types declared
  earlier is never matched, whatever conversions those types have.
\<close>

theorem bfs_misses_earlier_types:
  assumes "search_list head 0 src = Some i" "src \<noteq> dest" "search_conv (nd_conv (head ! i)) dest = None"
    "\<forall>c \<in> set (nd_conv (head ! i)). search_list head i (cv_dest c) = None"
  shows "bfs head src dest old = Some []"
proof -
  note i = search_list_Some [OF assms(1)]
  have "look head dest (map (\<lambda>c. search_list head i (cv_dest c)) cs) s = Some s"
    if "\<forall>c \<in> set cs. search_list head i (cv_dest c) = None" for cs s
    using that by (induction cs) auto
  from this [OF assms(4), of "\<lparr>visited = {i}, queue = [src]\<rparr>"]
  show ?thesis using assms i by (simp add: bfs_def look.simps(3) Let_def)
qed

theorem bfs_misses_earlier_types_witness:
  "edge three_types ''ps'' ''pdf'' \<and> edge three_types ''pdf'' ''txt'' \<and> bfs three_types ''ps'' ''txt'' [] = Some []"
  using bfs_misses_earlier_types [of three_types "''ps''" 1 "''txt''" "[]"]
  by (simp add: search_list_def three_types_def edge_def)

end
