(* ===== verification/Spool_Main.thy ===== *)
theory Spool_Main
  imports Spool_Conv
begin

text \<open>
  Printers, jobs and the command interpreter of the printer spooler (\<open>printer.c\<close>, \<open>job.c\<close>, \<open>msg.c\<close> and
  \<open>main.c\<close> of \<open>Printer Spooler/src\<close>). The global variables are the record \<open>spooler\<close>; the lists of
  printers and jobs are lists, and a pointer to a printer is its index. What the program
  reports is the list of the calls of the formatting functions of \<open>lib/imp_util.o\<close> with their
  arguments, oldest first. The time stamps of a job are not kept. A forked process works on a
  copy of the state; what it does outside the spooler (connecting to the printer and
  executing \<open>cat\<close>) is not modelled. \<open>None\<close> is an access through a null pointer or outside an array;
  a message that is longer than the 512 bytes of the buffer it is formatted into is one.
\<close>

section \<open>Printers and jobs\<close>

record PRINTER =
  pr_id :: int
  pr_name :: cstring
  pr_type :: cstring
  pr_enabled :: bool
  pr_busy :: bool

datatype JOB_STATUS = QUEUED | RUNNING | PAUSED | COMPLETED | ABORTED

record JOB =
  jobid :: int
  status :: JOB_STATUS
  pgid :: int
  file_name :: cstring
  file_type :: cstring
  eligible_printers :: u32
  chosen_printer :: "nat option"

datatype report =
    Try_Help
  | Req_Arg cstring
  | Invalid_Opt cstring
  | Too_Many_Arg
  | Error_Msg cstring
  | Error_Note cstring
  | Printer_Status PRINTER
  | Job_Status JOB
  | Help_Text

record spooler =
  types :: "Node list"
  printers :: "PRINTER list"
  jobs :: "JOB list"
  printer_id :: int
  job_id :: int
  path_result :: "cstring list"
  reports :: "report list"

definition spooler_init :: spooler where
  "spooler_init = \<lparr>types = [], printers = [], jobs = [], printer_id = 0, job_id = 0, path_result = [], reports = []\<rparr>"

definition say :: "report list \<Rightarrow> spooler \<Rightarrow> spooler" where
  "say rs s = s\<lparr>reports := reports s @ rs\<rparr>"

definition error_msg :: "cstring \<Rightarrow> spooler \<Rightarrow> spooler" where
  "error_msg m s = say [Error_Msg m] s"

text \<open>\<open>sprintf\<close> into the buffer \<open>dest\<close> of a message. All formats of the program have one word in quotes.\<close>

definition sprintf_dest :: "cstring \<Rightarrow> cstring \<Rightarrow> cstring \<Rightarrow> cstring option" where
  "sprintf_dest pre post m =
    (let t = pre @ [CHR 0x27] @ m @ [CHR 0x27] @ post in if length t + 1 \<le> 512 then Some t else None)"

definition error_msg_note :: "cstring \<Rightarrow> cstring \<Rightarrow> cstring \<Rightarrow> spooler \<Rightarrow> spooler option" where
  "error_msg_note pre post m s = Option.bind (sprintf_dest pre post m) (\<lambda>t. Some (say [Error_Note t] s))"

definition invalid_opt :: "cstring \<Rightarrow> spooler \<Rightarrow> spooler option" where
  "invalid_opt c s = Option.bind (sprintf_dest ''invalid option -- '' [] c) (\<lambda>t. Some (say [Invalid_Opt t] s))"

fun search_printer_from :: "nat \<Rightarrow> PRINTER list \<Rightarrow> cstring \<Rightarrow> nat option" where
  "search_printer_from i [] name = None"
| "search_printer_from i (p # ps) name = (if pr_name p = name then Some i else search_printer_from (i + 1) ps name)"

definition search_printer :: "PRINTER list \<Rightarrow> cstring \<Rightarrow> nat option" where
  "search_printer head name = search_printer_from 0 head name"

definition MAX_PRINTERS :: int where
  "MAX_PRINTERS = 32"

text \<open>The index of the new printer, or \<open>None\<close> for the null pointer.\<close>

definition add_printer :: "cstring \<Rightarrow> cstring \<Rightarrow> spooler \<Rightarrow> nat option \<times> spooler" where
  "add_printer name ty s =
    (if printer_id s + 1 = MAX_PRINTERS then (None, error_msg ''max printer (32)'' s)
     else if search_printer (printers s) name \<noteq> None then (None, error_msg ''printer already exists'' s)
     else
       let p = \<lparr>pr_id = printer_id s, pr_name = name, pr_type = ty, pr_enabled = False, pr_busy = False\<rparr>
       in (Some (length (printers s)), s\<lparr>printer_id := printer_id s + 1, printers := printers s @ [p]\<rparr>))"

fun get_printer_loop :: "nat \<Rightarrow> PRINTER list \<Rightarrow> int \<Rightarrow> nat option" where
  "get_printer_loop i [] ident = None"
| "get_printer_loop i (p # ps) ident = (if pr_id p = ident then Some i else get_printer_loop (i + 1) ps ident)"

definition get_printer_by_id :: "PRINTER list \<Rightarrow> int \<Rightarrow> nat option" where
  "get_printer_by_id head ident =
    (if ident < 0 \<and> ident < 31 then None else get_printer_loop 0 head ident)"

definition print_printer_status :: "nat \<Rightarrow> spooler \<Rightarrow> spooler" where
  "print_printer_status p s = say [Printer_Status (printers s ! p)] s"

definition print_printer :: "spooler \<Rightarrow> spooler" where
  "print_printer s =
    (if printers s = [] then error_msg ''printer is NULL'' s else say (map Printer_Status (printers s)) s)"

definition add_job :: "cstring \<Rightarrow> cstring \<Rightarrow> u32 \<Rightarrow> spooler \<Rightarrow> nat \<times> spooler" where
  "add_job file ext eligible s =
    (let j = \<lparr>jobid = job_id s, status = QUEUED, pgid = 0, file_name = file, file_type = ext,
              eligible_printers = eligible, chosen_printer = None\<rparr>
     in (length (jobs s), s\<lparr>job_id := job_id s + 1, jobs := jobs s @ [j]\<rparr>))"

fun search_jobid_from :: "nat \<Rightarrow> JOB list \<Rightarrow> int \<Rightarrow> nat option" where
  "search_jobid_from i [] ident = None"
| "search_jobid_from i (j # js) ident = (if jobid j = ident then Some i else search_jobid_from (i + 1) js ident)"

definition search_jobid :: "JOB list \<Rightarrow> int \<Rightarrow> nat option" where
  "search_jobid head ident = search_jobid_from 0 head ident"

definition print_job_status :: "nat \<Rightarrow> spooler \<Rightarrow> spooler" where
  "print_job_status j s = say [Job_Status (jobs s ! j)] s"

definition print_job :: "spooler \<Rightarrow> spooler" where
  "print_job s = (if jobs s = [] then error_msg ''job is NULL'' s else say (map Job_Status (jobs s)) s)"

abbreviation upd_job :: "nat \<Rightarrow> (JOB \<Rightarrow> JOB) \<Rightarrow> spooler \<Rightarrow> spooler" where
  "upd_job j f s \<equiv> s\<lparr>jobs := (jobs s)[j := f (jobs s ! j)]\<rparr>"

abbreviation upd_printer :: "nat \<Rightarrow> (PRINTER \<Rightarrow> PRINTER) \<Rightarrow> spooler \<Rightarrow> spooler" where
  "upd_printer p f s \<equiv> s\<lparr>printers := (printers s)[p := f (printers s ! p)]\<rparr>"

definition change_job_status :: "nat \<Rightarrow> JOB_STATUS \<Rightarrow> spooler \<Rightarrow> spooler" where
  "change_job_status j st s =
    (let s = upd_job j (\<lambda>jb. jb\<lparr>status := st\<rparr>) s;
         s = (if st = QUEUED \<or> st = COMPLETED \<or> st = ABORTED then upd_job j (\<lambda>jb. jb\<lparr>chosen_printer := None\<rparr>) s else s)
     in print_job_status j s)"

section \<open>Starting jobs\<close>

text \<open>\<open>strtoi\<close>.\<close>

fun strtoi_loop :: "i32 \<Rightarrow> cstring \<Rightarrow> i32 \<times> cstring" where
  "strtoi_loop num [] = (num, [])"
| "strtoi_loop num (c # cs) =
    (if ord c > 47 \<and> ord c < 58 then strtoi_loop (num * 10 + of_nat (ord c - 48)) cs else (num, c # cs))"

definition strtoi :: "cstring \<Rightarrow> i32" where
  "strtoi str =
    (let (sign, str) = (if deref str = CHR ''-'' then (-1, tl str) else (1, str));
         (num, str) = strtoi_loop 0 str
     in if deref str = CHR 0x00 then num * sign else -1)"

definition printer_set_value :: "cstring \<Rightarrow> spooler \<Rightarrow> (u32 \<times> spooler) option" where
  "printer_set_value name s =
    (case search_printer (printers s) name of
       None \<Rightarrow> map_option (Pair 0) (error_msg_note [] '' not valid printer'' name s)
     | Some p \<Rightarrow> Some (push_bit (nat (pr_id (printers s ! p))) 1, s))"

text \<open>The search for a printer among those of the set, by increasing id from \<open>i\<close> on: the printer, or
  \<open>None\<close>, and the state, in which the path was left.\<close>

fun find_bfs_loop :: "nat \<Rightarrow> nat \<Rightarrow> JOB \<Rightarrow> spooler \<Rightarrow> (nat option \<times> spooler) option" where
  "find_bfs_loop 0 i job s = Some (None, s)"
| "find_bfs_loop (Suc n) i job s =
    (if eligible_printers job AND push_bit i 1 \<noteq> 0 then
       case get_printer_by_id (printers s) (int i) of
         None \<Rightarrow> find_bfs_loop n (i + 1) job s
       | Some p \<Rightarrow>
          (if pr_enabled (printers s ! p) \<and> \<not> pr_busy (printers s ! p) then
             Option.bind (bfs (types s) (file_type job) (pr_type (printers s ! p)) (path_result s)) (\<lambda>res.
               let s = s\<lparr>path_result := res\<rparr>
               in if res \<noteq> [] then Some (Some p, s) else find_bfs_loop n (i + 1) job s)
           else find_bfs_loop n (i + 1) job s)
     else find_bfs_loop n (i + 1) job s)"

definition find_bfs :: "JOB \<Rightarrow> spooler \<Rightarrow> (nat option \<times> spooler) option" where
  "find_bfs job s = find_bfs_loop 32 0 job s"

text \<open>
  \<open>fork_conv\<close> up to its call of \<open>process_print\<close>, in the spooler process. \<open>random\<close> is 0, so that
  \<open>WIFEXITED(random)\<close> is 1, which is not \<open>EXIT_SUCCESS\<close>. \<open>fork\<close> succeeds.
\<close>

definition WIFEXITED :: "int \<Rightarrow> int" where
  "WIFEXITED st = (if st AND 0x7f = 0 then 1 else 0)"

definition fork_conv :: "nat \<Rightarrow> nat \<Rightarrow> spooler \<Rightarrow> spooler" where
  "fork_conv j p s =
    (let s = upd_printer p (\<lambda>pr. pr\<lparr>pr_busy := True\<rparr>) s;
         s = print_printer_status p s;
         s = upd_job j (\<lambda>jb. jb\<lparr>chosen_printer := Some p\<rparr>) s;
         s = change_job_status j RUNNING s;
         s = upd_printer p (\<lambda>pr. pr\<lparr>pr_busy := False\<rparr>) s;
         s = print_printer_status p s;
         random = 0
     in if WIFEXITED random = 0 then change_job_status j COMPLETED s else change_job_status j ABORTED s)"


lemma find_bfs_loop_frame:
  "find_bfs_loop n i job s = Some (r, s') \<Longrightarrow> \<exists>res. s' = s\<lparr>path_result := res\<rparr>"
proof (induction n arbitrary: i s)
  case (Suc n)
  let ?next = "find_bfs_loop n (i + 1) job"
  have "?next s = Some (r, s') \<or> (\<exists>res. s' = s\<lparr>path_result := res\<rparr>) \<or> (\<exists>x. ?next (s\<lparr>path_result := x\<rparr>) = Some (r, s'))"
    using Suc.prems by (auto simp: Let_def bind_eq_Some_conv split: if_splits option.splits)
  then show ?case using Suc.IH by fastforce
qed (auto intro!: exI [of _ "path_result s'"])

lemma find_bfs_frame:
  assumes "find_bfs job s = Some (r, s')"
  obtains res where "s' = s\<lparr>path_result := res\<rparr>"
  using assms find_bfs_loop_frame unfolding find_bfs_def by blast

lemma fork_conv_jobs:
  "jobs (fork_conv j p s) = (jobs s)[j := (jobs s ! j)\<lparr>status := ABORTED, chosen_printer := None\<rparr>]"
  by (cases "j < length (jobs s)")
    (simp_all add: fork_conv_def change_job_status_def print_job_status_def print_printer_status_def say_def
      WIFEXITED_def Let_def list_update_beyond)

definition queued :: "spooler \<Rightarrow> nat" where
  "queued s = length (filter (\<lambda>j. status j = QUEUED) (jobs s))"

lemma queued_fork_conv:
  assumes "i < length (jobs s)" "status (jobs s ! i) = QUEUED"
  shows "queued (fork_conv i p s) < queued s"
proof -
  obtain xs j ys where js: "jobs s = xs @ j # ys" "length xs = i" using id_take_nth_drop [OF assms(1)] assms(1)
    by (metis length_take less_imp_le_nat min.absorb2)
  then show ?thesis using assms(2) by (auto simp: queued_def fork_conv_jobs list_update_append)
qed


text \<open>
  \<open>process_print\<close>: the argument is the cursors of the active calls, innermost first. A call that has
  started a job calls \<open>process_print\<close> again, from the first job, and continues after that.
\<close>

function process_print :: "nat list \<Rightarrow> spooler \<Rightarrow> spooler option" where
  "process_print [] s = Some s"
| "process_print (cursor # outer) s =
    (if length (jobs s) \<le> cursor then process_print outer s
     else if status (jobs s ! cursor) = QUEUED then
       Option.bind (find_bfs (jobs s ! cursor) s) (\<lambda>(p, s).
         case p of
           None \<Rightarrow> process_print ((cursor + 1) # outer) s
         | Some p \<Rightarrow> process_print (0 # (cursor + 1) # outer) (fork_conv cursor p s))
     else process_print ((cursor + 1) # outer) s)"
  by pat_completeness auto
termination
proof (relation "inv_image (less_than <*lex*> less_than)
    (\<lambda>(cs, s). (queued s, sum_list (map (\<lambda>c. Suc (length (jobs s) - c)) cs)))", goal_cases)
  case (3 cursor outer s r p s')
  then have "find_bfs (jobs s ! cursor) s = Some (p, s')" by simp
  then obtain res where "s' = s\<lparr>path_result := res\<rparr>" by (rule find_bfs_frame)
  with 3 show ?case by (auto simp: queued_def)
next
  case (4 cursor outer s r p s' q)
  then have "find_bfs (jobs s ! cursor) s = Some (p, s')" by simp
  then obtain res where s': "s' = s\<lparr>path_result := res\<rparr>" by (rule find_bfs_frame)
  have "queued (fork_conv cursor q s') < queued s'"
    using 4 s' by (intro queued_fork_conv) auto
  with s' show ?case by (simp add: queued_def)
qed auto

declare process_print.simps(2) [simp del]

section \<open>Commands\<close>

function more_printers :: "u32 \<Rightarrow> cstring \<Rightarrow> spooler \<Rightarrow> (u32 option \<times> spooler) option" where
  "more_printers st rest s =
    (case strtok '' '' rest of
       (None, rest) \<Rightarrow> Some (Some st, s)
     | (Some token, rest) \<Rightarrow>
        Option.bind (printer_set_value token s) (\<lambda>(temp_set, s).
          if temp_set \<noteq> 0 then more_printers (st XOR temp_set) rest s else Some (None, s)))"
  by pat_completeness auto
termination by (relation "measure (\<lambda>(st, rest, s). length rest)") (auto dest: strtok_shorter [OF sym])

declare more_printers.simps [simp del]

text \<open>\<open>print\<close>; the new job, or \<open>None\<close> for the null pointer.\<close>

definition new_job :: "cstring \<Rightarrow> cstring \<Rightarrow> u32 \<Rightarrow> spooler \<Rightarrow> nat option \<times> spooler" where
  "new_job file ext st s = (let (j, s) = add_job file ext st s in (Some j, print_job_status j s))"

definition print :: "cstring \<Rightarrow> cstring option \<Rightarrow> cstring option \<Rightarrow> cstring \<Rightarrow> spooler \<Rightarrow> (nat option \<times> spooler) option" where
  "print arg1 arg2 arg3 rest s =
    (case dropWhile (\<lambda>c. c \<noteq> CHR ''.'') arg1 of
       [] \<Rightarrow> Some (None, error_msg ''invalid file type'' s)
     | _ # ext \<Rightarrow>
        (if search_list (types s) 0 ext = None then Some (None, error_msg ''invalid file type'' s)
         else case (arg3, arg2) of
           (Some a3, Some a2) \<Rightarrow>
             Option.bind (printer_set_value a2 s) (\<lambda>(st, s).
               if st = 0 then Some (None, s)
               else Option.bind (printer_set_value a3 s) (\<lambda>(temp_set, s).
                 if temp_set = 0 then Some (None, s)
                 else Option.bind (more_printers (st XOR temp_set) rest s) (\<lambda>(r, s).
                   case r of
                     None \<Rightarrow> Some (None, s)
                   | Some st \<Rightarrow>
                       if st = 0 then Some (None, error_msg ''printer not compatible'' s)
                       else Some (new_job arg1 ext st s))))
         | (None, Some a2) \<Rightarrow>
             Option.bind (printer_set_value a2 s) (\<lambda>(st, s).
               if st = 0 then Some (None, error_msg ''printer not compatible'' s) else Some (new_job arg1 ext st s))
         | _ \<Rightarrow> Some (new_job arg1 ext (-1) s)))"

definition too_many :: "spooler \<Rightarrow> spooler" where
  "too_many s = say [Too_Many_Arg, Try_Help] s"

definition req_arg :: "cstring \<Rightarrow> spooler \<Rightarrow> spooler" where
  "req_arg c s = say [Req_Arg c, Try_Help] s"

definition cmd_type :: "cstring option \<Rightarrow> cstring option \<Rightarrow> spooler \<Rightarrow> spooler" where
  "cmd_type arg1 arg2 s =
    (case (arg1, arg2) of
       (None, _) \<Rightarrow> req_arg ''type'' s
     | (Some a1, Some _) \<Rightarrow> too_many s
     | (Some a1, None) \<Rightarrow>
        (case add_list (types s) a1 of
           None \<Rightarrow> error_msg ''type already exists'' s
         | Some ts \<Rightarrow> s\<lparr>types := ts\<rparr>))"

definition cmd_printer :: "cstring option \<Rightarrow> cstring option \<Rightarrow> cstring option \<Rightarrow> spooler \<Rightarrow> spooler option" where
  "cmd_printer arg1 arg2 arg3 s =
    (case (arg1, arg2, arg3) of
       (Some a1, Some a2, None) \<Rightarrow>
        (if search_printer (printers s) a1 = None \<and> search_list (types s) 0 a2 \<noteq> None then
           case add_printer a1 a2 s of
             (None, s) \<Rightarrow> None
           | (Some p, s) \<Rightarrow> Some (print_printer_status p s)
         else Some (error_msg ''file type/printer not compatible'' s))
     | (_, Some a2, Some _) \<Rightarrow> Some (too_many s)
     | _ \<Rightarrow> Some (req_arg ''printer'' s))"

definition cmd_conversion :: "cstring option \<Rightarrow> cstring option \<Rightarrow> cstring option \<Rightarrow> cstring \<Rightarrow> spooler \<Rightarrow> spooler option" where
  "cmd_conversion arg1 arg2 arg3 rest s =
    (case (arg1, arg2, arg3) of
       (Some a1, Some a2, Some a3) \<Rightarrow>
        (let (temp, rest) = strtok [CHR 0x0D, CHR 0x0A] rest;
             s' = (case add_conv (types s) a1 a2 a3 temp of
                     Inl t \<Rightarrow> error_msg_note ''file type '' '' not compatible'' t s
                   | Inr ts \<Rightarrow> Some (s\<lparr>types := ts\<rparr>))
         in Option.bind s' (process_print [0]))
     | _ \<Rightarrow> Some (req_arg ''conversion'' s))"

definition cmd_print :: "cstring option \<Rightarrow> cstring option \<Rightarrow> cstring option \<Rightarrow> cstring \<Rightarrow> spooler \<Rightarrow> spooler option" where
  "cmd_print arg1 arg2 arg3 rest s =
    (case arg1 of
       None \<Rightarrow> Some (req_arg ''print'' s)
     | Some a1 \<Rightarrow>
        Option.bind (print a1 arg2 arg3 rest s) (\<lambda>(r, s).
          case r of
            None \<Rightarrow> Some s
          | Some j \<Rightarrow>
             Option.bind (find_bfs (jobs s ! j) s) (\<lambda>(p, s).
               case p of None \<Rightarrow> Some s | Some p \<Rightarrow> process_print [0] (fork_conv j p s))))"

text \<open>The commands that take a job number.\<close>

definition with_job :: "cstring \<Rightarrow> cstring option \<Rightarrow> cstring option \<Rightarrow> (nat \<Rightarrow> spooler \<Rightarrow> spooler) \<Rightarrow> spooler \<Rightarrow> spooler" where
  "with_job c arg1 arg2 f s =
    (case (arg1, arg2) of
       (None, _) \<Rightarrow> req_arg c s
     | (Some a1, Some _) \<Rightarrow> too_many s
     | (Some a1, None) \<Rightarrow>
        (let num = sint (strtoi a1)
         in if num \<ge> 0 then
              case search_jobid (jobs s) num of
                None \<Rightarrow> error_msg ''job_number not found'' s
              | Some j \<Rightarrow> f j s
            else error_msg ''invalid job_number'' s))"

definition cmd_cancel :: "cstring option \<Rightarrow> cstring option \<Rightarrow> spooler \<Rightarrow> spooler" where
  "cmd_cancel arg1 arg2 s = with_job ''cancel'' arg1 arg2 (\<lambda>j s. change_job_status j ABORTED s) s"

definition cmd_pause :: "cstring option \<Rightarrow> cstring option \<Rightarrow> spooler \<Rightarrow> spooler" where
  "cmd_pause arg1 arg2 s = with_job ''pause'' arg1 arg2 (\<lambda>j s.
     if status (jobs s ! j) = RUNNING then change_job_status j PAUSED s else error_msg ''job not running'' s) s"

definition cmd_resume :: "cstring option \<Rightarrow> cstring option \<Rightarrow> spooler \<Rightarrow> spooler" where
  "cmd_resume arg1 arg2 s = with_job ''resume'' arg1 arg2 (\<lambda>j s.
     if status (jobs s ! j) = PAUSED then change_job_status j RUNNING s else error_msg ''job not paused'' s) s"

definition cmd_disable :: "cstring option \<Rightarrow> cstring option \<Rightarrow> spooler \<Rightarrow> spooler option" where
  "cmd_disable arg1 arg2 s =
    (case (arg1, arg2) of
       (None, _) \<Rightarrow> Some (req_arg ''disable'' s)
     | (Some a1, Some _) \<Rightarrow> Some (too_many s)
     | (Some a1, None) \<Rightarrow>
        (case search_printer (printers s) a1 of
           None \<Rightarrow> error_msg_note ''printer '' '' not compatible'' a1 s
         | Some p \<Rightarrow>
            (if pr_enabled (printers s ! p)
             then Some (print_printer_status p (upd_printer p (\<lambda>pr. pr\<lparr>pr_enabled := False\<rparr>) s))
             else Some (error_msg ''unable to disable printer'' s))))"

definition cmd_enable :: "cstring option \<Rightarrow> cstring option \<Rightarrow> spooler \<Rightarrow> spooler option" where
  "cmd_enable arg1 arg2 s =
    (case (arg1, arg2) of
       (None, _) \<Rightarrow> Some (req_arg ''enable'' s)
     | (Some a1, Some _) \<Rightarrow> Some (too_many s)
     | (Some a1, None) \<Rightarrow>
        (case search_printer (printers s) a1 of
           None \<Rightarrow> error_msg_note ''printer '' '' not compatible'' a1 s
         | Some p \<Rightarrow>
            (if \<not> pr_enabled (printers s ! p)
             then process_print [0] (print_printer_status p (upd_printer p (\<lambda>pr. pr\<lparr>pr_enabled := True\<rparr>) s))
             else Some (error_msg ''unable to enable printer'' s))))"

text \<open>The words of a line: the command, up to three arguments and the rest.\<close>

definition words_of :: "cstring \<Rightarrow> cstring option \<times> cstring option \<times> cstring option \<times> cstring option \<times> cstring" where
  "words_of input =
    (let (t1, _) = strtok [CHR 0x0A] input;
         (t2, _) = (case t1 of None \<Rightarrow> (None, []) | Some l \<Rightarrow> strtok [CHR 0x0D, CHR 0x0A] l);
         (token, rest) = (case t2 of None \<Rightarrow> (None, []) | Some l \<Rightarrow> strtok '' '' l);
         (arg1, rest) = (if token \<noteq> None then strtok '' '' rest else (None, rest));
         (arg2, rest) = (if arg1 \<noteq> None then strtok '' '' rest else (None, rest));
         (arg3, rest) = (if arg2 \<noteq> None then strtok '' '' rest else (None, rest))
     in (token, arg1, arg2, arg3, rest))"

text \<open>Whether to go on, and the new state.\<close>

definition interactive_mode :: "cstring \<Rightarrow> spooler \<Rightarrow> (bool \<times> spooler) option" where
  "interactive_mode input s =
    (let (token, arg1, arg2, arg3, rest) = words_of input;
         go = map_option (Pair True);
         no_arg = (\<lambda>b s'. if arg1 \<noteq> None then Some (True, too_many s) else Some (b, s'))
     in case token of
          None \<Rightarrow> Some (True, s)
        | Some c \<Rightarrow>
           (if c = ''help'' then no_arg True (say [Help_Text] s)
            else if c = ''quit'' then no_arg False s
            else if c = ''type'' then Some (True, cmd_type arg1 arg2 s)
            else if c = ''printer'' then go (cmd_printer arg1 arg2 arg3 s)
            else if c = ''conversion'' then go (cmd_conversion arg1 arg2 arg3 rest s)
            else if c = ''printers'' then no_arg True (print_printer s)
            else if c = ''jobs'' then no_arg True (print_job s)
            else if c = ''print'' then go (cmd_print arg1 arg2 arg3 rest s)
            else if c = ''cancel'' then Some (True, cmd_cancel arg1 arg2 s)
            else if c = ''pause'' then Some (True, cmd_pause arg1 arg2 s)
            else if c = ''resume'' then Some (True, cmd_resume arg1 arg2 s)
            else if c = ''disable'' then go (cmd_disable arg1 arg2 s)
            else if c = ''enable'' then go (cmd_enable arg1 arg2 s)
            else go (map_option (say [Try_Help]) (invalid_opt c s))))"

text \<open>The loop of \<open>main\<close> over the lines of a command file. \<open>strtok\<close> has cut the line after its first
  word that is not an end of line.\<close>

definition cut_line :: "cstring \<Rightarrow> cstring" where
  "cut_line line = (let nl = [CHR 0x0D, CHR 0x0A] in
     takeWhile (\<lambda>c. c \<in> set nl) line @ takeWhile (\<lambda>c. c \<notin> set nl) (dropWhile (\<lambda>c. c \<in> set nl) line))"

fun run_lines :: "cstring list \<Rightarrow> spooler \<Rightarrow> spooler option" where
  "run_lines [] s = Some s"
| "run_lines (line # lines) s =
    (let input = cut_line line
     in if input \<noteq> [CHR 0x0D, CHR 0x0A] \<and> input \<noteq> [CHR 0x0A]
        then Option.bind (interactive_mode input s) (\<lambda>(end_loop, s).
               if end_loop then run_lines lines s else Some s)
        else run_lines lines s)"


section \<open>The invariant of the spooler\<close>

definition types_ok :: "Node list \<Rightarrow> bool" where
  "types_ok ts \<longleftrightarrow> distinct (names ts) \<and> convs_known ts"

definition printer_ok :: "Node list \<Rightarrow> nat \<Rightarrow> PRINTER \<Rightarrow> bool" where
  "printer_ok ts i p \<longleftrightarrow> pr_id p = int i \<and> \<not> pr_busy p \<and> pr_type p \<in> set (names ts)"

definition job_ok :: "Node list \<Rightarrow> nat \<Rightarrow> JOB \<Rightarrow> bool" where
  "job_ok ts i j \<longleftrightarrow> jobid j = int i \<and> (status j = QUEUED \<or> status j = ABORTED) \<and> chosen_printer j = None
    \<and> file_type j \<in> set (names ts) \<and> eligible_printers j \<noteq> 0"

definition tables_ok :: "spooler \<Rightarrow> bool" where
  "tables_ok s \<longleftrightarrow> types_ok (types s)
    \<and> printer_id s = int (length (printers s)) \<and> length (printers s) \<le> 31 \<and> distinct (map pr_name (printers s))
    \<and> (\<forall>i < length (printers s). printer_ok (types s) i (printers s ! i))
    \<and> job_id s = int (length (jobs s)) \<and> (\<forall>i < length (jobs s). job_ok (types s) i (jobs s ! i))"

text \<open>No enabled printer for which the job is eligible can be reached from the type of its file.\<close>

definition waits :: "Node list \<Rightarrow> PRINTER list \<Rightarrow> JOB \<Rightarrow> bool" where
  "waits ts ps j \<longleftrightarrow> (\<forall>i < length ps. bit (eligible_printers j) i \<and> pr_enabled (ps ! i)
     \<longrightarrow> bfs ts (file_type j) (pr_type (ps ! i)) [] = Some [])"

definition waiting :: "spooler \<Rightarrow> nat \<Rightarrow> bool" where
  "waiting s k \<longleftrightarrow> (status (jobs s ! k) = QUEUED \<longrightarrow> waits (types s) (printers s) (jobs s ! k))"

definition spool_ok :: "spooler \<Rightarrow> bool" where
  "spool_ok s \<longleftrightarrow> tables_ok s \<and> (\<forall>k < length (jobs s). waiting s k)"

lemma tables_ok_more [simp]:
  "tables_ok (say rs s) = tables_ok s" "tables_ok (s\<lparr>path_result := r\<rparr>) = tables_ok s"
  "waiting (say rs s) = waiting s" "waiting (s\<lparr>path_result := r\<rparr>) = waiting s"
  "spool_ok (say rs s) = spool_ok s" "spool_ok (s\<lparr>path_result := r\<rparr>) = spool_ok s"
  "jobs (say rs s) = jobs s" "types (say rs s) = types s" "printers (say rs s) = printers s"
  by (simp_all add: tables_ok_def waiting_def spool_ok_def say_def fun_eq_iff)

lemma bfs_found: "bfs ts a b r = Some res \<Longrightarrow> res = [] \<longleftrightarrow> bfs ts a b [] = Some []"
  by (cases "a = b") (auto simp: bfs_def split: if_splits)

lemma get_printer_loop_ids:
  "\<forall>k < length ps. pr_id (ps ! k) = int (i + k) \<Longrightarrow>
    get_printer_loop i ps (int m) = (if i \<le> m \<and> m < i + length ps then Some m else None)"
proof (induction ps arbitrary: i)
  case (Cons p ps)
  have "\<forall>k < length ps. pr_id (ps ! k) = int (Suc i + k)" using Cons.prems by (auto dest: spec [of _ "Suc _"])
  then show ?case using Cons.IH [of "Suc i"] Cons.prems [rule_format, of 0] by auto
qed simp

lemma get_printer_tables:
  assumes "tables_ok s"
  shows "get_printer_by_id (printers s) (int m) = (if m < length (printers s) then Some m else None)"
  using assms get_printer_loop_ids [of "printers s" 0 m]
  by (auto simp: get_printer_by_id_def tables_ok_def printer_ok_def)

lemma find_bfs_loop_spec:
  assumes "tables_ok s" "find_bfs_loop n i job s = Some (r, s')"
  shows "case r of
      None \<Rightarrow> \<forall>k. i \<le> k \<longrightarrow> k < i + n \<longrightarrow> k < length (printers s) \<longrightarrow> bit (eligible_printers job) k \<longrightarrow>
        pr_enabled (printers s ! k) \<longrightarrow> bfs (types s) (file_type job) (pr_type (printers s ! k)) [] = Some []
    | Some p \<Rightarrow> p < length (printers s) \<and> bit (eligible_printers job) p \<and> pr_enabled (printers s ! p)
        \<and> bfs (types s) (file_type job) (pr_type (printers s ! p)) [] \<noteq> Some []"
  using assms
proof (induction n arbitrary: i s)
  case (Suc n)
  note g = get_printer_tables [OF Suc.prems(1), of i]
  have ids: "i < length (printers s) \<Longrightarrow> \<not> pr_busy (printers s ! i)" using Suc.prems(1) by (auto simp: tables_ok_def printer_ok_def)
  consider (skip) "find_bfs_loop n (i + 1) job s = Some (r, s')"
      "i < length (printers s) \<Longrightarrow> bit (eligible_printers job) i \<Longrightarrow> pr_enabled (printers s ! i) \<Longrightarrow> False"
    | (none) "find_bfs_loop n (i + 1) job (s\<lparr>path_result := []\<rparr>) = Some (r, s')"
      "bfs (types s) (file_type job) (pr_type (printers s ! i)) [] = Some []"
    | (found) "r = Some i" "i < length (printers s)" "bit (eligible_printers job) i" "pr_enabled (printers s ! i)"
      "bfs (types s) (file_type job) (pr_type (printers s ! i)) [] \<noteq> Some []"
    using Suc.prems(2) g ids bfs_found [of "types s" "file_type job" "pr_type (printers s ! i)" "path_result s"]
    by (auto simp: and_exp_eq_0_iff_not_bit Let_def bind_eq_Some_conv simp del: find_bfs_loop.simps(1) split: if_splits)
  then show ?case
  proof cases
    case found
    then show ?thesis by simp
  next
    case skip
    show ?thesis
    proof (cases r)
      case None
      have "bfs (types s) (file_type job) (pr_type (printers s ! k)) [] = Some []"
        if "i \<le> k" "k < i + Suc n" "k < length (printers s)" "bit (eligible_printers job) k" "pr_enabled (printers s ! k)" for k
        using Suc.IH [OF Suc.prems(1) skip(1)] None that skip(2) by (cases "k = i") auto
      then show ?thesis using None by simp
    qed (use Suc.IH [OF Suc.prems(1) skip(1)] in simp)
  next
    case none
    have t: "tables_ok (s\<lparr>path_result := []\<rparr>)" using Suc.prems(1) by simp
    show ?thesis
    proof (cases r)
      case None
      have "bfs (types s) (file_type job) (pr_type (printers s ! k)) [] = Some []"
        if "i \<le> k" "k < i + Suc n" "k < length (printers s)" "bit (eligible_printers job) k" "pr_enabled (printers s ! k)" for k
        using Suc.IH [OF t none(1)] None that none(2) by (cases "k = i") auto
      then show ?thesis using None by simp
    qed (use Suc.IH [OF t none(1)] in simp)
  qed
qed simp

lemma find_bfs_none:
  assumes "tables_ok s" "find_bfs job s = Some (None, s')"
  shows "waits (types s) (printers s) job"
  using find_bfs_loop_spec [OF assms(1) assms(2) [unfolded find_bfs_def]] assms(1)
  by (auto simp: waits_def tables_ok_def)

lemma find_bfs_printer:
  assumes "tables_ok s" "find_bfs job s = Some (Some p, s')"
  shows "p < length (printers s)"
  using find_bfs_loop_spec [OF assms(1) assms(2) [unfolded find_bfs_def]] by simp

lemma fork_conv_frame:
  assumes "p < length (printers s)" "\<not> pr_busy (printers s ! p)"
  shows "printers (fork_conv j p s) = printers s" "types (fork_conv j p s) = types s"
    "printer_id (fork_conv j p s) = printer_id s" "job_id (fork_conv j p s) = job_id s"
proof -
  have "(printers s ! p)\<lparr>pr_busy := False\<rparr> = printers s ! p" using assms(2) by simp
  then have "(printers s)[p := (printers s ! p)\<lparr>pr_busy := False\<rparr>] = printers s" by simp
  then show "printers (fork_conv j p s) = printers s" "types (fork_conv j p s) = types s"
    "printer_id (fork_conv j p s) = printer_id s" "job_id (fork_conv j p s) = job_id s"
    using assms(1)
    by (simp_all add: fork_conv_def change_job_status_def print_job_status_def print_printer_status_def say_def
        WIFEXITED_def Let_def)
qed

lemma tables_ok_fork:
  assumes "tables_ok s" "p < length (printers s)" "j < length (jobs s)"
  shows "tables_ok (fork_conv j p s)"
proof -
  have "\<not> pr_busy (printers s ! p)" using assms by (auto simp: tables_ok_def printer_ok_def)
  note f = fork_conv_frame [OF assms(2) this, of j]
  have "job_ok (types s) i ((jobs s)[j := (jobs s ! j)\<lparr>status := ABORTED, chosen_printer := None\<rparr>] ! i)"
    if "i < length (jobs s)" for i
    using assms that by (cases "i = j") (auto simp: tables_ok_def job_ok_def)
  then show ?thesis using assms(1) by (simp add: tables_ok_def f fork_conv_jobs)
qed

lemma process_print_ok:
  assumes "process_print cursors s = Some s'" "tables_ok s" "cursors = [] \<longrightarrow> spool_ok s"
    "\<forall>c cs k. cursors = c # cs \<longrightarrow> k < c \<longrightarrow> k < length (jobs s) \<longrightarrow> waiting s k"
  shows "spool_ok s'"
  using assms
proof (induction cursors s rule: process_print.induct)
  case (2 c cs s)
  show ?case
  proof (cases "length (jobs s) \<le> c")
    case True
    then have all: "\<forall>k < length (jobs s). waiting s k" using "2.prems"(4) by auto
    show ?thesis
      using "2.IH"(1) [OF True] "2.prems"(1,2) True all by (auto simp: process_print.simps(2) spool_ok_def)
  next
    case c: False
    show ?thesis
    proof (cases "status (jobs s ! c) = QUEUED")
      case False
      then have "waiting s c" by (simp add: waiting_def)
      then have "\<forall>k < c + 1. k < length (jobs s) \<longrightarrow> waiting s k" using "2.prems"(4) by (auto simp: less_Suc_eq)
      then show ?thesis
        using "2.IH"(4) [OF c False] "2.prems"(1,2) c False by (simp add: process_print.simps(2))
    next
      case True
      then obtain r t where f: "find_bfs (jobs s ! c) s = Some (r, t)"
        using "2.prems"(1) c by (auto simp: process_print.simps(2) split: bind_splits)
      then obtain res where t: "t = s\<lparr>path_result := res\<rparr>" by (rule find_bfs_frame)
      show ?thesis
      proof (cases r)
        case None
        have "waiting s c" using find_bfs_none [OF "2.prems"(2)] f None by (simp add: waiting_def)
        then have "\<forall>k < c + 1. k < length (jobs s) \<longrightarrow> waiting t k" using "2.prems"(4) t by (auto simp: less_Suc_eq)
        moreover have "process_print ((c + 1) # cs) t = Some s'" "tables_ok t"
          using "2.prems"(1,2) c True f None t by (simp_all add: process_print.simps(2))
        ultimately show ?thesis using "2.IH"(2) [OF c True, of "(None, t)"] None t f by simp
      next
        case (Some p)
        have "tables_ok (fork_conv c p t)"
          using find_bfs_printer [OF "2.prems"(2)] f Some t c "2.prems"(2) by (intro tables_ok_fork) auto
        moreover have "process_print (0 # (c + 1) # cs) (fork_conv c p t) = Some s'"
          using "2.prems"(1) c True f Some by (simp add: process_print.simps(2))
        ultimately show ?thesis using "2.IH"(3) [OF c True, of "(Some p, t)"] Some f by simp
      qed
    qed
  qed
qed simp

lemma process_print_all: "process_print [0] s = Some s' \<Longrightarrow> tables_ok s \<Longrightarrow> spool_ok s'"
  by (rule process_print_ok [of "[0]"]) auto


section \<open>Commands keep the invariant\<close>

lemma search_printer_from_spec:
  "(search_printer_from i ps name = None \<longleftrightarrow> name \<notin> pr_name ` set ps)
    \<and> (\<forall>k. search_printer_from i ps name = Some k \<longrightarrow> i \<le> k \<and> k < i + length ps \<and> pr_name (ps ! (k - i)) = name)"
proof (induction ps arbitrary: i)
  case (Cons p ps)
  show ?case
  proof (cases "pr_name p = name")
    case False
    have "k \<noteq> i" if "search_printer_from (Suc i) ps name = Some k" for k using Cons.IH [of "Suc i"] that by auto
    then show ?thesis using Cons.IH [of "Suc i"] False
      by (auto simp: nth_Cons' Suc_diff_le)
  qed auto
qed simp

lemma search_printer_None: "search_printer ps name = None \<longleftrightarrow> name \<notin> pr_name ` set ps"
  using search_printer_from_spec [of 0 ps name] by (simp add: search_printer_def)

lemma search_printer_Some: "search_printer ps name = Some p \<Longrightarrow> p < length ps \<and> pr_name (ps ! p) = name"
  using search_printer_from_spec [of 0 ps name] by (auto simp: search_printer_def)

lemma error_msg_note_say: "error_msg_note pre post m s = Some s' \<Longrightarrow> \<exists>rs. s' = say rs s"
  by (auto simp: error_msg_note_def split: bind_splits)

lemma invalid_opt_say: "invalid_opt c s = Some s' \<Longrightarrow> \<exists>rs. s' = say rs s"
  by (auto simp: invalid_opt_def split: bind_splits)

lemma say_Nil: "say [] s = s"
  by (simp add: say_def)

lemma printer_set_value_say: "printer_set_value n s = Some (v, s') \<Longrightarrow> \<exists>rs. s' = say rs s"
  using say_Nil [of s] by (auto simp: printer_set_value_def dest: error_msg_note_say split: option.splits intro: exI [of _ "[]"])

lemma say_say: "say qs (say rs s) = say (rs @ qs) s"
  by (simp add: say_def)

lemma more_printers_say: "more_printers st rest s = Some (v, s') \<Longrightarrow> \<exists>rs. s' = say rs s"
proof (induction st rest s rule: more_printers.induct)
  case (1 st rest s)
  show ?case
  proof (cases "strtok '' '' rest")
    case (Pair t r)
    show ?thesis
    proof (cases t)
      case None
      then show ?thesis using 1(2) Pair say_Nil [of s] by (auto simp: more_printers.simps [of st rest] intro: exI [of _ "[]"])
    next
      case (Some tok)
      obtain v1 s1 where p: "printer_set_value tok s = Some (v1, s1)"
        using 1(2) Pair Some by (auto simp: more_printers.simps [of st rest] split: bind_splits)
      obtain rs where rs: "s1 = say rs s" using printer_set_value_say [OF p] by blast
      show ?thesis
      proof (cases "v1 = 0")
        case True
        then show ?thesis using 1(2) Pair Some p rs by (auto simp: more_printers.simps [of st rest])
      next
        case False
        then have "more_printers (st XOR v1) r s1 = Some (v, s')"
          using 1(2) Pair Some p by (simp add: more_printers.simps [of st rest])
        then show ?thesis using 1(1) [OF Pair [symmetric] Some, of "(v1, s1)" v1 s1] p False rs say_say by auto
      qed
    qed
  qed
qed

lemma new_job_spec:
  assumes "new_job f e st (say rs s) = (r, s')" "e \<in> set (names (types s))" "st \<noteq> 0" "spool_ok s"
  shows "r = Some (length (jobs s)) \<and> tables_ok s' \<and> jobs s' = jobs s @ [jobs s' ! length (jobs s)]
    \<and> types s' = types s \<and> printers s' = printers s"
proof -
  let ?j = "\<lparr>jobid = job_id s, status = QUEUED, pgid = 0, file_name = f, file_type = e,
    eligible_printers = st, chosen_printer = None\<rparr>"
  let ?t = "s\<lparr>job_id := job_id s + 1, jobs := jobs s @ [?j]\<rparr>"
  have s': "r = Some (length (jobs s))" "\<exists>qs. s' = say qs ?t"
    using assms(1) by (auto simp: new_job_def add_job_def print_job_status_def say_def Let_def)
  have "tables_ok ?t"
    using assms(2-4) by (auto simp: spool_ok_def tables_ok_def job_ok_def nth_append less_Suc_eq)
  then show ?thesis using s' by auto
qed

text \<open>What \<open>print\<close> does besides reporting: nothing, or it adds a job.\<close>

lemma print_outcome:
  assumes "print a1 a2 a3 rest s = Some x"
  obtains (none) rs where "x = (None, say rs s)"
    | (new) e st rs where "x = new_job a1 e st (say rs s)" "search_list (types s) 0 e \<noteq> None" "st \<noteq> 0"
proof -
  have "(\<exists>rs. x = (None, say rs s)) \<or> (\<exists>e st rs. x = new_job a1 e st (say rs s) \<and> search_list (types s) 0 e \<noteq> None \<and> st \<noteq> 0)"
  proof (cases "\<exists>d e. dropWhile (\<lambda>c. c \<noteq> CHR ''.'') a1 = d # e \<and> search_list (types s) 0 e \<noteq> None")
    case False
    then have "x = (None, say [Error_Msg ''invalid file type''] s)"
      using assms by (auto simp: print_def error_msg_def split: list.splits)
    then show ?thesis by blast
  next
    case True
    then obtain d e where e: "dropWhile (\<lambda>c. c \<noteq> CHR ''.'') a1 = d # e" "search_list (types s) 0 e \<noteq> None" by blast
    show ?thesis
    proof (cases a2)
      case None
      then have "x = new_job a1 e (-1) (say [] s)" using assms e by (cases a3) (simp_all add: print_def say_Nil)
      then show ?thesis using e(2) by (intro disjI2 exI [of _ e] exI [of _ "-1"] exI [of _ "[]"]) simp
    next
      case a2: (Some y)
      obtain v1 s1 where v1: "printer_set_value y s = Some (v1, s1)"
        using assms e a2 by (cases a3) (auto simp: print_def split: bind_splits)
      obtain r1 where r1: "s1 = say r1 s" using printer_set_value_say [OF v1] by blast
      show ?thesis
      proof (cases a3)
        case None
        then have "x = (if v1 = 0 then (None, say (r1 @ [Error_Msg ''printer not compatible'']) s) else new_job a1 e v1 (say r1 s))"
          using assms e a2 v1 r1 by (auto simp: print_def error_msg_def say_say)
        then show ?thesis using e(2) by (auto split: if_splits)
      next
        case (Some z)
        show ?thesis
        proof (cases "v1 = 0")
          case True
          then have "x = (None, say r1 s)" using assms e a2 v1 r1 Some by (simp add: print_def)
          then show ?thesis by blast
        next
          case n1: False
          obtain v2 s2 where v2: "printer_set_value z s1 = Some (v2, s2)"
            using assms e a2 Some v1 n1 by (auto simp: print_def split: bind_splits)
          obtain r2 where r2: "s2 = say (r1 @ r2) s" using printer_set_value_say [OF v2] r1 say_say by auto
          show ?thesis
          proof (cases "v2 = 0")
            case True
            then have "x = (None, say (r1 @ r2) s)" using assms e a2 v1 v2 r2 Some n1 by (simp add: print_def)
            then show ?thesis by blast
          next
            case n2: False
            obtain v3 s3 where v3: "more_printers (v1 XOR v2) rest s2 = Some (v3, s3)"
              using assms e a2 Some v1 v2 n1 n2 by (auto simp: print_def split: bind_splits)
            obtain r3 where r3: "s3 = say r3 s" using more_printers_say [OF v3] r2 say_say by auto
            have x: "x = (case v3 of None \<Rightarrow> (None, s3)
                | Some st \<Rightarrow> if st = 0 then (None, say [Error_Msg ''printer not compatible''] s3) else new_job a1 e st s3)"
              using assms e a2 Some v1 v2 v3 n1 n2 by (auto simp: print_def error_msg_def split: option.splits)
            show ?thesis
            proof (cases "\<exists>st. v3 = Some st \<and> st \<noteq> 0")
              case True
              then obtain st where st: "v3 = Some st" "st \<noteq> 0" by blast
              then have "x = new_job a1 e st (say r3 s)" using x r3 by simp
              with e(2) st(2) show ?thesis by blast
            next
              case False
              then have "x = (None, s3) \<or> x = (None, say [Error_Msg ''printer not compatible''] s3)" using x by (cases v3) auto
              then show ?thesis using r3 say_say by auto
            qed
          qed
        qed
      qed
    qed
  qed
  then show thesis using that by blast
qed

lemma print_spec:
  assumes "print a1 a2 a3 rest s = Some (r, s')" "spool_ok s"
  shows "case r of None \<Rightarrow> spool_ok s'
    | Some j \<Rightarrow> j = length (jobs s) \<and> tables_ok s' \<and> jobs s' = jobs s @ [jobs s' ! j]
        \<and> types s' = types s \<and> printers s' = printers s"
    (is "?P r s'")
proof -
  have none: "?P None (say rs s)" for rs using assms(2) by simp
  have new: "?P r s'" if "(r, s') = new_job f e st (say rs s)" "search_list (types s) 0 e \<noteq> None" "st \<noteq> 0" for f e st rs
    using new_job_spec [OF that(1) [symmetric] _ that(3) assms(2)] that(2) by (auto simp: search_list_None)
  consider (none) rs where "(r, s') = (None, say rs s)"
    | (new) e st rs where "(r, s') = new_job a1 e st (say rs s)" "search_list (types s) 0 e \<noteq> None" "st \<noteq> 0"
    by (rule print_outcome [OF assms(1)])
  then show ?thesis by cases (use none new in auto)
qed

lemma cmd_type_ok: "spool_ok s \<Longrightarrow> spool_ok (cmd_type a1 a2 s)"
proof -
  assume ok: "spool_ok s"
  have "spool_ok (s\<lparr>types := ts\<rparr>)" if a: "add_list (types s) x = Some ts" for x ts
  proof -
    have t: "distinct (names (types s))" "convs_known (types s)" using ok by (auto simp: spool_ok_def tables_ok_def types_ok_def)
    note n = add_list_types [OF a t]
    have "bfs ts f p [] = bfs (types s) f p []" if "f \<in> set (names (types s))" "p \<in> set (names (types s))" for f p
      unfolding n(4) using n(3) that by (intro bfs_extend t) auto
    then have "waits ts (printers s) j = waits (types s) (printers s) j" if "file_type j \<in> set (names (types s))" for j
      using ok that by (auto simp: waits_def spool_ok_def tables_ok_def printer_ok_def)
    then show ?thesis
      using ok n by (auto simp: spool_ok_def tables_ok_def types_ok_def printer_ok_def job_ok_def waiting_def)
  qed
  then show ?thesis
    using ok by (auto simp: cmd_type_def req_arg_def too_many_def error_msg_def split: option.splits)
qed

lemma cmd_printer_ok: "spool_ok s \<Longrightarrow> cmd_printer a1 a2 a3 s = Some s' \<Longrightarrow> spool_ok s'"
proof -
  assume ok: "spool_ok s" and c: "cmd_printer a1 a2 a3 s = Some s'"
  have "spool_ok s'" if a: "add_printer x y s = (Some p, t)" "s' = print_printer_status p t"
      "search_list (types s) 0 y \<noteq> None" for x y p t
  proof -
    let ?p = "\<lparr>pr_id = printer_id s, pr_name = x, pr_type = y, pr_enabled = False, pr_busy = False\<rparr>"
    have t: "t = s\<lparr>printer_id := printer_id s + 1, printers := printers s @ [?p]\<rparr>"
      "printer_id s + 1 \<noteq> 32" "search_printer (printers s) x = None"
      using a(1) by (auto simp: add_printer_def MAX_PRINTERS_def Let_def split: if_splits)
    have "y \<in> set (names (types s))" using a(3) by (simp add: search_list_None)
    moreover have "waits (types s) (printers s @ [?p]) j = waits (types s) (printers s) j" for j
      by (auto simp: waits_def nth_append less_Suc_eq)
    ultimately have "spool_ok t"
      using ok t by (auto simp: spool_ok_def tables_ok_def printer_ok_def waiting_def search_printer_None nth_append less_Suc_eq)
    then show ?thesis using a(2) by (simp add: print_printer_status_def)
  qed
  then show ?thesis
    using c ok by (auto simp: cmd_printer_def req_arg_def too_many_def error_msg_def split: option.splits if_splits prod.splits)
qed

lemma cmd_conversion_ok: "spool_ok s \<Longrightarrow> cmd_conversion a1 a2 a3 rest s = Some s' \<Longrightarrow> spool_ok s'"
proof -
  assume ok: "spool_ok s" and c: "cmd_conversion a1 a2 a3 rest s = Some s'"
  have "tables_ok s1" if "(case add_conv (types s) x y z t of
      Inl e \<Rightarrow> error_msg_note pre post e s | Inr ts \<Rightarrow> Some (s\<lparr>types := ts\<rparr>)) = Some s1" for x y z t pre post s1
  proof (cases "add_conv (types s) x y z t")
    case (Inl e)
    then show ?thesis using ok that error_msg_note_say [of pre post e s s1] by (auto simp: spool_ok_def)
  next
    case (Inr ts)
    have "distinct (names (types s))" "convs_known (types s)" using ok by (auto simp: spool_ok_def tables_ok_def types_ok_def)
    have "s1 = s\<lparr>types := ts\<rparr>" using that Inr by simp
    with add_conv_types [OF Inr \<open>distinct (names (types s))\<close> \<open>convs_known (types s)\<close>] show ?thesis
      using ok by (simp add: spool_ok_def tables_ok_def types_ok_def printer_ok_def job_ok_def)
  qed
  then show ?thesis
    using c ok process_print_all
    by (auto simp: cmd_conversion_def req_arg_def Let_def bind_eq_Some_conv split: option.splits prod.splits)
qed

lemma cmd_print_ok: "spool_ok s \<Longrightarrow> cmd_print a1 a2 a3 rest s = Some s' \<Longrightarrow> spool_ok s'"
proof (cases a1)
  case (Some a)
  assume ok: "spool_ok s" and c: "cmd_print a1 a2 a3 rest s = Some s'"
  obtain r t where p: "print a a2 a3 rest s = Some (r, t)" using c Some by (auto simp: cmd_print_def bind_eq_Some_conv)
  note sp = print_spec [OF p ok]
  show ?thesis
  proof (cases r)
    case None
    then show ?thesis using sp c p Some by (simp add: cmd_print_def)
  next
    case j: (Some j)
    have t: "j = length (jobs s)" "tables_ok t" "jobs t = jobs s @ [jobs t ! j]" "types t = types s" "printers t = printers s"
      using sp unfolding j option.case by blast+
    obtain q u where f: "find_bfs (jobs t ! j) t = Some (q, u)"
      and u: "(case q of None \<Rightarrow> Some u | Some p \<Rightarrow> process_print [0] (fork_conv j p u)) = Some s'"
      using c p Some j by (auto simp: cmd_print_def bind_eq_Some_conv)
    obtain res where u': "u = t\<lparr>path_result := res\<rparr>" using f by (rule find_bfs_frame)
    show ?thesis
    proof (cases q)
      case None
      have "waits (types t) (printers t) (jobs t ! j)" using find_bfs_none [OF t(2)] f None by simp
      moreover have "waiting t k" if "k < length (jobs s)" for k
      proof -
        have "jobs t ! k = jobs s ! k" using t(3) that by (metis nth_append)
        then show ?thesis using ok that t(4,5) by (simp add: spool_ok_def waiting_def)
      qed
      moreover have "length (jobs t) = Suc j" using t(1,3) by (metis length_append_singleton)
      ultimately have "spool_ok t" using t by (auto simp: spool_ok_def waiting_def less_Suc_eq)
      then show ?thesis using u u' None by auto
    next
      case (Some p)
      have "j < length (jobs t)" using t(1,3) by (metis length_append_singleton lessI)
      then have "tables_ok (fork_conv j p u)"
        using find_bfs_printer [OF t(2)] f Some u' t(2) by (intro tables_ok_fork) auto
      then show ?thesis using u Some process_print_all by simp
    qed
  qed
qed (auto simp: cmd_print_def req_arg_def)

lemma search_jobid_from_spec: "search_jobid_from i js n = Some k \<Longrightarrow> i \<le> k \<and> k < i + length js"
  by (induction js arbitrary: i) (fastforce split: if_splits)+

lemma abort_ok:
  assumes "spool_ok s" "k < length (jobs s)"
  shows "spool_ok (change_job_status k ABORTED s)"
proof -
  have j: "jobs (change_job_status k ABORTED s) = (jobs s)[k := (jobs s ! k)\<lparr>status := ABORTED, chosen_printer := None\<rparr>]"
    "types (change_job_status k ABORTED s) = types s" "printers (change_job_status k ABORTED s) = printers s"
    "printer_id (change_job_status k ABORTED s) = printer_id s" "job_id (change_job_status k ABORTED s) = job_id s"
    using assms(2) by (simp_all add: change_job_status_def print_job_status_def say_def Let_def)
  have "job_ok (types s) i ((jobs s)[k := (jobs s ! k)\<lparr>status := ABORTED, chosen_printer := None\<rparr>] ! i)"
    "waiting (change_job_status k ABORTED s) i" if "i < length (jobs s)" for i
    using assms that by (cases "i = k", auto simp: spool_ok_def tables_ok_def job_ok_def waiting_def j)+
  then show ?thesis using assms(1) by (simp add: spool_ok_def tables_ok_def j)
qed

lemma with_job_ok:
  assumes "spool_ok s" "\<And>k. k < length (jobs s) \<Longrightarrow> spool_ok (f k s)"
  shows "spool_ok (with_job c a1 a2 f s)"
  using assms search_jobid_from_spec [of 0 "jobs s"]
  by (auto simp: with_job_def req_arg_def too_many_def error_msg_def search_jobid_def Let_def split: option.splits)

lemma job_commands_ok:
  assumes "spool_ok s"
  shows "spool_ok (cmd_cancel a1 a2 s)" "spool_ok (cmd_pause a1 a2 s)" "spool_ok (cmd_resume a1 a2 s)"
proof -
  have "status (jobs s ! k) \<noteq> RUNNING" "status (jobs s ! k) \<noteq> PAUSED" if "k < length (jobs s)" for k
    using assms that by (auto simp: spool_ok_def tables_ok_def job_ok_def)
  then show "spool_ok (cmd_cancel a1 a2 s)" "spool_ok (cmd_pause a1 a2 s)" "spool_ok (cmd_resume a1 a2 s)"
    unfolding cmd_cancel_def cmd_pause_def cmd_resume_def
    using assms abort_ok by (auto intro!: with_job_ok simp: error_msg_def)
qed

lemma tables_ok_enabled:
  assumes "tables_ok s" "p < length (printers s)"
  shows "tables_ok (upd_printer p (\<lambda>pr. pr\<lparr>pr_enabled := b\<rparr>) s)"
proof -
  have "map pr_name ((printers s)[p := (printers s ! p)\<lparr>pr_enabled := b\<rparr>]) = map pr_name (printers s)"
    using assms(2) by (simp add: map_update) (metis length_map list_update_id nth_map)
  moreover have "printer_ok (types s) i ((printers s)[p := (printers s ! p)\<lparr>pr_enabled := b\<rparr>] ! i)" if "i < length (printers s)" for i
    using assms that by (cases "i = p") (auto simp: tables_ok_def printer_ok_def)
  ultimately show ?thesis using assms by (simp add: tables_ok_def)
qed

lemma cmd_disable_ok: "spool_ok s \<Longrightarrow> cmd_disable a1 a2 s = Some s' \<Longrightarrow> spool_ok s'"
proof -
  assume ok: "spool_ok s" and c: "cmd_disable a1 a2 s = Some s'"
  have "spool_ok (upd_printer p (\<lambda>pr. pr\<lparr>pr_enabled := False\<rparr>) s)" if "p < length (printers s)" for p
  proof -
    have "waits (types s) ((printers s)[p := (printers s ! p)\<lparr>pr_enabled := False\<rparr>]) j" if "waits (types s) (printers s) j" for j
      using that \<open>p < length (printers s)\<close> by (auto simp: waits_def nth_list_update)
    then show ?thesis using ok tables_ok_enabled [of s p] that by (auto simp: spool_ok_def waiting_def)
  qed
  then show ?thesis
    using ok c search_printer_Some
    by (auto simp: cmd_disable_def req_arg_def too_many_def error_msg_def print_printer_status_def dest!: error_msg_note_say split: option.splits if_splits)
qed

lemma cmd_enable_ok: "spool_ok s \<Longrightarrow> cmd_enable a1 a2 s = Some s' \<Longrightarrow> spool_ok s'"
proof -
  assume ok: "spool_ok s" and c: "cmd_enable a1 a2 s = Some s'"
  have "tables_ok (print_printer_status p (upd_printer p (\<lambda>pr. pr\<lparr>pr_enabled := True\<rparr>) s))" if "p < length (printers s)" for p
    using ok tables_ok_enabled [of s p True] that by (simp add: spool_ok_def print_printer_status_def)
  then show ?thesis
    using ok c search_printer_Some process_print_all
    by (auto simp: cmd_enable_def req_arg_def too_many_def error_msg_def dest!: error_msg_note_say split: option.splits if_splits)
qed


lemma interactive_ok: "spool_ok s \<Longrightarrow> interactive_mode input s = Some (b, s') \<Longrightarrow> spool_ok s'"
proof -
  assume ok: "spool_ok s" and i: "interactive_mode input s = Some (b, s')"
  obtain token a1 a2 a3 rest where w: "words_of input = (token, a1, a2, a3, rest)" by (metis prod_cases5)
  note cmds = cmd_type_ok [OF ok] cmd_printer_ok [OF ok] cmd_conversion_ok [OF ok] cmd_print_ok [OF ok]
    job_commands_ok [OF ok] cmd_disable_ok [OF ok] cmd_enable_ok [OF ok]
  have "spool_ok (print_printer s)" "spool_ok (print_job s)" "spool_ok (too_many s)" "spool_ok (say rs s)" for rs
    using ok by (simp_all add: print_printer_def print_job_def too_many_def error_msg_def)
  then show ?thesis
    using i cmds unfolding interactive_mode_def w
    by (cases token) (use ok in \<open>auto simp: Let_def dest!: invalid_opt_say split: if_splits\<close>)
qed

lemma spool_ok_init: "spool_ok spooler_init"
  by (simp add: spool_ok_def spooler_init_def tables_ok_def types_ok_def convs_known_def)

lemma run_lines_ok: "spool_ok s \<Longrightarrow> run_lines lines s = Some s' \<Longrightarrow> spool_ok s'"
  by (induction lines arbitrary: s) (auto simp: Let_def bind_eq_Some_conv split: if_splits intro: interactive_ok)

section \<open>Properties\<close>

text \<open>
  C3. After any command file that the spooler gets through, without the crash of the 32nd printer or the overflow of one of its
  arrays (the 512 bytes of a message, the 128 nodes of a path), its tables are consistent: types and printers have
  distinct names, conversions, printers and jobs refer to declared types, ids are positions,
  there are at most 31 printers and none is busy, and every job is queued, with no printer
  chosen, or aborted. In particular no job is ever seen running, paused or completed between
  commands, since \<open>fork_conv\<close> itself reports each job it starts as aborted.
\<close>

theorem spooler_tables_consistent:
  assumes "run_lines lines spooler_init = Some s"
  shows "distinct (names (types s)) \<and> convs_known (types s) \<and> distinct (map pr_name (printers s)) \<and> length (printers s) \<le> 31
    \<and> (\<forall>i < length (printers s). pr_id (printers s ! i) = int i \<and> \<not> pr_busy (printers s ! i)
        \<and> pr_type (printers s ! i) \<in> set (names (types s)))
    \<and> (\<forall>i < length (jobs s). jobid (jobs s ! i) = int i \<and> status (jobs s ! i) \<in> {QUEUED, ABORTED}
        \<and> chosen_printer (jobs s ! i) = None \<and> file_type (jobs s ! i) \<in> set (names (types s)))"
  using run_lines_ok [OF spool_ok_init assms]
  by (auto simp: spool_ok_def tables_ok_def types_ok_def printer_ok_def job_ok_def)

text \<open>
  C16. No job is left waiting: after any command file that the spooler gets through, without the crash of the 32nd printer or
  the overflow of one of its arrays (the 512 bytes of a message, the 128 nodes of a path), a job that is still queued has no enabled
  printer in its set for which the search finds a chain of conversions.
\<close>

theorem no_startable_job_waits:
  assumes "run_lines lines spooler_init = Some s" "j \<in> set (jobs s)" "status j = QUEUED"
    "i < length (printers s)" "bit (eligible_printers j) i" "pr_enabled (printers s ! i)"
  shows "bfs (types s) (file_type j) (pr_type (printers s ! i)) [] = Some []"
proof -
  obtain k where "k < length (jobs s)" "jobs s ! k = j" using assms(2) by (auto simp: in_set_conv_nth)
  then show ?thesis
    using run_lines_ok [OF spool_ok_init assms(1)] assms(3-) by (auto simp: spool_ok_def waiting_def waits_def)
qed


definition demo_lines :: "cstring list" where
  "demo_lines = [''type a'', ''printer p a'', ''print f.a'']"

definition demo_job :: JOB where
  "demo_job = \<lparr>jobid = 0, status = QUEUED, pgid = 0, file_name = ''f.a'', file_type = ''a'',
     eligible_printers = -1, chosen_printer = None\<rparr>"

lemma find_bfs_disabled:
  assumes "tables_ok s" "\<forall>p < length (printers s). \<not> pr_enabled (printers s ! p)"
  shows "find_bfs job s = Some (None, s)"
proof -
  have "find_bfs_loop n i job s = Some (None, s)" for n i
    using assms by (induction n arbitrary: i) (auto simp: get_printer_tables)
  then show ?thesis by (simp add: find_bfs_def)
qed

definition demo_spooler :: "JOB list \<Rightarrow> report list \<Rightarrow> spooler" where
  "demo_spooler js rs = \<lparr>types = [\<lparr>nd_data = ''a'', nd_conv = []\<rparr>],
     printers = [\<lparr>pr_id = 0, pr_name = ''p'', pr_type = ''a'', pr_enabled = False, pr_busy = False\<rparr>],
     jobs = js, printer_id = 1, job_id = int (length js), path_result = [], reports = rs\<rparr>"

lemma demo_words:
  "words_of (cut_line ''type a'') = (Some ''type'', Some ''a'', None, None, [])"
  "words_of (cut_line ''printer p a'') = (Some ''printer'', Some ''p'', Some ''a'', None, [])"
  "words_of (cut_line ''print f.a'') = (Some ''print'', Some ''f.a'', None, None, [])"
  by (simp_all add: words_of_def strtok_def cut_line_def Let_def)

lemma demo_run:
  obtains rs where "run_lines demo_lines spooler_init = Some (demo_spooler [demo_job] rs)"
proof -
  have c: "cut_line ''type a'' = ''type a''" "cut_line ''printer p a'' = ''printer p a''" "cut_line ''print f.a'' = ''print f.a''"
    by (simp_all add: cut_line_def Let_def)
  let ?s1 = "spooler_init\<lparr>types := [\<lparr>nd_data = ''a'', nd_conv = []\<rparr>]\<rparr>"
  have 1: "interactive_mode ''type a'' spooler_init = Some (True, ?s1)"
    using demo_words(1) unfolding c interactive_mode_def
    by (simp add: cmd_type_def add_list_def search_list_def spooler_init_def)
  have 2: "\<exists>rs. interactive_mode ''printer p a'' ?s1 = Some (True, demo_spooler [] rs)"
    using demo_words(2) unfolding c interactive_mode_def
    by (simp add: cmd_printer_def search_list_def search_printer_def spooler_init_def add_printer_def MAX_PRINTERS_def
        print_printer_status_def say_def Let_def demo_spooler_def)
  then obtain rs where r2: "interactive_mode ''printer p a'' ?s1 = Some (True, demo_spooler [] rs)" by blast
  have "spool_ok (demo_spooler [demo_job] qs)" for qs
    by (simp add: spool_ok_def tables_ok_def demo_spooler_def types_ok_def convs_known_def printer_ok_def job_ok_def
        demo_job_def waiting_def waits_def)
  then have f: "find_bfs demo_job (demo_spooler [demo_job] qs) = Some (None, demo_spooler [demo_job] qs)" for qs
    by (intro find_bfs_disabled) (auto simp: spool_ok_def demo_spooler_def)
  have "print ''f.a'' None None [] (demo_spooler [] rs) = Some (Some 0, demo_spooler [demo_job] (rs @ [Job_Status demo_job]))"
    by (simp add: print_def new_job_def add_job_def print_job_status_def say_def demo_spooler_def demo_job_def
        search_list_def Let_def)
  then have 3: "interactive_mode ''print f.a'' (demo_spooler [] rs) =
      Some (True, demo_spooler [demo_job] (rs @ [Job_Status demo_job]))"
    using demo_words(3) f unfolding c interactive_mode_def by (simp add: cmd_print_def) (simp add: demo_spooler_def)
  show ?thesis by (rule that) (simp add: demo_lines_def c 1 r2 3)
qed

theorem spooler_tables_consistent_witness:
  "\<exists>s. run_lines demo_lines spooler_init = Some s \<and> jobs s = [demo_job] \<and> distinct (names (types s))"
proof -
  obtain rs where r: "run_lines demo_lines spooler_init = Some (demo_spooler [demo_job] rs)" by (rule demo_run)
  from spooler_tables_consistent [OF r] r show ?thesis by (auto simp: demo_spooler_def)
qed


lemma find_bfs_waits:
  assumes "tables_ok s" "\<And>p r. p < length (printers s) \<Longrightarrow> pr_enabled (printers s ! p) \<Longrightarrow>
      bfs (types s) (file_type job) (pr_type (printers s ! p)) r = Some []"
  shows "\<exists>res. find_bfs job s = Some (None, s\<lparr>path_result := res\<rparr>)"
proof -
  have "\<exists>res'. find_bfs_loop n i job (s\<lparr>path_result := res\<rparr>) = Some (None, s\<lparr>path_result := res'\<rparr>)" for n i res
    using assms get_printer_tables [OF assms(1)]
    by (induction n arbitrary: i res) (auto simp: Let_def)
  from this [of 32 0 "path_result s"] show ?thesis by (simp add: find_bfs_def)
qed

definition wait_lines :: "cstring list" where
  "wait_lines = [''type a'', ''type b'', ''printer p b'', ''enable p'', ''print f.a'']"

definition wait_spooler :: "bool \<Rightarrow> JOB list \<Rightarrow> cstring list \<Rightarrow> report list \<Rightarrow> spooler" where
  "wait_spooler en js res rs = \<lparr>types = [\<lparr>nd_data = ''a'', nd_conv = []\<rparr>, \<lparr>nd_data = ''b'', nd_conv = []\<rparr>],
     printers = [\<lparr>pr_id = 0, pr_name = ''p'', pr_type = ''b'', pr_enabled = en, pr_busy = False\<rparr>],
     jobs = js, printer_id = 1, job_id = int (length js), path_result = res, reports = rs\<rparr>"

lemma wait_words:
  "words_of ''type b'' = (Some ''type'', Some ''b'', None, None, [])"
  "words_of ''printer p b'' = (Some ''printer'', Some ''p'', Some ''b'', None, [])"
  "words_of ''enable p'' = (Some ''enable'', Some ''p'', None, None, [])"
  "words_of ''print f.a'' = (Some ''print'', Some ''f.a'', None, None, [])"
  "words_of ''type a'' = (Some ''type'', Some ''a'', None, None, [])"
  by (simp_all add: words_of_def strtok_def Let_def)

lemma wait_run: "\<exists>res rs. run_lines wait_lines spooler_init = Some (wait_spooler True [demo_job] res rs)"
proof -
  have c: "cut_line ''type a'' = ''type a''" "cut_line ''type b'' = ''type b''" "cut_line ''printer p b'' = ''printer p b''"
    "cut_line ''enable p'' = ''enable p''" "cut_line ''print f.a'' = ''print f.a''"
    by (simp_all add: cut_line_def Let_def)
  let ?s1 = "spooler_init\<lparr>types := [\<lparr>nd_data = ''a'', nd_conv = []\<rparr>]\<rparr>"
  let ?s2 = "spooler_init\<lparr>types := [\<lparr>nd_data = ''a'', nd_conv = []\<rparr>, \<lparr>nd_data = ''b'', nd_conv = []\<rparr>]\<rparr>"
  have 1: "interactive_mode ''type a'' spooler_init = Some (True, ?s1)" "interactive_mode ''type b'' ?s1 = Some (True, ?s2)"
    unfolding interactive_mode_def wait_words
    by (simp_all add: cmd_type_def add_list_def search_list_def spooler_init_def)
  have "\<exists>rs. interactive_mode ''printer p b'' ?s2 = Some (True, wait_spooler False [] [] rs)"
    unfolding interactive_mode_def wait_words
    by (simp add: cmd_printer_def search_list_def search_printer_def spooler_init_def add_printer_def MAX_PRINTERS_def
        print_printer_status_def say_def Let_def wait_spooler_def)
  then obtain rs where 2: "interactive_mode ''printer p b'' ?s2 = Some (True, wait_spooler False [] [] rs)" by blast
  have "\<exists>qs. interactive_mode ''enable p'' (wait_spooler False [] [] rs) = Some (True, wait_spooler True [] [] qs)"
    unfolding interactive_mode_def wait_words
    by (simp add: cmd_enable_def search_printer_def wait_spooler_def print_printer_status_def say_def process_print.simps)
  then obtain qs where 3: "interactive_mode ''enable p'' (wait_spooler False [] [] rs) = Some (True, wait_spooler True [] [] qs)" by blast
  let ?t = "wait_spooler True [demo_job] [] (qs @ [Job_Status demo_job])"
  have b: "bfs (types ?t) ''a'' ''b'' r = Some []" for r
    by (simp add: wait_spooler_def bfs_def look.simps search_list_def Let_def)
  have "tables_ok ?t"
    by (simp add: tables_ok_def wait_spooler_def types_ok_def convs_known_def printer_ok_def job_ok_def demo_job_def)
  then have "\<exists>res. find_bfs demo_job ?t = Some (None, ?t\<lparr>path_result := res\<rparr>)"
    using b by (intro find_bfs_waits) (auto simp: wait_spooler_def demo_job_def)
  moreover have "?t\<lparr>path_result := res\<rparr> = wait_spooler True [demo_job] res (qs @ [Job_Status demo_job])" for res
    by (simp add: wait_spooler_def)
  ultimately obtain res where f: "find_bfs demo_job ?t = Some (None, wait_spooler True [demo_job] res (qs @ [Job_Status demo_job]))"
    by auto
  have "print ''f.a'' None None [] (wait_spooler True [] [] qs) = Some (Some 0, ?t)"
    by (simp add: print_def new_job_def add_job_def print_job_status_def say_def wait_spooler_def demo_job_def
        search_list_def Let_def)
  moreover have "jobs ?t ! 0 = demo_job" by (simp add: wait_spooler_def)
  ultimately have 4: "interactive_mode ''print f.a'' (wait_spooler True [] [] qs) =
      Some (True, wait_spooler True [demo_job] res (qs @ [Job_Status demo_job]))"
    using f unfolding interactive_mode_def wait_words by (simp add: cmd_print_def)
  show ?thesis by (auto simp: wait_lines_def c 1 2 3 4)
qed

theorem no_startable_job_waits_witness:
  "\<exists>s. run_lines wait_lines spooler_init = Some s \<and> bfs (types s) (file_type demo_job) (pr_type (printers s ! 0)) [] = Some []"
proof -
  obtain res rs where r: "run_lines wait_lines spooler_init = Some (wait_spooler True [demo_job] res rs)" using wait_run by blast
  show ?thesis using r no_startable_job_waits [OF r, of demo_job 0] by (auto simp: wait_spooler_def demo_job_def)
qed


section \<open>Printer sets\<close>

lemma printer_set_bit:
  assumes "printer_set_value n s = Some (v, s1)" "v \<noteq> 0" "tables_ok s"
  shows "s1 = s \<and> (\<forall>k < 32. bit v k \<longleftrightarrow> k < length (printers s) \<and> pr_name (printers s ! k) = n)"
proof -
  obtain p where p: "search_printer (printers s) n = Some p" "s1 = s" "v = push_bit (nat (pr_id (printers s ! p))) 1"
    using assms(1,2) by (auto simp: printer_set_value_def split: option.splits)
  note q = search_printer_Some [OF p(1)]
  have "pr_id (printers s ! p) = int p" "p < 32" using assms(3) q by (auto simp: tables_ok_def printer_ok_def)
  then have "v = push_bit p 1" using p(3) by simp
  then have "bit v k \<longleftrightarrow> k = p" if "k < 32" for k
    using that \<open>p < 32\<close> by (simp only: bit_push_bit_iff bit_1_iff) auto
  moreover have "k = p" if "k < length (printers s)" "pr_name (printers s ! k) = n" for k
    using assms(3) q that unfolding tables_ok_def by (metis distinct_conv_nth length_map nth_map)
  ultimately show ?thesis using p(2) q by auto
qed

lemma more_printers_parity:
  assumes "more_printers st rest s = Some (Some st', s')" "tables_ok s" "k < 32"
  shows "bit st' k \<longleftrightarrow> bit st k \<noteq> (k < length (printers s) \<and> odd (count_list (tokens rest) (pr_name (printers s ! k))))"
  using assms
proof (induction st rest s rule: more_printers.induct)
  case (1 st rest s)
  obtain t r where t: "strtok '' '' rest = (t, r)" by fastforce
  show ?case
  proof (cases t)
    case None
    then show ?thesis using "1.prems"(1) t by (simp add: more_printers.simps [of st rest] tokens.simps [of rest])
  next
    case (Some n)
    obtain v s1 where v: "printer_set_value n s = Some (v, s1)"
      using "1.prems"(1) t Some by (auto simp: more_printers.simps [of st rest] split: bind_splits)
    then have v0: "v \<noteq> 0" "more_printers (st XOR v) r s1 = Some (Some st', s')"
      using "1.prems"(1) t Some by (auto simp: more_printers.simps [of st rest] split: if_splits)
    note b = printer_set_bit [OF v v0(1) "1.prems"(2)]
    have "bit st' k \<longleftrightarrow> bit (st XOR v) k \<noteq> (k < length (printers s) \<and> odd (count_list (tokens r) (pr_name (printers s ! k))))"
      using "1.IH" [OF t [symmetric] Some, of "(v, s1)" v s1] v v0 b "1.prems"(2,3) by simp
    then show ?thesis using b "1.prems"(3) t Some by (auto simp: tokens.simps [of rest] bit_xor_iff)
  qed
qed

text \<open>
  The set of printers of a job is not the set of the printers named: a printer belongs to it
  when it is named an odd number of times, since the names are accumulated with exclusive or.
\<close>

theorem print_set_is_parity:
  assumes "tables_ok s" "print f (Some n1) (Some n2) rest s = Some (Some j, s')" "k < length (printers s)"
  shows "bit (eligible_printers (jobs s' ! j)) k \<longleftrightarrow> odd (count_list (n1 # n2 # tokens rest) (pr_name (printers s ! k)))"
proof -
  obtain d e where e: "dropWhile (\<lambda>c. c \<noteq> CHR ''.'') f = d # e"
    using assms(2) by (cases "dropWhile (\<lambda>c. c \<noteq> CHR ''.'') f") (auto simp: print_def)
  have st: "search_list (types s) 0 e \<noteq> None" using assms(2) by (auto simp: print_def e split: if_splits)
  have k: "k < 32" using assms(1,3) by (simp add: tables_ok_def)
  obtain v1 s1 where v1: "printer_set_value n1 s = Some (v1, s1)" using assms(2) st by (auto simp: print_def e bind_eq_Some_conv)
  have n1: "v1 \<noteq> 0" using assms(2) st v1 by (auto simp: print_def e)
  obtain v2 s2 where v2: "printer_set_value n2 s1 = Some (v2, s2)"
    using assms(2) st v1 n1 by (auto simp: print_def e bind_eq_Some_conv)
  have n2: "v2 \<noteq> 0" using assms(2) st v1 v2 n1 by (auto simp: print_def e)
  obtain w s3 where w: "more_printers (v1 XOR v2) rest s2 = Some (w, s3)"
    using assms(2) st v1 v2 n1 n2 by (auto simp: print_def e bind_eq_Some_conv)
  obtain x where x: "w = Some x" "new_job f e x s3 = (Some j, s')"
    using assms(2) st v1 v2 w n1 n2 by (cases w) (auto simp: print_def e Let_def split: if_splits)
  note b1 = printer_set_bit [OF v1 n1 assms(1)]
  have t1: "tables_ok s1" using b1 assms(1) by simp
  note b2 = printer_set_bit [OF v2 n2 t1]
  have "bit x k \<longleftrightarrow> bit (v1 XOR v2) k \<noteq> odd (count_list (tokens rest) (pr_name (printers s ! k)))"
    using more_printers_parity [of "v1 XOR v2" rest s2 x s3 k] w x(1) b1 b2 assms(1,3) k by simp
  moreover have "eligible_printers (jobs s' ! j) = x"
    using x(2) by (auto simp: new_job_def add_job_def print_job_status_def say_def Let_def)
  ultimately show ?thesis using b1 b2 k assms(3) by (auto simp: bit_xor_iff)
qed

theorem print_set_is_parity_witness:
  "\<exists>j s'. print ''f.a'' (Some ''p'') (Some ''p'') ''p'' (demo_spooler [] []) = Some (Some j, s')
    \<and> bit (eligible_printers (jobs s' ! j)) 0"
proof -
  let ?s = "demo_spooler [] []"
  have ok: "tables_ok ?s"
    by (simp add: tables_ok_def demo_spooler_def types_ok_def convs_known_def printer_ok_def)
  have t: "tokens ''p'' = [''p'']" by (simp add: tokens.simps strtok_def)
  have p: "printer_set_value ''p'' ?s = Some (1, ?s)"
    by (simp add: printer_set_value_def search_printer_def demo_spooler_def)
  have m: "more_printers (1 XOR 1) ''p'' ?s = Some (Some 1, ?s)"
    using p by (simp add: more_printers.simps strtok_def)
  have sl: "search_list (types ?s) 0 ''a'' \<noteq> None" by (simp add: demo_spooler_def search_list_def)
  obtain j s' where "new_job ''f.a'' ''a'' 1 ?s = (Some j, s')" by (auto simp: new_job_def add_job_def Let_def)
  then have "print ''f.a'' (Some ''p'') (Some ''p'') ''p'' ?s = Some (Some j, s')"
    using p m sl by (simp add: print_def)
  then show ?thesis using print_set_is_parity [OF ok, of "''f.a''" "''p''" "''p''" "''p''" j s' 0] t
    by (auto simp: demo_spooler_def)
qed

text \<open>
  The 32nd printer crashes the spooler: with 31 printers \<open>add_printer\<close> returns the null pointer,
  which \<open>interactive_mode\<close> does not check, although \<open>MAX_PRINTERS\<close> is 32.
\<close>

theorem printer_32_crashes:
  assumes "tables_ok s" "length (printers s) = 31" "words_of input = (Some ''printer'', Some n, Some t, None, rest)"
    "n \<notin> pr_name ` set (printers s)" "t \<in> set (names (types s))"
  shows "interactive_mode input s = None"
proof -
  have "printer_id s = 31" using assms(1,2) by (simp add: tables_ok_def)
  moreover have "search_list (types s) 0 t \<noteq> None" using assms(5) by (simp add: search_list_None)
  moreover have "search_printer (printers s) n = None" using assms(4) by (simp add: search_printer_None)
  ultimately have "cmd_printer (Some n) (Some t) None s = None"
    by (auto simp: cmd_printer_def add_printer_def MAX_PRINTERS_def)
  then show ?thesis unfolding interactive_mode_def assms(3) by simp
qed

definition full_spooler :: spooler where
  "full_spooler = \<lparr>types = [\<lparr>nd_data = ''a'', nd_conv = []\<rparr>],
     printers = map (\<lambda>i. \<lparr>pr_id = int i, pr_name = replicate i CHR ''x'', pr_type = ''a'', pr_enabled = False, pr_busy = False\<rparr>) [0..<31],
     jobs = [], printer_id = 31, job_id = 0, path_result = [], reports = []\<rparr>"

theorem printer_32_crashes_witness: "interactive_mode ''printer p a'' full_spooler = None"
proof (rule printer_32_crashes)
  have "inj_on (\<lambda>i. replicate i CHR ''x'') {0..<31}" by (auto intro!: inj_onI dest: arg_cong [of _ _ length])
  then show "tables_ok full_spooler"
    by (simp add: tables_ok_def full_spooler_def types_ok_def convs_known_def printer_ok_def distinct_map comp_def)
  show "words_of ''printer p a'' = (Some ''printer'', Some ''p'', Some ''a'', None, [])"
    by (simp add: words_of_def strtok_def Let_def)
qed (auto simp: full_spooler_def Cons_replicate_eq)

text \<open>
  A word of more than 486 characters overflows the buffer of the message that it is unknown: here the name of a
  printer that is to be enabled.
\<close>

theorem long_name_overflows:
  assumes "words_of input = (Some ''enable'', Some n, None, None, rest)" "n \<notin> pr_name ` set (printers s)" "487 \<le> length n"
  shows "interactive_mode input s = None"
proof -
  have "search_printer (printers s) n = None" using assms(2) by (simp add: search_printer_None)
  then have "cmd_enable (Some n) None s = None"
    using assms(3) by (simp add: cmd_enable_def error_msg_note_def sprintf_dest_def)
  then show ?thesis unfolding interactive_mode_def assms(1) by simp
qed

end
