(* ===== verification/Snarf_Url.thy ===== *)
theory Snarf_Url
  imports C_Strings
begin

text \<open>
  URLs of the document fetcher (\<open>src/snarf/src/url.c\<close>): the parser, the accessors and the
  address lookup with its cache. A pointer into the working copy of the string is the rest of
  the string from there; \<open>strdup\<close> and \<open>malloc\<close> succeed; the name service is a parameter.
\<close>

section \<open>The parser\<close>

record url =
  u_stuff :: "char list"
  u_method :: "cstring option"
  u_hostname :: "cstring option"
  u_port :: i32
  u_path :: "cstring option"
  u_dnsdone :: bool
  u_addr :: u32

definition url_init :: "url \<Rightarrow> url" where
  "url_init up = up\<lparr>u_stuff := [], u_method := None, u_hostname := None, u_port := 0,
     u_path := None, u_dnsdone := False\<rparr>"

definition host_end :: "char \<Rightarrow> bool" where
  "host_end c \<longleftrightarrow> c = CHR 0x00 \<or> c = CHR '':'' \<or> c = CHR ''/''"

text \<open>The part before the first colon, when no slash comes earlier.\<close>

definition parse_method :: "cstring \<Rightarrow> nat \<Rightarrow> url \<Rightarrow> cstring \<times> url" where
  "parse_method s colon up =
    (let meth = take colon s
     in (drop (colon + 1) s,
         up\<lparr>u_stuff := s[colon := CHR 0x00], u_method := Some meth,
            u_port := (if strcasecmp meth ''http'' = 0 then 80 else u_port up)\<rparr>))"

text \<open>Host and port; the string is what follows the two slashes.\<close>

definition parse_host :: "cstring \<Rightarrow> url \<Rightarrow> cstring \<times> url" where
  "parse_host s up =
    (let cp = dropWhile (\<lambda>c. \<not> host_end c) s;
         up = up\<lparr>u_hostname := Some (takeWhile (\<lambda>c. \<not> host_end c) s)\<rparr>
     in if deref cp = CHR '':''
        then let cp1 = drop 1 cp
             in (dropWhile is_digit cp1, up\<lparr>u_port := atoi_digits (takeWhile is_digit cp1)\<rparr>)
        else (cp, up))"

definition url_parse :: "cstring option \<Rightarrow> url option" where
  "url_parse url =
    (case url of
       None \<Rightarrow> None
     | Some s \<Rightarrow>
        let up = url_init \<lparr>u_stuff = [], u_method = None, u_hostname = None, u_port = 0, u_path = None,
                   u_dnsdone = False, u_addr = 0\<rparr>;
            up = up\<lparr>u_stuff := s, u_dnsdone := False, u_addr := 0\<rparr>
        in case (strchr s (CHR ''/''), strchr s (CHR '':'')) of
             (Some slash, Some colon) \<Rightarrow>
               let (cp, up) = (if colon < slash then parse_method s colon up else (s, up));
                   (cp, up) = (if deref (drop (slash + 1) s) = CHR ''/''
                               then parse_host (drop (slash + 2) s) up else (cp, up))
               in Some (up\<lparr>u_path := Some (if deref cp = CHR 0x00 then ''/'' else cp)\<rparr>)
           | _ \<Rightarrow> Some (up\<lparr>u_path := Some s\<rparr>))"

definition url_method :: "url option \<Rightarrow> cstring option" where
  "url_method up = (case up of None \<Rightarrow> None | Some u \<Rightarrow> u_method u)"

definition url_hostname :: "url option \<Rightarrow> cstring option" where
  "url_hostname up = (case up of None \<Rightarrow> None | Some u \<Rightarrow> u_hostname u)"

definition url_port :: "url option \<Rightarrow> i32" where
  "url_port up = (case up of None \<Rightarrow> -1 | Some u \<Rightarrow> u_port u)"

definition url_path :: "url option \<Rightarrow> cstring option" where
  "url_path up = (case up of None \<Rightarrow> None | Some u \<Rightarrow> u_path u)"

text \<open>
  The address of the host, from \<open>gethostbyname\<close> the first time and from the object later; the
  URL with its cache is the second result.
\<close>

definition url_address :: "(cstring \<Rightarrow> u32 option) \<Rightarrow> url option \<Rightarrow> u32 option \<times> url option" where
  "url_address gethostbyname up =
    (case up of
       None \<Rightarrow> (None, None)
     | Some u \<Rightarrow>
        if u_dnsdone u then (Some (u_addr u), Some u)
        else (case u_hostname u of
                Some h \<Rightarrow>
                  if deref h \<noteq> CHR 0x00
                  then (case gethostbyname h of
                          None \<Rightarrow> (None, Some u)
                        | Some a \<Rightarrow> (Some a, Some (u\<lparr>u_addr := a, u_dnsdone := True\<rparr>)))
                  else (Some (u_addr u), Some (u\<lparr>u_dnsdone := True\<rparr>))
              | None \<Rightarrow> (Some (u_addr u), Some (u\<lparr>u_dnsdone := True\<rparr>))))"

section \<open>Absolute URLs\<close>

lemmas url_accessors = url_method_def url_hostname_def url_port_def url_path_def

text \<open>A name in a URL: no NUL, colon or slash.\<close>

definition url_name :: "cstring \<Rightarrow> bool" where
  "url_name s \<longleftrightarrow> list_all (\<lambda>c. \<not> host_end c) s"

text \<open>A path as it follows the host: empty, or with a slash in front.\<close>

definition url_abs_path :: "cstring \<Rightarrow> bool" where
  "url_abs_path p \<longleftrightarrow> p = [] \<or> deref p = CHR ''/''"

text \<open>The text of an absolute URL, with or without a port.\<close>

definition url_text :: "cstring \<Rightarrow> cstring \<Rightarrow> nat option \<Rightarrow> cstring \<Rightarrow> cstring" where
  "url_text meth host port path =
     meth @ ''://'' @ host @ (case port of None \<Rightarrow> [] | Some n \<Rightarrow> CHR '':'' # show_nat n) @ path"

lemma url_nameD: "url_name s \<Longrightarrow> CHR '':'' \<notin> set s \<and> CHR ''/'' \<notin> set s \<and> CHR 0x00 \<notin> set s"
  by (auto simp: url_name_def list_all_iff host_end_def)

lemma url_name_span:
  assumes "url_name h" "host_end (deref t)"
  shows "takeWhile (\<lambda>c. \<not> host_end c) (h @ t) = h" "dropWhile (\<lambda>c. \<not> host_end c) (h @ t) = t"
  using assms by (induction h) (auto simp: url_name_def deref_def split: list.splits)

lemma url_abs_path_ends: "url_abs_path p \<Longrightarrow> host_end (deref p) \<and> \<not> is_digit (deref p) \<and> deref p \<noteq> CHR '':''"
  by (auto simp: url_abs_path_def host_end_def not_digit)

lemma parse_host_text:
  assumes "url_name h" "url_abs_path p" "\<forall>n. port = Some n \<longrightarrow> n < 2 ^ 31"
  shows "parse_host (h @ (case port of None \<Rightarrow> [] | Some n \<Rightarrow> CHR '':'' # show_nat n) @ p) up =
    (p, up\<lparr>u_hostname := Some h, u_port := (case port of None \<Rightarrow> u_port up | Some n \<Rightarrow> of_nat n)\<rparr>)"
proof (cases port)
  case None
  then show ?thesis
    using url_name_span [OF assms(1)] url_abs_path_ends [OF assms(2)] by (simp add: parse_host_def)
next
  case (Some n)
  have "host_end (deref (CHR '':'' # show_nat n @ p))" by (simp add: host_end_def)
  from url_name_span [OF assms(1) this] show ?thesis
    using Some assms(3) url_abs_path_ends [OF assms(2)]
    by (simp add: parse_host_def takeWhile_digits [OF show_nat_digits] dropWhile_digits [OF show_nat_digits]
        atoi_show)
qed

lemma url_parse_text:
  assumes "url_name meth" "url_name h" "url_abs_path p" "\<forall>n. port = Some n \<longrightarrow> n < 2 ^ 31"
  shows "url_parse (Some (url_text meth h port p)) = Some
    \<lparr>u_stuff = (url_text meth h port p)[length meth := CHR 0x00],
     u_method = Some meth, u_hostname = Some h,
     u_port = (case port of Some n \<Rightarrow> of_nat n | None \<Rightarrow> if strcasecmp meth ''http'' = 0 then 80 else 0),
     u_path = Some (if p = [] then ''/'' else p), u_dnsdone = False, u_addr = 0\<rparr>"
proof -
  let ?rest = "h @ (case port of None \<Rightarrow> [] | Some n \<Rightarrow> CHR '':'' # show_nat n) @ p"
  let ?s = "url_text meth h port p"
  have s: "?s = meth @ CHR '':'' # CHR ''/'' # CHR ''/'' # ?rest" by (simp add: url_text_def)
  have colon: "strchr ?s (CHR '':'') = Some (length meth)"
    unfolding s using url_nameD [OF assms(1)] by (intro strchr_first) simp
  have slash: "strchr ?s (CHR ''/'') = Some (length meth + 1)"
    using strchr_first [of "CHR ''/''" "meth @ '':''" "CHR ''/'' # ?rest"] url_nameD [OF assms(1)]
    by (simp add: s)
  have drops: "drop (Suc (Suc (length meth))) ?s = CHR ''/'' # ?rest"
    "drop (Suc (Suc (Suc (length meth)))) ?s = ?rest" "take (length meth) ?s = meth"
    by (simp_all add: s)
  have p: "deref p = CHR 0x00 \<longleftrightarrow> p = []"
    using assms(3) by (auto simp: url_abs_path_def)
  note ph = parse_host_text [OF assms(2,3,4)]
  show ?thesis
    by (simp add: url_parse_def colon slash parse_method_def url_init_def drops ph p Let_def)
      (simp split: option.split)
qed

text \<open>
  Asking for the address of a parsed URL twice asks the name service once: the second
  answer is the first one, whatever the name service says by then.
\<close>

lemma url_address_cached:
  "url_address dns up = (Some a, up') \<Longrightarrow> url_address dns' up' = (Some a, up')"
  by (auto simp: url_address_def split: option.splits if_splits)

end
