(* ===== verification/Snarf_Http.thy ===== *)
theory Snarf_Http
  imports Snarf_Url
begin

text \<open>
  The HTTP connection of the document fetcher (\<open>src/snarf/src/http.c\<close>) and its main program
  (\<open>src/snarf/src/snarf.c\<close>, from the parsed arguments on): request, response line, header
  list, document. The stream to the server is a record of what was sent, what is still to be
  read, and how many more output operations succeed; name service, network and the opening of
  the output file are parameters; \<open>malloc\<close> succeeds.

  A header node that is freed while the list still points to it is kept as a dangling end of
  the list, so that walking past the last valid node is an error of the model.
\<close>

section \<open>Connections\<close>

record stream =
  f_sent :: "char list"
  f_in :: "char list"
  f_writes :: nat

datatype HTTP_STATE = ST_REQ | ST_HDRS | ST_BODY | ST_DONE

record HDRNODE =
  h_key :: cstring
  h_value :: cstring

text \<open>The valid nodes and the pointer after the last of them: null, or to a freed node.\<close>

datatype link = Null | Dangling

type_synonym HEADERS = "HDRNODE list \<times> link"

record http =
  h_file :: stream
  h_state :: HTTP_STATE
  h_code :: i32
  h_version :: cstring
  h_response :: "cstring option"
  h_headers :: HEADERS

text \<open>Output: fails once the stream is broken.\<close>

definition fprintf :: "stream \<Rightarrow> char list \<Rightarrow> stream option" where
  "fprintf f s = (if f_writes f = 0 then None else Some (f\<lparr>f_sent := f_sent f @ s, f_writes := f_writes f - 1\<rparr>))"

definition fflush :: "stream \<Rightarrow> stream option" where
  "fflush f = (if f_writes f = 0 then None else Some (f\<lparr>f_writes := f_writes f - 1\<rparr>))"

text \<open>
  The network takes the address and the 16-bit port of the socket address and gives the stream
  of a connection, or nothing when \<open>socket\<close>, \<open>connect\<close> or \<open>fdopen\<close> fails.
\<close>

type_synonym network = "u32 \<Rightarrow> 16 word \<Rightarrow> stream option"

definition http_open :: "network \<Rightarrow> u32 option \<Rightarrow> i32 \<Rightarrow> http option" where
  "http_open net addr port =
    (case addr of
       None \<Rightarrow> None
     | Some a \<Rightarrow>
        (case net a (ucast port) of
           None \<Rightarrow> None
         | Some f \<Rightarrow> Some \<lparr>h_file = f, h_state = ST_REQ, h_code = 0, h_version = [],
                           h_response = None, h_headers = ([], Null)\<rparr>))"

definition http_file :: "http option \<Rightarrow> stream option" where
  "http_file http = map_option h_file http"

text \<open>\<open>%s\<close> of a null pointer.\<close>

definition show_str :: "cstring option \<Rightarrow> cstring" where
  "show_str s = (case s of None \<Rightarrow> ''(null)'' | Some t \<Rightarrow> t)"

definition crlf :: "char list" where
  "crlf = [CHR 0x0D, CHR 0x0A]"

definition request_text :: "url option \<Rightarrow> char list" where
  "request_text up =
    ''GET '' @ show_str (url_method up) @ ''://'' @ show_str (url_hostname up) @ '':'' @ show_int (url_port up)
    @ show_str (url_path up) @ '' HTTP/1.0'' @ crlf @ ''Host: '' @ show_str (url_hostname up) @ crlf"

definition http_request :: "http option \<Rightarrow> url option \<Rightarrow> i32 \<times> http option" where
  "http_request http up =
    (case (http, up) of
       (Some h, Some u) \<Rightarrow>
         if h_state h \<noteq> ST_REQ then (1, http)
         else (case fprintf (h_file h) (request_text up) of
                 None \<Rightarrow> (1, http)
               | Some f \<Rightarrow> (0, Some (h\<lparr>h_file := f, h_state := ST_HDRS\<rparr>)))
     | _ \<Rightarrow> (1, http))"

section \<open>Header lines\<close>

definition is_crlf :: "char \<Rightarrow> bool" where
  "is_crlf c \<longleftrightarrow> c = CHR 0x0D \<or> c = CHR 0x0A"

text \<open>\<open>strncpy\<close> of a line into a buffer of its length: after the first NUL there are only NULs.\<close>

definition strncpy_line :: "char list \<Rightarrow> char list" where
  "strncpy_line line =
    (let s = takeWhile (\<lambda>c. c \<noteq> CHR 0x00) line in s @ replicate (length line - length s) (CHR 0x00))"

text \<open>The buffer without the carriage returns and newlines at its end.\<close>

definition chomp :: "char list \<Rightarrow> char list" where
  "chomp buf = rev (dropWhile is_crlf (rev buf))"

definition c_str :: "char list \<Rightarrow> cstring" where
  "c_str buf = takeWhile (\<lambda>c. c \<noteq> CHR 0x00) buf"

text \<open>
  One header line, already without its line end: the node, or nothing when there is no colon
  or no space after it.
\<close>

definition parse_header :: "cstring \<Rightarrow> HDRNODE option" where
  "parse_header l =
    (let l = dropWhile (\<lambda>c. c = CHR '' '') l;
         cp = dropWhile (\<lambda>c. c \<noteq> CHR '':'') l
     in if deref cp = CHR 0x00 \<or> deref (drop 1 cp) \<noteq> CHR '' '' then None
        else Some \<lparr>h_key = takeWhile (\<lambda>c. c \<noteq> CHR '':'') l,
                    h_value = dropWhile (\<lambda>c. c = CHR '' '') (drop 1 cp)\<rparr>)"

lemma getline_shorter:
  assumes "getline inp = Some (l, rest)"
  shows "length rest < length inp"
proof -
  let ?b = "dropWhile (\<lambda>c. c \<noteq> CHR 0x0A) inp"
  have "inp \<noteq> []" "rest = drop 1 ?b"
    using assms by (simp_all add: getline_def Let_def split: if_split_asm)
  moreover have "length ?b \<le> length inp" by (rule length_dropWhile_le)
  ultimately show ?thesis by (cases inp) auto
qed

text \<open>
  The loop of \<open>http_parse_headers\<close>: a new node is linked in before its line is examined, and
  freed again when the line is malformed.
\<close>

function parse_headers_loop :: "HEADERS \<Rightarrow> char list \<Rightarrow> HEADERS \<times> char list" where
  "parse_headers_loop hs inp =
    (case getline inp of
       None \<Rightarrow> (hs, inp)
     | Some (ll, rest) \<Rightarrow>
        let l = chomp (strncpy_line ll)
        in if l = [] then (hs, rest)
           else (case parse_header (c_str l) of
                   None \<Rightarrow> parse_headers_loop (fst hs, Dangling) rest
                 | Some node \<Rightarrow> parse_headers_loop (fst hs @ [node], Null) rest))"
  by pat_completeness auto
termination by (relation "measure (\<lambda>(hs, inp). length inp)") (auto dest: getline_shorter)

declare parse_headers_loop.simps [simp del]

definition http_parse_headers :: "http option \<Rightarrow> HEADERS \<times> http option" where
  "http_parse_headers http =
    (case http of
       None \<Rightarrow> (([], Null), None)
     | Some h \<Rightarrow>
        let (hs, rest) = parse_headers_loop ([], Null) (f_in (h_file h))
        in (hs, Some (h\<lparr>h_file := (h_file h)\<lparr>f_in := rest\<rparr>\<rparr>)))"

section \<open>The response\<close>

text \<open>\<open>%d\<close> of \<open>sscanf\<close>: white space, an optional sign, digits.\<close>

definition scan_int :: "cstring \<Rightarrow> i32 option" where
  "scan_int s =
    (let t = dropWhile isspace s;
         ds = (if deref t = CHR ''-'' \<or> deref t = CHR ''+'' then drop 1 t else t);
         n = takeWhile is_digit ds
     in if n = [] then None else if deref t = CHR ''-'' then Some (atoi_minus n) else Some (atoi_digits n))"

text \<open>
  \<open>sscanf\<close> with the format \<open>HTTP/%3s %d\<close>: the version and the code, as far as they are
  assigned.
\<close>

definition scan_status :: "cstring \<Rightarrow> cstring option \<times> i32 option" where
  "scan_status s =
    (if take 5 s \<noteq> ''HTTP/'' then (None, None)
     else let t = dropWhile isspace (drop 5 s);
              v = take 3 (takeWhile (\<lambda>c. \<not> isspace c) t)
          in if v = [] then (None, None) else (Some v, scan_int (drop (length v) t)))"

definition http_response :: "http option \<Rightarrow> i32 \<times> http option" where
  "http_response http =
    (case http of
       None \<Rightarrow> (1, None)
     | Some h \<Rightarrow>
        if h_state h \<noteq> ST_HDRS then (1, http)
        else (case fprintf (h_file h) crlf of
                None \<Rightarrow> (1, http)
              | Some f \<Rightarrow>
                 (case fflush f of
                    None \<Rightarrow> (1, Some (h\<lparr>h_file := f\<rparr>))
                  | Some f \<Rightarrow>
                     (case getline (f_in f) of
                        None \<Rightarrow> (1, Some (h\<lparr>h_file := f, h_response := Some []\<rparr>))
                      | Some (line, rest) \<Rightarrow>
                         let response = c_str (chomp (strncpy_line line));
                             h = h\<lparr>h_file := f\<lparr>f_in := rest\<rparr>, h_response := Some response\<rparr>;
                             (v, c) = scan_status response;
                             h = (case v of None \<Rightarrow> h | Some w \<Rightarrow> h\<lparr>h_version := w\<rparr>)
                         in case c of
                              None \<Rightarrow> (1, Some h)
                            | Some n \<Rightarrow>
                               let (hs, h') = http_parse_headers (Some (h\<lparr>h_code := n\<rparr>))
                               in (0, map_option (\<lambda>h. h\<lparr>h_headers := hs, h_state := ST_BODY\<rparr>) h')))))"

text \<open>The response line, and the variable for the code after the call.\<close>

definition http_status :: "http option \<Rightarrow> i32 \<Rightarrow> cstring option \<times> i32" where
  "http_status http code =
    (case http of
       None \<Rightarrow> (None, code)
     | Some h \<Rightarrow> if h_state h \<noteq> ST_BODY then (None, code) else (h_response h, h_code h))"

text \<open>The next character of the document, or the end of the file.\<close>

definition http_getc :: "http option \<Rightarrow> char option \<times> http option" where
  "http_getc http =
    (case http of
       None \<Rightarrow> (None, None)
     | Some h \<Rightarrow>
        if h_state h \<noteq> ST_BODY then (None, http)
        else (case f_in (h_file h) of
                [] \<Rightarrow> (None, http)
              | c # cs \<Rightarrow> (Some c, Some (h\<lparr>h_file := (h_file h)\<lparr>f_in := cs\<rparr>\<rparr>))))"

section \<open>The header list\<close>

datatype memory_error = Use_After_Free

text \<open>Every node is read and freed once; a dangling link is read after its node was freed.\<close>

definition http_free_headers :: "HEADERS \<Rightarrow> memory_error + unit" where
  "http_free_headers hs = (case snd hs of Null \<Rightarrow> Inr () | Dangling \<Rightarrow> Inl Use_After_Free)"

fun lookup_loop :: "HDRNODE list \<Rightarrow> link \<Rightarrow> cstring \<Rightarrow> memory_error + HDRNODE option" where
  "lookup_loop [] Null key = Inr None"
| "lookup_loop [] Dangling key = Inl Use_After_Free"
| "lookup_loop (n # ns) e key = (if strcasecmp (h_key n) key = 0 then Inr (Some n) else lookup_loop ns e key)"

text \<open>
  The node whose value is returned; \<open>tempKeyParam\<close> is its key, and null when there is none.
\<close>

definition http_headers_lookup :: "http option \<Rightarrow> cstring option \<Rightarrow> memory_error + HDRNODE option" where
  "http_headers_lookup http key =
    (case (http, key) of
       (Some h, Some k) \<Rightarrow> lookup_loop (fst (h_headers h)) (snd (h_headers h)) k
     | _ \<Rightarrow> Inr None)"

text \<open>\<open>fclose\<close> fails when the stream is broken.\<close>

definition http_close :: "http option \<Rightarrow> memory_error + i32" where
  "http_close http =
    (case http of
       None \<Rightarrow> Inr (-1)
     | Some h \<Rightarrow>
        let err = (if f_writes (h_file h) = 0 then -1 else 0)
        in case http_free_headers (h_headers h) of Inl e \<Rightarrow> Inl e | Inr _ \<Rightarrow> Inr err)"

section \<open>The main program\<close>

text \<open>What was sent to the server, the error output, the document written, the exit code.\<close>

record snarf_run =
  r_sent :: "char list"
  r_stderr :: "char list"
  r_doc :: "char list"
  r_exit :: i32

text \<open>The loop over the words of the \<open>-q\<close> arguments.\<close>

fun query_loop :: "http option \<Rightarrow> cstring list \<Rightarrow> memory_error + (char list \<times> bool)" where
  "query_loop http [] = Inr ([], False)"
| "query_loop http (token # ts) =
    (case http_headers_lookup http (Some token) of
       Inl e \<Rightarrow> Inl e
     | Inr n \<Rightarrow>
        (case query_loop http ts of
           Inl e \<Rightarrow> Inl e
         | Inr (out, found) \<Rightarrow>
            (case n of
               None \<Rightarrow> Inr (out, found)
             | Some n \<Rightarrow> Inr (h_key n @ '': '' @ h_value n @ crlf @ out, True))))"

definition query_headers :: "http option \<Rightarrow> cstring option \<Rightarrow> memory_error + char list" where
  "query_headers http keyParam =
    (case keyParam of
       None \<Rightarrow> Inr []
     | Some kp \<Rightarrow>
        (case query_loop http (tokens kp) of
           Inl e \<Rightarrow> Inl e
         | Inr (out, keyParamFound) \<Rightarrow> Inr (out @ (if keyParamFound then crlf else []))))"

text \<open>\<open>while ((c = http_getc(http)) != EOF)\<close>.\<close>

function copy_document :: "http option \<Rightarrow> char list \<times> http option" where
  "copy_document http =
    (case http_getc http of
       (None, http') \<Rightarrow> ([], http')
     | (Some c, http') \<Rightarrow> let (cs, h) = copy_document http' in (c # cs, h))"
  by pat_completeness auto
termination
  by (relation "measure (\<lambda>h. case h of None \<Rightarrow> 0 | Some h \<Rightarrow> length (f_in (h_file h)))")
    (auto simp: http_getc_def split: option.splits if_splits list.splits)

declare copy_document.simps [simp del]

definition snarf_main ::
  "(cstring \<Rightarrow> u32 option) \<Rightarrow> network \<Rightarrow> (cstring \<Rightarrow> bool) \<Rightarrow> cstring option \<Rightarrow> cstring option \<Rightarrow>
   cstring option \<Rightarrow> cstring option \<Rightarrow> memory_error + snarf_run" where
  "snarf_main gethostbyname net fopen argv1 url_to_snarf keyParam output_file =
    (let code = -1;
         quit = (\<lambda>msg. Inr \<lparr>r_sent = [], r_stderr = msg, r_doc = [], r_exit = -1\<rparr>);
         illegal = ''Illegal URL: '' @ [CHR 0x27] @ show_str argv1 @ [CHR 0x27, CHR 0x0A]
     in case url_to_snarf of
          None \<Rightarrow> quit illegal
        | Some _ \<Rightarrow>
          (case url_parse url_to_snarf of
             None \<Rightarrow> quit illegal
           | Some u \<Rightarrow>
              let meth = url_method (Some u);
                  (addr, up) = url_address gethostbyname (Some u);
                  port = url_port up
              in if meth = None \<or> strcasecmp (the meth) ''http'' \<noteq> 0
                 then quit (''Only HTTP access method is supported'' @ [CHR 0x0A])
                 else
                  (case http_open net addr port of
                     None \<Rightarrow>
                       quit (''Unable to contact host '' @ [CHR 0x27]
                         @ (case url_hostname up of None \<Rightarrow> ''(NULL)'' | Some h \<Rightarrow> h)
                         @ [CHR 0x27] @ '', port '' @ show_int port @ [CHR 0x0A])
                   | Some h \<Rightarrow>
                      let (_, http) = http_request (Some h) up;
                          (_, http) = http_response http;
                          (status, code) = http_status http code;
                          sent = (case http_file http of None \<Rightarrow> [] | Some f \<Rightarrow> f_sent f)
                      in case query_headers http keyParam of
                           Inl e \<Rightarrow> Inl e
                         | Inr out \<Rightarrow>
                            if output_file \<noteq> None \<and> \<not> fopen (the output_file)
                            then (case http_close http of
                                    Inl e \<Rightarrow> Inl e
                                  | Inr _ \<Rightarrow> Inr \<lparr>r_sent = sent, r_stderr = out, r_doc = [], r_exit = -1\<rparr>)
                            else let (doc, http) = copy_document http
                                 in case http_close http of
                                      Inl e \<Rightarrow> Inl e
                                    | Inr _ \<Rightarrow> Inr \<lparr>r_sent = sent, r_stderr = out, r_doc = doc,
                                                r_exit = (if code = 200 then 0 else code)\<rparr>)))"

section \<open>Header lines of a response\<close>

text \<open>A line without NUL, carriage return and newline.\<close>

definition line_text :: "cstring \<Rightarrow> bool" where
  "line_text l \<longleftrightarrow> CHR 0x00 \<notin> set l \<and> CHR 0x0D \<notin> set l \<and> CHR 0x0A \<notin> set l"

definition lines_text :: "cstring list \<Rightarrow> char list" where
  "lines_text ls = concat (map (\<lambda>l. l @ crlf) ls)"

lemma getline_crlf: "line_text l \<Longrightarrow> getline (l @ crlf @ rest) = Some (l @ crlf, rest)"
  by (auto simp: getline_def line_text_def crlf_def takeWhile_append dropWhile_append)

lemma strncpy_line_id: "CHR 0x00 \<notin> set l \<Longrightarrow> strncpy_line l = l"
proof -
  assume "CHR 0x00 \<notin> set l"
  then have t: "takeWhile (\<lambda>c. c \<noteq> CHR 0x00) l = l" by (auto simp: takeWhile_eq_all_conv)
  show ?thesis unfolding strncpy_line_def Let_def t by simp
qed

lemma c_str_id: "CHR 0x00 \<notin> set l \<Longrightarrow> c_str l = l"
  by (auto simp: c_str_def takeWhile_eq_all_conv)

lemma chomp_line: "line_text l \<Longrightarrow> chomp (strncpy_line (l @ crlf)) = l"
proof -
  assume l: "line_text l"
  then have "strncpy_line (l @ crlf) = l @ crlf"
    by (intro strncpy_line_id) (auto simp: line_text_def crlf_def)
  moreover have "dropWhile is_crlf (rev l) = rev l"
    using l by (cases l rule: rev_cases) (auto simp: line_text_def is_crlf_def)
  ultimately show ?thesis by (simp add: chomp_def crlf_def is_crlf_def)
qed

text \<open>
  The header list after the lines of a response: the well-formed headers in order, and a
  dangling end exactly when the last line is malformed.
\<close>

lemma parse_headers_lines:
  assumes "list_all (\<lambda>l. line_text l \<and> l \<noteq> []) ls"
  shows "parse_headers_loop (ns, e) (lines_text ls @ crlf @ body) =
    ((ns @ List.map_filter parse_header ls,
      if ls = [] then e else if parse_header (last ls) = None then Dangling else Null), body)"
  using assms
proof (induction ls arbitrary: ns e)
  case Nil
  have "getline (crlf @ body) = Some (crlf, body)" "chomp (strncpy_line crlf) = []"
    using getline_crlf [of "[]" body] chomp_line [of "[]"] by (simp_all add: line_text_def)
  then show ?case
    by (subst parse_headers_loop.simps) (simp add: lines_text_def map_filter_simps)
next
  case (Cons l ls)
  have l: "line_text l" "l \<noteq> []" using Cons.prems by simp_all
  have "lines_text (l # ls) @ crlf @ body = l @ crlf @ lines_text ls @ crlf @ body"
    by (simp add: lines_text_def)
  moreover have "c_str l = l" using l by (intro c_str_id) (simp add: line_text_def)
  ultimately show ?case
    using getline_crlf [OF l(1), of "lines_text ls @ crlf @ body"] chomp_line [OF l(1)] l(2) Cons
    by (subst parse_headers_loop.simps) (auto simp: map_filter_simps split: option.splits)
qed

definition header_ok :: "HDRNODE \<Rightarrow> bool" where
  "header_ok n \<longleftrightarrow> line_text (h_key n) \<and> CHR '':'' \<notin> set (h_key n) \<and> deref (h_key n) \<noteq> CHR '' ''
     \<and> line_text (h_value n) \<and> deref (h_value n) \<noteq> CHR '' ''"

definition header_text :: "HDRNODE \<Rightarrow> cstring" where
  "header_text n = h_key n @ '': '' @ h_value n"

lemma dropWhile_head: "deref s \<noteq> c \<Longrightarrow> dropWhile (\<lambda>x. x = c) s = s"
  by (cases s) auto

lemma header_text_line: "header_ok n \<Longrightarrow> line_text (header_text n) \<and> header_text n \<noteq> []"
  by (auto simp: header_ok_def header_text_def line_text_def)

lemma parse_header_text: "header_ok n \<Longrightarrow> parse_header (header_text n) = Some n"
proof -
  assume n: "header_ok n"
  let ?s = "header_text n"
  have "deref ?s \<noteq> CHR '' ''"
    using n by (cases "h_key n") (auto simp: header_ok_def header_text_def)
  then have sp: "dropWhile (\<lambda>c. c = CHR '' '') ?s = ?s" by (rule dropWhile_head)
  have "dropWhile (\<lambda>c. c \<noteq> CHR '':'') ?s = '': '' @ h_value n"
    "takeWhile (\<lambda>c. c \<noteq> CHR '':'') ?s = h_key n"
    using n by (auto simp: header_ok_def header_text_def takeWhile_append dropWhile_append)
  moreover have "dropWhile (\<lambda>c. c = CHR '' '') (h_value n) = h_value n"
    using n by (intro dropWhile_head) (simp add: header_ok_def)
  ultimately show ?thesis by (simp add: parse_header_def sp)
qed

lemma map_filter_headers:
  "list_all header_ok ns \<Longrightarrow> List.map_filter parse_header (map header_text ns) = ns"
  by (induction ns) (simp_all add: map_filter_simps parse_header_text)

lemma lookup_loop_find:
  assumes "list_all header_ok ns" "CHR 0x00 \<notin> set k"
  shows "lookup_loop ns Null k = Inr (find (\<lambda>n. map to_lower (h_key n) = map to_lower k) ns)"
  using assms by (induction ns) (auto simp: strcasecmp_0 header_ok_def line_text_def)

section \<open>Requests and responses\<close>

definition version_ok :: "cstring \<Rightarrow> bool" where
  "version_ok v \<longleftrightarrow> v \<noteq> [] \<and> length v \<le> 3 \<and> line_text v \<and> list_all (\<lambda>c. \<not> isspace c) v"

definition status_text :: "cstring \<Rightarrow> nat \<Rightarrow> cstring \<Rightarrow> cstring" where
  "status_text v code reason = ''HTTP/'' @ v @ '' '' @ show_nat code @ '' '' @ reason"

definition response_text :: "cstring \<Rightarrow> nat \<Rightarrow> cstring \<Rightarrow> cstring list \<Rightarrow> char list \<Rightarrow> char list" where
  "response_text v code reason ls body =
     status_text v code reason @ crlf @ lines_text ls @ crlf @ body"

lemma scan_int_show:
  assumes "n < 2 ^ 31"
  shows "scan_int (CHR '' '' # show_nat n @ CHR '' '' # r) = Some (of_nat n)"
proof -
  obtain d ds where d: "show_nat n = d # ds" by (cases "show_nat n") auto
  have dg: "is_digit d" using show_nat_digits [of n] by (simp add: d)
  have "isspace (CHR '' '')" by (simp add: isspace_def)
  then have "dropWhile isspace (CHR '' '' # show_nat n @ CHR '' '' # r) = show_nat n @ CHR '' '' # r"
    using digit_not_space [OF dg] by (simp add: d)
  moreover have "takeWhile is_digit (show_nat n @ CHR '' '' # r) = show_nat n"
    using takeWhile_digits [OF show_nat_digits] by (simp add: not_digit)
  moreover have "deref (show_nat n @ CHR '' '' # r) = d" by (simp add: d)
  ultimately show ?thesis
    using digit_not_sign [OF dg] atoi_show [OF assms] by (simp add: scan_int_def)
qed

lemma scan_status_text:
  assumes "version_ok v" "n < 2 ^ 31"
  shows "scan_status (status_text v n r) = (Some v, Some (of_nat n))"
proof -
  have v: "v \<noteq> []" "length v \<le> 3" "list_all (\<lambda>c. \<not> isspace c) v" using assms(1) by (simp_all add: version_ok_def)
  let ?t = "v @ CHR '' '' # show_nat n @ CHR '' '' # r"
  have "dropWhile isspace ?t = ?t" using v(1,3) by (cases v) simp_all
  moreover have "takeWhile (\<lambda>c. \<not> isspace c) ?t = v"
    using v(3) by (induction v) (simp_all add: isspace_def)
  ultimately show ?thesis
    using v scan_int_show [OF assms(2)] by (simp add: scan_status_def status_text_def)
qed

lemma status_text_line: "version_ok v \<Longrightarrow> line_text r \<Longrightarrow> line_text (status_text v n r)"
proof -
  assume "version_ok v" "line_text r"
  moreover have "line_text (show_nat n)"
    using show_nat_digits [of n] by (auto simp: line_text_def list_all_iff is_digit_def ord_def)
  ultimately show ?thesis by (auto simp: line_text_def status_text_def version_ok_def)
qed

lemma http_request_sends:
  assumes "h_state h = ST_REQ" "0 < f_writes (h_file h)"
  shows "http_request (Some h) (Some u) =
    (0, Some (h\<lparr>h_file := (h_file h)\<lparr>f_sent := f_sent (h_file h) @ request_text (Some u),
       f_writes := f_writes (h_file h) - 1\<rparr>, h_state := ST_HDRS\<rparr>))"
  using assms by (simp add: http_request_def fprintf_def)

lemma http_response_reads:
  assumes "h_state h = ST_HDRS" "1 < f_writes (h_file h)"
    and "f_in (h_file h) = response_text v n r ls body"
    and "version_ok v" "n < 2 ^ 31" "line_text r" "list_all (\<lambda>l. line_text l \<and> l \<noteq> []) ls"
  shows "http_response (Some h) =
    (0, Some (h\<lparr>h_file := \<lparr>f_sent = f_sent (h_file h) @ crlf, f_in = body, f_writes = f_writes (h_file h) - 2\<rparr>,
      h_state := ST_BODY, h_code := of_nat n, h_version := v, h_response := Some (status_text v n r),
      h_headers := (List.map_filter parse_header ls,
        if ls \<noteq> [] \<and> parse_header (last ls) = None then Dangling else Null)\<rparr>))"
proof -
  have st: "line_text (status_text v n r)" by (rule status_text_line [OF assms(4,6)])
  have g: "getline (response_text v n r ls body) =
      Some (status_text v n r @ crlf, lines_text ls @ crlf @ body)"
    unfolding response_text_def by (rule getline_crlf [OF st])
  have c: "c_str (chomp (strncpy_line (status_text v n r @ crlf))) = status_text v n r"
    using chomp_line [OF st] st by (simp add: c_str_id line_text_def)
  show ?thesis
    using assms(1,2,3)
    by (simp add: http_response_def fprintf_def fflush_def g c scan_status_text [OF assms(4,5)]
        http_parse_headers_def parse_headers_lines [OF assms(7)])
qed

lemma copy_document_all:
  "h_state h = ST_BODY \<Longrightarrow>
   copy_document (Some h) = (f_in (h_file h), Some (h\<lparr>h_file := (h_file h)\<lparr>f_in := []\<rparr>\<rparr>))"
proof (induction "f_in (h_file h)" arbitrary: h)
  case Nil
  then show ?case by (subst copy_document.simps) (simp add: http_getc_def)
next
  case (Cons c cs)
  have "copy_document (Some (h\<lparr>h_file := (h_file h)\<lparr>f_in := cs\<rparr>\<rparr>)) =
      (cs, Some (h\<lparr>h_file := (h_file h)\<lparr>f_in := []\<rparr>\<rparr>))"
    using Cons.hyps(1) [of "h\<lparr>h_file := (h_file h)\<lparr>f_in := cs\<rparr>\<rparr>"] Cons.prems by simp
  then show ?case
    using Cons.hyps(2) [symmetric] Cons.prems by (subst copy_document.simps) (simp add: http_getc_def)
qed

section \<open>Runs of the program\<close>

text \<open>The port of a URL of the \<open>http\<close> method.\<close>

definition http_port :: "nat option \<Rightarrow> nat" where
  "http_port port = (case port of None \<Rightarrow> 80 | Some n \<Rightarrow> n)"

text \<open>
  A run in which the URL is absolute, its method is \<open>http\<close>, the name service knows the host,
  and the server accepts the connection and answers with a response line, header lines and a
  document.
\<close>

definition served ::
  "(cstring \<Rightarrow> u32 option) \<Rightarrow> network \<Rightarrow> cstring \<Rightarrow> cstring \<Rightarrow> nat option \<Rightarrow> cstring \<Rightarrow>
   cstring \<Rightarrow> nat \<Rightarrow> cstring \<Rightarrow> cstring list \<Rightarrow> char list \<Rightarrow> bool" where
  "served gethostbyname net meth host port path v code reason ls body \<longleftrightarrow>
     url_name meth \<and> map to_lower meth = ''http'' \<and> url_name host \<and> host \<noteq> [] \<and> url_abs_path path
     \<and> http_port port < 2 ^ 31 \<and> version_ok v \<and> code < 2 ^ 31 \<and> line_text reason
     \<and> list_all (\<lambda>l. line_text l \<and> l \<noteq> []) ls
     \<and> (case gethostbyname host of
          None \<Rightarrow> False
        | Some a \<Rightarrow>
           (case net a (of_nat (http_port port)) of
              None \<Rightarrow> False
            | Some f \<Rightarrow> f_sent f = [] \<and> 2 < f_writes f \<and> f_in f = response_text v code reason ls body))"

definition sent_text :: "cstring \<Rightarrow> cstring \<Rightarrow> nat option \<Rightarrow> cstring \<Rightarrow> char list" where
  "sent_text meth host port path =
     ''GET '' @ url_text meth host (Some (http_port port)) (if path = [] then ''/'' else path)
     @ '' HTTP/1.0'' @ crlf @ ''Host: '' @ host @ crlf @ crlf"

lemma ucast_of_nat_16: "ucast (of_nat n :: i32) = (of_nat n :: 16 word)"
  by (rule bit_word_eqI) (auto simp: bit_simps)

lemma http_method:
  assumes "url_name meth" "map to_lower meth = ''http''"
  shows "strcasecmp meth ''http'' = 0"
  using strcasecmp_0 [of meth "''http''"] url_nameD [OF assms(1)] assms(2)
  by (simp add: to_lower_def ord_def)

lemma url_resolved:
  assumes "url_name meth" "map to_lower meth = ''http''" "url_name host" "host \<noteq> []" "url_abs_path path"
    "http_port port < 2 ^ 31" "dns host = Some a"
  obtains u w where "url_parse (Some (url_text meth host port path)) = Some u"
    "url_method (Some u) = Some meth" "url_address dns (Some u) = (Some a, Some w)"
    "url_port (Some w) = of_nat (http_port port)" "request_text (Some w) @ crlf = sent_text meth host port path"
proof -
  let ?u = "\<lparr>u_stuff = (url_text meth host port path)[length meth := CHR 0x00], u_method = Some meth,
      u_hostname = Some host, u_port = of_nat (http_port port),
      u_path = Some (if path = [] then ''/'' else path), u_dnsdone = False, u_addr = 0\<rparr>"
  let ?w = "?u\<lparr>u_dnsdone := True, u_addr := a\<rparr>"
  have "url_parse (Some (url_text meth host port path)) = Some ?u"
    using url_parse_text [OF assms(1,3,5), of port] assms(6) http_method [OF assms(1,2)]
    by (auto simp: http_port_def split: option.splits)
  moreover have "url_address dns (Some ?u) = (Some a, Some ?w)"
    using assms(4,7) url_nameD [OF assms(3)] by (cases host) (auto simp: url_address_def)
  moreover have "request_text (Some ?w) @ crlf = sent_text meth host port path"
    using show_int_of_nat [OF assms(6)]
    by (simp add: request_text_def url_accessors sent_text_def url_text_def show_str_def)
  ultimately show thesis by (intro that) (simp_all add: url_accessors)
qed

text \<open>The rest of a run once the response is there.\<close>

definition outcome ::
  "char list \<Rightarrow> nat \<Rightarrow> char list \<Rightarrow> http option \<Rightarrow> cstring option \<Rightarrow> bool \<Rightarrow> memory_error + snarf_run" where
  "outcome sent code body http keyParam opened =
    (case query_headers http keyParam of
       Inl e \<Rightarrow> Inl e
     | Inr out \<Rightarrow>
        (case http_close http of
           Inl e \<Rightarrow> Inl e
         | Inr _ \<Rightarrow> Inr \<lparr>r_sent = sent, r_stderr = out, r_doc = (if opened then body else []),
                     r_exit = (if opened then if code = 200 then 0 else of_nat code else -1)\<rparr>))"

lemma of_nat_i32_eq: "m < 2 ^ 32 \<Longrightarrow> n < 2 ^ 32 \<Longrightarrow> of_nat m = (of_nat n :: i32) \<longleftrightarrow> m = n"
  by (simp add: word_of_nat_eq_iff take_bit_nat_eq_self)

lemma snarf_main_served:
  assumes "served dns net meth host port path v code reason ls body"
  obtains h where
    "snarf_main dns net fopen argv1 (Some (url_text meth host port path)) keyParam output_file =
      outcome (sent_text meth host port path) code body (Some h) keyParam
        (case output_file of None \<Rightarrow> True | Some fn \<Rightarrow> fopen fn)"
    "h_headers h = (List.map_filter parse_header ls,
        if ls \<noteq> [] \<and> parse_header (last ls) = None then Dangling else Null)"
proof -
  obtain a f where s: "url_name meth" "map to_lower meth = ''http''" "url_name host" "host \<noteq> []"
      "url_abs_path path" "http_port port < 2 ^ 31" "version_ok v" "code < 2 ^ 31" "line_text reason"
      "list_all (\<lambda>l. line_text l \<and> l \<noteq> []) ls" "dns host = Some a"
      "net a (of_nat (http_port port)) = Some f" "f_sent f = []" "2 < f_writes f"
      "f_in f = response_text v code reason ls body"
    using assms by (auto simp: served_def split: option.splits)
  have m: "strcasecmp meth ''http'' = 0" by (rule http_method [OF s(1,2)])
  obtain u w where u: "url_parse (Some (url_text meth host port path)) = Some u"
    "url_method (Some u) = Some meth" "url_address dns (Some u) = (Some a, Some w)"
    "url_port (Some w) = of_nat (http_port port)" "request_text (Some w) @ crlf = sent_text meth host port path"
    by (rule url_resolved [where dns = dns, OF s(1-6,11)])
  obtain h0 where op: "http_open net (Some a) (of_nat (http_port port)) = Some h0"
    "h_file h0 = f" "h_state h0 = ST_REQ"
    by (simp add: http_open_def ucast_of_nat_16 s(12))
  obtain h1 where r1: "http_request (Some h0) (Some w) = (0, Some h1)"
    "h_state h1 = ST_HDRS" "f_in (h_file h1) = f_in f" "1 < f_writes (h_file h1)"
    "f_sent (h_file h1) = request_text (Some w)"
    using http_request_sends [of h0 w] op(2,3) s(13,14) by simp
  obtain h where r2: "http_response (Some h1) = (0, Some h)" "h_state h = ST_BODY" "f_in (h_file h) = body"
    "h_code h = of_nat code" "f_sent (h_file h) = f_sent (h_file h1) @ crlf"
    "h_headers h = (List.map_filter parse_header ls,
        if ls \<noteq> [] \<and> parse_header (last ls) = None then Dangling else Null)"
    using http_response_reads [OF r1(2,4) _ s(7,8,9,10)] r1(3) s(15) by simp
  have cl: "http_close (Some (h\<lparr>h_file := (h_file h)\<lparr>f_in := []\<rparr>\<rparr>)) = http_close (Some h)"
    by (simp add: http_close_def)
  have code: "of_nat code = (200 :: i32) \<longleftrightarrow> code = 200" using of_nat_i32_eq [of code 200] s(8) by simp
  show thesis
    using r2(6) by (rule that [of h, rotated])
      (auto simp: snarf_main_def u op m Let_def r1 r2 http_status_def http_file_def
          copy_document_all cl outcome_def code split: sum.splits option.splits)
qed

text \<open>
  What the \<open>-q\<close> words select: for each word the first header whose name it is up to case, and
  an empty line when there was one.
\<close>

definition selected :: "HDRNODE list \<Rightarrow> cstring \<Rightarrow> char list" where
  "selected hs t =
    (case find (\<lambda>n. map to_lower (h_key n) = map to_lower t) hs of None \<Rightarrow> [] | Some n \<Rightarrow> header_text n @ crlf)"

definition query_answer :: "HDRNODE list \<Rightarrow> cstring option \<Rightarrow> char list" where
  "query_answer hs keyParam =
    (case keyParam of
       None \<Rightarrow> []
     | Some kp \<Rightarrow>
        let out = concat (map (selected hs) (tokens kp)) in out @ (if out = [] then [] else crlf))"

lemma strtok_subset:
  assumes "strtok ds s = (Some t, r)"
  shows "set t \<subseteq> set s" "set r \<subseteq> set s"
proof -
  let ?s = "dropWhile (\<lambda>c. c \<in> set ds) s"
  have "t = takeWhile (\<lambda>c. c \<notin> set ds) ?s" "r = drop 1 (dropWhile (\<lambda>c. c \<notin> set ds) ?s)"
    using assms by (auto simp: strtok_def Let_def split: if_splits)
  then have "set t \<subseteq> set ?s" "set r \<subseteq> set ?s"
    by (auto dest!: set_takeWhileD in_set_dropD set_dropWhileD)
  moreover have "set ?s \<subseteq> set s" by (auto dest!: set_dropWhileD)
  ultimately show "set t \<subseteq> set s" "set r \<subseteq> set s" by blast+
qed

lemma tokens_subset: "t \<in> set (tokens s) \<Longrightarrow> set t \<subseteq> set s"
proof (induction s rule: tokens.induct)
  case (1 s)
  show ?case
  proof (cases "strtok '' '' s")
    case (Pair a r)
    with 1(2) obtain w where w: "a = Some w" "t = w \<or> t \<in> set (tokens r)"
      by (subst (asm) tokens.simps) (auto split: option.splits)
    then have p: "strtok '' '' s = (Some w, r)" using Pair by simp
    show ?thesis using w(2) strtok_subset [OF p] 1(1) [OF p [symmetric] refl] by blast
  qed
qed

lemma query_loop_selected:
  assumes "h_headers h = (hs, Null)" "list_all header_ok hs" "list_all (\<lambda>t. CHR 0x00 \<notin> set t) ts"
  shows "query_loop (Some h) ts =
    Inr (concat (map (selected hs) ts), concat (map (selected hs) ts) \<noteq> [])"
  using assms(3)
proof (induction ts)
  case (Cons t ts)
  then have "http_headers_lookup (Some h) (Some t) = Inr (find (\<lambda>n. map to_lower (h_key n) = map to_lower t) hs)"
    using assms(1) lookup_loop_find [OF assms(2)] by (simp add: http_headers_lookup_def)
  with Cons show ?case by (auto simp: selected_def header_text_def split: option.splits)
qed simp

lemma query_headers_answer:
  assumes "h_headers h = (hs, Null)" "list_all header_ok hs"
    "case keyParam of None \<Rightarrow> True | Some kp \<Rightarrow> CHR 0x00 \<notin> set kp"
  shows "query_headers (Some h) keyParam = Inr (query_answer hs keyParam)"
proof (cases keyParam)
  case (Some kp)
  have "list_all (\<lambda>t. CHR 0x00 \<notin> set t) (tokens kp)"
    using assms(3) Some tokens_subset by (fastforce simp: list_all_iff)
  from query_loop_selected [OF assms(1,2) this] show ?thesis
    using Some by (simp add: query_headers_def query_answer_def Let_def)
qed (simp add: query_headers_def query_answer_def)


text \<open>A server that answers every request with the given header lines and a short document.\<close>

definition demo_net :: "cstring list \<Rightarrow> network" where
  "demo_net ls = (\<lambda>a p. if p = 80
     then Some \<lparr>f_sent = [], f_in = response_text ''1.0'' 404 ''Gone'' ls ''doc'', f_writes = 3\<rparr> else None)"

definition demo_header :: HDRNODE where
  "demo_header = \<lparr>h_key = ''Date'', h_value = ''now''\<rparr>"

lemma to_lower_demo: "to_lower (CHR ''H'') = CHR ''h''" "to_lower (CHR ''D'') = CHR ''d''"
  by code_simp+

lemma to_lower_small: "ord c > 90 \<Longrightarrow> to_lower c = c"
  by (simp add: to_lower_def)

lemma demo_served:
  "list_all (\<lambda>l. line_text l \<and> l \<noteq> []) ls \<Longrightarrow>
   served (\<lambda>_. Some 7) (demo_net ls) ''Http'' ''host'' None [] ''1.0'' 404 ''Gone'' ls ''doc''"
  by (simp add: served_def demo_net_def url_name_def host_end_def to_lower_demo to_lower_small ord_def url_abs_path_def
      http_port_def version_ok_def line_text_def isspace_def)


text \<open>
  A malformed last header. In a run of the program without \<open>-q\<close>, up to a response whose
  header lines are arbitrary, freed memory is used exactly when the last header line is
  malformed (it has no colon, or no space after the colon): the node of such a line is freed
  while the list still points to it, and closing the connection walks the list.
\<close>

theorem malformed_last_header:
  assumes "served gethostbyname net meth host port path v code reason ls body"
  shows "snarf_main gethostbyname net fopen argv1 (Some (url_text meth host port path)) None output_file =
      Inl Use_After_Free \<longleftrightarrow> ls \<noteq> [] \<and> parse_header (last ls) = None"
proof -
  obtain h where h:
    "snarf_main gethostbyname net fopen argv1 (Some (url_text meth host port path)) None output_file =
      outcome (sent_text meth host port path) code body (Some h) None
        (case output_file of None \<Rightarrow> True | Some fn \<Rightarrow> fopen fn)"
    "h_headers h = (List.map_filter parse_header ls,
        if ls \<noteq> [] \<and> parse_header (last ls) = None then Dangling else Null)"
    by (rule snarf_main_served [OF assms])
  then show ?thesis
    by (simp add: outcome_def query_headers_def http_close_def http_free_headers_def)
qed

theorem malformed_last_header_witness:
  "snarf_main (\<lambda>_. Some 7) (demo_net [''Date: now'', ''Location:/x'']) (\<lambda>_. True) None
     (Some (url_text ''Http'' ''host'' None [])) None None = Inl Use_After_Free"
proof -
  have l: "list_all (\<lambda>l. line_text l \<and> l \<noteq> []) [''Date: now'', ''Location:/x'']" by (simp add: line_text_def)
  show ?thesis
    using malformed_last_header [OF demo_served [OF l], where fopen = "\<lambda>_. True" and ?argv1.0 = None and output_file = None]
    by (simp add: parse_header_def)
qed

end
