(* ===== verification/Sf_Malloc.thy ===== *)
theory Sf_Malloc
  imports C_Prelude
begin

text \<open>
  The allocator \<open>sfmm/src/sfmm.c\<close> over an explicit memory. An address is an integer and the memory
  gives the 64-bit word at an address; every access of the allocator is to a whole word that is
  aligned like the start of the heap (a client that passes a misaligned pointer is outside the
  model), so that two accesses are to the same word or to disjoint ones. The null pointer is 0. A
  \<open>sf_header\<close> at \<open>h\<close> has its information word at \<open>h\<close>, \<open>links.next\<close> at \<open>h + 8\<close> and \<open>links.prev\<close> at \<open>h + 16\<close>;
  a \<open>sf_free_list_node\<close> at \<open>n\<close> has \<open>size\<close> at \<open>n\<close>, \<open>head\<close> at \<open>n + 8\<close>, \<open>next\<close> at \<open>n + 32\<close> and \<open>prev\<close> at \<open>n + 40\<close>.
  Block sizes are below \<open>2 ^ 31\<close>, so that \<open>block_size << 4\<close> does not overflow.

  The functions of \<open>sfutil.o\<close>, whose source is not part of the program, are parameters:
  \<open>grow\<close> (\<open>sf_mem_grow\<close>) and \<open>addfl\<close> (\<open>sf_add_free_list\<close>), each with its result and the new state; the
  field \<open>sf_util\<close> is for their own state. \<open>sf_cursor\<close> is the address of a local variable of \<open>sf_malloc\<close>.
  A loop that need not end gives an option.
\<close>

section \<open>Block information\<close>

record sf_block_info =
  allocated :: int
  prev_allocated :: int
  two_zeroes :: int
  block_size :: int
  requested_size :: int

definition decode_info :: "int \<Rightarrow> sf_block_info" where
  "decode_info w = \<lparr>allocated = w mod 2, prev_allocated = w div 2 mod 2, two_zeroes = w div 4 mod 4,
     block_size = w div 16 mod 2 ^ 28, requested_size = w div 2 ^ 32 mod 2 ^ 32\<rparr>"

definition encode_info :: "sf_block_info \<Rightarrow> int" where
  "encode_info i = allocated i mod 2 + 2 * (prev_allocated i mod 2) + 4 * (two_zeroes i mod 4)
     + 16 * (block_size i mod 2 ^ 28) + 2 ^ 32 * (requested_size i mod 2 ^ 32)"

section \<open>State\<close>

record sfmm =
  sf_mem :: "int \<Rightarrow> int"
  sf_mem_start :: int
  sf_mem_end :: int
  sf_free_list_head :: int
  sf_cursor :: int
  sf_errno :: int
  sf_util :: int

type_synonym grow = "sfmm \<Rightarrow> int \<times> sfmm"
type_synonym add_free_list = "int \<Rightarrow> int \<Rightarrow> sfmm \<Rightarrow> int \<times> sfmm"

definition ENOMEM :: int where "ENOMEM = 12"
definition EINVAL :: int where "EINVAL = 22"
definition PAGE_SZ :: int where "PAGE_SZ = 4096"

definition store :: "int \<Rightarrow> int \<Rightarrow> sfmm \<Rightarrow> sfmm" where
  "store a v s = s\<lparr>sf_mem := (sf_mem s)(a := v)\<rparr>"

definition info :: "int \<Rightarrow> sfmm \<Rightarrow> sf_block_info" where
  "info a s = decode_info (sf_mem s a)"

definition set_info :: "(sf_block_info \<Rightarrow> sf_block_info) \<Rightarrow> int \<Rightarrow> sfmm \<Rightarrow> sfmm" where
  "set_info f a s = store a (encode_info (f (info a s))) s"

text \<open>\<open>info.block_size << 4\<close>\<close>

definition bytes :: "int \<Rightarrow> sfmm \<Rightarrow> int" where
  "bytes a s = block_size (info a s) * 16"

definition links_next :: "int \<Rightarrow> sfmm \<Rightarrow> int" where
  "links_next h s = sf_mem s (h + 8)"

definition links_prev :: "int \<Rightarrow> sfmm \<Rightarrow> int" where
  "links_prev h s = sf_mem s (h + 16)"

definition fl_size :: "int \<Rightarrow> sfmm \<Rightarrow> int" where
  "fl_size n s = sf_mem s n"

definition fl_head :: "int \<Rightarrow> int" where
  "fl_head n = n + 8"

definition fl_next :: "int \<Rightarrow> sfmm \<Rightarrow> int" where
  "fl_next n s = sf_mem s (n + 32)"

definition fl_prev :: "int \<Rightarrow> sfmm \<Rightarrow> int" where
  "fl_prev n s = sf_mem s (n + 40)"

text \<open>\<open>memset(a, 0, 24)\<close>, the size of a \<open>sf_header\<close>\<close>

definition zero_header :: "int \<Rightarrow> sfmm \<Rightarrow> sfmm" where
  "zero_header a s = store (a + 16) 0 (store (a + 8) 0 (store a 0 s))"

text \<open>A block is taken out of its free list.\<close>

definition unlink :: "int \<Rightarrow> sfmm \<Rightarrow> sfmm" where
  "unlink h s =
    (let s = store (links_prev h s + 8) (links_next h s) s
     in store (links_next h s + 16) (links_prev h s) s)"

text \<open>The only block of the free list of a node.\<close>

definition link_single :: "int \<Rightarrow> int \<Rightarrow> sfmm \<Rightarrow> sfmm" where
  "link_single n h s =
    store (h + 8) (fl_head n) (store (h + 16) (fl_head n) (store (fl_head n + 16) h (store (fl_head n + 8) h s)))"

text \<open>A block becomes the first of the free list of a node.\<close>

definition link_first :: "int \<Rightarrow> int \<Rightarrow> sfmm \<Rightarrow> sfmm" where
  "link_first n h s =
    (let s = store (h + 8) (links_next (fl_head n) s) s;
         s = store (h + 16) (fl_head n) s;
         s = store (links_next (fl_head n) s + 16) h s
     in store (fl_head n + 8) h s)"

text \<open>The same with \<open>head.links.prev\<close> in place of \<open>head.links.next\<close> as the successor of the new block.\<close>

definition link_last :: "int \<Rightarrow> int \<Rightarrow> sfmm \<Rightarrow> sfmm" where
  "link_last n h s =
    (let s = store (h + 16) (fl_head n) s;
         s = store (h + 8) (links_prev (fl_head n) s) s;
         s = store (links_next (fl_head n) s + 16) h s
     in store (fl_head n + 8) h s)"

section \<open>Sizes and the first page\<close>

definition padding :: "int \<Rightarrow> int" where
  "padding req =
    (let temp_size = (req + 8) mod 2 ^ 64
     in if temp_size < 32 then 32
        else if temp_size mod 16 = 0 then temp_size
        else (temp_size + (16 - temp_size mod 16)) mod 2 ^ 64)"

text \<open>
  The prologue header is built in the padding word at the start of the heap and then copied to
  its place, by an assignment between overlapping structures; here the three words are read first.
\<close>

definition init_prologue :: "sfmm \<Rightarrow> sfmm" where
  "init_prologue s =
    (let a = sf_mem_start s;
         s = store (a + 32) 0 (store (a + 24) 0 (zero_header a s));
         s = set_info (\<lambda>i. i\<lparr>allocated := 1\<rparr>) a (zero_header a s);
         (x, y, z) = (sf_mem s a, sf_mem s (a + 8), sf_mem s (a + 16));
         s = store (a + 24) z (store (a + 16) y (store (a + 8) x s))
     in set_info (\<lambda>i. i\<lparr>allocated := 1\<rparr>) (a + 32) (store (a + 32) 0 s))"

definition init_mem :: "grow \<Rightarrow> add_free_list \<Rightarrow> sfmm \<Rightarrow> bool \<times> sfmm" where
  "init_mem grow addfl s =
    (let (p, s) = grow s
     in if p = 0 then (False, s)
        else
          let s = init_prologue s;
              s = set_info (\<lambda>i. i\<lparr>allocated := 1\<rparr>) (sf_mem_end s - 8) (store (sf_mem_end s - 8) 0 s);
              free_block_size = PAGE_SZ - 40 - 8;
              h = sf_mem_start s + 40;
              s = set_info (\<lambda>i. i\<lparr>block_size := free_block_size div 16\<rparr>) h (zero_header h s);
              f = sf_mem_end s - 8 - 8;
              s = set_info (\<lambda>i. i\<lparr>block_size := free_block_size div 16\<rparr>) f (store f 0 s);
              (n, s) = addfl free_block_size (fl_next (sf_free_list_head s) s) s
          in if n = 0 then (False, s)
             else (True, link_single n h (set_info (\<lambda>i. i\<lparr>block_size := free_block_size div 16\<rparr>) (fl_head n) s)))"

text \<open>The value of a \<open>size_t\<close> that is returned as an \<open>int\<close> and stored in a \<open>size_t\<close> again.\<close>

definition through_int :: "int \<Rightarrow> int" where
  "through_int x = ((x + 2 ^ 31) mod 2 ^ 32 - 2 ^ 31) mod 2 ^ 64"

partial_function (option) exact_size :: "grow \<Rightarrow> int \<Rightarrow> int \<Rightarrow> sfmm \<Rightarrow> (int \<times> sfmm) option" where
  "exact_size grow req padd_size s =
    (if req < padd_size then
       (let (p, s) = grow s
        in if p = 0 then Some (-1, s\<lparr>sf_errno := ENOMEM\<rparr>)
           else exact_size grow ((req + (sf_mem_end s - p)) mod 2 ^ 64) padd_size s)
     else Some (req, s))"

section \<open>sf_malloc\<close>

text \<open>The first block of a free list of exactly the right size.\<close>

definition take_exact :: "int \<Rightarrow> int \<Rightarrow> int \<Rightarrow> sfmm \<Rightarrow> int \<times> sfmm" where
  "take_exact n req padd_size s =
    (let s = (if links_next (fl_head n) s \<noteq> links_prev (fl_head n) s
              then set_info (\<lambda>i. i\<lparr>prev_allocated := 1\<rparr>) (links_next (links_next (fl_head n) s) s) s
              else set_info (\<lambda>i. i\<lparr>prev_allocated := 1\<rparr>) (sf_mem_end s - 8) s);
         h = links_next (fl_head n) s;
         s = set_info (\<lambda>i. i\<lparr>requested_size := req, block_size := padd_size div 16, allocated := 1\<rparr>) h s
     in (h + 8, unlink h s))"

definition empty_list :: "int \<Rightarrow> sfmm \<Rightarrow> bool" where
  "empty_list n s \<longleftrightarrow> links_next (fl_head n) s = fl_head n \<and> links_prev (fl_head n) s = fl_head n"

text \<open>
  The loop over the free lists: \<open>Inl\<close> is the pointer that is returned, \<open>Inr\<close> the smallest larger
  list that is not empty, or 0.
\<close>

partial_function (option) search :: "int \<Rightarrow> int \<Rightarrow> int \<Rightarrow> int \<Rightarrow> sfmm \<Rightarrow> (int \<times> sfmm + int \<times> sfmm) option" where
  "search req padd_size cursor successor s =
    (if fl_size cursor s = 0 then Some (Inr (successor, s))
     else if fl_size cursor s = padd_size then
       (if empty_list cursor s then
          (let s = store (fl_head cursor + 16) (fl_head cursor) (store (fl_head cursor + 8) (fl_head cursor) s)
           in search req padd_size (fl_next cursor s) successor s)
        else Some (Inl (take_exact cursor req padd_size s)))
     else if fl_size cursor s > padd_size then
       search req padd_size (fl_next cursor s)
         (if empty_list cursor s then successor
          else if successor = 0 then cursor
          else if fl_size successor s > fl_size cursor s then cursor else successor) s
     else search req padd_size (fl_next cursor s) successor s)"

text \<open>The list of a given size, from a cursor on, or the head of the list of lists.\<close>

partial_function (option) find_list :: "int \<Rightarrow> int \<Rightarrow> sfmm \<Rightarrow> int option" where
  "find_list sz cursor s =
    (if fl_size cursor s = 0 then Some cursor
     else if fl_size cursor s = sz then Some cursor
     else find_list sz (fl_next cursor s) s)"

text \<open>The list before the first larger one, or the last list.\<close>

partial_function (option) find_place :: "int \<Rightarrow> int \<Rightarrow> int \<Rightarrow> sfmm \<Rightarrow> int option" where
  "find_place sz cursor successor s =
    (if fl_size cursor s = 0 then Some successor
     else if fl_size cursor s > sz \<and> successor = fl_prev (sf_free_list_head s) s then Some (fl_prev cursor s)
     else find_place sz (fl_next cursor s) successor s)"

text \<open>A free list node is copied to a local variable.\<close>

definition copy_node :: "int \<Rightarrow> int \<Rightarrow> sfmm \<Rightarrow> sfmm" where
  "copy_node d n s = foldl (\<lambda>t k. store (d + k) (sf_mem s (n + k)) t) s [0, 8, 16, 24, 32, 40]"

text \<open>The header of the new block, its footer and the new epilogue at the end of the heap.\<close>

definition claim_block :: "int \<Rightarrow> int \<Rightarrow> int \<Rightarrow> sfmm \<Rightarrow> sfmm" where
  "claim_block new_header new_size req s =
    (let s = set_info (\<lambda>i. i\<lparr>requested_size := req, block_size := new_size div 16, allocated := 1, prev_allocated := 1\<rparr>)
               new_header (zero_header new_header s);
         e = sf_mem_end s;
         s = set_info (\<lambda>i. i\<lparr>block_size := new_size div 16, allocated := 1, prev_allocated := 1, requested_size := req\<rparr>)
               (e - 16) s
     in set_info (\<lambda>i. i\<lparr>allocated := 1\<rparr>) (e - 8) (store (e - 8) 0 s))"

text \<open>
  Extending the heap. The local variable \<open>cursor\<close>, whose address is stored in the free list when a
  list of the right size is found, is at \<open>sf_cursor\<close>.
\<close>

definition extend :: "grow \<Rightarrow> add_free_list \<Rightarrow> int \<Rightarrow> int \<Rightarrow> sfmm \<Rightarrow> (int \<times> sfmm + int \<times> sfmm) option" where
  "extend grow addfl req padd_size s =
    (let e = sf_mem_end s;
         free = prev_allocated (info (e - 8) s) \<noteq> 0;
         new_header = (if free then e - bytes (e - 16) s - 8 else e)
     in Option.bind (exact_size grow (if free then bytes (e - 16) s else 0) padd_size s) (\<lambda>(r, s).
        let new_size = through_int r
        in if new_size = 2 ^ 64 - 1 then Some (Inl (0, s))
           else
             let s = claim_block new_header new_size req (if free then unlink new_header s else s)
             in if new_size = padd_size then Some (Inl (new_header + 8 * 24, s))
                else Option.bind (find_list new_size (fl_next (sf_free_list_head s) s) s) (\<lambda>x.
                  if fl_size x s \<noteq> 0 then
                    let c = sf_cursor s
                    in Some (Inr (c, link_first c new_header (copy_node c x s)))
                  else
                    Option.bind (find_place new_size (fl_next (sf_free_list_head s) s) (fl_prev (sf_free_list_head s) s) s) (\<lambda>x.
                      let (n, s) = addfl new_size (fl_next x s) s
                      in if n = 0 then Some (Inl (0, s\<lparr>sf_errno := ENOMEM\<rparr>))
                         else
                           let s = set_info (\<lambda>i. i\<lparr>block_size := new_size div 16\<rparr>) (fl_head n) s;
                               s = set_info (\<lambda>i. i\<lparr>block_size := new_size div 16\<rparr>) (sf_mem_end s - 16) s
                           in Some (Inr (n, link_single n new_header s))))))"

text \<open>The first block of a larger list is split.\<close>

definition split_block :: "int \<Rightarrow> int \<Rightarrow> int \<Rightarrow> sfmm \<Rightarrow> sfmm" where
  "split_block h req padd_size s =
    (let s = zero_header (h + padd_size) (unlink h s);
         split_node_size = (bytes h s - padd_size) div 16;
         s = set_info (\<lambda>i. i\<lparr>block_size := split_node_size, prev_allocated := 1\<rparr>) (h + padd_size) s;
         s = set_info (\<lambda>i. i\<lparr>block_size := split_node_size, prev_allocated := 1\<rparr>) (h + bytes h s - 8) s;
         s = set_info (\<lambda>i. i\<lparr>block_size := padd_size div 16, requested_size := req, allocated := 1\<rparr>) h s
     in if sf_mem_start s + 40 = h then set_info (\<lambda>i. i\<lparr>prev_allocated := 1\<rparr>) h s else s)"

definition best_fit :: "add_free_list \<Rightarrow> int \<Rightarrow> int \<Rightarrow> int \<Rightarrow> sfmm \<Rightarrow> (int \<times> sfmm) option" where
  "best_fit addfl req padd_size successor s =
    (let h = links_next (fl_head successor) s;
         s = split_block h req padd_size s;
         free_size = (fl_size successor s - padd_size) mod 2 ^ 64
     in Option.bind (find_list free_size (fl_next (sf_free_list_head s) s) s) (\<lambda>cursor.
        if fl_size cursor s \<noteq> 0 then Some (h + 8, link_first cursor (h + padd_size) s)
        else
          Option.bind (find_place free_size cursor (fl_prev (sf_free_list_head s) s) s) (\<lambda>x.
            let (n, s) = addfl free_size (fl_next x s) s
            in if n = 0 then Some (0, s\<lparr>sf_errno := ENOMEM\<rparr>)
               else
                 let s = set_info (\<lambda>i. i\<lparr>block_size := free_size div 16\<rparr>) (fl_head n) (link_single n (h + padd_size) s)
                 in Option.bind (find_list free_size cursor s) (\<lambda>cursor.
                    Some (h + 8, if fl_size cursor s \<noteq> 0 then link_first cursor (h + padd_size) s else s)))))"

definition sf_malloc :: "grow \<Rightarrow> add_free_list \<Rightarrow> int \<Rightarrow> sfmm \<Rightarrow> (int \<times> sfmm) option" where
  "sf_malloc grow addfl req s =
    (if req = 0 then Some (0, s)
     else
       let (ok, s) = (if sf_mem_start s = sf_mem_end s then init_mem grow addfl s else (True, s))
       in if \<not> ok then Some (0, s\<lparr>sf_errno := ENOMEM\<rparr>)
          else
            let padd_size = padding req
            in Option.bind (search req padd_size (fl_next (sf_free_list_head s) s) 0 s) (\<lambda>r.
               case r of
                 Inl q \<Rightarrow> Some q
               | Inr (successor, s) \<Rightarrow>
                   if successor = 0 then
                     Option.bind (extend grow addfl req padd_size s) (\<lambda>r.
                       case r of Inl q \<Rightarrow> Some q | Inr (successor, s) \<Rightarrow> best_fit addfl req padd_size successor s)
                   else best_fit addfl req padd_size successor s))"

end
