(* ===== verification/Sf_Free.thy ===== *)
theory Sf_Free
  imports Sf_Malloc
begin

text \<open>
  \<open>sf_free\<close> and \<open>sf_realloc\<close> of \<open>sfmm/src/sfmm.c\<close>, over the memory of \<open>Sf_Malloc\<close>. Stopping is a value: a call
  of \<open>abort\<close>, or a call of the \<open>free\<close> of the C library with a block that is not its own, which is undefined.
\<close>

datatype sf_stop = Abort | Foreign_Free

section \<open>sf_free\<close>

definition valid_ptr :: "int \<Rightarrow> sfmm \<Rightarrow> bool" where
  "valid_ptr ptr s =
    (let header = ptr - 8
     in if ptr = 0 then False
        else if sf_mem_start s + 40 > header then False
        else if sf_mem_end s + 8 < header then False
        else if allocated (info header s) = 0 then False
        else if bytes header s < 32 then False
        else if (requested_size (info header s) + 8) mod 2 ^ 32 > bytes header s then False
        else if prev_allocated (info header s) = 0 then allocated (info (header - 8) s) = 0
        else True)"

text \<open>The first free list of the given size or a larger one, or the head of the list of lists.\<close>

partial_function (option) find_slot :: "int \<Rightarrow> int \<Rightarrow> sfmm \<Rightarrow> int option" where
  "find_slot sz cursor s =
    (if fl_size cursor s = sz \<or> fl_size cursor s > sz \<or> fl_size cursor s = 0 then Some cursor
     else find_slot sz (fl_next cursor s) s)"

text \<open>The footer of the block at an address, that of the epilogue if it has no size.\<close>

definition foot_of :: "int \<Rightarrow> sfmm \<Rightarrow> int" where
  "foot_of h s = (if bytes h s \<noteq> 0 then h + bytes h s - 8 else sf_mem_end s - 8)"

definition put_into_free :: "add_free_list \<Rightarrow> int \<Rightarrow> sfmm \<Rightarrow> (sf_stop + sfmm) option" where
  "put_into_free addfl header s =
    (let head = header - 8;
         head_of_next = head + bytes head s;
         foot = head_of_next - 8;
         foot_of_next = foot_of head_of_next s;
         s = set_info (\<lambda>i. i\<lparr>requested_size := 0, allocated := 0\<rparr>) head s;
         i = info head s;
         s = set_info (\<lambda>_. \<lparr>allocated = allocated i, prev_allocated = prev_allocated i, two_zeroes = 0,
               block_size = block_size i, requested_size = requested_size i\<rparr>) foot s;
         s = set_info (\<lambda>i. i\<lparr>prev_allocated := 0\<rparr>) head_of_next s;
         s = set_info (\<lambda>i. i\<lparr>prev_allocated := 0\<rparr>) foot_of_next s
     in Option.bind (find_slot (bytes head s) (fl_next (sf_free_list_head s) s) s) (\<lambda>cursor.
        if fl_size cursor s = bytes head s then Some (Inr (link_last cursor head s))
        else
          let (n, s) = addfl (bytes head s)
                (if fl_size cursor s > bytes head s then cursor else fl_prev (fl_next (sf_free_list_head s) s) s) s
          in if n = 0 then Some (Inl Abort) else Some (Inr (link_first n head s))))"

definition coalesce :: "add_free_list \<Rightarrow> int \<Rightarrow> int \<Rightarrow> int \<Rightarrow> sfmm \<Rightarrow> (sf_stop + sfmm) option" where
  "coalesce addfl top_block bottom_block new_footer s =
    (let new_size = bytes top_block s + bytes bottom_block s;
         s = unlink bottom_block (unlink top_block s);
         s = set_info (\<lambda>i. i\<lparr>requested_size := 0, block_size := new_size div 16, two_zeroes := 0\<rparr>) top_block s;
         p = prev_allocated (info top_block s);
         s = set_info (\<lambda>_. \<lparr>allocated = 0, prev_allocated = p, two_zeroes = 0, block_size = new_size div 16,
               requested_size = 0\<rparr>) new_footer s;
         s = set_info (\<lambda>i. i\<lparr>prev_allocated := 0\<rparr>) (new_footer + 8) s
     in Option.bind (find_slot new_size (fl_next (sf_free_list_head s) s) s) (\<lambda>cursor.
        if fl_size cursor s = new_size then Some (Inr (link_last cursor top_block s))
        else
          let (n, s) = addfl new_size (if fl_size cursor s > new_size then cursor else fl_next (sf_free_list_head s) s) s
          in if n = 0 then Some (Inl Abort) else Some (Inr (link_last n top_block s))))"

text \<open>The rest is skipped after a stop.\<close>

definition andthen :: "(sf_stop + sfmm) option \<Rightarrow> (sfmm \<Rightarrow> (sf_stop + 'a) option) \<Rightarrow> (sf_stop + 'a) option" where
  "andthen r f = Option.bind r (\<lambda>x. case x of Inl e \<Rightarrow> Some (Inl e) | Inr s \<Rightarrow> f s)"

lemma andthen_simps [simp]: "andthen (Some (Inl e)) f = Some (Inl e)" "andthen (Some (Inr s)) f = f s" "andthen None f = None"
  by (simp_all add: andthen_def)

text \<open>
  The pointer itself is taken for a header: its flag \<open>prev_allocated\<close> is read from the first word of
  the payload, and the footer of the previous block is looked for in the header of the block.
\<close>

definition sf_free :: "add_free_list \<Rightarrow> int \<Rightarrow> sfmm \<Rightarrow> (sf_stop + sfmm) option" where
  "sf_free addfl ptr s =
    (if \<not> valid_ptr ptr s then Some (Inl Abort)
     else andthen (put_into_free addfl ptr s) (\<lambda>s.
       let head = ptr - 8;
           foot_of_prev = ptr - 8;
           head_of_prev = (if bytes foot_of_prev s \<noteq> 0 then foot_of_prev - bytes foot_of_prev s else sf_mem_start s);
           head_of_next = head + bytes head s;
           foot = head_of_next - 8;
           foot_of_next = foot_of head_of_next s
       in andthen
            (if prev_allocated (info ptr s) \<noteq> 0 \<and> head_of_prev \<noteq> sf_mem_start s then coalesce addfl head_of_prev head foot s
             else Some (Inr s)) (\<lambda>s.
          if allocated (info head_of_next s) = 0 \<and> foot_of_next \<noteq> sf_mem_end s - 8
          then coalesce addfl head head_of_next foot_of_next s
          else Some (Inr s))))"

section \<open>sf_realloc\<close>

definition valid_ptr_realloc :: "int \<Rightarrow> sfmm \<Rightarrow> sf_stop + bool \<times> sfmm" where
  "valid_ptr_realloc ptr s =
    (let header = ptr - 8; invalid = Inr (False, s\<lparr>sf_errno := EINVAL\<rparr>)
     in if ptr = 0 then invalid
        else if sf_mem_start s + 40 > header then invalid
        else if sf_mem_end s + 8 < header then invalid
        else if allocated (info header s) = 0 then invalid
        else if bytes header s < 32 then invalid
        else if (requested_size (info header s) + 8) mod 2 ^ 32 > bytes header s then Inl Abort
        else if prev_allocated (info header s) = 0 \<and> allocated (info (header - 8) s) \<noteq> 0 then invalid
        else Inr (True, s))"

definition c_int :: "int \<Rightarrow> int" where
  "c_int x = (x + 2 ^ 31) mod 2 ^ 32 - 2 ^ 31"

text \<open>The block is cut to \<open>padd_size\<close> bytes and the rest is put into a free list.\<close>

definition shrink :: "add_free_list \<Rightarrow> int \<Rightarrow> int \<Rightarrow> int \<Rightarrow> sfmm \<Rightarrow> (sf_stop + sfmm) option" where
  "shrink addfl head req padd_size s =
    (let old_size = bytes head s;
         remaining_size = old_size - padd_size;
         rest = \<lparr>allocated = 0, prev_allocated = 1, two_zeroes = 0, block_size = remaining_size div 16, requested_size = 0\<rparr>;
         remainder_head = head + padd_size;
         s = set_info (\<lambda>_. rest) remainder_head s;
         remainder_foot = head + old_size - 8;
         s = set_info (\<lambda>_. rest) remainder_foot s;
         s = set_info (\<lambda>i. i\<lparr>requested_size := req, block_size := padd_size div 16, allocated := 1\<rparr>) head s;
         s = set_info (\<lambda>_. \<lparr>allocated = 1, prev_allocated = 1, two_zeroes = 0, block_size = padd_size div 16,
               requested_size = req\<rparr>) (head + (padd_size - 8)) s;
         next_block = remainder_foot + 8;
         s = set_info (\<lambda>i. i\<lparr>prev_allocated := 0\<rparr>) next_block s;
         feet = next_block + bytes next_block s - 8;
         s = set_info (\<lambda>i. i\<lparr>prev_allocated := 0\<rparr>) feet s
     in andthen
          (Option.bind (find_slot remaining_size (fl_next (sf_free_list_head s) s) s) (\<lambda>cursor.
             if fl_size cursor s = remaining_size then Some (Inr (link_last cursor remainder_head s))
             else
               let (n, s) = addfl remaining_size (if fl_size cursor s > remaining_size then cursor else fl_next (sf_free_list_head s) s) s
               in if n = 0 then Some (Inl Abort) else Some (Inr (link_first n remainder_head s))))
          (\<lambda>s. if allocated (info next_block s) = 0 \<and> bytes next_block s \<noteq> 0
               then coalesce addfl remainder_head next_block feet s
               else Some (Inr s)))"

text \<open>To enlarge a block the code calls \<open>malloc\<close> and \<open>free\<close> of the C library.\<close>

definition sf_realloc :: "add_free_list \<Rightarrow> int \<Rightarrow> int \<Rightarrow> sfmm \<Rightarrow> (sf_stop + int \<times> sfmm) option" where
  "sf_realloc addfl ptr req s =
    (case valid_ptr_realloc ptr s of
       Inl e \<Rightarrow> Some (Inl e)
     | Inr (ok, s) \<Rightarrow>
        if \<not> ok then Some (Inr (0, s))
        else
          let head = ptr - 8;
              old_size = bytes head s;
              padd_size = c_int (padding req);
              remaining_size = old_size - padd_size
          in if padd_size > old_size then Some (Inl Foreign_Free)
             else if padd_size < old_size then
               andthen (shrink addfl head req padd_size s) (\<lambda>s. Some (Inr (ptr, s)))
             else if remaining_size < 32 then
               Some (Inr (ptr, set_info (\<lambda>i. i\<lparr>requested_size := req\<rparr>) head s))
             else Some (Inr (ptr, s)))"

end
