(* ===== verification/Sf_Bump.thy ===== *)
theory Sf_Bump
  imports Sf_Free
begin

text \<open>
  \<open>sf_malloc\<close> on the first page. The behaviour of \<open>sfutil.o\<close> that \<open>sfmm.h\<close> documents is stated as two
  hypotheses, \<open>sfutil_nodes\<close> and \<open>sfutil_pages\<close>. Under them a simulation (\<open>bumped\<close>) relates the memory to the
  list of requests so far: the blocks lie one after the other, the rest of the page is the only free
  block, in the last and smallest free list, and all other free lists are empty.
\<close>

section \<open>Words and fields\<close>

lemma encode_digits:
  assumes "0 \<le> a" "a < 2" "0 \<le> b" "b < 2" "0 \<le> c" "c < 4" "0 \<le> d" "d < 268435456" "0 \<le> r" "r < (4294967296::int)"
  shows "decode_info (a + 2 * b + 4 * c + 16 * d + 4294967296 * r) =
    \<lparr>allocated = a, prev_allocated = b, two_zeroes = c, block_size = d, requested_size = r\<rparr>"
proof -
  define w where "w = a + 2 * b + 4 * c + 16 * d + 4294967296 * r"
  have 1: "w mod 2 = a"
    unfolding w_def by (rule int_mod_pos_eq [of _ _ "b + 2 * c + 8 * d + 2147483648 * r"]) (use assms in simp_all)
  have "w div 2 = b + 2 * (c + 4 * d + 1073741824 * r)"
    unfolding w_def by (rule int_div_pos_eq [of _ _ _ a]) (use assms in simp_all)
  moreover have "(b + 2 * (c + 4 * d + 1073741824 * r)) mod 2 = b"
    by (rule int_mod_pos_eq [of _ _ "c + 4 * d + 1073741824 * r"]) (use assms in simp_all)
  ultimately have 2: "w div 2 mod 2 = b" by (simp only:)
  have "w div 4 = c + 4 * (d + 268435456 * r)"
    unfolding w_def by (rule int_div_pos_eq [of _ _ _ "a + 2 * b"]) (use assms in simp_all)
  moreover have "(c + 4 * (d + 268435456 * r)) mod 4 = c"
    by (rule int_mod_pos_eq [of _ _ "d + 268435456 * r"]) (use assms in simp_all)
  ultimately have 3: "w div 4 mod 4 = c" by (simp only:)
  have "w div 16 = d + 268435456 * r"
    unfolding w_def by (rule int_div_pos_eq [of _ _ _ "a + 2 * b + 4 * c"]) (use assms in simp_all)
  moreover have "(d + 268435456 * r) mod 268435456 = d"
    by (rule int_mod_pos_eq [of _ _ r]) (use assms in simp_all)
  ultimately have 4: "w div 16 mod 268435456 = d" by (simp only:)
  have "w div 4294967296 = r"
    unfolding w_def by (rule int_div_pos_eq [of _ _ _ "a + 2 * b + 4 * c + 16 * d"]) (use assms in simp_all)
  moreover have "r mod 4294967296 = r" using assms by simp
  ultimately have 5: "w div 4294967296 mod 4294967296 = r" by (simp only:)
  have "(2::int) ^ 28 = 268435456" "(2::int) ^ 32 = 4294967296" by simp_all
  then show ?thesis by (simp only: decode_info_def w_def [symmetric] 1 2 3 4 5)
qed

lemma decode_encode_info [simp]:
  "decode_info (encode_info i) = \<lparr>allocated = allocated i mod 2, prev_allocated = prev_allocated i mod 2,
     two_zeroes = two_zeroes i mod 4, block_size = block_size i mod 2 ^ 28, requested_size = requested_size i mod 2 ^ 32\<rparr>"
  using encode_digits [of "allocated i mod 2" "prev_allocated i mod 2" "two_zeroes i mod 4" "block_size i mod 2 ^ 28"
      "requested_size i mod 2 ^ 32"]
  by (simp add: encode_info_def)

lemma info_range: "0 \<le> block_size (info a s)" "block_size (info a s) < 2 ^ 28" "0 \<le> requested_size (info a s)"
  by (simp_all add: info_def decode_info_def)

lemma store_fields [simp]:
  "sf_mem (store a v s) = (sf_mem s)(a := v)" "sf_mem_start (store a v s) = sf_mem_start s"
  "sf_mem_end (store a v s) = sf_mem_end s" "sf_free_list_head (store a v s) = sf_free_list_head s"
  "sf_cursor (store a v s) = sf_cursor s" "sf_util (store a v s) = sf_util s" "sf_errno (store a v s) = sf_errno s"
  by (simp_all add: store_def)

lemma set_info_fields [simp]:
  "sf_mem_start (set_info f a s) = sf_mem_start s" "sf_mem_end (set_info f a s) = sf_mem_end s"
  "sf_free_list_head (set_info f a s) = sf_free_list_head s" "sf_cursor (set_info f a s) = sf_cursor s"
  "sf_util (set_info f a s) = sf_util s" "sf_errno (set_info f a s) = sf_errno s"
  by (simp_all add: set_info_def)

lemma set_info_mem: "sf_mem (set_info f a s) = (sf_mem s)(a := encode_info (f (decode_info (sf_mem s a))))"
  by (simp add: set_info_def info_def)

lemma info_set_info: "info b (set_info f a s) = (if b = a then decode_info (encode_info (f (info a s))) else info b s)"
  by (simp add: info_def set_info_mem)

text \<open>The memory outside a set of addresses and everything else in the state is the same.\<close>

definition same :: "int set \<Rightarrow> sfmm \<Rightarrow> sfmm \<Rightarrow> bool" where
  "same W s s' \<longleftrightarrow> (\<exists>m. s' = s\<lparr>sf_mem := m\<rparr> \<and> (\<forall>a. a \<notin> W \<longrightarrow> m a = sf_mem s a))"

lemma same_mem: "same W s s' \<Longrightarrow> a \<notin> W \<Longrightarrow> sf_mem s' a = sf_mem s a"
  by (auto simp: same_def)

lemma same_fields:
  assumes "same W s s'"
  shows "sf_mem_start s' = sf_mem_start s" "sf_mem_end s' = sf_mem_end s" "sf_free_list_head s' = sf_free_list_head s"
    "sf_cursor s' = sf_cursor s" "sf_util s' = sf_util s" "sf_errno s' = sf_errno s"
  using assms by (auto simp: same_def)

lemma same_refl: "same W s s"
  unfolding same_def by (rule exI [of _ "sf_mem s"]) simp

lemma same_trans: "same W s s' \<Longrightarrow> same V s' s'' \<Longrightarrow> same (W \<union> V) s s''"
  unfolding same_def by fastforce

lemma same_mono: "same W s s' \<Longrightarrow> W \<subseteq> V \<Longrightarrow> same V s s'"
  unfolding same_def by blast

lemma same_store: "a \<in> W \<Longrightarrow> same W s (store a v s)"
  unfolding same_def store_def by (rule exI [of _ "(sf_mem s)(a := v)"]) auto

lemma same_set_info: "a \<in> W \<Longrightarrow> same W s (set_info f a s)"
  unfolding set_info_def by (rule same_store)

lemma same_stores:
  "same W s s' \<Longrightarrow> a \<in> W \<Longrightarrow> same W s (store a v s')"
  "same W s s' \<Longrightarrow> a \<in> W \<Longrightarrow> same W s (set_info f a s')"
  using same_trans [of W s s' W] same_store same_set_info by fastforce+

lemmas mem_defs = info_def bytes_def links_next_def links_prev_def fl_size_def fl_next_def fl_prev_def fl_head_def set_info_mem

lemma split_block_effect:
  fixes h p B r :: int
  assumes links: "links_next h s = r + 8" "links_prev h s = r + 8"
    and B: "bytes h s = B" "32 \<le> p" "p + 32 \<le> B" "16 dvd p" "0 < req" "req < 2 ^ 32"
    and r: "r + 16 \<notin> {h..<h + B}" "r + 24 \<notin> {h..<h + B}"
  defines "s' \<equiv> split_block h req p s"
  shows "same ({r + 16, r + 24} \<union> {h..<h + B}) s s'"
    "sf_mem s' (r + 16) = r + 8" "sf_mem s' (r + 24) = r + 8"
    "allocated (info h s') = 1" "block_size (info h s') = p div 16" "requested_size (info h s') = req"
    "allocated (info (h + p) s') = 0" "block_size (info (h + p) s') = (B - p) div 16"
proof -
  let ?W = "{r + 16, r + 24} \<union> {h..<h + B}"
  have ne: "r + 16 \<noteq> h + k" "r + 24 \<noteq> h + k" "h + k \<noteq> r + 16" "h + k \<noteq> r + 24" if "0 \<le> k" "k < B" for k
    using r that by auto
  note ne0 = ne [of 0, simplified] and ne8 = ne [of 8] and ne16 = ne [of 16]
  have d: "r + 16 \<noteq> h" "r + 24 \<noteq> h" "r + 16 \<noteq> h + p" "r + 24 \<noteq> h + p" "r + 16 \<noteq> h + p + 8" "r + 24 \<noteq> h + p + 8"
    "r \<noteq> h + p" "8 + r \<noteq> h + p" "r + 16 \<noteq> h + B - 8" "r + 24 \<noteq> h + B - 8"
    using r B(2,3) by auto
  define t where "t = zero_header (h + p) (unlink h s)"
  have t: "sf_mem t = (sf_mem s)(r + 16 := r + 8, r + 24 := r + 8, h + p := 0, h + p + 8 := 0, h + p + 16 := 0)"
    using links ne8 ne16 B by (simp add: t_def zero_header_def unlink_def Let_def mem_defs add.assoc)
  have tb: "bytes h t = B" using B ne0 by (simp add: bytes_def info_def t)
  have hp: "h + p \<noteq> h" "h + B - 8 \<noteq> h" "h + B - 8 \<noteq> h + p" using B by simp_all
  define u where "u = set_info (\<lambda>i. i\<lparr>block_size := (B - p) div 16, prev_allocated := 1\<rparr>) (h + B - 8)
    (set_info (\<lambda>i. i\<lparr>block_size := (B - p) div 16, prev_allocated := 1\<rparr>) (h + p) t)"
  have ub: "bytes h (set_info (\<lambda>i. i\<lparr>block_size := (B - p) div 16, prev_allocated := 1\<rparr>) (h + p) t) = B"
    using tb hp by (simp add: mem_defs)
  define v where "v = set_info (\<lambda>i. i\<lparr>block_size := p div 16, requested_size := req, allocated := 1\<rparr>) h u"
  have s': "s' = (if sf_mem_start s + 40 = h then set_info (\<lambda>i. i\<lparr>prev_allocated := 1\<rparr>) h v else v)"
    unfolding s'_def split_block_def Let_def t_def [symmetric] tb ub u_def [symmetric] v_def
    by (simp add: u_def t_def zero_header_def unlink_def Let_def)
  have s'u: "sf_mem s' a = sf_mem u a" if "a \<noteq> h" for a using that by (simp add: s' v_def set_info_mem)
  have "same ?W s t"
    unfolding t_def zero_header_def unlink_def Let_def using links ne8 ne16 B
    by (intro same_stores same_refl) (auto simp: mem_defs)
  then have "same ?W s u" unfolding u_def using B by (intro same_stores) auto
  then show "same ?W s s'" unfolding s' v_def using B(2,3) by (simp add: same_stores)
  have um: "sf_mem u (r + 16) = r + 8" "sf_mem u (r + 24) = r + 8"
    by (simp_all add: u_def set_info_mem t d)
  then show "sf_mem s' (r + 16) = r + 8" "sf_mem s' (r + 24) = r + 8"
    using s'u d(1,2) by simp_all
  have "0 \<le> B" "B < 2 ^ 32" using B(1) info_range [of h s] by (simp_all add: bytes_def)
  then have sz: "0 \<le> p div 16" "p div 16 < 2 ^ 28" "0 \<le> (B - p) div 16" "(B - p) div 16 < 2 ^ 28" using B by auto
  have "info (h + p) u = \<lparr>allocated = 0, prev_allocated = 1, two_zeroes = 0, block_size = (B - p) div 16, requested_size = 0\<rparr>"
    unfolding u_def using hp sz(3,4) by (simp add: info_set_info) (simp add: info_def t decode_info_def)
  then show "allocated (info (h + p) s') = 0" "block_size (info (h + p) s') = (B - p) div 16"
    unfolding info_def using s'u [OF hp(1)] by simp_all
  have iv: "allocated (info h v) = 1" "block_size (info h v) = p div 16" "requested_size (info h v) = req"
    unfolding v_def using sz(1,2) B(5,6) by (simp_all add: info_set_info)
  have "p div 16 mod 2 ^ 28 = p div 16" "req mod 2 ^ 32 = req" using sz(1,2) B(5,6) by simp_all
  then show "allocated (info h s') = 1" "block_size (info h s') = p div 16" "requested_size (info h s') = req"
    unfolding s' using iv by (simp_all add: info_set_info)
qed

section \<open>The documented behaviour of sfutil\<close>

text \<open>Two free list nodes do not overlap, and a node is outside an area of addresses.\<close>

definition apart :: "int \<Rightarrow> int \<Rightarrow> bool" where
  "apart n y \<longleftrightarrow> n + 48 \<le> y \<or> y + 48 \<le> n"

definition outside :: "int \<Rightarrow> int \<Rightarrow> int \<Rightarrow> bool" where
  "outside lo hi n \<longleftrightarrow> n + 48 \<le> lo \<or> hi \<le> n"

text \<open>A new node with an empty free list before the node \<open>x\<close>.\<close>

definition insert_node :: "int \<Rightarrow> int \<Rightarrow> int \<Rightarrow> int \<Rightarrow> sfmm \<Rightarrow> sfmm" where
  "insert_node n sz i x s =
    (let y = fl_prev x s;
         s = store (n + 24) (n + 8) (store (n + 16) (n + 8) (store (n + 8) i (store n sz s)))
     in store (x + 40) n (store (y + 32) n (store (n + 40) y (store (n + 32) x s))))"

text \<open>
  \<open>sf_add_free_list\<close> creates a node of the given size before the given node; \<open>owned\<close> are the head
  of the list and the nodes that were created so far, which depend on the state of \<open>sfutil\<close> only. The nodes are outside the
  area \<open>lo\<close> to \<open>hi\<close> of the heap, and there is always room for another one.
\<close>

definition sfutil_nodes :: "add_free_list \<Rightarrow> (int \<Rightarrow> int set) \<Rightarrow> int \<Rightarrow> int \<Rightarrow> bool" where
  "sfutil_nodes addfl owned lo hi \<longleftrightarrow>
    (\<forall>sz x s. x \<in> owned (sf_util s) \<longrightarrow>
      (\<exists>n i u. addfl sz x s = (n, (insert_node n sz i x s)\<lparr>sf_util := u\<rparr>) \<and> n \<noteq> 0
         \<and> owned u = insert n (owned (sf_util s)) \<and> outside lo hi n \<and> (\<forall>y \<in> owned (sf_util s). apart n y)))"

text \<open>\<open>sf_mem_grow\<close> adds a page at the end of the heap, up to \<open>hi\<close>.\<close>

definition sfutil_pages :: "grow \<Rightarrow> int \<Rightarrow> bool" where
  "sfutil_pages grow hi \<longleftrightarrow>
    (\<forall>s. sf_mem_end s + PAGE_SZ \<le> hi \<longrightarrow>
      (\<exists>m. grow s = (sf_mem_end s, s\<lparr>sf_mem := m, sf_mem_end := sf_mem_end s + PAGE_SZ\<rparr>)
         \<and> (\<forall>a. a \<notin> {sf_mem_end s..<sf_mem_end s + PAGE_SZ} \<longrightarrow> m a = sf_mem s a)))"

section \<open>The list of free lists\<close>

fun path :: "sfmm \<Rightarrow> int \<Rightarrow> int list \<Rightarrow> int \<Rightarrow> bool" where
  "path s x [] y \<longleftrightarrow> fl_next x s = y \<and> fl_prev y s = x"
| "path s x (n # ns) y \<longleftrightarrow> fl_next x s = n \<and> fl_prev n s = x \<and> path s n ns y"

lemma path_append: "path s x (ns @ m # ms) y \<longleftrightarrow> path s x ns m \<and> path s m ms y"
  by (induction ns arbitrary: x) auto

lemma path_last: "path s x (ns @ [r]) y \<Longrightarrow> fl_prev y s = r \<and> fl_next r s = y"
  by (simp add: path_append)

lemma path_cong:
  "path s x ns y \<Longrightarrow> (\<And>z. z \<in> set (x # ns) \<Longrightarrow> fl_next z s' = fl_next z s) \<Longrightarrow>
   (\<And>z. z \<in> set (ns @ [y]) \<Longrightarrow> fl_prev z s' = fl_prev z s) \<Longrightarrow> path s' x ns y"
  by (induction ns arbitrary: x) auto

lemma find_list_none:
  "path s x ns H \<Longrightarrow> fl_size H s = 0 \<Longrightarrow> (\<forall>n \<in> set ns. fl_size n s \<noteq> 0 \<and> fl_size n s \<noteq> sz) \<Longrightarrow>
   find_list sz (fl_next x s) s = Some H"
proof (induction ns arbitrary: x)
  case Nil
  then show ?case by (subst find_list.simps) simp
next
  case (Cons n ns)
  then show ?case using Cons.IH [of n] by (subst find_list.simps) simp
qed

lemma search_larger:
  "path s x (qs @ [r]) H \<Longrightarrow> fl_size H s = 0 \<Longrightarrow> (\<forall>q \<in> set qs. p < fl_size q s \<and> empty_list q s) \<Longrightarrow>
   p < fl_size r s \<Longrightarrow> 0 < p \<Longrightarrow> \<not> empty_list r s \<Longrightarrow> search req p (fl_next x s) 0 s = Some (Inr (r, s))"
proof (induction qs arbitrary: x)
  case Nil
  have "search req p H r s = Some (Inr (r, s))" using Nil by (subst search.simps) simp
  then show ?case using Nil by (subst search.simps) simp
next
  case (Cons q qs)
  then show ?case using Cons.IH [of q] by (subst search.simps) simp
qed

definition nodes_ok :: "(int \<Rightarrow> int set) \<Rightarrow> int \<Rightarrow> int \<Rightarrow> int list \<Rightarrow> sfmm \<Rightarrow> bool" where
  "nodes_ok owned lo hi ns s \<longleftrightarrow> path s (sf_free_list_head s) ns (sf_free_list_head s)
     \<and> fl_size (sf_free_list_head s) s = 0 \<and> outside lo hi (sf_free_list_head s) \<and> set (sf_free_list_head s # ns) \<subseteq> owned (sf_util s) \<and> 0 \<notin> set ns
     \<and> (\<forall>n \<in> set ns. outside lo hi n) \<and> sorted_wrt apart (sf_free_list_head s # ns)"

text \<open>The words of the list of lists: sizes and links between the nodes.\<close>

definition node_words :: "int \<Rightarrow> int set" where
  "node_words n = {n, n + 32, n + 40}"

lemma nodes_ok_frame:
  assumes "nodes_ok owned lo hi ns s" "same W s s'" "\<And>n. n \<in> set (sf_free_list_head s # ns) \<Longrightarrow> node_words n \<inter> W = {}"
  shows "nodes_ok owned lo hi ns s'" "\<And>n. n \<in> set ns \<Longrightarrow> fl_size n s' = fl_size n s"
proof -
  let ?H = "sf_free_list_head s"
  note f = same_fields [OF assms(2)]
  have e: "fl_size n s' = fl_size n s" "fl_next n s' = fl_next n s" "fl_prev n s' = fl_prev n s" if "n \<in> set (?H # ns)" for n
    using assms(3) [OF that] same_mem [OF assms(2)] by (auto simp: node_words_def fl_size_def fl_next_def fl_prev_def)
  have "path s' ?H ns ?H"
    by (rule path_cong [of s]) (use assms(1) e in \<open>auto simp: nodes_ok_def\<close>)
  then show "nodes_ok owned lo hi ns s'" using assms(1) f e(1) by (simp add: nodes_ok_def)
  show "fl_size n s' = fl_size n s" if "n \<in> set ns" for n using e(1) that by simp
qed

lemma apart_sym: "apart n y \<Longrightarrow> apart y n"
  by (auto simp: apart_def)

lemma apart_words: "apart n y \<Longrightarrow> 0 \<le> i \<Longrightarrow> i < 48 \<Longrightarrow> 0 \<le> j \<Longrightarrow> j < 48 \<Longrightarrow> n + i \<noteq> y + j"
  by (auto simp: apart_def)

lemma outside_words: "outside lo hi n \<Longrightarrow> lo \<le> a \<Longrightarrow> a < hi \<Longrightarrow> 0 \<le> i \<Longrightarrow> i < 48 \<Longrightarrow> n + i \<noteq> a"
  by (auto simp: outside_def)

lemma path_end: "path s x ns y \<Longrightarrow> fl_prev y s = last (x # ns)"
  by (induction ns arbitrary: x) auto

lemma apart_in:
  assumes "sorted_wrt apart L" "x \<in> set L" "y \<in> set L" "x + i = y + j" "0 \<le> i" "i < 48" "0 \<le> j" "j < 48"
  shows "x = y" "i = j"
proof -
  have "apart a b \<Longrightarrow> a + k \<noteq> b + l" if "0 \<le> k" "k < 48" "0 \<le> l" "l < 48" for a b k l :: int
    using apart_words that by blast
  then have "\<not> apart x y" "\<not> apart y x" using assms(4-8) apart_sym by blast+
  then show "x = y" using assms(1-3) by (induction L) auto
  then show "i = j" using assms(4) by simp
qed

lemma path_retarget:
  "path s x ns y \<Longrightarrow> distinct (x # ns) \<Longrightarrow> (\<And>z. z \<in> set (x # ns) \<Longrightarrow> z \<noteq> last (x # ns) \<Longrightarrow> fl_next z s' = fl_next z s) \<Longrightarrow>
   (\<And>z. z \<in> set ns \<Longrightarrow> fl_prev z s' = fl_prev z s) \<Longrightarrow> fl_next (last (x # ns)) s' = n \<Longrightarrow> fl_prev n s' = last (x # ns) \<Longrightarrow>
   path s' x ns n"
proof (induction ns arbitrary: x)
  case (Cons m ns)
  have "path s' m ns n" using Cons.prems by (intro Cons.IH) auto
  moreover have "x \<noteq> last (m # ns)" using Cons.prems(2) last_in_set [of "m # ns"] by auto
  ultimately show ?case using Cons.prems(1,3,4) by simp
qed simp

lemma apart_distinct: "sorted_wrt apart L \<Longrightarrow> distinct L"
  by (induction L) (auto simp: apart_def)

text \<open>A new node is added at the end.\<close>

lemma add_last:
  assumes "sfutil_nodes addfl owned lo hi" "nodes_ok owned lo hi ns s" "0 < sz"
  shows "\<exists>n s'. addfl sz (sf_free_list_head s) s = (n, s') \<and> nodes_ok owned lo hi (ns @ [n]) s' \<and> fl_size n s' = sz
    \<and> empty_list n s' \<and> sf_mem_start s' = sf_mem_start s \<and> sf_mem_end s' = sf_mem_end s
    \<and> sf_free_list_head s' = sf_free_list_head s
    \<and> (\<forall>a. a \<notin> {n..<n + 48} \<union> {sf_free_list_head s + 40, last (sf_free_list_head s # ns) + 32} \<longrightarrow> sf_mem s' a = sf_mem s a)"
proof -
  let ?H = "sf_free_list_head s"
  let ?y = "last (?H # ns)"
  obtain n i u where a: "addfl sz ?H s = (n, (insert_node n sz i ?H s)\<lparr>sf_util := u\<rparr>)" "n \<noteq> 0"
    "owned u = insert n (owned (sf_util s))" "outside lo hi n" "\<forall>y \<in> owned (sf_util s). apart n y"
    using assms(1,2) unfolding sfutil_nodes_def nodes_ok_def by (metis list.set_intros(1) subsetD)
  define s' where "s' = (insert_node n sz i ?H s)\<lparr>sf_util := u\<rparr>"
  have y: "fl_prev ?H s = ?y" using assms(2) path_end unfolding nodes_ok_def by blast
  have m: "sf_mem s' = (sf_mem s)(n := sz, n + 8 := i, n + 16 := n + 8, n + 24 := n + 8, n + 32 := ?H, n + 40 := ?y, ?y + 32 := n, ?H + 40 := n)"
    by (simp add: s'_def insert_node_def Let_def y)
  have ap: "apart n z" if "z \<in> set (?H # ns)" for z using a(5) assms(2) that by (auto simp: nodes_ok_def)
  have yin: "?y \<in> set (?H # ns)" by (rule last_in_set) simp
  have ne: "n + k \<noteq> ?y + j" "?y + j \<noteq> n + k" "n + k \<noteq> ?H + j" "?H + j \<noteq> n + k"
    if "0 \<le> k" "k < 48" "0 \<le> j" "j < 48" for k j
    using apart_words [OF ap [OF yin]] apart_words [OF ap [of ?H]] that by (auto dest: sym)
  note ne32 = ne [of _ 32] and ne40 = ne [of _ 40]
  have w: "fl_size n s' = sz" "links_next (fl_head n) s' = n + 8" "links_prev (fl_head n) s' = n + 8" "fl_next n s' = ?H" "fl_prev n s' = ?y"
    using ne32 [of 0] ne40 [of 0] ne32 [of 16] ne40 [of 16] ne32 [of 24] ne40 [of 24] ne32 [of 32] ne40 [of 32] ne32 [of 40] ne40 [of 40]
    by (simp_all add: fl_size_def links_next_def links_prev_def fl_head_def fl_next_def fl_prev_def m)
  have srt: "sorted_wrt apart (?H # ns)" using assms(2) by (simp add: nodes_ok_def)
  have fr: "sf_mem s' a = sf_mem s a" if "a \<notin> {n..<n + 48} \<union> {?H + 40, ?y + 32}" for a using that by (auto simp: m)
  have old: "sf_mem s' (z + k) = sf_mem s (z + k)"
    if "z \<in> set (?H # ns)" "0 \<le> k" "k < 48" "z + k \<noteq> ?H + 40" "z + k \<noteq> ?y + 32" for z k
    using that(2-) ap [OF that(1)] by (intro fr) (auto simp: apart_def)
  have "path s' ?H ns n"
  proof (rule path_retarget [OF _ apart_distinct [OF srt]])
    show "path s ?H ns ?H" using assms(2) by (simp add: nodes_ok_def)
    show "fl_next z s' = fl_next z s" if "z \<in> set (?H # ns)" "z \<noteq> ?y" for z
      unfolding fl_next_def using that apart_in [OF srt that(1), of ?H 32 40] by (intro old) auto
    show "fl_prev z s' = fl_prev z s" if "z \<in> set ns" for z
    proof -
      have "z \<noteq> ?H" using that apart_distinct [OF srt] by auto
      then show ?thesis
        unfolding fl_prev_def using that apart_in [OF srt _ yin, of z 40 32] by (intro old) auto
    qed
    show "fl_next ?y s' = n" using apart_in [OF srt yin, of ?H 32 40] by (auto simp: fl_next_def m)
  qed (rule w(5))
  moreover have "fl_prev ?H s' = n" by (simp add: fl_prev_def m)
  moreover have "fl_size ?H s' = 0"
    using old [of ?H 0] apart_in [OF srt _ yin, of ?H 0 32] assms(2) by (auto simp: nodes_ok_def fl_size_def)
  moreover have "sorted_wrt apart (?H # ns @ [n])"
    using srt ap apart_sym by (auto simp: sorted_wrt_append)
  moreover have f: "sf_free_list_head s' = ?H" "sf_mem_start s' = sf_mem_start s" "sf_mem_end s' = sf_mem_end s" "sf_util s' = u"
    by (simp_all add: s'_def insert_node_def Let_def)
  ultimately have "nodes_ok owned lo hi (ns @ [n]) s'"
    using assms(2) a(2-4) w(4) by (auto simp: nodes_ok_def path_append)
  then show ?thesis
    using a(1) f w(1-3) fr by (auto simp: s'_def [symmetric] empty_list_def fl_head_def)
qed

section \<open>Sizes\<close>

lemma padding_props:
  assumes "0 \<le> req" "req < 2 ^ 63"
  shows "32 \<le> padding req" "16 dvd padding req" "req + 8 \<le> padding req" "padding req < max 33 (req + 24)"
proof -
  define t where "t = req + 8"
  have m: "t mod 2 ^ 64 = t" using assms by (simp add: t_def)
  have t: "0 \<le> t mod 16" "t mod 16 < 16" "16 dvd t - t mod 16" by simp_all
  have e: "(t + (16 - t mod 16)) mod 2 ^ 64 = t + (16 - t mod 16)" using assms t(1,2) by (simp add: t_def)
  have d: "16 dvd t + (16 - t mod 16)"
    using dvd_add [OF t(3), of 16] by (simp add: algebra_simps)
  have p: "padding req = (if t < 32 then 32 else if t mod 16 = 0 then t else t + (16 - t mod 16))"
    by (simp only: padding_def Let_def t_def [symmetric] m e)
  show "32 \<le> padding req" "req + 8 \<le> padding req" "padding req < max 33 (req + 24)"
    using t(1,2) by (simp_all only: p) (auto simp: t_def)
  show "16 dvd padding req" using d by (auto simp: p dvd_eq_mod_eq_0)
qed

section \<open>A bump allocator\<close>

text \<open>The bytes that a list of requests takes, and the pointers that are returned for it.\<close>

definition used :: "int list \<Rightarrow> int" where
  "used reqs = sum_list (map padding reqs)"

fun bump :: "int \<Rightarrow> int list \<Rightarrow> int list" where
  "bump a [] = []"
| "bump a (req # reqs) = (a + 8) # bump (a + padding req) reqs"

fun blocks :: "sfmm \<Rightarrow> int \<Rightarrow> int list \<Rightarrow> bool" where
  "blocks s a [] \<longleftrightarrow> True"
| "blocks s a (req # reqs) \<longleftrightarrow> allocated (info a s) = 1 \<and> requested_size (info a s) = req \<and> bytes a s = padding req
     \<and> blocks s (a + padding req) reqs"

lemma used_simps [simp]: "used [] = 0" "used (r # rs) = padding r + used rs" "used (rs @ [r]) = used rs + padding r"
  by (simp_all add: used_def)

definition small :: "int list \<Rightarrow> bool" where
  "small reqs \<longleftrightarrow> (\<forall>req \<in> set reqs. 0 < req \<and> req < 2 ^ 32)"

lemma used_props: "small reqs \<Longrightarrow> 0 \<le> used reqs \<and> 16 dvd used reqs"
proof (induction reqs)
  case (Cons r rs)
  then show ?case using padding_props [of r] by (auto simp: small_def)
qed simp

lemma blocks_append: "blocks s a (rs @ [r]) \<longleftrightarrow> blocks s a rs \<and> blocks s (a + used rs) [r]"
  by (induction rs arbitrary: a) (auto simp: add.assoc)

lemma blocks_cong:
  "blocks s a rs \<Longrightarrow> small rs \<Longrightarrow> (\<And>x. a \<le> x \<Longrightarrow> x < a + used rs \<Longrightarrow> sf_mem s' x = sf_mem s x) \<Longrightarrow> blocks s' a rs"
proof (induction rs arbitrary: a)
  case (Cons r rs)
  have p: "0 < padding r" "0 \<le> used rs" using padding_props [of r] used_props [of rs] Cons.prems(2) by (auto simp: small_def)
  have "sf_mem s' a = sf_mem s a" using Cons.prems(3) [of a] p by simp
  moreover have "blocks s' (a + padding r) rs"
    using Cons.prems p by (intro Cons.IH) (auto simp: small_def add.assoc)
  ultimately show ?case using Cons.prems(1) by (simp add: info_def bytes_def)
qed simp

definition bumped :: "(int \<Rightarrow> int set) \<Rightarrow> int \<Rightarrow> int \<Rightarrow> int list \<Rightarrow> int \<Rightarrow> int list \<Rightarrow> sfmm \<Rightarrow> bool" where
  "bumped owned lo hi qs r reqs s \<longleftrightarrow>
    (let h = sf_mem_start s + 40 + used reqs; rest = 4048 - used reqs
     in lo \<le> sf_mem_start s \<and> sf_mem_end s = sf_mem_start s + PAGE_SZ \<and> sf_mem_end s \<le> hi
        \<and> nodes_ok owned lo hi (qs @ [r]) s
        \<and> (\<forall>q \<in> set qs. rest < fl_size q s \<and> fl_size q s \<le> 4048 \<and> empty_list q s) \<and> fl_size r s = rest
        \<and> sf_mem s (sf_mem_start s + 4088) = 1
        \<and> links_next (fl_head r) s = h \<and> links_prev (fl_head r) s = h
        \<and> links_next h s = fl_head r \<and> links_prev h s = fl_head r \<and> bytes h s = rest \<and> 32 \<le> rest
        \<and> small reqs \<and> blocks s (sf_mem_start s + 40) reqs)"

lemma empty_list_words: "empty_list q s \<longleftrightarrow> sf_mem s (q + 16) = q + 8 \<and> sf_mem s (q + 24) = q + 8"
proof -
  have "q + 8 + 8 = q + 16" "q + 8 + 16 = q + 24" by simp_all
  then show ?thesis by (simp only: empty_list_def links_next_def links_prev_def fl_head_def)
qed

text \<open>The state in which the remainder of the page, a block of \<open>4048 - used reqs\<close> bytes, is in no free list.\<close>

definition cut :: "(int \<Rightarrow> int set) \<Rightarrow> int \<Rightarrow> int \<Rightarrow> int list \<Rightarrow> int list \<Rightarrow> sfmm \<Rightarrow> bool" where
  "cut owned lo hi ns reqs s \<longleftrightarrow> lo \<le> sf_mem_start s \<and> sf_mem_end s = sf_mem_start s + PAGE_SZ \<and> sf_mem_end s \<le> hi
     \<and> nodes_ok owned lo hi ns s \<and> (\<forall>q \<in> set ns. 4048 - used reqs < fl_size q s \<and> fl_size q s \<le> 4048 \<and> empty_list q s)
     \<and> sf_mem s (sf_mem_start s + 4088) = 1 \<and> bytes (sf_mem_start s + 40 + used reqs) s = 4048 - used reqs \<and> 32 \<le> 4048 - used reqs
     \<and> small reqs \<and> blocks s (sf_mem_start s + 40) reqs"

lemma nodes_out:
  assumes "nodes_ok owned lo hi ns s" "z \<in> set (sf_free_list_head s # ns)" "lo \<le> a" "b \<le> hi" "0 \<le> k" "k < 48"
  shows "z + k \<notin> {a..<b}"
  using assms by (auto simp: nodes_ok_def outside_def)

lemma nodes_words:
  assumes "nodes_ok owned lo hi ns s" "x \<in> set (sf_free_list_head s # ns)" "y \<in> set (sf_free_list_head s # ns)"
    "x + i = y + j" "0 \<le> i" "i < 48" "0 \<le> j" "j < 48"
  shows "x = y \<and> i = j"
  using apart_in [OF _ assms(2-)] assms(1) by (simp add: nodes_ok_def)

lemma node_words_free:
  assumes "nodes_ok owned lo hi ns s" "z \<in> set (sf_free_list_head s # ns)" "n \<in> set (sf_free_list_head s # ns)" "lo \<le> a" "b \<le> hi"
    "W \<subseteq> {n + 8, n + 16, n + 24} \<union> {a..<b}"
  shows "node_words z \<inter> W = {}"
proof -
  have o1: "z + k \<notin> {a..<b}" if "k \<in> {0, 32, 40}" for k
    by (rule nodes_out [OF assms(1,2,4,5)]) (use that in auto)
  have "z + k \<noteq> n + j" if "k \<in> {0, 32, 40}" "j \<in> {8, 16, 24}" for k j
  proof
    assume "z + k = n + j"
    then have "k = j" by (rule conjunct2 [OF nodes_words [OF assms(1,2,3)]]) (use that in auto)
    then show False using that by auto
  qed
  then have o2: "z + k \<notin> {n + 8, n + 16, n + 24}" if "k \<in> {0, 32, 40}" for k using that by blast
  have "w \<notin> W" if "w \<in> node_words z" for w
  proof -
    have "w = z + 0 \<or> w = z + 32 \<or> w = z + 40" using that by (simp add: node_words_def)
    then obtain k where "k \<in> {0, 32, 40}" "w = z + k" by blast
    then show ?thesis using o1 [of k] o2 [of k] assms(6) by blast
  qed
  then show ?thesis by blast
qed

lemma split_bumped:
  assumes b: "bumped owned lo hi qs r reqs s" and req: "0 < req" "req < 2 ^ 32" and room: "used reqs + padding req + 32 \<le> 4048"
  defines "h \<equiv> sf_mem_start s + 40 + used reqs"
  defines "t \<equiv> split_block h req (padding req) s"
  shows "cut owned lo hi (qs @ [r]) (reqs @ [req]) t" "sf_mem_start t = sf_mem_start s" "fl_size r t = 4048 - used reqs"
    "sf_free_list_head t = sf_free_list_head s"
proof -
  define p where "p = padding req"
  define B where "B = 4048 - used reqs"
  let ?H = "sf_free_list_head s" and ?N = "set (sf_free_list_head s # qs @ [r])"
  have p: "32 \<le> p" "16 dvd p" "p + 32 \<le> B" "0 \<le> used reqs"
    using padding_props [of req] req room used_props [of reqs] b by (auto simp: p_def B_def bumped_def Let_def)
  have i: "lo \<le> sf_mem_start s" "sf_mem_end s = sf_mem_start s + PAGE_SZ" "sf_mem_end s \<le> hi"
    "nodes_ok owned lo hi (qs @ [r]) s" "\<forall>q \<in> set qs. B < fl_size q s \<and> fl_size q s \<le> 4048 \<and> empty_list q s" "fl_size r s = B"
    "links_next h s = r + 8" "links_prev h s = r + 8" "bytes h s = B" "small reqs" "blocks s (sf_mem_start s + 40) reqs"
    "sf_mem s (sf_mem_start s + 4088) = 1"
    using b by (simp_all add: bumped_def Let_def h_def B_def fl_head_def)
  have area: "lo \<le> h" "h + B \<le> hi" using i(1-3) p(4) by (simp_all add: h_def B_def PAGE_SZ_def)
  note out = nodes_out [OF i(4) _ area] and words = nodes_words [OF i(4)]
  note eff = split_block_effect [OF i(7-9) p(1,3,2) req out [of r 16] out [of r 24], folded p_def, folded t_def [folded p_def]]
  have "node_words z \<inter> ({r + 16, r + 24} \<union> {h..<h + B}) = {}" if "z \<in> ?N" for z
    by (rule node_words_free [OF i(4) that _ area]) auto
  note nt = nodes_ok_frame [OF i(4) eff(1) this]
  have tf: "sf_free_list_head t = ?H" "sf_mem_start t = sf_mem_start s" "sf_mem_end t = sf_mem_end s"
    using same_fields [OF eff(1)] by simp_all
  then show "sf_mem_start t = sf_mem_start s" "fl_size r t = 4048 - used reqs" "sf_free_list_head t = ?H"
    using nt(2) i(6) by (simp_all add: B_def)
  have e: "empty_list q t" if q: "q \<in> set (qs @ [r])" for q
  proof (cases "q = r")
    case False
    have z: "q \<in> ?N" using q by simp
    have "sf_mem t (q + k) = sf_mem s (q + k)" if "k \<in> {16, 24}" for k
      using that False words [OF z, of r k] out [OF z, of k] by (intro same_mem [OF eff(1)]) auto
    then show ?thesis using i(5) q False by (auto simp: empty_list_words)
  qed (use eff(2,3) in \<open>simp add: empty_list_words\<close>)
  have hp: "sf_mem t x = sf_mem s x" if "lo \<le> x" "x < hi" "x \<notin> {h..<h + B}" for x
  proof -
    have "x \<noteq> r + 16" "x \<noteq> r + 24" using nodes_out [OF i(4), of r x "x + 1" 16] nodes_out [OF i(4), of r x "x + 1" 24] that by auto
    then show ?thesis using that(3) by (intro same_mem [OF eff(1)]) auto
  qed
  have ep: "sf_mem t (sf_mem_start s + 4088) = 1"
    using hp [of "sf_mem_start s + 4088"] i(1-3,12) by (simp add: h_def B_def PAGE_SZ_def)
  have "sf_mem t x = sf_mem s x" if "sf_mem_start s + 40 \<le> x" "x < sf_mem_start s + 40 + used reqs" for x
    using that area i(1) p(1,3) by (intro hp) (simp_all add: h_def)
  then have "blocks t (sf_mem_start s + 40) reqs" by (rule blocks_cong [OF i(11,10)])
  moreover have "16 dvd B - p" using p(2) used_props [OF i(10)] by (simp add: B_def)
  then have "bytes (h + p) t = B - p" "bytes h t = p" using eff(5,8) p(2) by (simp_all add: bytes_def)
  moreover have "small (reqs @ [req])" using i(10) req by (auto simp: small_def)
  ultimately show "cut owned lo hi (qs @ [r]) (reqs @ [req]) t"
    using tf i(1-3) nt i(5,6) e eff(4,6) p(1,3,4) ep unfolding cut_def
    by (auto simp: blocks_append h_def [symmetric] p_def [symmetric] B_def add.assoc [symmetric])
qed

text \<open>The remainder is linked to a new node.\<close>

lemma link_cut:
  assumes c: "sfutil_nodes addfl owned lo hi" and b: "cut owned lo hi ns reqs t"
  defines "h \<equiv> sf_mem_start t + 40 + used reqs" and "H \<equiv> sf_free_list_head t"
  shows "\<exists>n s. addfl (4048 - used reqs) H t = (n, s) \<and> n \<noteq> 0 \<and> n + 8 \<noteq> h + 8 \<and> n + 8 \<noteq> h + 16 \<and> sf_mem_start s = sf_mem_start t
    \<and> (\<forall>s'. same {n + 8} (link_single n h s) s' \<longrightarrow>
         bumped owned lo hi ns n reqs s' \<and> sf_mem_start s' = sf_mem_start t \<and> sf_free_list_head s' = H)"
proof -
  define B where "B = 4048 - used reqs"
  have i: "lo \<le> sf_mem_start t" "sf_mem_end t = sf_mem_start t + PAGE_SZ" "sf_mem_end t \<le> hi" "nodes_ok owned lo hi ns t"
    "\<forall>q \<in> set ns. B < fl_size q t \<and> fl_size q t \<le> 4048 \<and> empty_list q t" "bytes h t = B" "32 \<le> B" "small reqs"
    "blocks t (sf_mem_start t + 40) reqs" "sf_mem t (sf_mem_start t + 4088) = 1"
    using b by (simp_all add: cut_def h_def B_def)
  have u: "0 \<le> used reqs" using used_props [OF i(8)] by simp
  have area: "lo \<le> h" "h + B \<le> hi" using i(1-3) u by (simp_all add: h_def B_def PAGE_SZ_def)
  obtain n s where a: "addfl B H t = (n, s)" "nodes_ok owned lo hi (ns @ [n]) s" "fl_size n s = B"
    "sf_mem_start s = sf_mem_start t" "sf_mem_end s = sf_mem_end t" "sf_free_list_head s = H"
    "\<forall>a. a \<notin> {n..<n + 48} \<union> {H + 40, last (H # ns) + 32} \<longrightarrow> sf_mem s a = sf_mem t a"
    using add_last [OF c i(4), of B] i(7) by (auto simp: H_def)
  note out = nodes_out [OF a(2), unfolded a(6)] and words = nodes_words [OF a(2), unfolded a(6)]
  have l: "last (H # ns) \<in> set (H # ns @ [n])" using last_in_set [of "H # ns"] by auto
  have nh: "n + k \<noteq> h + 8" "n + k \<noteq> h + 16" if "0 \<le> k" "k < 48" for k
    using out [of n, OF _ area that] i(7) by auto
  have "bumped owned lo hi ns n reqs s' \<and> sf_mem_start s' = sf_mem_start t \<and> sf_free_list_head s' = H"
    if s': "same {n + 8} (link_single n h s) s'" for s'
  proof -
    let ?V = "{n + 8, n + 16, n + 24} \<union> {h + 8, h + 16}"
    have "same ?V s (link_single n h s)"
      unfolding link_single_def by (intro same_stores same_refl) (auto simp: fl_head_def)
    then have V: "same ?V s s'" using same_trans [OF _ s', of ?V s] by (simp add: insert_commute)
    have "node_words z \<inter> ?V = {}" if "z \<in> set (sf_free_list_head s # ns @ [n])" for z
      by (rule node_words_free [OF a(2) that _ area, of n]) (use i(7) in auto)
    note n3 = nodes_ok_frame [OF a(2) V this]
    have f3: "sf_free_list_head s' = H" "sf_mem_start s' = sf_mem_start t" "sf_mem_end s' = sf_mem_end t"
      using same_fields [OF V] a(4-6) by simp_all
    have fr: "sf_mem s' x = sf_mem t x"
      if "x \<notin> {n..<n + 48}" "x \<noteq> H + 40" "x \<noteq> last (H # ns) + 32" "x \<noteq> h + 8" "x \<noteq> h + 16" for x
      using that a(7) same_mem [OF V, of x] by auto
    have hp: "sf_mem s' x = sf_mem t x" if "lo \<le> x" "x < hi" "x \<noteq> h + 8" "x \<noteq> h + 16" for x
    proof (rule fr)
      show "x \<notin> {n..<n + 48}" using out [of n x "x + 1" "x - n"] that(1,2) by auto
      show "x \<noteq> H + 40" using out [of H x "x + 1" 40] that(1,2) by auto
      show "x \<noteq> last (H # ns) + 32" using out [OF l, of x "x + 1" 32] that(1,2) by auto
    qed fact+
    have hd: "sf_mem s' (z + k) = sf_mem t (z + k)" if z: "z \<in> set ns" and k: "k \<in> {0, 16, 24}" for z k
    proof (rule fr)
      have zN: "z \<in> set (H # ns @ [n])" using z by simp
      have "z \<noteq> n" using a(2) z by (auto simp: nodes_ok_def sorted_wrt_append apart_def)
      then show "z + k \<notin> {n..<n + 48}" using words [OF zN, of n k "z + k - n"] k by auto
      show "z + k \<noteq> H + 40" using words [OF zN, of H k 40] k by auto
      show "z + k \<noteq> last (H # ns) + 32" using words [OF zN l, of k 32] k by auto
      show "z + k \<noteq> h + 8" "z + k \<noteq> h + 16" using out [OF zN area, of k] k i(7) by auto
    qed
    have e: "empty_list q s'" "B < fl_size q s'" "fl_size q s' \<le> 4048" if q: "q \<in> set ns" for q
      using i(5) q hd [OF q, of 0] hd [OF q, of 16] hd [OF q, of 24] by (auto simp: empty_list_words fl_size_def)
    have lm: "sf_mem s' x = sf_mem (link_single n h s) x" if "x \<noteq> n + 8" for x using same_mem [OF s', of x] that by simp
    have lk: "sf_mem s' (n + 16) = h" "sf_mem s' (n + 24) = h" "sf_mem s' (h + 8) = n + 8" "sf_mem s' (h + 16) = n + 8"
      using nh [of 8] nh [of 16] nh [of 24] lm [of "n + 16"] lm [of "n + 24"] lm [of "h + 8"] lm [of "h + 16"]
      by (auto simp: link_single_def fl_head_def)
    have ep: "sf_mem s' (sf_mem_start t + 4088) = 1"
      using hp [of "sf_mem_start t + 4088"] i(1-3,7,10) u by (simp add: h_def B_def PAGE_SZ_def)
    have by1: "bytes h s' = B" using hp [of h] area i(6,7) by (simp add: bytes_def info_def)
    have "sf_mem s' x = sf_mem t x" if "sf_mem_start t + 40 \<le> x" "x < sf_mem_start t + 40 + used reqs" for x
      using that area i(1,7) by (intro hp) (simp_all add: h_def)
    then have bl: "blocks s' (sf_mem_start t + 40) reqs" by (rule blocks_cong [OF i(9,8)])
    have h16: "n + 8 + 8 = n + 16" "n + 8 + 16 = n + 24" by simp_all
    show ?thesis
      using f3 i(1-3,7,8) n3 a(3) e by1 bl ep unfolding bumped_def Let_def links_next_def links_prev_def fl_head_def h16
      by (simp add: h_def [symmetric] B_def [symmetric] lk)
  qed
  then show ?thesis using a(1,2,4) nh [of 8] unfolding B_def by (auto simp: nodes_ok_def)
qed

lemma best_fit_bumped:
  assumes c: "sfutil_nodes addfl owned lo hi" and b: "bumped owned lo hi qs r reqs s"
    and req: "0 < req" "req < 2 ^ 32" and room: "used reqs + padding req + 32 \<le> 4048"
  shows "\<exists>n s'. best_fit addfl req (padding req) r s = Some (sf_mem_start s + 48 + used reqs, s')
    \<and> bumped owned lo hi (qs @ [r]) n (reqs @ [req]) s' \<and> sf_mem_start s' = sf_mem_start s"
proof -
  define p where "p = padding req"
  define h where "h = sf_mem_start s + 40 + used reqs"
  define t where "t = split_block h req p s"
  let ?H = "sf_free_list_head s" and ?F = "4048 - used (reqs @ [req])"
  note sp = split_bumped [OF b req room, folded h_def, folded p_def, folded t_def]
  have fs: "(fl_size r t - p) mod 2 ^ 64 = ?F"
    using sp(3) padding_props [of req] req room used_props [of reqs] b by (auto simp: p_def bumped_def Let_def)
  have tp: "path t ?H (qs @ [r]) ?H" "fl_size ?H t = 0" "\<forall>q \<in> set (qs @ [r]). fl_size q t \<noteq> 0 \<and> fl_size q t \<noteq> ?F"
    using sp(1,4) by (auto simp: cut_def nodes_ok_def)
  have lh: "links_next (fl_head r) s = h" using b by (simp add: bumped_def Let_def h_def)
  have fp: "find_place ?F ?H (fl_prev ?H t) t = Some r" "fl_next r t = ?H"
    using tp(2) path_last [OF tp(1)] by (subst find_place.simps, simp_all)
  have h2: "sf_mem_start t + 40 + used (reqs @ [req]) = h + p" using sp(2) by (simp add: h_def p_def)
  obtain n s1 where n: "addfl ?F ?H t = (n, s1)" "n \<noteq> 0" and l: "\<And>s'. same {n + 8} (link_single n (h + p) s1) s' \<Longrightarrow>
      bumped owned lo hi (qs @ [r]) n (reqs @ [req]) s' \<and> sf_mem_start s' = sf_mem_start s \<and> sf_free_list_head s' = ?H"
    using link_cut [OF c sp(1), unfolded h2] unfolding sp(2,4) by blast
  define s' where "s' = set_info (\<lambda>i. i\<lparr>block_size := ?F div 16\<rparr>) (fl_head n) (link_single n (h + p) s1)"
  have "same {n + 8} (link_single n (h + p) s1) s'" by (simp add: s'_def fl_head_def same_set_info)
  note s' = l [OF this]
  then have "fl_size ?H s' = 0" by (auto simp: bumped_def Let_def nodes_ok_def)
  moreover from this have "find_list ?F ?H s' = Some ?H" by (subst find_list.simps) simp
  ultimately have "best_fit addfl req p r s = Some (h + 8, s')"
    unfolding best_fit_def Let_def lh t_def [symmetric] fs using find_list_none [OF tp] fp n tp(2) sp(4)
    by (simp add: s'_def [symmetric] del: used_simps)
  then show ?thesis using s' by (auto simp: h_def p_def)
qed

lemma malloc_bumped:
  assumes c: "sfutil_nodes addfl owned lo hi" and b: "bumped owned lo hi qs r reqs s"
    and req: "0 < req" "req < 2 ^ 32" and room: "used reqs + padding req + 32 \<le> 4048"
  shows "\<exists>n s'. sf_malloc grow addfl req s = Some (sf_mem_start s + 48 + used reqs, s')
    \<and> bumped owned lo hi (qs @ [r]) n (reqs @ [req]) s' \<and> sf_mem_start s' = sf_mem_start s"
proof -
  let ?H = "sf_free_list_head s" and ?h = "sf_mem_start s + 40 + used reqs"
  have i: "lo \<le> sf_mem_start s" "sf_mem_end s = sf_mem_start s + PAGE_SZ" "sf_mem_end s \<le> hi" "nodes_ok owned lo hi (qs @ [r]) s"
    "\<forall>q \<in> set qs. 4048 - used reqs < fl_size q s \<and> fl_size q s \<le> 4048 \<and> empty_list q s" "fl_size r s = 4048 - used reqs"
    "links_next (fl_head r) s = ?h" "small reqs" using b by (simp_all add: bumped_def Let_def)
  have p: "0 < padding req" "0 \<le> used reqs" using padding_props [of req] req used_props [OF i(8)] by auto
  have n: "path s ?H (qs @ [r]) ?H" "fl_size ?H s = 0" "r \<noteq> 0" using i(4) by (auto simp: nodes_ok_def)
  have "r + 8 \<noteq> ?h" using nodes_out [OF i(4), of r ?h "?h + 1" 8] i(1-3) p room by (auto simp: PAGE_SZ_def)
  then have "\<not> empty_list r s" using i(7) by (simp add: empty_list_def fl_head_def)
  then have "search req (padding req) (fl_next ?H s) 0 s = Some (Inr (r, s))"
    using i(5,6) p room by (intro search_larger [OF n(1,2)]) auto
  then show ?thesis
    using best_fit_bumped [OF c b req room] req n(3) i(2) by (simp add: sf_malloc_def PAGE_SZ_def)
qed

definition fresh_heap :: "(int \<Rightarrow> int set) \<Rightarrow> int \<Rightarrow> int \<Rightarrow> sfmm \<Rightarrow> bool" where
  "fresh_heap owned lo hi s \<longleftrightarrow> sf_mem_start s = sf_mem_end s \<and> lo \<le> sf_mem_start s \<and> sf_mem_start s + PAGE_SZ \<le> hi
     \<and> sf_mem_start s \<noteq> 0 \<and> nodes_ok owned lo hi [] s"

lemma init_mem_bumped:
  assumes c: "sfutil_nodes addfl owned lo hi" "sfutil_pages grow hi" and f: "fresh_heap owned lo hi s"
  shows "\<exists>n s'. init_mem grow addfl s = (True, s') \<and> bumped owned lo hi [] n [] s' \<and> sf_mem_start s' = sf_mem_start s"
proof -
  let ?a = "sf_mem_start s" and ?H = "sf_free_list_head s"
  have i: "sf_mem_end s = ?a" "lo \<le> ?a" "?a + 4096 \<le> hi" "?a \<noteq> 0" "nodes_ok owned lo hi [] s"
    using f by (simp_all add: fresh_heap_def PAGE_SZ_def)
  obtain m where g: "grow s = (?a, s\<lparr>sf_mem := m, sf_mem_end := ?a + 4096\<rparr>)" "\<forall>x. x \<notin> {?a..<?a + 4096} \<longrightarrow> m x = sf_mem s x"
    using spec [OF c(2) [unfolded sfutil_pages_def PAGE_SZ_def], of s] i(3) unfolding i(1) by auto
  define s0 where "s0 = s\<lparr>sf_mem := m, sf_mem_end := ?a + 4096\<rparr>"
  have s0: "sf_mem_start s0 = ?a" "sf_mem_end s0 = ?a + 4096" "sf_free_list_head s0 = ?H" "sf_util s0 = sf_util s" "sf_mem s0 = m"
    by (simp_all add: s0_def)
  have "outside lo hi ?H" using i(5) by (simp add: nodes_ok_def)
  then have Ha: "?H + k \<notin> {?a..<?a + 4096}" if "0 \<le> k" "k < 48" for k
    using that i(2,3) by (auto simp: outside_def)
  have n0: "nodes_ok owned lo hi [] s0"
    using i(5) s0 g(2) Ha [of 0] Ha [of 32] Ha [of 40] by (simp add: nodes_ok_def fl_size_def fl_next_def fl_prev_def)
  let ?W = "{?a..<?a + 4096}"
  have p: "same ?W s0 (init_prologue s0)" "sf_mem_start (init_prologue s0) = ?a" "sf_mem_end (init_prologue s0) = ?a + 4096"
    unfolding init_prologue_def Let_def case_prod_conv zero_header_def
    by (intro same_stores same_refl; simp add: s0) (simp_all add: s0)
  define t0 where "t0 = set_info (\<lambda>i. i\<lparr>allocated := 1\<rparr>) (4088 + ?a) (store (4088 + ?a) 0 (init_prologue s0))"
  define t1 where "t1 = set_info (\<lambda>i. i\<lparr>block_size := 253\<rparr>) (?a + 40) (zero_header (?a + 40) t0)"
  define t where "t = set_info (\<lambda>i. i\<lparr>block_size := 253\<rparr>) (4080 + ?a) (store (4080 + ?a) 0 t1)"
  have T: "same ?W s0 t"
    unfolding t_def t1_def t0_def zero_header_def by (intro same_stores p(1)) auto
  have "info (?a + 40) t = \<lparr>allocated = 0, prev_allocated = 0, two_zeroes = 0, block_size = 253, requested_size = 0\<rparr>"
    by (simp add: t_def t1_def info_set_info) (simp add: info_def zero_header_def decode_info_def set_info_mem encode_info_def)
  then have "bytes (?a + 40) t = 4048" by (simp add: bytes_def)
  moreover have nt: "nodes_ok owned lo hi [] t"
    using Ha [of 0] Ha [of 32] Ha [of 40] s0(3) by (intro nodes_ok_frame(1) [OF n0 T]) (auto simp: node_words_def)
  moreover have tf: "sf_mem_start t = ?a" "sf_mem_end t = ?a + 4096" "sf_free_list_head t = ?H" using same_fields [OF T] s0 by simp_all
  moreover have "sf_mem t (sf_mem_start t + 4088) = 1"
    unfolding tf by (simp add: t_def t1_def t0_def set_info_mem zero_header_def encode_info_def decode_info_def add.commute)
  ultimately have "cut owned lo hi [] [] t" using i(2,3) by (simp add: cut_def PAGE_SZ_def small_def)
  from link_cut [OF c(1) this] obtain n s1 where n: "addfl 4048 ?H t = (n, s1)" "n \<noteq> 0" "n + 8 \<noteq> ?a + 48" "n + 8 \<noteq> ?a + 56"
    "\<And>s'. same {n + 8} (link_single n (?a + 40) s1) s' \<Longrightarrow> bumped owned lo hi [] n [] s' \<and> sf_mem_start s' = ?a"
    unfolding tf by auto
  have "init_mem grow addfl s = (True, link_single n (?a + 40) (set_info (\<lambda>i. i\<lparr>block_size := 253\<rparr>) (fl_head n) s1))"
  proof -
    have "fl_next ?H t = ?H" using nt tf(3) by (simp add: nodes_ok_def)
    then have "addfl 4048 (fl_next (sf_free_list_head t) t) t = (n, s1)" using n(1) tf(3) by simp
    then show ?thesis
      using i(4) n(2) unfolding t_def t1_def t0_def
      by (simp add: init_mem_def g(1) s0_def [symmetric] Let_def p(2,3) PAGE_SZ_def zero_header_def)
  qed
  moreover have "same {n + 8} (link_single n (?a + 40) s1) (link_single n (?a + 40) (set_info (\<lambda>i. i\<lparr>block_size := 253\<rparr>) (fl_head n) s1))"
    unfolding same_def
    by (rule exI [of _ "sf_mem (link_single n (?a + 40) (set_info (\<lambda>i. i\<lparr>block_size := 253\<rparr>) (fl_head n) s1))"])
      (simp add: link_single_def set_info_def store_def fl_head_def)
  ultimately show ?thesis using n(5) by blast
qed

section \<open>A sequence of requests\<close>

fun mallocs :: "grow \<Rightarrow> add_free_list \<Rightarrow> int list \<Rightarrow> sfmm \<Rightarrow> (int list \<times> sfmm) option" where
  "mallocs grow addfl [] s = Some ([], s)"
| "mallocs grow addfl (req # reqs) s =
    Option.bind (sf_malloc grow addfl req s) (\<lambda>(p, s).
      Option.bind (mallocs grow addfl reqs s) (\<lambda>(ps, s). Some (p # ps, s)))"

lemma used_append: "used (as @ bs) = used as + used bs"
  by (simp add: used_def)

lemma small_append: "small (as @ bs) \<longleftrightarrow> small as \<and> small bs" "small (r # rs) \<longleftrightarrow> 0 < r \<and> r < 2 ^ 32 \<and> small rs"
  by (auto simp: small_def)

lemma mallocs_bumped:
  assumes "sfutil_nodes addfl owned lo hi" "bumped owned lo hi qs r rs s" "small reqs" "used (rs @ reqs) + 32 \<le> 4048"
  shows "\<exists>qs n s'. mallocs grow addfl reqs s = Some (bump (sf_mem_start s + 40 + used rs) reqs, s')
    \<and> bumped owned lo hi qs n (rs @ reqs) s' \<and> sf_mem_start s' = sf_mem_start s"
  using assms(2-)
proof (induction reqs arbitrary: qs r rs s)
  case (Cons req reqs)
  have p: "0 < req" "req < 2 ^ 32" "used rs + padding req + 32 \<le> 4048"
    using Cons.prems(2,3) used_props [of reqs] by (auto simp: small_append used_append)
  obtain n s1 where m: "sf_malloc grow addfl req s = Some (sf_mem_start s + 48 + used rs, s1)"
    "bumped owned lo hi (qs @ [r]) n (rs @ [req]) s1" "sf_mem_start s1 = sf_mem_start s"
    using malloc_bumped [OF assms(1) Cons.prems(1) p] by blast
  have "small reqs" "used ((rs @ [req]) @ reqs) + 32 \<le> 4048" using Cons.prems(2,3) by (simp_all add: small_append)
  from Cons.IH [OF m(2) this] obtain qs' n' s' where
    "mallocs grow addfl reqs s1 = Some (bump (sf_mem_start s + 40 + used rs + padding req) reqs, s')"
    "bumped owned lo hi qs' n' (rs @ req # reqs) s'" "sf_mem_start s' = sf_mem_start s"
    unfolding m(3) by (auto simp: add.assoc)
  then show ?case using m(1) by (intro exI [of _ qs'] exI [of _ n'] exI [of _ s']) simp
qed auto

lemma malloc_fresh:
  assumes "init_mem grow addfl s = (True, s')" "sf_mem_start s = sf_mem_end s" "sf_mem_start s' \<noteq> sf_mem_end s'" "req \<noteq> 0"
  shows "sf_malloc grow addfl req s = sf_malloc grow addfl req s'"
  using assms by (simp add: sf_malloc_def)

lemma bump_nth: "i < length reqs \<Longrightarrow> bump a reqs ! i = a + 8 + used (take i reqs)"
  by (induction reqs arbitrary: a i) (auto simp: nth_Cons split: nat.splits)

lemma length_bump [simp]: "length (bump a reqs) = length reqs"
  by (induction reqs arbitrary: a) auto

lemma used_take_Suc: "i < length reqs \<Longrightarrow> used (take (Suc i) reqs) = used (take i reqs) + padding (reqs ! i)"
  by (simp add: take_Suc_conv_app_nth)

lemma small_padding:
  assumes "small reqs" "i < length reqs"
  shows "reqs ! i + 8 \<le> padding (reqs ! i)" "0 \<le> padding (reqs ! i)"
proof -
  have "0 < reqs ! i" "reqs ! i < 2 ^ 32" using assms by (auto simp: small_def)
  then show "reqs ! i + 8 \<le> padding (reqs ! i)" "0 \<le> padding (reqs ! i)" using padding_props(1,3) [of "reqs ! i"] by simp_all
qed

lemma used_take_mono: "small reqs \<Longrightarrow> i \<le> j \<Longrightarrow> j \<le> length reqs \<Longrightarrow> used (take i reqs) \<le> used (take j reqs)"
proof (induction j)
  case (Suc j)
  have "0 \<le> padding (reqs ! j)" using small_padding(2) [of reqs j] Suc.prems by simp
  then show ?case using Suc used_take_Suc [of j reqs] by (cases "i = Suc j") auto
qed simp

lemma bump_disjoint:
  assumes "small reqs" "i < j" "j < length reqs"
  shows "bump a reqs ! i + reqs ! i \<le> bump a reqs ! j - 8"
proof -
  have "reqs ! i + 8 \<le> padding (reqs ! i)" using small_padding(1) [of reqs i] assms by simp
  then show ?thesis
    using used_take_mono [OF assms(1), of "Suc i" j] used_take_Suc [of i reqs] assms bump_nth [of i reqs a] bump_nth [of j reqs a] by auto
qed

lemma bump_inside:
  assumes "small reqs" "i < length reqs" "16 dvd a + 8"
  shows "16 dvd bump a reqs ! i" "a + 8 \<le> bump a reqs ! i" "bump a reqs ! i + reqs ! i \<le> a + used reqs"
proof -
  have "small (take i reqs)" using assms(1) by (auto simp: small_def dest: in_set_takeD)
  then show "16 dvd bump a reqs ! i" "a + 8 \<le> bump a reqs ! i"
    using used_props [of "take i reqs"] bump_nth [OF assms(2), of a] assms(3) by auto
  have "reqs ! i + 8 \<le> padding (reqs ! i)" using small_padding(1) [of reqs i] assms by simp
  then show "bump a reqs ! i + reqs ! i \<le> a + used reqs"
    using used_take_mono [OF assms(1), of "Suc i" "length reqs"] used_take_Suc [OF assms(2)] assms(2) bump_nth [OF assms(2), of a] by auto
qed

lemma mallocs_fresh:
  assumes "sfutil_nodes addfl owned lo hi" "sfutil_pages grow hi" "fresh_heap owned lo hi s" "small reqs" "reqs \<noteq> []" "used reqs \<le> 4016"
  shows "\<exists>qs m s'. mallocs grow addfl reqs s = Some (bump (sf_mem_start s + 40) reqs, s') \<and> bumped owned lo hi qs m reqs s'
    \<and> sf_mem_start s' = sf_mem_start s"
proof -
  obtain req rs where Cons: "reqs = req # rs" using assms(5) by (cases reqs) auto
  obtain n s1 where i: "init_mem grow addfl s = (True, s1)" "bumped owned lo hi [] n [] s1" "sf_mem_start s1 = sf_mem_start s"
    using init_mem_bumped [OF assms(1-3)] by blast
  have "sf_mem_start s1 \<noteq> sf_mem_end s1" using i(2) by (simp add: bumped_def Let_def PAGE_SZ_def)
  then have "sf_malloc grow addfl req s = sf_malloc grow addfl req s1"
    using assms(3,4) Cons by (intro malloc_fresh [OF i(1)]) (auto simp: fresh_heap_def small_def)
  then have "mallocs grow addfl reqs s = mallocs grow addfl reqs s1" by (simp add: Cons)
  then show ?thesis using mallocs_bumped [OF assms(1) i(2) assms(4), of grow] assms(6) i(3) by auto
qed

text \<open>
  C8. Until the first page is used up, \<open>sf_malloc\<close> is a bump allocator: on a heap that has not been
  initialized, the requests of a sequence get consecutive blocks from the start of the page, each of
  the padded size of its request, and the header of each block records that it is allocated, its size and
  the requested size, also after the later requests. So the pointers are multiples of 16 and the
  requested areas are disjoint and inside the page. The allocation of pages and of free list nodes
  is assumed to behave as \<open>sfmm.h\<close> documents it and not to run out of memory.
\<close>

theorem sf_malloc_bump:
  assumes "sfutil_nodes addfl owned lo hi" "sfutil_pages grow hi" "fresh_heap owned lo hi s" "16 dvd sf_mem_start s"
    "small reqs" "used reqs \<le> 4016"
  shows "\<exists>ps s'. mallocs grow addfl reqs s = Some (ps, s') \<and> ps = bump (sf_mem_start s + 40) reqs
    \<and> blocks s' (sf_mem_start s + 40) reqs
    \<and> (\<forall>i < length reqs. 16 dvd ps ! i \<and> sf_mem_start s + 48 \<le> ps ! i \<and> ps ! i + reqs ! i \<le> sf_mem_start s + 4096 - 8)
    \<and> (\<forall>j < length reqs. \<forall>i < j. ps ! i + reqs ! i < ps ! j)"
proof (cases "reqs = []")
  case False
  let ?a = "sf_mem_start s + 40"
  obtain qs m s' where "mallocs grow addfl reqs s = Some (bump ?a reqs, s')" "bumped owned lo hi qs m reqs s'"
    "sf_mem_start s' = sf_mem_start s"
    using mallocs_fresh [OF assms(1-3,5) False assms(6)] by blast
  moreover have "blocks s' ?a reqs" using calculation(2,3) by (simp add: bumped_def Let_def)
  moreover have "16 dvd ?a + 8" using assms(4) by simp
  ultimately show ?thesis
    using bump_inside [OF assms(5) _ \<open>16 dvd ?a + 8\<close>] bump_disjoint [OF assms(5), of _ _ ?a] assms(6)
    by fastforce
qed simp

section \<open>An example of sfutil\<close>

definition demo_grow :: grow where
  "demo_grow s =
    (if sf_mem_end s + 4096 \<le> 65536 then (sf_mem_end s, s\<lparr>sf_mem_end := sf_mem_end s + 4096\<rparr>)
     else (0, s\<lparr>sf_errno := ENOMEM\<rparr>))"

definition demo_add :: add_free_list where
  "demo_add sz x s =
    (let k = max 0 (sf_util s); n = 65536 + 48 + 48 * k
     in (n, (insert_node n sz 0 x s)\<lparr>sf_util := k + 1\<rparr>))"

definition demo_owned :: "int \<Rightarrow> int set" where
  "demo_owned u = insert 65536 ((\<lambda>k. 65536 + 48 + 48 * k) ` {0..<max 0 u})"

definition demo_heap :: sfmm where
  "demo_heap = \<lparr>sf_mem = (\<lambda>_. 0)(65536 + 32 := 65536, 65536 + 40 := 65536), sf_mem_start = 4096, sf_mem_end = 4096,
     sf_free_list_head = 65536, sf_cursor = 80, sf_errno = 0, sf_util = 0\<rparr>"

lemma demo_sfutil: "sfutil_nodes demo_add demo_owned 4096 65536" "sfutil_pages demo_grow 65536"
proof -
  have "{0..<max 0 u + 1} = insert (max 0 u) {0..<max 0 u}" for u :: int by auto
  then have o: "demo_owned (max 0 u + 1) = insert (65536 + 48 + 48 * max 0 u) (demo_owned u)" for u
    by (auto simp: demo_owned_def)
  have "\<forall>y \<in> demo_owned u. apart (65536 + 48 + 48 * max 0 u) y" for u by (auto simp: demo_owned_def apart_def)
  then show "sfutil_nodes demo_add demo_owned 4096 65536"
    using o unfolding sfutil_nodes_def demo_add_def Let_def by (fastforce simp: outside_def)
  show "sfutil_pages demo_grow 65536"
    unfolding sfutil_pages_def demo_grow_def PAGE_SZ_def by (auto intro!: exI [of _ "sf_mem _"])
qed

lemma demo_fresh: "fresh_heap demo_owned 4096 65536 demo_heap"
  by (simp add: fresh_heap_def demo_heap_def PAGE_SZ_def nodes_ok_def outside_def demo_owned_def fl_next_def fl_prev_def fl_size_def)

theorem sf_malloc_bump_witness:
  "\<exists>s'. mallocs demo_grow demo_add [1, 100, 24] demo_heap = Some ([4144, 4176, 4288], s') \<and> blocks s' 4136 [1, 100, 24]"
proof -
  have a: "16 dvd sf_mem_start demo_heap" by (simp add: demo_heap_def)
  have r: "small [1, 100, 24]" "used [1, 100, 24] \<le> 4016" by (simp_all add: small_def padding_def)
  have b: "sf_mem_start demo_heap + 40 = 4136" "bump 4136 [1, 100, 24] = [4144, 4176, 4288]"
    by (simp_all add: demo_heap_def padding_def)
  show ?thesis
    using sf_malloc_bump [OF demo_sfutil demo_fresh a r] unfolding b by (elim exE conjE) (simp only:, blast)
qed

end
