(* ===== verification/Sf_Extend.thy ===== *)
theory Sf_Extend
  imports Sf_Bump
begin

text \<open>
  \<open>sf_malloc\<close> when the first page is used up: the heap is extended by a page, and the new block starts
  at the old end of the heap, behind the old epilogue, so that its payload is not aligned.
\<close>

lemma store_same: "sf_mem s a = v \<Longrightarrow> store a v s = s"
  by (auto simp: store_def)

lemma search_none:
  "path s x ns H \<Longrightarrow> fl_size H s = 0 \<Longrightarrow> (\<forall>q \<in> set ns. fl_size q s \<noteq> 0 \<and> (fl_size q s < p \<or> empty_list q s)) \<Longrightarrow>
   search req p (fl_next x s) 0 s = Some (Inr (0, s))"
proof (induction ns arbitrary: x)
  case Nil
  then show ?case by (subst search.simps) simp
next
  case (Cons q ns)
  have ih: "search req p (fl_next q s) 0 s = Some (Inr (0, s))" using Cons.IH [of q] Cons.prems by simp
  have e: "store (fl_head q + 16) (fl_head q) (store (fl_head q + 8) (fl_head q) s) = s" if "empty_list q s"
    using that by (simp add: empty_list_def links_next_def links_prev_def store_same)
  show ?case using Cons.prems ih e by (subst search.simps) (auto simp: Let_def)
qed

lemma find_place_none:
  "path s x ns H \<Longrightarrow> fl_size H s = 0 \<Longrightarrow> (\<forall>q \<in> set ns. fl_size q s \<noteq> 0 \<and> fl_size q s \<le> sz) \<Longrightarrow>
   find_place sz (fl_next x s) y s = Some y"
proof (induction ns arbitrary: x)
  case Nil
  then show ?case by (subst find_place.simps) simp
next
  case (Cons q ns)
  then show ?case using Cons.IH [of q] by (subst find_place.simps) auto
qed

lemma find_list_any:
  "path s x ns H \<Longrightarrow> fl_size H s = 0 \<Longrightarrow> (\<forall>q \<in> set ns. fl_size q s \<noteq> 0) \<Longrightarrow>
   \<exists>c. find_list sz (fl_next x s) s = Some c \<and> (c = H \<or> fl_size c s \<noteq> 0)"
proof (induction ns arbitrary: x)
  case Nil
  then show ?case by (subst find_list.simps) simp
next
  case (Cons q ns)
  then show ?case using Cons.IH [of q] by (subst find_list.simps) auto
qed

lemma path_prev_next: "path s x ns y \<Longrightarrow> fl_next (fl_prev y s) s = y"
  by (induction ns arbitrary: x) auto

text \<open>The state after the extension: the new page is the only block of the new list \<open>n\<close>.\<close>

definition extended :: "(int \<Rightarrow> int set) \<Rightarrow> int \<Rightarrow> int \<Rightarrow> int list \<Rightarrow> int \<Rightarrow> int \<Rightarrow> sfmm \<Rightarrow> bool" where
  "extended owned lo hi ns n e s \<longleftrightarrow> nodes_ok owned lo hi (ns @ [n]) s \<and> (\<forall>q \<in> set ns. 0 < fl_size q s) \<and> fl_size n s = 4096
     \<and> links_next (fl_head n) s = e \<and> links_next e s = n + 8 \<and> links_prev e s = n + 8 \<and> bytes e s = 4096"

lemma extend_page:
  assumes c: "sfutil_nodes addfl owned lo hi" and g: "sfutil_pages grow hi"
    and n: "nodes_ok owned lo hi ns s" "\<forall>q \<in> set ns. 0 < fl_size q s \<and> fl_size q s \<le> 4048"
    and e: "sf_mem_end s = e" "lo + 16 \<le> e" "e + 4096 \<le> hi" "e \<noteq> 0" "sf_mem s (e - 8) = 1" and p: "0 < p" "p < 4096"
  shows "\<exists>n s'. extend grow addfl req p s = Some (Inr (n, s')) \<and> n \<noteq> 0 \<and> extended owned lo hi ns n e s'"
proof -
  let ?H = "sf_free_list_head s" and ?W = "{e..<e + 4096}"
  obtain m where m: "grow s = (e, s\<lparr>sf_mem := m, sf_mem_end := e + 4096\<rparr>)" "\<forall>x. x \<notin> ?W \<longrightarrow> m x = sf_mem s x"
    using spec [OF g [unfolded sfutil_pages_def PAGE_SZ_def], of s] e(3) unfolding e(1) by auto
  define s0 where "s0 = s\<lparr>sf_mem := m, sf_mem_end := e + 4096\<rparr>"
  define t where "t = claim_block e 4096 req s0"
  have T: "same ?W s0 t"
    unfolding t_def claim_block_def zero_header_def Let_def by (intro same_stores same_refl) (auto simp: s0_def)
  have mt: "sf_mem t x = sf_mem s x" if "x \<notin> ?W" for x using same_mem [OF T that] m(2) that by (simp add: s0_def)
  have tf: "sf_free_list_head t = ?H" "sf_mem_end t = e + 4096" "sf_util t = sf_util s" using same_fields [OF T] by (simp_all add: s0_def)
  have w: "z + k \<notin> ?W" if "z \<in> set (?H # ns)" "k \<in> {0, 32, 40}" for z k
    by (rule nodes_out [OF n(1) that(1)]) (use that(2) e(2,3) in auto)
  have ze: "fl_size z t = fl_size z s" "fl_next z t = fl_next z s" "fl_prev z t = fl_prev z s" if "z \<in> set (?H # ns)" for z
    using mt w [OF that, of 0] w [OF that, of 32] w [OF that, of 40] by (simp_all add: fl_size_def fl_next_def fl_prev_def)
  have "path t ?H ns ?H" by (rule path_cong [of s]) (use n(1) ze in \<open>auto simp: nodes_ok_def\<close>)
  then have nt: "nodes_ok owned lo hi ns t" using n(1) ze(1) tf by (simp add: nodes_ok_def)
  have tp: "path t ?H ns ?H" "fl_size ?H t = 0" using nt tf(1) by (simp_all add: nodes_ok_def)
  have ts: "\<forall>q \<in> set ns. 0 < fl_size q t \<and> fl_size q t \<le> 4048" using n(2) ze(1) by simp
  have fl: "find_list 4096 (fl_next ?H t) t = Some ?H" by (rule find_list_none [OF tp]) (use ts in auto)
  have fp: "find_place 4096 (fl_next ?H t) (fl_prev ?H t) t = Some (fl_prev ?H t)" by (rule find_place_none [OF tp]) (use ts in auto)
  obtain n s1 where a: "addfl 4096 ?H t = (n, s1)" "nodes_ok owned lo hi (ns @ [n]) s1" "fl_size n s1 = 4096" "sf_mem_end s1 = e + 4096"
    "sf_free_list_head s1 = ?H" "\<forall>a. a \<notin> {n..<n + 48} \<union> {?H + 40, last (?H # ns) + 32} \<longrightarrow> sf_mem s1 a = sf_mem t a"
    using add_last [OF c nt, of 4096] tf by auto
  have n0: "n \<noteq> 0" using a(2) by (auto simp: nodes_ok_def)
  define s2 where "s2 = link_single n e (set_info (\<lambda>i. i\<lparr>block_size := 256\<rparr>) (e + 4096 - 16) (set_info (\<lambda>i. i\<lparr>block_size := 256\<rparr>) (fl_head n) s1))"
  have ex: "exact_size grow 0 p s = Some (4096, s0)"
  proof -
    have "exact_size grow 4096 p s0 = Some (4096, s0)" using p by (subst exact_size.simps) simp
    then show ?thesis using p e(4) by (subst exact_size.simps) (simp add: m(1) s0_def [symmetric], simp add: s0_def)
  qed
  have "prev_allocated (info (e - 8) s) = 0" using e(5) by (simp add: info_def decode_info_def)
  then have "extend grow addfl req p s = Some (Inr (n, s2))"
    unfolding extend_def Let_def e(1) using ex p(2) n0 fl fp tp(2) path_prev_next [OF tp(1)] a(1) tf a(4)
    by (simp add: through_int_def t_def [symmetric] s2_def)
  moreover have "extended owned lo hi ns n e s2"
  proof -
    let ?V = "{n + 8, n + 16, n + 24} \<union> {e + 8, e + 16, e + 4096 - 16}"
    have V: "same ?V s1 s2"
      unfolding s2_def link_single_def by (intro same_stores same_refl) (auto simp: fl_head_def)
    note out = nodes_out [OF a(2), unfolded a(5)]
    have area: "lo \<le> e" "e + 4096 \<le> hi" using e(2,3) by simp_all
    have "node_words z \<inter> ?V = {}" if "z \<in> set (sf_free_list_head s1 # ns @ [n])" for z
      by (rule node_words_free [OF a(2) that _ area, of n]) auto
    note n2 = nodes_ok_frame [OF a(2) V this]
    have l: "last (?H # ns) \<in> set (?H # ns @ [n])" using last_in_set [of "?H # ns"] by auto
    have "e \<notin> {n..<n + 48}" using out [of n e "e + 1" "e - n"] area by auto
    moreover have "e \<noteq> ?H + 40" using out [of ?H e "e + 1" 40] area by auto
    moreover have "e \<noteq> last (?H # ns) + 32" using out [OF l, of e "e + 1" 32] area by auto
    ultimately have "sf_mem s2 e = sf_mem t e" using a(6) same_mem [OF V, of e] by auto
    then have "block_size (info e s2) = 256"
      by (simp add: info_def t_def claim_block_def Let_def set_info_mem s0_def zero_header_def)
    moreover have "fl_size q s2 = fl_size q t" if "q \<in> set ns" for q
    proof -
      have q: "q \<in> set (?H # ns @ [n])" "q \<noteq> n"
        using that a(2) by (auto simp: nodes_ok_def sorted_wrt_append apart_def)
      note wd = nodes_words [OF a(2), unfolded a(5)]
      have "q \<notin> {n..<n + 48} \<union> {?H + 40, last (?H # ns) + 32}"
        using wd [OF q(1), of n 0 "q - n"] wd [OF q(1), of ?H 0 40] wd [OF q(1) l, of 0 32] q(2) by auto
      then show ?thesis using a(6) n2(2) [of q] that by (simp add: fl_size_def)
    qed
    moreover have ne: "n + k \<noteq> e + 8" "n + k \<noteq> e + 16" if "0 \<le> k" "k < 48" for k
      using out [of n e "e + 4096" k] area that by auto
    have "sf_mem s2 (n + 16) = e" "sf_mem s2 (e + 8) = n + 8" "sf_mem s2 (e + 16) = n + 8"
      using ne [of 16] ne [of 24] by (simp_all add: s2_def link_single_def fl_head_def)
    moreover have n16: "n + 8 + 8 = n + 16" by simp
    ultimately show ?thesis
      using n2 ts a(3) unfolding extended_def bytes_def links_next_def links_prev_def fl_head_def n16 by simp
  qed
  ultimately show ?thesis using n0 by blast
qed


text \<open>The new page is split.\<close>

lemma best_fit_extended:
  assumes c: "sfutil_nodes addfl owned lo hi" and x: "extended owned lo hi ns n e s" and area: "lo \<le> e" "e + 4096 \<le> hi"
    and p: "32 \<le> p" "p + 32 \<le> 4096" "16 dvd p" and req: "0 < req" "req < 2 ^ 32"
  shows "\<exists>s'. best_fit addfl req p n s = Some (e + 8, s')"
proof -
  have i: "nodes_ok owned lo hi (ns @ [n]) s" "\<forall>q \<in> set ns. 0 < fl_size q s" "fl_size n s = 4096" "links_next (fl_head n) s = e"
    "links_next e s = n + 8" "links_prev e s = n + 8" "bytes e s = 4096" using x by (simp_all add: extended_def)
  define t where "t = split_block e req p s"
  let ?H = "sf_free_list_head s"
  have out: "n + 16 \<notin> {e..<e + 4096}" "n + 24 \<notin> {e..<e + 4096}" using nodes_out [OF i(1) _ area, of n 16] nodes_out [OF i(1) _ area, of n 24] by simp_all
  note eff = split_block_effect [OF i(5-7) p req out, folded t_def]
  have nw: "node_words z \<inter> ({n + 16, n + 24} \<union> {e..<e + 4096}) = {}" if "z \<in> set (?H # ns @ [n])" for z
    by (rule node_words_free [OF i(1) that _ area, of n]) auto
  have nt: "nodes_ok owned lo hi (ns @ [n]) t" by (rule nodes_ok_frame(1) [OF i(1) eff(1)]) (rule nw)
  have nz: "fl_size q t = fl_size q s" if "q \<in> set (ns @ [n])" for q
    by (rule nodes_ok_frame(2) [OF i(1) eff(1) _ that]) (rule nw)
  have tf: "sf_free_list_head t = ?H" using same_fields [OF eff(1)] by simp
  have "fl_size q t \<noteq> 0" if "q \<in> set (ns @ [n])" for q using nz [OF that] that i(2,3) by auto
  then have tp: "path t ?H (ns @ [n]) ?H" "fl_size ?H t = 0" "\<forall>q \<in> set (ns @ [n]). fl_size q t \<noteq> 0"
    using nt tf by (simp_all add: nodes_ok_def)
  have fs: "(fl_size n t - p) mod 2 ^ 64 = 4096 - p" using nz [of n] i(3) p(1,2) by simp
  obtain d where d: "find_list (4096 - p) (fl_next ?H t) t = Some d" "d = ?H \<or> fl_size d t \<noteq> 0"
    using find_list_any [OF tp] by blast
  show ?thesis
  proof (cases "fl_size d t = 0")
    case False
    then show ?thesis unfolding best_fit_def Let_def i(4) t_def [symmetric] fs tf d(1) by simp
  next
    case True
    then have dH: "d = ?H" using d(2) by blast
    have fp: "find_place (4096 - p) ?H (fl_prev ?H t) t = Some (fl_prev ?H t)" using tp(2) by (subst find_place.simps) simp
    obtain k s1 where a: "addfl (4096 - p) ?H t = (k, s1)" "nodes_ok owned lo hi ((ns @ [n]) @ [k]) s1" "sf_free_list_head s1 = ?H"
      using add_last [OF c nt, of "4096 - p"] p tf by auto
    define s2 where "s2 = set_info (\<lambda>i. i\<lparr>block_size := (4096 - p) div 16\<rparr>) (fl_head k) (link_single k (e + p) s1)"
    let ?V = "{k + 8, k + 16, k + 24} \<union> {e + p + 8, e + p + 16}"
    have V: "same ?V s1 s2" unfolding s2_def link_single_def by (intro same_stores same_refl) (auto simp: fl_head_def)
    have "node_words ?H \<inter> ?V = {}"
      by (rule node_words_free [OF a(2) _ _ area, of ?H k]) (use a(3) p in auto)
    then have "fl_size ?H s2 = 0"
      using same_mem [OF V, of ?H] a(2,3) by (auto simp: node_words_def nodes_ok_def fl_size_def)
    moreover from this have "find_list (4096 - p) ?H s2 = Some ?H" by (subst find_list.simps) simp
    moreover have "k \<noteq> 0" using a(2) by (auto simp: nodes_ok_def)
    ultimately show ?thesis
      unfolding best_fit_def Let_def i(4) t_def [symmetric] fs tf d(1) using True dH fp path_prev_next [OF tp(1)] a(1)
      by (simp add: s2_def [symmetric])
  qed
qed

lemma mallocs_snoc:
  "mallocs grow addfl reqs s = Some (ps, s') \<Longrightarrow> sf_malloc grow addfl req s' = Some (p, s'') \<Longrightarrow>
   mallocs grow addfl (reqs @ [req]) s = Some (ps @ [p], s'')"
  by (induction reqs arbitrary: s ps) (auto split: prod.splits bind_splits simp: Option.bind_eq_Some_conv)


text \<open>
  C40. When the rest of the first page is too small for a request, \<open>sf_malloc\<close> returns a pointer that is not
  aligned: the new block starts at the old end of the heap instead of at the old epilogue, and its
  payload is 8 bytes behind a multiple of 16. \<open>sfmm.h\<close> asks for payloads aligned to 16 bytes.
\<close>

theorem extended_heap_misaligned:
  assumes "sfutil_nodes addfl owned lo hi" "sfutil_pages grow hi" "fresh_heap owned lo hi s" "16 dvd sf_mem_start s"
    "0 \<le> sf_mem_start s" "sf_mem_start s + 2 * 4096 \<le> hi" "small (reqs @ [req])" "reqs \<noteq> []" "used reqs \<le> 4016"
    "4048 < used reqs + padding req" "padding req \<le> 4064"
  shows "\<exists>ps p s'. mallocs grow addfl (reqs @ [req]) s = Some (ps @ [p], s') \<and> p = sf_mem_start s + 4096 + 8 \<and> p mod 16 = 8"
proof -
  let ?e = "sf_mem_start s + 4096"
  have sm: "small reqs" "0 < req" "req < 2 ^ 32" using assms(7) by (simp_all add: small_append)
  obtain qs m s1 where b: "mallocs grow addfl reqs s = Some (bump (sf_mem_start s + 40) reqs, s1)" "bumped owned lo hi qs m reqs s1"
    "sf_mem_start s1 = sf_mem_start s"
    using mallocs_fresh [OF assms(1-3) sm(1) assms(8,9)] by blast
  let ?H = "sf_free_list_head s1"
  have i: "lo \<le> sf_mem_start s" "sf_mem_end s1 = ?e" "nodes_ok owned lo hi (qs @ [m]) s1"
    "\<forall>q \<in> set (qs @ [m]). 0 < fl_size q s1 \<and> fl_size q s1 \<le> 4048 \<and> (fl_size q s1 < padding req \<or> empty_list q s1)"
    "sf_mem s1 (?e - 8) = 1" "small reqs"
    using b(2,3) assms(10) used_props [OF sm(1)] by (auto simp: bumped_def Let_def PAGE_SZ_def add.commute [of 4088])
  have tp: "path s1 ?H (qs @ [m]) ?H" "fl_size ?H s1 = 0" using i(3) by (simp_all add: nodes_ok_def)
  have se: "search req (padding req) (fl_next ?H s1) 0 s1 = Some (Inr (0, s1))"
    by (rule search_none [OF tp]) (use i(4) in auto)
  have p: "32 \<le> padding req" "16 dvd padding req" using padding_props [of req] sm by auto
  obtain n s2 where x: "extend grow addfl req (padding req) s1 = Some (Inr (n, s2))" "n \<noteq> 0" "extended owned lo hi (qs @ [m]) n ?e s2"
    using extend_page [OF assms(1,2) i(3) _ i(2), of "padding req" req] i(1,4,5) assms(5,6,11) p by auto
  obtain s3 where "best_fit addfl req (padding req) n s2 = Some (?e + 8, s3)"
    using best_fit_extended [OF assms(1) x(3) _ _ p(1) _ p(2) sm(2,3)] i(1) assms(6,11) by auto
  then have "sf_malloc grow addfl req s1 = Some (?e + 8, s3)"
    using sm(2) se x(1) b(3) i(2) by (simp add: sf_malloc_def)
  then show ?thesis using mallocs_snoc [OF b(1)] assms(4) by (auto simp: dvd_def)
qed

theorem extended_heap_misaligned_witness:
  "\<exists>ps s'. mallocs demo_grow demo_add [4000, 40] demo_heap = Some (ps @ [8200], s') \<and> 8200 mod 16 = (8::int)"
proof -
  have h: "16 dvd sf_mem_start demo_heap" "0 \<le> sf_mem_start demo_heap" "sf_mem_start demo_heap + 2 * 4096 \<le> 65536"
    "sf_mem_start demo_heap + 4096 + 8 = 8200" by (simp_all add: demo_heap_def)
  have r: "small ([4000] @ [40])" "[4000] \<noteq> ([] :: int list)" "used [4000] \<le> 4016" "4048 < used [4000] + padding 40" "padding 40 \<le> 4064"
    by (simp_all add: small_def padding_def)
  show ?thesis
    using extended_heap_misaligned [OF demo_sfutil demo_fresh h(1-3) r] unfolding h(4) by auto
qed

text \<open>
  C34. \<open>padding\<close> gives the smallest multiple of 16 that is at least 32 and has room for the request and
  a header of 8 bytes, for every request for which such a number is below \<open>2 ^ 64\<close>. For the largest
  requests the sum wraps around, and the result is 0 or 32.
\<close>

theorem padding_exact:
  assumes "0 \<le> req" "req < 2 ^ 64"
  shows "if req \<le> 2 ^ 64 - 24
    then 16 dvd padding req \<and> req + 8 \<le> padding req \<and> 32 \<le> padding req
      \<and> (\<forall>x. 16 dvd x \<and> req + 8 \<le> x \<and> 32 \<le> x \<longrightarrow> padding req \<le> x)
    else padding req = (if req < 2 ^ 64 - 8 then 0 else 32)"
proof -
  define t where "t = req + 8"
  define q where "q = t mod 16"
  have m: "0 \<le> q" "q < 16" "16 dvd t - q" by (simp_all add: q_def)
  have p: "padding req = (let u = t mod 2 ^ 64 in if u < 32 then 32 else if u mod 16 = 0 then u else (u + (16 - u mod 16)) mod 2 ^ 64)"
    by (simp only: padding_def t_def)
  show ?thesis
  proof (cases "req \<le> 2 ^ 64 - 24")
    case True
    have r: "t mod 2 ^ 64 = t" using assms(1) True by (simp add: t_def)
    have w: "(t + (16 - q)) mod 2 ^ 64 = t + (16 - q)" if "q \<noteq> 0"
    proof -
      have "t \<noteq> 2 ^ 64 - 16" using that by (auto simp: q_def)
      then have "t < 2 ^ 64 - 16" using True by (simp add: t_def)
      then have "t + (16 - q) < 2 ^ 64" using m that by linarith
      then show ?thesis using assms(1) m(1,2) by (intro mod_pos_pos_trivial) (simp_all add: t_def)
    qed
    have p: "padding req = (if t < 32 then 32 else if q = 0 then t else t + (16 - q))"
      unfolding p r Let_def q_def [symmetric] using w by (cases "q = 0") simp_all
    have least: "t + (16 - q) \<le> x" if "16 dvd x" "t \<le> x" "q \<noteq> 0" for x
    proof -
      have "16 dvd x - (t - q)" using that(1) m(3) by (rule dvd_diff)
      then obtain k where k: "x - (t - q) = 16 * k" by (auto simp: dvd_def)
      then have "0 < 16 * k" using that m by linarith
      then have "1 \<le> k" by simp
      then show ?thesis using k by linarith
    qed
    have "16 dvd padding req" using m(3) dvd_add [OF m(3), of 16] by (auto simp: p algebra_simps)
    moreover have "req + 8 \<le> padding req" "32 \<le> padding req" using m by (simp_all only: p t_def [symmetric]) auto
    moreover have "padding req \<le> x" if "16 dvd x" "req + 8 \<le> x" "32 \<le> x" for x
      using that least [OF that(1)] unfolding p t_def [symmetric] by (cases "t < 32"; cases "q = 0") auto
    ultimately show ?thesis using True by auto
  next
    case False
    have f: "2 ^ 64 - 16 < t" "t < 2 ^ 64 + 8" using False assms by (simp_all add: t_def)
    show ?thesis
    proof (cases "t < 2 ^ 64")
      case True
      have r: "t mod 2 ^ 64 = t" using assms(1) True by (simp add: t_def)
      have "q = t - (2 ^ 64 - 16)" unfolding q_def by (rule int_mod_pos_eq [of _ _ "2 ^ 60 - 1"]) (use f(1) True in simp_all)
      then have "padding req = 0" unfolding p r Let_def q_def [symmetric] using f(1) by simp
      then show ?thesis using False True by (simp add: t_def)
    next
      case ge: False
      have "t mod 2 ^ 64 = t - 2 ^ 64" by (rule int_mod_pos_eq [of _ _ 1]) (use f(2) ge in simp_all)
      then have "padding req = 32" unfolding p Let_def using f(2) by simp
      then show ?thesis using False ge by (simp add: t_def)
    qed
  qed
qed

theorem padding_exact_witness: "16 dvd padding 25 \<and> 33 \<le> padding 25 \<and> padding (2 ^ 64 - 1) = 32"
  using padding_exact [of 25] padding_exact [of "2 ^ 64 - 1"] by simp

end
