(* ===== verification/Ecran_Screen.thy ===== *)
theory Ecran_Screen
  imports C_Prelude
begin

text \<open>
  The virtual screens of the terminal multiplexer (\<open>imprimer/src/vscreen.c\<close>). A line is the list of its
  cells, 0 where nothing was printed. The functions yield the sequence of the ncurses calls they make; what
  these calls do to the terminal is a parameter of the model, of which the locale \<open>terminal\<close> states the documented
  behaviour. The result \<open>None\<close> of \<open>vscreen_putc\<close> is an access outside of an
  array or a division by 0.
\<close>

section \<open>Screens\<close>

record VSCREEN =
  num_lines :: nat
  num_cols :: nat
  cur_line :: nat
  cur_col :: nat
  lines :: "u8 list list"
  line_changed :: "bool list"

datatype call = Wclear | Wmove nat nat | Wclrtoeol | Waddch u8 | Refresh | Flash | Endwin

text \<open>The printing characters of the C locale.\<close>

definition isprint :: "u8 \<Rightarrow> bool" where
  "isprint ch \<longleftrightarrow> 32 \<le> ch \<and> ch \<le> 126"

definition vscreen_init :: "nat \<Rightarrow> nat \<Rightarrow> VSCREEN" where
  "vscreen_init LINES COLS = \<lparr>num_lines = LINES, num_cols = COLS, cur_line = 0, cur_col = 0,
     lines = replicate LINES (replicate COLS 0), line_changed = replicate LINES False\<rparr>"

definition update_line :: "VSCREEN \<Rightarrow> nat \<Rightarrow> call list" where
  "update_line vs l =
    [Wmove l 0, Wclrtoeol]
    @ concat (map (\<lambda>c. let ch = lines vs ! l ! c in if isprint ch then [Waddch ch] else []) [0..<num_cols vs])
    @ [Wmove (cur_line vs) (cur_col vs), Refresh]"

fun redraw :: "nat list \<Rightarrow> VSCREEN \<Rightarrow> call list \<times> VSCREEN" where
  "redraw [] vs = ([], vs)"
| "redraw (l # ls) vs =
    (if line_changed vs ! l then
       let (cs, vs') = redraw ls (vs\<lparr>line_changed := (line_changed vs)[l := False]\<rparr>)
       in (update_line vs l @ cs, vs')
     else redraw ls vs)"

definition vscreen_sync :: "VSCREEN \<Rightarrow> call list \<times> VSCREEN" where
  "vscreen_sync vs =
    (let (cs, vs) = redraw [0..<num_lines vs] vs
     in (cs @ [Wmove (cur_line vs) (cur_col vs), Refresh], vs))"

definition vscreen_show :: "VSCREEN \<Rightarrow> call list \<times> VSCREEN" where
  "vscreen_show vs =
    (let (cs, vs) = redraw [0..<num_lines vs] vs
     in ([Wclear] @ cs @ [Wmove (cur_line vs) (cur_col vs), Refresh], vs))"

definition vscreen_putc :: "VSCREEN \<Rightarrow> u8 \<Rightarrow> VSCREEN option" where
  "vscreen_putc vs ch =
    (let l = cur_line vs; c = cur_col vs
     in if isprint ch then
          (if l < length (lines vs) \<and> c < length (lines vs ! l) \<and> l < length (line_changed vs) then
             let vs = vs\<lparr>lines := (lines vs)[l := (lines vs ! l)[c := ch]]\<rparr>;
                 vs = (if c + 1 < num_cols vs then vs\<lparr>cur_col := c + 1\<rparr> else vs)
             in Some (vs\<lparr>line_changed := (line_changed vs)[l := True]\<rparr>)
           else None)
        else if ch = 10 then
          (if num_lines vs = 0 then None
           else
             let l = (l + 1) mod num_lines vs; vs = vs\<lparr>cur_line := l\<rparr>
             in if l < length (lines vs) \<and> l < length (line_changed vs)
                then Some (vs\<lparr>lines := (lines vs)[l := replicate (num_cols vs) 0],
                            line_changed := (line_changed vs)[l := True]\<rparr>)
                else None)
        else if l < length (line_changed vs) then
          Some ((if ch = 13 then vs\<lparr>cur_col := 0\<rparr> else vs)\<lparr>line_changed := (line_changed vs)[l := True]\<rparr>)
        else None)"

fun vscreen_puts :: "VSCREEN \<Rightarrow> u8 list \<Rightarrow> VSCREEN option" where
  "vscreen_puts vs [] = Some vs"
| "vscreen_puts vs (ch # s) = Option.bind (vscreen_putc vs ch) (\<lambda>vs. vscreen_puts vs s)"

section \<open>Well-formed screens\<close>

definition screen_ok :: "VSCREEN \<Rightarrow> bool" where
  "screen_ok vs \<longleftrightarrow> cur_line vs < num_lines vs \<and> cur_col vs < num_cols vs \<and> length (lines vs) = num_lines vs
     \<and> length (line_changed vs) = num_lines vs
     \<and> (\<forall>l < num_lines vs. length (lines vs ! l) = num_cols vs \<and> (\<forall>ch \<in> set (lines vs ! l). ch = 0 \<or> isprint ch))"

lemma screen_ok_init: "0 < L \<Longrightarrow> 0 < C \<Longrightarrow> screen_ok (vscreen_init L C)"
  by (auto simp: screen_ok_def vscreen_init_def)

lemma putc_print:
  assumes "screen_ok vs" "isprint ch"
  shows "vscreen_putc vs ch = Some (vs\<lparr>lines := (lines vs)[cur_line vs := (lines vs ! cur_line vs)[cur_col vs := ch]],
    cur_col := (if cur_col vs + 1 < num_cols vs then cur_col vs + 1 else cur_col vs),
    line_changed := (line_changed vs)[cur_line vs := True]\<rparr>)"
  using assms by (cases vs) (simp add: vscreen_putc_def screen_ok_def Let_def)

lemma isprint_control: "\<not> isprint 10" "\<not> isprint 13"
  by (simp_all add: isprint_def)

lemma putc_newline:
  assumes "screen_ok vs"
  shows "vscreen_putc vs 10 = (let l = (cur_line vs + 1) mod num_lines vs in
    Some (vs\<lparr>cur_line := l, lines := (lines vs)[l := replicate (num_cols vs) 0], line_changed := (line_changed vs)[l := True]\<rparr>))"
  using assms by (cases vs) (simp add: vscreen_putc_def screen_ok_def Let_def isprint_control)

lemma putc_other:
  assumes "screen_ok vs" "\<not> isprint ch" "ch \<noteq> 10"
  shows "vscreen_putc vs ch = Some (vs\<lparr>cur_col := (if ch = 13 then 0 else cur_col vs), line_changed := (line_changed vs)[cur_line vs := True]\<rparr>)"
  using assms by (cases vs) (simp add: vscreen_putc_def screen_ok_def Let_def)

lemma set_update_cell: "\<forall>x \<in> set xs. P x \<Longrightarrow> P ch \<Longrightarrow> \<forall>x \<in> set (xs[i := ch]). P x"
  using set_update_subset_insert [of xs i ch] by auto

lemma screen_ok_line:
  "screen_ok vs \<Longrightarrow> l < num_lines vs \<Longrightarrow> length (lines vs ! l) = num_cols vs \<and> (\<forall>ch \<in> set (lines vs ! l). ch = 0 \<or> isprint ch)"
  by (simp add: screen_ok_def)

lemma screen_ok_put:
  assumes "screen_ok vs" "length xs = num_cols vs" "\<forall>ch \<in> set xs. ch = 0 \<or> isprint ch" "a < num_lines vs" "c < num_cols vs"
  shows "screen_ok (vs\<lparr>cur_line := a, cur_col := c, lines := (lines vs)[l := xs], line_changed := (line_changed vs)[m := b]\<rparr>)"
  unfolding screen_ok_def
proof (simp, intro conjI allI impI)
  fix k assume k: "k < num_lines vs"
  then have "(lines vs)[l := xs] ! k = (if k = l then xs else lines vs ! k)" using assms(1) by (simp add: screen_ok_def nth_list_update)
  then show "length ((lines vs)[l := xs] ! k) = num_cols vs" "\<forall>ch \<in> set ((lines vs)[l := xs] ! k). ch = 0 \<or> isprint ch"
    using screen_ok_line [OF assms(1) k] assms(2,3) by simp_all
qed (use assms in \<open>simp_all add: screen_ok_def\<close>)

lemma putc_ok:
  assumes "screen_ok vs"
  shows "\<exists>vs'. vscreen_putc vs ch = Some vs' \<and> screen_ok vs' \<and> num_lines vs' = num_lines vs \<and> num_cols vs' = num_cols vs"
proof (cases "isprint ch")
  case True
  let ?xs = "(lines vs ! cur_line vs)[cur_col vs := ch]" and ?c = "if cur_col vs + 1 < num_cols vs then cur_col vs + 1 else cur_col vs"
  have b: "cur_line vs < num_lines vs" "cur_col vs < num_cols vs" using assms by (simp_all add: screen_ok_def)
  have "\<forall>x \<in> set ?xs. x = 0 \<or> isprint x" by (rule set_update_cell) (use screen_ok_line [OF assms b(1)] True in auto)
  then have "screen_ok (vs\<lparr>cur_line := cur_line vs, cur_col := ?c, lines := (lines vs)[cur_line vs := ?xs], line_changed := (line_changed vs)[cur_line vs := True]\<rparr>)"
    by (intro screen_ok_put [OF assms]) (use screen_ok_line [OF assms b(1)] b in auto)
  then show ?thesis using putc_print [OF assms True] by (simp add: screen_ok_def split del: if_split)
next
  case p: False
  have b: "cur_line vs < num_lines vs" "cur_col vs < num_cols vs" "0 < num_lines vs" using assms by (auto simp: screen_ok_def)
  show ?thesis
  proof (cases "ch = 10")
    case True
    let ?l = "(cur_line vs + 1) mod num_lines vs"
    have "screen_ok (vs\<lparr>cur_line := ?l, cur_col := cur_col vs, lines := (lines vs)[?l := replicate (num_cols vs) 0], line_changed := (line_changed vs)[?l := True]\<rparr>)"
      by (intro screen_ok_put [OF assms]) (use b in auto)
    then show ?thesis using putc_newline [OF assms] True by (simp add: Let_def)
  next
    case False
    then show ?thesis using assms b putc_other [OF assms p False] by (auto simp: screen_ok_def)
  qed
qed

text \<open>
  C22. Whatever is output to a screen with at least one line and one column, \<open>vscreen_putc\<close> stays
  inside its arrays and never divides by 0; the screen keeps its dimensions, all its lines keep their
  width, every cell is empty or holds a printing character, and the cursor stays on the screen.
\<close>

theorem screen_stays_ok:
  assumes "screen_ok vs"
  shows "\<exists>vs'. vscreen_puts vs s = Some vs' \<and> screen_ok vs' \<and> num_lines vs' = num_lines vs \<and> num_cols vs' = num_cols vs"
  using assms
proof (induction s arbitrary: vs)
  case (Cons ch s)
  obtain v where v: "vscreen_putc vs ch = Some v" "screen_ok v" "num_lines v = num_lines vs" "num_cols v = num_cols vs"
    using putc_ok [OF Cons.prems] by blast
  with Cons.IH [OF v(2)] show ?case by simp
qed simp

theorem screen_stays_ok_witness:
  "\<exists>vs'. vscreen_puts (vscreen_init 2 3) [97, 98, 99, 100, 10, 10, 7, 13] = Some vs' \<and> screen_ok vs' \<and> num_cols vs' = 3"
  using screen_stays_ok [OF screen_ok_init [of 2 3], of "[97, 98, 99, 100, 10, 10, 7, 13]"]
  by (simp add: vscreen_init_def) blast

section \<open>The terminal\<close>

text \<open>
  What the program relies on of ncurses: a window of \<open>L\<close> lines and \<open>C\<close> columns with a cursor, and the screen that
  \<open>refresh\<close> makes equal to it. \<open>wmove\<close> moves the cursor; \<open>wclrtoeol\<close> erases from the cursor to the end of its line;
  \<open>waddch\<close> writes a printing character at the cursor and advances it, but nothing is assumed of the cursor when
  it leaves the last column; \<open>wclear\<close> erases the window and moves to its first cell; \<open>flash\<close> changes nothing.
\<close>

locale terminal =
  fixes L C :: nat
    and draw :: "call \<Rightarrow> 't \<Rightarrow> 't"
    and window :: "'t \<Rightarrow> u8 list list"
    and shown :: "'t \<Rightarrow> u8 list list"
    and cursor :: "'t \<Rightarrow> nat \<times> nat"
  assumes window_lines: "length (window t) = L"
    and window_cols: "l < L \<Longrightarrow> length (window t ! l) = C"
    and window_move: "window (draw (Wmove l c) t) = window t"
    and cursor_move: "l < L \<Longrightarrow> c < C \<Longrightarrow> cursor (draw (Wmove l c) t) = (l, c)"
    and window_clrtoeol: "cursor t = (l, c) \<Longrightarrow> l < L \<Longrightarrow> c < C
      \<Longrightarrow> window (draw Wclrtoeol t) = (window t)[l := take c (window t ! l) @ replicate (C - c) 32]"
    and cursor_clrtoeol: "cursor (draw Wclrtoeol t) = cursor t"
    and window_addch: "cursor t = (l, c) \<Longrightarrow> l < L \<Longrightarrow> c < C \<Longrightarrow> isprint ch
      \<Longrightarrow> window (draw (Waddch ch) t) = (window t)[l := (window t ! l)[c := ch]]"
    and cursor_addch: "cursor t = (l, c) \<Longrightarrow> l < L \<Longrightarrow> c + 1 < C \<Longrightarrow> isprint ch \<Longrightarrow> cursor (draw (Waddch ch) t) = (l, c + 1)"
    and window_clear: "window (draw Wclear t) = replicate L (replicate C 32)"
    and cursor_clear: "cursor (draw Wclear t) = (0, 0)"
    and refresh: "shown (draw Refresh t) = window t" "window (draw Refresh t) = window t" "cursor (draw Refresh t) = cursor t"
    and flash: "shown (draw Flash t) = shown t" "window (draw Flash t) = window t" "cursor (draw Flash t) = cursor t"

text \<open>The terminal after a sequence of calls, and what the program puts on it for a line: its printing characters from the first column on.\<close>

definition draws :: "(call \<Rightarrow> 't \<Rightarrow> 't) \<Rightarrow> call list \<Rightarrow> 't \<Rightarrow> 't" where
  "draws draw cs t = fold draw cs t"

definition drawn_line :: "nat \<Rightarrow> u8 list \<Rightarrow> u8 list" where
  "drawn_line C xs = (let p = filter isprint xs in p @ replicate (C - length p) 32)"

lemma draws_simps [simp]:
  "draws d [] t = t" "draws d (c # cs) t = draws d cs (d c t)" "draws d (cs @ ds) t = draws d ds (draws d cs t)"
  by (simp_all add: draws_def)

text \<open>A window as an array of cells, for which these laws hold.\<close>

type_synonym cells = "nat \<Rightarrow> nat \<Rightarrow> u8"

fun wdraw :: "nat \<Rightarrow> nat \<Rightarrow> call \<Rightarrow> cells \<times> cells \<times> nat \<times> nat \<Rightarrow> cells \<times> cells \<times> nat \<times> nat" where
  "wdraw L C (Wmove l c) (w, sh, y, x) = (if l < L \<and> c < C then (w, sh, l, c) else (w, sh, y, x))"
| "wdraw L C Wclrtoeol (w, sh, y, x) = (w(y := (\<lambda>c. if c < x then w y c else 32)), sh, y, x)"
| "wdraw L C (Waddch ch) (w, sh, y, x) =
    (w(y := (w y)(x := ch)), sh, if x + 1 < C then (y, x + 1) else if y + 1 < L then (y + 1, 0) else (y, x))"
| "wdraw L C Wclear (w, sh, y, x) = (\<lambda>_ _. 32, sh, 0, 0)"
| "wdraw L C Refresh (w, sh, y, x) = (w, w, y, x)"
| "wdraw L C Flash (w, sh, y, x) = (w, sh, y, x)"
| "wdraw L C Endwin (w, sh, y, x) = (w, sh, y, x)"

definition cells_of :: "nat \<Rightarrow> nat \<Rightarrow> cells \<Rightarrow> u8 list list" where
  "cells_of L C w = map (\<lambda>l. map (w l) [0..<C]) [0..<L]"

definition wwindow :: "nat \<Rightarrow> nat \<Rightarrow> cells \<times> cells \<times> nat \<times> nat \<Rightarrow> u8 list list" where
  "wwindow L C t = cells_of L C (fst t)"

definition wshown :: "nat \<Rightarrow> nat \<Rightarrow> cells \<times> cells \<times> nat \<times> nat \<Rightarrow> u8 list list" where
  "wshown L C t = cells_of L C (fst (snd t))"

definition wcursor :: "cells \<times> cells \<times> nat \<times> nat \<Rightarrow> nat \<times> nat" where
  "wcursor t = snd (snd t)"

lemma cells_of_update: "cells_of L C (w(l := f)) = (cells_of L C w)[l := map f [0..<C]]"
  by (rule nth_equalityI) (auto simp: cells_of_def nth_list_update)

lemma cells_of_nth: "l < L \<Longrightarrow> cells_of L C w ! l = map (w l) [0..<C]"
  by (simp add: cells_of_def)

lemma map_clrtoeol: "map (\<lambda>c. if c < x then f c else a) [0..<C] = take x (map f [0..<C]) @ replicate (C - x) a" if "x < C" for C :: nat
  using that by (intro nth_equalityI) (auto simp: nth_append)

lemma map_upd_cell: "map (f(x := a)) [0..<C] = (map f [0..<C])[x := a]" for C :: nat
  by (intro nth_equalityI) (auto simp: nth_list_update)

lemma map_const_upt: "map (\<lambda>_. a) [0..<n] = replicate n a"
  by (simp add: map_replicate_const)

interpretation window_model: terminal L C "wdraw L C" "wwindow L C" "wshown L C" wcursor for L C
proof (unfold_locales, goal_cases)
  case (3 l c t) show ?case by (cases t) (simp add: wwindow_def) next
  case (4 l c t) then show ?case by (cases t) (simp add: wcursor_def) next
  case (5 t l c) then show ?case by (cases t) (simp add: wwindow_def wcursor_def cells_of_update cells_of_nth map_clrtoeol) next
  case (6 t) show ?case by (cases t) (simp add: wcursor_def) next
  case (7 t l c ch) then show ?case by (cases t) (simp add: wwindow_def wcursor_def cells_of_update cells_of_nth map_upd_cell) next
  case (8 t l c ch) then show ?case by (cases t) (simp add: wcursor_def) next
  case (9 t) show ?case by (cases t) (simp add: wwindow_def cells_of_def map_const_upt) next
  case (10 t) show ?case by (cases t) (simp add: wcursor_def)
qed (auto simp: wwindow_def wshown_def wcursor_def cells_of_def)

section \<open>Screens that are updated\<close>

text \<open>
  The output and the updates of a program on the one screen that owns the physical screen, and the calls made
  so far; at first the screen is cleared.
\<close>

inductive screen_run :: "nat \<Rightarrow> nat \<Rightarrow> VSCREEN \<times> call list \<Rightarrow> bool" for L C :: nat where
  init: "screen_run L C (vscreen_init L C, [Wclear, Refresh])"
| putc: "screen_run L C (vs, cs) \<Longrightarrow> vscreen_putc vs ch = Some vs' \<Longrightarrow> screen_run L C (vs', cs)"
| sync: "screen_run L C (vs, cs) \<Longrightarrow> vscreen_sync vs = (ds, vs') \<Longrightarrow> screen_run L C (vs', cs @ ds)"

lemma screen_run_puts: "screen_run L C (vs, cs) \<Longrightarrow> vscreen_puts vs s = Some vs' \<Longrightarrow> screen_run L C (vs', cs)"
  by (induction s arbitrary: vs) (auto intro: screen_run.putc split: bind_splits)

section \<open>What the calls draw\<close>

lemma drawn_line_blank: "drawn_line C (replicate C 0) = replicate C 32"
  by (simp add: drawn_line_def Let_def isprint_def)

lemma length_drawn_line: "length xs = C \<Longrightarrow> length (drawn_line C xs) = C"
  using length_filter_le [of isprint xs] by (simp add: drawn_line_def Let_def)

lemma update_line_calls:
  assumes "length (lines vs ! l) = num_cols vs"
  shows "update_line vs l = [Wmove l 0, Wclrtoeol] @ map Waddch (filter isprint (lines vs ! l)) @ [Wmove (cur_line vs) (cur_col vs), Refresh]"
proof -
  have c: "concat (map (\<lambda>c. let ch = f c in if isprint ch then [Waddch ch] else []) cs) = map Waddch (filter isprint (map f cs))" for f :: "nat \<Rightarrow> u8" and cs
    by (induction cs) (simp_all add: Let_def)
  have "map (\<lambda>c. lines vs ! l ! c) [0..<num_cols vs] = lines vs ! l"
    using assms map_nth [of "lines vs ! l"] by simp
  then show ?thesis unfolding update_line_def c by simp
qed

lemma nth_clear: "l < length xs \<Longrightarrow> xs[a := False] ! l \<longleftrightarrow> xs ! l \<and> l \<noteq> a"
  by (cases "l = a") auto

lemma redraw_frame:
  "redraw ls vs = (cs, vs') \<Longrightarrow> \<exists>ch. vs' = vs\<lparr>line_changed := ch\<rparr> \<and> length ch = length (line_changed vs)
    \<and> (\<forall>l < length ch. ch ! l \<longleftrightarrow> line_changed vs ! l \<and> l \<notin> set ls)"
proof (induction ls arbitrary: vs cs)
  case Nil
  then show ?case by (intro exI [of _ "line_changed vs"]) simp
next
  case (Cons a ls)
  show ?case
  proof (cases "line_changed vs ! a")
    case True
    then obtain cs' where "redraw ls (vs\<lparr>line_changed := (line_changed vs)[a := False]\<rparr>) = (cs', vs')"
      using Cons.prems by (auto split: prod.splits)
    from Cons.IH [OF this] obtain ch where "vs' = vs\<lparr>line_changed := ch\<rparr>" "length ch = length (line_changed vs)"
      "\<forall>l < length ch. ch ! l \<longleftrightarrow> (line_changed vs)[a := False] ! l \<and> l \<notin> set ls" by auto
    then show ?thesis by (intro exI [of _ ch]) (auto simp: nth_clear)
  next
    case False
    with Cons.prems have "redraw ls vs = (cs, vs')" by simp
    from Cons.IH [OF this] False show ?thesis by auto
  qed
qed

lemma redraw_all:
  assumes "screen_ok vs" "redraw [0..<num_lines vs] vs = (cs, vs')"
  obtains ch where "vs' = vs\<lparr>line_changed := ch\<rparr>" "screen_ok vs'" "\<forall>l < num_lines vs. \<not> ch ! l"
proof -
  obtain ch where ch: "vs' = vs\<lparr>line_changed := ch\<rparr>" "length ch = length (line_changed vs)"
    "\<forall>l < length ch. ch ! l \<longleftrightarrow> line_changed vs ! l \<and> l \<notin> set [0..<num_lines vs]"
    using redraw_frame [OF assms(2)] by blast
  then show thesis using assms(1) by (intro that [of ch]) (auto simp: screen_ok_def)
qed

lemma vscreen_sync_cursor:
  "vscreen_sync vs = (ds, vs') \<Longrightarrow> cur_line vs' = cur_line vs \<and> cur_col vs' = cur_col vs"
  using redraw_frame [of "[0..<num_lines vs]" vs] by (auto simp: vscreen_sync_def split: prod.splits)

context terminal
begin

lemma draws_chars:
  "cursor t = (l, n) \<Longrightarrow> l < L \<Longrightarrow> list_all isprint cs \<Longrightarrow> n + length cs \<le> C
    \<Longrightarrow> window (draws draw (map Waddch cs) t) = (window t)[l := take n (window t ! l) @ cs @ drop (n + length cs) (window t ! l)]"
proof (induction cs arbitrary: n t)
  case Nil
  then show ?case by simp
next
  case (Cons ch cs)
  let ?t = "draw (Waddch ch) t"
  have p: "isprint ch" "n < C" "list_all isprint cs" using Cons.prems by simp_all
  have w: "window ?t = (window t)[l := (window t ! l)[n := ch]]" by (rule window_addch) (use Cons.prems p in auto)
  have len: "length (window t ! l) = C" "length (window t) = L" using window_cols [OF Cons.prems(2)] window_lines by auto
  show ?case
  proof (cases cs)
    case Nil
    then show ?thesis using w len p(2) upd_conv_take_nth_drop [of n "window t ! l" ch] by simp
  next
    case (Cons c cs')
    have "cursor ?t = (l, n + 1)" by (rule cursor_addch) (use Cons Cons.prems p in auto)
    from Cons.IH [OF this Cons.prems(2) p(3)] Cons.prems(4)
    have "window (draws draw (map Waddch cs) ?t) = (window ?t)[l := take (n + 1) (window ?t ! l) @ cs @ drop (n + 1 + length cs) (window ?t ! l)]"
      by simp
    also have "window ?t ! l = take n (window t ! l) @ ch # drop (n + 1) (window t ! l)"
      using w len p(2) Cons.prems(2) upd_conv_take_nth_drop [of n "window t ! l" ch] by simp
    finally show ?thesis using w len p(2) by (simp add: ac_simps)
  qed
qed

lemma draws_update_line:
  assumes "l < L" "cur_line vs < L" "cur_col vs < C" "length (lines vs ! l) = C" "num_cols vs = C"
  shows "window (draws draw (update_line vs l) t) = (window t)[l := drawn_line C (lines vs ! l)]"
proof -
  let ?p = "filter isprint (lines vs ! l)"
  define t1 where "t1 = draw Wclrtoeol (draw (Wmove l 0) t)"
  have C: "0 < C" using assms(3) by simp
  have m: "cursor (draw (Wmove l 0) t) = (l, 0)" by (rule cursor_move [OF assms(1) C])
  have w: "window t1 = (window t)[l := replicate C 32]"
    unfolding t1_def using window_clrtoeol [OF m assms(1) C] by (simp add: window_move)
  have "length ?p \<le> C" using length_filter_le [of isprint "lines vs ! l"] assms(4) by simp
  moreover have "cursor t1 = (l, 0)" by (simp add: t1_def cursor_clrtoeol m)
  ultimately have "window (draws draw (map Waddch ?p) t1) = (window t1)[l := take 0 (window t1 ! l) @ ?p @ drop (0 + length ?p) (window t1 ! l)]"
    by (intro draws_chars assms(1)) (auto simp: list_all_iff)
  also have "\<dots> = (window t)[l := drawn_line C (lines vs ! l)]"
    using w assms(1) window_lines by (simp add: drawn_line_def Let_def)
  finally show ?thesis using assms(4,5) update_line_calls [of vs l] by (simp add: t1_def window_move refresh)
qed

lemma redraw_window:
  assumes "screen_ok vs" "num_lines vs = L" "num_cols vs = C" "set ls \<subseteq> {..<L}" "distinct ls" "redraw ls vs = (cs, vs')" "k < L"
  shows "window (draws draw cs t) ! k = (if k \<in> set ls \<and> line_changed vs ! k then drawn_line C (lines vs ! k) else window t ! k)"
  using assms
proof (induction ls arbitrary: vs cs t)
  case (Cons a ls)
  show ?case
  proof (cases "line_changed vs ! a")
    case True
    define v where "v = vs\<lparr>line_changed := (line_changed vs)[a := False]\<rparr>"
    obtain cs' where c: "redraw ls v = (cs', vs')" "cs = update_line vs a @ cs'"
      using Cons.prems True by (auto simp: v_def split: prod.splits)
    have v: "screen_ok v" "num_lines v = L" "num_cols v = C" "lines v = lines vs" using Cons.prems(1-3) by (simp_all add: v_def screen_ok_def)
    have ch: "line_changed v ! l = line_changed vs ! l" if "l \<in> set ls" for l
      using that Cons.prems(5) by (cases "l = a") (auto simp: v_def)
    have "window (draws draw (update_line vs a) t) = (window t)[a := drawn_line C (lines vs ! a)]"
      by (rule draws_update_line) (use Cons.prems(1-4) screen_ok_line [of vs a] in \<open>auto simp: screen_ok_def\<close>)
    with Cons.IH [OF v(1-3) _ _ c(1) Cons.prems(7)] Cons.prems(4,5,7) True ch show ?thesis
      by (auto simp: c(2) v(4) window_lines nth_list_update)
  next
    case False
    then have "redraw ls vs = (cs, vs')" using Cons.prems(6) by simp
    from Cons.IH [OF Cons.prems(1-3) _ _ this Cons.prems(7)] Cons.prems(4,5) False show ?thesis by auto
  qed
qed simp

text \<open>Every line that is not marked as changed is drawn.\<close>

definition drawn :: "VSCREEN \<Rightarrow> 't \<Rightarrow> bool" where
  "drawn vs t \<longleftrightarrow> screen_ok vs \<and> num_lines vs = L \<and> num_cols vs = C
     \<and> (\<forall>l < L. line_changed vs ! l \<or> window t ! l = drawn_line C (lines vs ! l))"

lemma drawn_init: "0 < L \<Longrightarrow> 0 < C \<Longrightarrow> drawn (vscreen_init L C) (draws draw [Wclear, Refresh] t)"
  using screen_ok_init [of L C] by (auto simp: drawn_def vscreen_init_def drawn_line_blank refresh window_clear)

lemma drawn_putc:
  assumes "drawn vs t" "vscreen_putc vs ch = Some vs'"
  shows "drawn vs' t"
proof -
  have ok: "screen_ok vs" using assms(1) by (simp add: drawn_def)
  have n: "length (line_changed vs) = num_lines vs" "cur_line vs < num_lines vs" using ok by (auto simp: screen_ok_def)
  have "line_changed vs' ! l \<or> lines vs' ! l = lines vs ! l \<and> line_changed vs' ! l = line_changed vs ! l" if l: "l < num_lines vs" for l
  proof (cases "isprint ch")
    case True
    then show ?thesis using assms(2) putc_print [OF ok True] n l by (cases "l = cur_line vs") auto
  next
    case p: False
    show ?thesis
    proof (cases "ch = 10")
      case True
      then show ?thesis using assms(2) putc_newline [OF ok] n l
        by (cases "l = (cur_line vs + 1) mod num_lines vs") (auto simp: Let_def)
    next
      case False
      then show ?thesis using assms(2) putc_other [OF ok p False] n l by (cases "l = cur_line vs") auto
    qed
  qed
  moreover obtain "screen_ok vs'" "num_lines vs' = num_lines vs" "num_cols vs' = num_cols vs"
    using putc_ok [OF ok, of ch] assms(2) by auto
  ultimately show ?thesis using assms(1) unfolding drawn_def by metis
qed

lemma drawn_sync:
  assumes "drawn vs t" "vscreen_sync vs = (ds, vs')"
  shows "drawn vs' (draws draw ds t) \<and> lines vs' = lines vs
    \<and> window (draws draw ds t) = map (drawn_line C) (lines vs) \<and> shown (draws draw ds t) = map (drawn_line C) (lines vs)
    \<and> cursor (draws draw ds t) = (cur_line vs, cur_col vs)"
proof -
  have ok: "screen_ok vs" "num_lines vs = L" "num_cols vs = C" using assms(1) by (auto simp: drawn_def)
  obtain es where es: "redraw [0..<num_lines vs] vs = (es, vs')" "ds = es @ [Wmove (cur_line vs') (cur_col vs'), Refresh]"
    using assms(2) by (auto simp: vscreen_sync_def split: prod.splits)
  obtain ch where ch: "vs' = vs\<lparr>line_changed := ch\<rparr>" "screen_ok vs'" "\<forall>l < num_lines vs. \<not> ch ! l"
    using redraw_all [OF ok(1) es(1)] by blast
  have b: "cur_line vs < L" "cur_col vs < C" using ok by (auto simp: screen_ok_def)
  have "window (draws draw es t) ! l = drawn_line C (lines vs ! l)" if "l < L" for l
    using redraw_window [OF ok _ _ es(1) that, of t] assms(1) that by (auto simp: ok(2) drawn_def atLeast0LessThan)
  then have w: "window (draws draw es t) = map (drawn_line C) (lines vs)"
    using ok by (intro nth_equalityI) (auto simp: window_lines screen_ok_def)
  have l: "length (lines vs) = L" using ok by (auto simp: screen_ok_def)
  show ?thesis unfolding es(2) using w l b ch ok
    by (simp add: drawn_def window_move refresh cursor_move)
qed

lemma screen_run_drawn:
  assumes "0 < L" "0 < C" "screen_run L C (vs, cs)"
  shows "drawn vs (draws draw cs t)"
  using assms(3)
proof (induction "(vs, cs)" arbitrary: vs cs rule: screen_run.induct)
  case init
  then show ?case by (rule drawn_init [OF assms(1,2)])
next
  case (putc vs cs ch vs')
  then show ?case using drawn_putc by blast
next
  case (sync vs cs ds vs')
  then show ?case using drawn_sync [of vs "draws draw cs t" ds vs'] by simp
qed

lemma sync_draws:
  assumes "0 < L" "0 < C" "screen_run L C (vs, cs)" "vscreen_sync vs = (ds, vs')"
  shows "shown (draws draw (cs @ ds) t) = map (drawn_line C) (lines vs) \<and> cursor (draws draw (cs @ ds) t) = (cur_line vs, cur_col vs) \<and> lines vs' = lines vs"
  using drawn_sync [OF screen_run_drawn [OF assms(1-3)] assms(4)] by simp

end

lemma screen_run_size: "0 < L \<Longrightarrow> 0 < C \<Longrightarrow> screen_run L C (vs, cs) \<Longrightarrow> num_lines vs = L \<and> num_cols vs = C"
  using window_model.screen_run_drawn [of L C vs cs] by (simp add: window_model.drawn_def)

text \<open>
  C14. The economical update of \<open>vscreen_sync\<close> is right: on a terminal of the screen's size, after any sequence of
  output and updates, a further update leaves on every line of the physical screen exactly the
  printing characters of that line of the virtual screen, from the first column on, and blanks behind them, and the cursor at the
  virtual screen's cursor, although it redraws only the lines that were marked as changed.
\<close>

theorem sync_draws_all_lines:
  assumes "terminal L C draw window shown cursor" "0 < L" "0 < C" "screen_run L C (vs, cs)" "vscreen_sync vs = (ds, vs')"
  shows "shown (draws draw (cs @ ds) t) = map (drawn_line C) (lines vs) \<and> cursor (draws draw (cs @ ds) t) = (cur_line vs, cur_col vs) \<and> lines vs' = lines vs"
  by (rule terminal.sync_draws [OF assms])

theorem sync_draws_all_lines_witness:
  "\<exists>vs ds vs'. vscreen_puts (vscreen_init 2 3) [97, 98, 13, 10, 99] = Some vs \<and> vscreen_sync vs = (ds, vs')
    \<and> wshown 2 3 (draws (wdraw 2 3) ([Wclear, Refresh] @ ds) (\<lambda>_ _. 0, \<lambda>_ _. 0, 0, 0)) = [[97, 98, 32], [99, 32, 32]]"
proof -
  define vs where "vs = \<lparr>num_lines = 2, num_cols = 3, cur_line = 1, cur_col = 1, lines = [[97, 98, 0], [99, 0, 0]], line_changed = [True, True]\<rparr>"
  have p: "vscreen_puts (vscreen_init 2 3) [97, 98, 13, 10, 99] = Some vs" "map (drawn_line 3) (lines vs) = [[97, 98, 32], [99, 32, 32]]"
    unfolding vs_def by code_simp+
  obtain ds vs' where s: "vscreen_sync vs = (ds, vs')" by (cases "vscreen_sync vs")
  from sync_draws_all_lines [OF window_model.terminal_axioms _ _ screen_run_puts [OF screen_run.init p(1)] s]
  show ?thesis using p s by auto
qed

section \<open>Text\<close>

text \<open>Output in which every line feed comes when the cursor is in the first column, as a terminal driver sends it;
  the flag tells whether the cursor is there.\<close>

fun crlf :: "bool \<Rightarrow> u8 list \<Rightarrow> bool" where
  "crlf home [] \<longleftrightarrow> True"
| "crlf home (ch # s) \<longleftrightarrow>
    (if isprint ch then crlf False s else if ch = 10 then home \<and> crlf home s else crlf (home \<or> ch = 13) s)"

text \<open>A line whose cells are printed without gaps, at least up to a column.\<close>

definition no_gap :: "nat \<Rightarrow> u8 list \<Rightarrow> bool" where
  "no_gap n xs \<longleftrightarrow> (\<exists>t k. xs = t @ replicate k 0 \<and> list_all isprint t \<and> n \<le> length t)"

definition compact :: "bool \<Rightarrow> VSCREEN \<Rightarrow> bool" where
  "compact home vs \<longleftrightarrow> screen_ok vs \<and> (home \<longrightarrow> cur_col vs = 0) \<and> (\<forall>l < num_lines vs. no_gap 0 (lines vs ! l))
     \<and> no_gap (cur_col vs) (lines vs ! cur_line vs)"

lemma no_gap_mono: "no_gap n xs \<Longrightarrow> m \<le> n \<Longrightarrow> no_gap m xs"
  by (auto simp: no_gap_def dest: le_trans)

lemma no_gap_print: "no_gap n xs \<Longrightarrow> isprint ch \<Longrightarrow> n < length xs \<Longrightarrow> no_gap (n + 1) (xs[n := ch])"
proof -
  assume p: "isprint ch" "n < length xs"
  assume "no_gap n xs"
  then obtain t k where t: "xs = t @ replicate k 0" "list_all isprint t" "n \<le> length t" by (auto simp: no_gap_def)
  show ?thesis
  proof (cases "n < length t")
    case True
    have "list_all isprint (t[n := ch])" using t(2) p(1) set_update_subset_insert [of t n ch] by (auto simp: list_all_iff)
    then show ?thesis unfolding no_gap_def using t True
      by (intro exI [of _ "t[n := ch]"] exI [of _ k]) (simp add: list_update_append)
  next
    case False
    then have n: "n = length t" using t(3) by simp
    then obtain j where j: "k = Suc j" using p(2) t(1) by (cases k) auto
    show ?thesis unfolding no_gap_def using t n j p(1)
      by (intro exI [of _ "t @ [ch]"] exI [of _ j]) (simp add: list_update_append)
  qed
qed

lemma compact_putc:
  assumes "compact home vs" "crlf home (ch # s)" "vscreen_putc vs ch = Some vs'"
  shows "\<exists>home'. crlf home' s \<and> compact home' vs'"
proof -
  have ok: "screen_ok vs" "screen_ok vs'" and n': "num_lines vs' = num_lines vs"
    using assms(1,3) putc_ok [of vs ch] by (auto simp: compact_def)
  have n: "cur_line vs < num_lines vs" "length (lines vs) = num_lines vs" "0 < num_lines vs" "cur_col vs < length (lines vs ! cur_line vs)"
    "length (lines vs ! cur_line vs) = num_cols vs"
    using ok(1) by (auto simp: screen_ok_def)
  have g: "no_gap 0 (lines vs ! l)" if "l < num_lines vs" for l using assms(1) that by (simp add: compact_def)
  have gc: "no_gap (cur_col vs) (lines vs ! cur_line vs)" using assms(1) by (simp add: compact_def)
  show ?thesis
  proof (cases "isprint ch")
    case True
    have e: "lines vs' = (lines vs)[cur_line vs := (lines vs ! cur_line vs)[cur_col vs := ch]]" "cur_line vs' = cur_line vs"
      "cur_col vs' \<le> cur_col vs + 1"
      using assms(3) putc_print [OF ok(1) True] by auto
    note g1 = no_gap_print [OF gc True n(4)]
    have "no_gap 0 (lines vs' ! l)" if "l < num_lines vs" for l
      using g [OF that] no_gap_mono [OF g1, of 0] n(1,2) that by (cases "l = cur_line vs") (simp_all add: e)
    moreover have "no_gap (cur_col vs') (lines vs' ! cur_line vs')" using no_gap_mono [OF g1 e(3)] n(1,2) by (simp add: e)
    ultimately show ?thesis using assms(2) True ok(2) n' by (intro exI [of _ False]) (simp add: compact_def)
  next
    case p: False
    show ?thesis
    proof (cases "ch = 10")
      case True
      define l' where "l' = (cur_line vs + 1) mod num_lines vs"
      have l': "l' < num_lines vs" using n(3) by (simp add: l'_def)
      have h: home "cur_col vs = 0" using assms(1,2) True p by (auto simp: compact_def)
      have e: "lines vs' = (lines vs)[l' := replicate (num_cols vs) 0]" "cur_line vs' = l'" "cur_col vs' = 0"
        using assms(3) putc_newline [OF ok(1)] True h(2) by (auto simp: Let_def l'_def)
      have z: "no_gap 0 (replicate (num_cols vs) 0)"
        unfolding no_gap_def by (intro exI [of _ "[]"] exI [of _ "num_cols vs"]) simp
      have "no_gap 0 (lines vs' ! l)" if "l < num_lines vs" for l
        using g [OF that] z n(2) l' by (cases "l = l'") (simp_all add: e)
      moreover have "no_gap (cur_col vs') (lines vs' ! cur_line vs')" using z n(2) l' by (simp add: e)
      ultimately show ?thesis using assms(2) True p ok(2) n' e(3) h by (intro exI [of _ True]) (simp add: compact_def)
    next
      case False
      have e: "lines vs' = lines vs" "cur_line vs' = cur_line vs" "cur_col vs' = (if ch = 13 then 0 else cur_col vs)"
        using assms(3) putc_other [OF ok(1) p False] by auto
      show ?thesis using assms(1,2) p False ok(2) n' no_gap_mono [OF gc, of 0]
        by (intro exI [of _ "home \<or> ch = 13"]) (auto simp: compact_def e)
    qed
  qed
qed

lemma compact_puts: "compact home vs \<Longrightarrow> crlf home s \<Longrightarrow> vscreen_puts vs s = Some vs' \<Longrightarrow> \<exists>home'. compact home' vs'"
proof (induction s arbitrary: home vs)
  case (Cons ch s)
  then obtain v where "vscreen_putc vs ch = Some v" "vscreen_puts v s = Some vs'" by (auto split: bind_splits)
  with compact_putc [OF Cons.prems(1,2)] Cons.IH show ?case by blast
qed auto

lemma compact_init: "0 < L \<Longrightarrow> 0 < C \<Longrightarrow> compact True (vscreen_init L C)"
  unfolding compact_def no_gap_def using screen_ok_init [of L C]
  by (auto simp: vscreen_init_def intro!: exI [of _ "[]"] exI [of _ C])

lemma drawn_line_compact:
  assumes "no_gap 0 xs" "length xs = C"
  shows "drawn_line C xs = map (\<lambda>ch. if ch = 0 then 32 else ch) xs"
proof -
  have z: "\<not> isprint 0" by (simp add: isprint_def)
  obtain t k where t: "xs = t @ replicate k 0" "list_all isprint t" using assms(1) by (auto simp: no_gap_def)
  have "filter isprint xs = t" using t z by (simp add: list_all_iff)
  moreover have "map (\<lambda>ch. if ch = 0 then 32 else ch) t = t"
    using t(2) z by (intro map_idI) (auto simp: list_all_iff)
  ultimately show ?thesis using t(1) assms(2) by (auto simp: drawn_line_def)
qed

text \<open>
  C15. When every line feed comes in the first column, as in the output of a terminal driver, the physical
  screen shows the virtual one: after an update every line and column of it holds the character that the virtual screen has
  there, and a blank where the virtual screen has none.
\<close>

theorem text_is_shown:
  assumes "terminal L C draw window shown cursor" "0 < L" "0 < C" "crlf True s"
    "vscreen_puts (vscreen_init L C) s = Some vs" "vscreen_sync vs = (ds, vs')" "l < L" "c < C"
  shows "shown (draws draw ([Wclear, Refresh] @ ds) t) ! l ! c = (if lines vs ! l ! c = 0 then 32 else lines vs ! l ! c)"
proof -
  note run = screen_run_puts [OF screen_run.init assms(5)]
  have d: "shown (draws draw ([Wclear, Refresh] @ ds) t) = map (drawn_line C) (lines vs)"
    using terminal.sync_draws [OF assms(1-3) run assms(6)] by simp
  obtain home where h: "compact home vs" using compact_puts [OF compact_init [OF assms(2,3)] assms(4,5)] by blast
  have n: "num_lines vs = L" "num_cols vs = C" using screen_run_size [OF assms(2,3) run] by auto
  have l: "length (lines vs) = L" "length (lines vs ! l) = C" using h assms(7) n by (auto simp: compact_def screen_ok_def)
  moreover have "no_gap 0 (lines vs ! l)" using h assms(7) n by (auto simp: compact_def)
  ultimately show ?thesis unfolding d using drawn_line_compact [of "lines vs ! l" C] assms(7,8) by simp
qed

theorem text_is_shown_witness:
  "\<exists>vs ds vs'. vscreen_puts (vscreen_init 2 3) [97, 98, 13, 10, 99, 13, 100] = Some vs \<and> vscreen_sync vs = (ds, vs')
    \<and> wshown 2 3 (draws (wdraw 2 3) ([Wclear, Refresh] @ ds) (\<lambda>_ _. 0, \<lambda>_ _. 0, 0, 0)) ! 0 ! 1 = 98"
proof -
  define vs where "vs = \<lparr>num_lines = 2, num_cols = 3, cur_line = 1, cur_col = 1, lines = [[97, 98, 0], [100, 0, 0]], line_changed = [True, True]\<rparr>"
  have p: "vscreen_puts (vscreen_init 2 3) [97, 98, 13, 10, 99, 13, 100] = Some vs" "lines vs ! 0 ! 1 = 98"
    unfolding vs_def by code_simp+
  obtain ds vs' where s: "vscreen_sync vs = (ds, vs')" by (cases "vscreen_sync vs")
  have c: "crlf True [97, 98, 13, 10, 99, 13, 100]" by (simp add: isprint_def)
  from text_is_shown [OF window_model.terminal_axioms _ _ c p(1) s, of 0 1] show ?thesis using p s by auto
qed

text \<open>
  A line feed alone keeps the column, and the cells before it are empty; since the update skips empty cells,
  what follows is shown too far to the left.
\<close>

theorem newline_alone_shifts:
  "\<exists>vs ds vs'. vscreen_puts (vscreen_init 2 3) [97, 10, 98] = Some vs \<and> vscreen_sync vs = (ds, vs')
    \<and> lines vs ! 1 = [0, 98, 0] \<and> wshown 2 3 (draws (wdraw 2 3) ([Wclear, Refresh] @ ds) t) ! 1 = [98, 32, 32]"
proof -
  define vs where "vs = \<lparr>num_lines = 2, num_cols = 3, cur_line = 1, cur_col = 2, lines = [[97, 0, 0], [0, 98, 0]], line_changed = [True, True]\<rparr>"
  have p: "vscreen_puts (vscreen_init 2 3) [97, 10, 98] = Some vs" "lines vs ! 1 = [0, 98, 0]" "map (drawn_line 3) (lines vs) ! 1 = [98, 32, 32]"
    unfolding vs_def by code_simp+
  obtain ds vs' where s: "vscreen_sync vs = (ds, vs')" by (cases "vscreen_sync vs")
  from window_model.sync_draws [OF _ _ screen_run_puts [OF screen_run.init p(1)] s]
  show ?thesis using p s by auto
qed

text \<open>
  \<open>vscreen_show\<close> erases the physical screen but redraws only the lines that are marked as changed: on a screen
  that was just updated it shows nothing at all.
\<close>

theorem show_after_sync_is_blank:
  assumes "terminal L C draw window shown cursor" "screen_ok vs" "vscreen_sync vs = (cs, vs')" "vscreen_show vs' = (ds, vs'')"
  shows "shown (draws draw ds t) = replicate L (replicate C 32)"
proof -
  obtain es where es: "redraw [0..<num_lines vs] vs = (es, vs')"
    using assms(3) by (auto simp: vscreen_sync_def split: prod.splits)
  obtain ch where "vs' = vs\<lparr>line_changed := ch\<rparr>" "\<forall>l < num_lines vs. \<not> ch ! l"
    using redraw_all [OF assms(2) es] by blast
  then have n: "\<not> line_changed vs' ! l" if "l < num_lines vs'" for l using that by simp
  have "redraw ls vs' = ([], vs')" if "set ls \<subseteq> {..<num_lines vs'}" for ls
    using that by (induction ls) (simp_all add: n)
  then have "redraw [0..<num_lines vs'] vs' = ([], vs')" by (simp add: subset_eq)
  then have "ds = [Wclear, Wmove (cur_line vs') (cur_col vs'), Refresh]" using assms(4) by (auto simp: vscreen_show_def)
  then show ?thesis using assms(1) by (simp add: terminal.refresh terminal.window_move terminal.window_clear)
qed

end
