(* ===== verification/Ecran_Main.thy ===== *)
theory Ecran_Main
  imports Ecran_Screen
begin

text \<open>
  The sessions and the main loop of the terminal multiplexer (\<open>imprimer/src/session.c\<close>, \<open>mainloop.c\<close>,
  \<open>ecran.c\<close>). A pointer to a session is its index in the table; sessions are never removed. Pseudo
  terminals, \<open>fork\<close>, \<open>select\<close> and the keyboard are arguments; the program's effects on them are the bytes it writes to
  the descriptors and its ncurses calls. The result \<open>None\<close> is the use of a null pointer, an access outside of an array
  or a descriptor that does not fit into an \<open>fd_set\<close>. Allocations succeed.
\<close>

section \<open>Sessions\<close>

record SESSION =
  sid :: nat
  pid :: int
  ptyfd :: nat
  serror :: bool
  vscreen :: VSCREEN

record ecran =
  sessions :: "SESSION option list"
  fg_session :: "nat option"
  ptys :: "(nat \<times> u8) list"
  calls :: "call list"
  exited :: bool

definition MAX_SESSIONS :: nat where
  "MAX_SESSIONS = 10"

definition session_setfg :: "nat \<Rightarrow> ecran \<Rightarrow> ecran" where
  "session_setfg i s = s\<lparr>fg_session := Some i\<rparr>"

text \<open>The first free place of the table; \<open>mfd\<close> is the result of \<open>posix_openpt\<close>, \<open>child\<close> that of \<open>fork\<close>.\<close>

fun session_init_from :: "nat \<Rightarrow> nat \<Rightarrow> nat \<Rightarrow> nat option \<Rightarrow> int \<Rightarrow> ecran \<Rightarrow> nat list \<Rightarrow> nat option \<times> ecran" where
  "session_init_from L C i mfd child s [] = (None, s)"
| "session_init_from L C i mfd child s (k # ks) =
    (if sessions s ! k = None then
       (case mfd of
          None \<Rightarrow> (None, s)
        | Some fd \<Rightarrow>
            let s = s\<lparr>sessions := (sessions s)[k := Some \<lparr>sid = k, pid = child, ptyfd = fd, serror = False, vscreen = vscreen_init L C\<rparr>]\<rparr>
            in (Some k, session_setfg k s))
     else session_init_from L C i mfd child s ks)"

definition session_init :: "nat \<Rightarrow> nat \<Rightarrow> nat option \<Rightarrow> int \<Rightarrow> ecran \<Rightarrow> nat option \<times> ecran" where
  "session_init L C mfd child s = session_init_from L C 0 mfd child s [0..<MAX_SESSIONS]"

text \<open>\<open>wr\<close> is the result of \<open>write\<close>, which takes the byte when it is 1; the descriptor does not block, so that a full
  pseudo terminal gives -1.\<close>

definition session_putc :: "(nat \<Rightarrow> u8 \<Rightarrow> int) \<Rightarrow> nat option \<Rightarrow> u8 \<Rightarrow> ecran \<Rightarrow> (int \<times> ecran) option" where
  "session_putc wr sess c s =
    (case sess of
       None \<Rightarrow> None
     | Some i \<Rightarrow>
        (case sessions s ! i of
           None \<Rightarrow> None
         | Some se \<Rightarrow>
             let n = wr (ptyfd se) c
             in Some (n, if n = 1 then s\<lparr>ptys := ptys s @ [(ptyfd se, c)]\<rparr> else s)))"

section \<open>The program\<close>

definition curses_init :: "ecran \<Rightarrow> ecran" where
  "curses_init s = s\<lparr>calls := calls s @ [Wclear, Refresh]\<rparr>"

definition curses_fini :: "ecran \<Rightarrow> ecran" where
  "curses_fini s = s\<lparr>calls := calls s @ [Endwin]\<rparr>"

definition finalize :: "ecran \<Rightarrow> ecran" where
  "finalize s = (curses_fini s)\<lparr>exited := True\<rparr>"

definition no_sessions :: ecran where
  "no_sessions = \<lparr>sessions = replicate MAX_SESSIONS None, fg_session = None, ptys = [], calls = [], exited = False\<rparr>"

definition initialize :: "nat \<Rightarrow> nat \<Rightarrow> nat option \<Rightarrow> int \<Rightarrow> ecran" where
  "initialize L C mfd child = snd (session_init L C mfd child (curses_init no_sessions))"

definition do_command :: "int \<Rightarrow> ecran \<Rightarrow> ecran" where
  "do_command ch s = (if ch = 113 then finalize s else s\<lparr>calls := calls s @ [Flash]\<rparr>)"

text \<open>The descriptors to wait for and one more than the descriptor of the last session. An \<open>fd_set\<close> has room for the
  descriptors below \<open>FD_SETSIZE\<close>.\<close>

definition FD_SETSIZE :: nat where
  "FD_SETSIZE = 1024"

fun setfds :: "SESSION option list \<Rightarrow> nat set \<Rightarrow> int \<Rightarrow> (nat set \<times> int) option" where
  "setfds [] fds mx = Some (fds, mx + 1)"
| "setfds (None # ss) fds mx = setfds ss fds mx"
| "setfds (Some se # ss) fds mx =
    (if \<not> serror se then
       (if ptyfd se < FD_SETSIZE then setfds ss (insert (ptyfd se) fds) (int (ptyfd se)) else None)
     else setfds ss fds mx)"

text \<open>The characters that were read go to the screen one by one, each with an update.\<close>

fun show_output :: "VSCREEN \<Rightarrow> u8 list \<Rightarrow> (call list \<times> VSCREEN) option" where
  "show_output vs [] = Some ([], vs)"
| "show_output vs (ch # s) =
    Option.bind (vscreen_putc vs ch) (\<lambda>vs.
      let (cs, vs) = vscreen_sync vs
      in Option.bind (show_output vs s) (\<lambda>(ds, vs). Some (cs @ ds, vs)))"

text \<open>One iteration of the loop. \<open>tk_key\<close> is the result of \<open>wgetch\<close>, none for \<open>ERR\<close>; \<open>tk_cmd\<close> the character after an escape;
  \<open>tk_wr\<close> is \<open>write\<close>;
  \<open>tk_sel\<close> is \<open>select\<close>: the descriptors left in the set, or none when its result is not positive; \<open>tk_rd\<close> is
  \<open>session_read\<close>: at most 100 bytes, or none for \<open>EOF\<close>.\<close>

record tick =
  tk_key :: "int option"
  tk_cmd :: int
  tk_wr :: "nat \<Rightarrow> u8 \<Rightarrow> int"
  tk_sel :: "nat set \<Rightarrow> int \<Rightarrow> nat set option"
  tk_rd :: "nat \<Rightarrow> u8 list option"

definition read_session :: "(nat \<Rightarrow> u8 list option) \<Rightarrow> nat set \<Rightarrow> nat \<Rightarrow> ecran \<Rightarrow> ecran option" where
  "read_session rd fds i s =
    (case sessions s ! i of
       None \<Rightarrow> Some s
     | Some se \<Rightarrow>
        (if FD_SETSIZE \<le> ptyfd se then None
         else if ptyfd se \<in> fds then
           (case rd (ptyfd se) of
              None \<Rightarrow> Some (s\<lparr>sessions := (sessions s)[i := Some (se\<lparr>serror := True\<rparr>)]\<rparr>)
            | Some bytes \<Rightarrow>
               Option.bind (show_output (vscreen se) bytes) (\<lambda>(cs, vs).
                 Some (s\<lparr>sessions := (sessions s)[i := Some (se\<lparr>vscreen := vs\<rparr>)], calls := calls s @ cs\<rparr>)))
         else Some s))"

fun read_sessions :: "(nat \<Rightarrow> u8 list option) \<Rightarrow> nat set \<Rightarrow> nat list \<Rightarrow> ecran \<Rightarrow> ecran option" where
  "read_sessions rd fds [] s = Some s"
| "read_sessions rd fds (i # is) s = Option.bind (read_session rd fds i s) (read_sessions rd fds is)"

definition keyboard :: "tick \<Rightarrow> ecran \<Rightarrow> ecran option" where
  "keyboard t s =
    (case tk_key t of
       None \<Rightarrow> Some s
     | Some c \<Rightarrow> if c = 1 then Some (do_command (tk_cmd t) s) else map_option snd (session_putc (tk_wr t) (fg_session s) (of_int c) s))"

definition mainloop_step :: "tick \<Rightarrow> ecran \<Rightarrow> ecran option" where
  "mainloop_step t s =
    Option.bind (keyboard t s) (\<lambda>s.
      if exited s then Some s
      else
        Option.bind (setfds (sessions s) {} (-1)) (\<lambda>(fds, nfds).
          case tk_sel t fds nfds of
            None \<Rightarrow> Some s
          | Some ready \<Rightarrow> read_sessions (tk_rd t) ready [0..<MAX_SESSIONS] s))"

fun mainloop :: "tick list \<Rightarrow> ecran \<Rightarrow> ecran option" where
  "mainloop [] s = Some s"
| "mainloop (t # ts) s = (if exited s then Some s else Option.bind (mainloop_step t s) (mainloop ts))"

section \<open>The running program\<close>

text \<open>The keys that the session gets until the quit command: those whose write succeeds.\<close>

fun typed :: "nat \<Rightarrow> tick list \<Rightarrow> u8 list" where
  "typed fd [] = []"
| "typed fd (t # ts) =
    (case tk_key t of
       None \<Rightarrow> typed fd ts
     | Some c \<Rightarrow>
         if c = 1 then (if tk_cmd t = 113 then [] else typed fd ts)
         else if tk_wr t fd (of_int c) = 1 then of_int c # typed fd ts
         else typed fd ts)"

lemma read_sessions_none:
  "\<forall>i \<in> set is. sessions s ! i = None \<Longrightarrow> read_sessions r fds is s = Some s"
  by (induction "is") (simp_all add: read_session_def)

lemma setfds_none: "setfds (replicate n None) fds mx = Some (fds, mx + 1)"
  by (induction n) simp_all

context terminal
begin

text \<open>The physical screen and the window show a virtual screen.\<close>

definition displays :: "VSCREEN \<Rightarrow> 't \<Rightarrow> bool" where
  "displays vs t \<longleftrightarrow> screen_ok vs \<and> num_lines vs = L \<and> num_cols vs = C \<and> window t = map (drawn_line C) (lines vs)
     \<and> shown t = map (drawn_line C) (lines vs) \<and> cursor t = (cur_line vs, cur_col vs)"

lemma displays_drawn: "displays vs t \<Longrightarrow> drawn vs t"
  by (auto simp: displays_def drawn_def screen_ok_def)

lemma displays_init: "0 < L \<Longrightarrow> 0 < C \<Longrightarrow> displays (vscreen_init L C) (draws draw [Wclear, Refresh] t)"
  using screen_ok_init [of L C]
  by (simp add: displays_def vscreen_init_def refresh window_clear cursor_clear drawn_line_blank)

lemma show_output_displays:
  "displays vs t \<Longrightarrow> \<exists>ds vs'. show_output vs s = Some (ds, vs') \<and> displays vs' (draws draw ds t)"
proof (induction s arbitrary: vs t)
  case (Cons ch s)
  then have ok: "screen_ok vs" by (simp add: displays_def)
  obtain v where v: "vscreen_putc vs ch = Some v" using putc_ok [OF ok] by blast
  obtain es w where w: "vscreen_sync v = (es, w)" by (cases "vscreen_sync v")
  have d: "drawn v t" by (rule drawn_putc [OF displays_drawn [OF Cons.prems] v])
  have "displays w (draws draw es t)"
    using drawn_sync [OF d w] vscreen_sync_cursor [OF w] by (auto simp: displays_def drawn_def)
  from Cons.IH [OF this] show ?case using v w by auto
qed simp

text \<open>The program that \<open>initialize\<close> starts has the one session in the first place, and the terminal shows it.\<close>

definition running :: "nat \<Rightarrow> 't \<Rightarrow> ecran \<Rightarrow> bool" where
  "running fd t s \<longleftrightarrow> fg_session s = Some 0 \<and> (\<exists>se. sessions s = Some se # replicate 9 None \<and> ptyfd se = fd
     \<and> screen_ok (vscreen se) \<and> (\<not> exited s \<longrightarrow> displays (vscreen se) (draws draw (calls s) t)))"

lemma running_initialize:
  assumes "0 < L" "0 < C"
  shows "running fd t (initialize L C (Some fd) child)" "ptys (initialize L C (Some fd) child) = []"
    "\<not> exited (initialize L C (Some fd) child)"
proof -
  have i: "session_init L C (Some fd) child (curses_init no_sessions)
    = (Some 0, session_setfg 0 ((curses_init no_sessions)\<lparr>sessions := Some \<lparr>sid = 0, pid = child, ptyfd = fd, serror = False, vscreen = vscreen_init L C\<rparr> # replicate 9 None\<rparr>))"
    by (simp add: session_init_def MAX_SESSIONS_def upt_rec curses_init_def no_sessions_def numeral_eq_Suc)
  show "running fd t (initialize L C (Some fd) child)" "ptys (initialize L C (Some fd) child) = []" "\<not> exited (initialize L C (Some fd) child)"
    unfolding initialize_def i using screen_ok_init [OF assms] displays_init [OF assms, of t]
    by (auto simp: running_def session_setfg_def curses_init_def no_sessions_def)
qed

lemma running_keyboard:
  assumes "running fd t s" "\<not> exited s"
  shows "\<exists>s'. keyboard k s = Some s' \<and> running fd t s' \<and> exited s' = (tk_key k = Some 1 \<and> tk_cmd k = 113)
    \<and> ptys s' = ptys s @ map (Pair fd) (typed fd [k])"
proof (cases "tk_key k")
  case None
  then show ?thesis using assms by (simp add: keyboard_def)
next
  case (Some c)
  show ?thesis
  proof (cases "c = 1")
    case True
    then show ?thesis using Some assms
      by (auto simp: keyboard_def do_command_def finalize_def curses_fini_def running_def displays_def flash)
  next
    case False
    then show ?thesis using Some assms
      by (auto simp: keyboard_def session_putc_def running_def Let_def)
  qed
qed

lemma running_select:
  assumes "running fd t s" "fd < FD_SETSIZE"
  shows "\<exists>fds nfds. setfds (sessions s) {} (-1) = Some (fds, nfds)"
proof -
  obtain se where "sessions s = Some se # replicate 9 None" "ptyfd se < FD_SETSIZE" using assms by (auto simp: running_def)
  then show ?thesis by (cases "serror se") (simp_all add: setfds_none)
qed

lemma running_read:
  assumes "running fd t s" "fd < FD_SETSIZE" "\<not> exited s"
  shows "\<exists>s'. read_sessions r fds [0..<MAX_SESSIONS] s = Some s' \<and> running fd t s' \<and> ptys s' = ptys s \<and> \<not> exited s'"
proof -
  obtain se where se: "sessions s = Some se # replicate 9 None" "ptyfd se = fd" "screen_ok (vscreen se)"
    "fg_session s = Some 0" "displays (vscreen se) (draws draw (calls s) t)"
    using assms by (auto simp: running_def)
  have "\<exists>s'. read_session r fds 0 s = Some s' \<and> running fd t s' \<and> ptys s' = ptys s \<and> \<not> exited s'"
  proof (cases "fd \<in> fds")
    case False
    then show ?thesis using assms se by (simp add: read_session_def)
  next
    case True
    show ?thesis
    proof (cases "r fd")
      case None
      then show ?thesis using True se assms(2,3) by (simp add: read_session_def running_def)
    next
      case (Some bytes)
      obtain ds vs where o: "show_output (vscreen se) bytes = Some (ds, vs)" "displays vs (draws draw ds (draws draw (calls s) t))"
        using show_output_displays [OF se(5)] by blast
      moreover have "screen_ok vs" using o(2) by (simp add: displays_def)
      ultimately show ?thesis using True Some se assms(2,3) by (simp add: read_session_def running_def)
    qed
  qed
  then obtain s1 where s1: "read_session r fds 0 s = Some s1" "running fd t s1" "ptys s1 = ptys s" "\<not> exited s1" by blast
  have "sessions s1 ! i = None" if "i \<in> set [1..<10]" for i
    using s1(2) that by (auto simp: running_def nth_Cons' nth_replicate)
  then have "read_sessions r fds [1..<10] s1 = Some s1" by (intro read_sessions_none) blast
  moreover have "[0..<MAX_SESSIONS] = 0 # [1..<10]" by (simp add: MAX_SESSIONS_def upt_rec)
  ultimately show ?thesis using s1 by simp
qed

lemma running_step:
  assumes "running fd t s" "\<not> exited s" "fd < FD_SETSIZE"
  shows "\<exists>s'. mainloop_step k s = Some s' \<and> running fd t s' \<and> exited s' = (tk_key k = Some 1 \<and> tk_cmd k = 113)
    \<and> ptys s' = ptys s @ map (Pair fd) (typed fd [k])"
proof -
  obtain s1 where k: "keyboard k s = Some s1" "running fd t s1" "exited s1 = (tk_key k = Some 1 \<and> tk_cmd k = 113)"
    "ptys s1 = ptys s @ map (Pair fd) (typed fd [k])"
    using running_keyboard [OF assms(1,2)] by blast
  obtain fds nfds where f: "setfds (sessions s1) {} (-1) = Some (fds, nfds)" using running_select [OF k(2) assms(3)] by blast
  show ?thesis
  proof (cases "exited s1 \<or> tk_sel k fds nfds = None")
    case True
    then show ?thesis using k f by (auto simp: mainloop_step_def)
  next
    case False
    then obtain ready where "tk_sel k fds nfds = Some ready" "\<not> exited s1" by auto
    then show ?thesis using k f running_read [OF k(2) assms(3), of "tk_rd k" ready] by (auto simp: mainloop_step_def)
  qed
qed

lemma mainloop_running:
  assumes "running fd t s" "\<not> exited s" "fd < FD_SETSIZE"
  shows "\<exists>s'. mainloop ts s = Some s' \<and> running fd t s' \<and> ptys s' = ptys s @ map (Pair fd) (typed fd ts)"
  using assms(1,2)
proof (induction ts arbitrary: s)
  case (Cons k ts)
  obtain s1 where s1: "mainloop_step k s = Some s1" "running fd t s1" "exited s1 = (tk_key k = Some 1 \<and> tk_cmd k = 113)"
    "ptys s1 = ptys s @ map (Pair fd) (typed fd [k])"
    using running_step [OF Cons.prems assms(3)] by blast
  show ?case
  proof (cases "exited s1")
    case True
    then have "mainloop ts s1 = Some s1" by (cases ts) simp_all
    then show ?thesis using s1 Cons.prems(2) True by simp
  next
    case False
    then have "typed fd (k # ts) = typed fd [k] @ typed fd ts" using s1(3) by (auto split: option.split)
    then show ?thesis using Cons.IH [OF s1(2) False] s1(1,4) Cons.prems(2) by (auto simp del: typed.simps)
  qed
qed simp

end

text \<open>
  C10. The multiplexer works as a terminal: once its session exists on a descriptor that fits into an \<open>fd_set\<close>, no keys,
  output, timing, read or write errors make it use a null pointer or leave an array; the session gets, in
  order and until the quit command, exactly the keys that are no command escapes and whose write succeeds; and
  after every iteration that does not quit, each line of the physical screen holds the printing characters of
  that line of the session's screen, and the cursor is where the session has it.
\<close>

theorem mainloop_serves_session:
  assumes "terminal L C draw window shown cursor" "0 < L" "0 < C" "fd < FD_SETSIZE"
  shows "\<exists>s se. mainloop ts (initialize L C (Some fd) child) = Some s
    \<and> ptys s = map (Pair fd) (typed fd ts) \<and> sessions s ! 0 = Some se \<and> screen_ok (vscreen se)
    \<and> (exited s \<or> shown (draws draw (calls s) t) = map (drawn_line C) (lines (vscreen se))
         \<and> cursor (draws draw (calls s) t) = (cur_line (vscreen se), cur_col (vscreen se)))"
proof -
  let ?s = "initialize L C (Some fd) child"
  have i: "terminal.running L C draw window shown cursor fd t ?s" "ptys ?s = []" "\<not> exited ?s"
    using terminal.running_initialize [OF assms(1-3)] by blast+
  obtain s where "mainloop ts ?s = Some s" "terminal.running L C draw window shown cursor fd t s" "ptys s = map (Pair fd) (typed fd ts)"
    using terminal.mainloop_running [OF assms(1) i(1,3) assms(4), of ts] i(2) by auto
  then show ?thesis by (auto simp: terminal.running_def [OF assms(1)] terminal.displays_def [OF assms(1)])
qed

definition typing :: "int \<Rightarrow> u8 list \<Rightarrow> tick" where
  "typing c out = \<lparr>tk_key = Some c, tk_cmd = 0, tk_wr = (\<lambda>_ c. if c = 0 then -1 else 1), tk_sel = (\<lambda>fds n. Some fds), tk_rd = (\<lambda>_. Some out)\<rparr>"

lemma typing_simps: "tk_key (typing c out) = Some c" "tk_wr (typing c out) = (\<lambda>_ c. if c = 0 then -1 else 1)" "tk_cmd (typing c out) = 0"
  by (simp_all add: typing_def)

theorem mainloop_serves_session_witness:
  "\<exists>s. mainloop [typing 108 [108], typing 0 [], typing 13 [13, 10, 97], typing 1 []] (initialize 4 5 (Some 3) 77) = Some s
    \<and> ptys s = [(3, 108), (3, 13)]"
  using mainloop_serves_session [OF window_model.terminal_axioms [of 4 5], of 3 "[typing 108 [108], typing 0 [], typing 13 [13, 10, 97], typing 1 []]" 77 "(\<lambda>_ _. 0, \<lambda>_ _. 0, 0, 0)"]
  by (auto simp: typing_simps FD_SETSIZE_def)

text \<open>
  The result of the first \<open>session_init\<close> is not checked: without a pseudo terminal there is no foreground
  session, and the first key is written through a null pointer.
\<close>

theorem no_pty_crashes:
  assumes "tk_key t = Some c" "c \<noteq> 1"
  shows "mainloop (t # ts) (initialize L C None child) = None"
proof -
  have "initialize L C None child = curses_init no_sessions"
    by (simp add: initialize_def session_init_def MAX_SESSIONS_def upt_rec curses_init_def no_sessions_def)
  then show ?thesis using assms by (simp add: mainloop_step_def keyboard_def session_putc_def curses_init_def no_sessions_def)
qed

text \<open>A key whose write fails is lost: \<open>mainloop\<close> ignores the result, although the descriptor does not block.\<close>

theorem full_pty_loses_keys:
  assumes "sessions s ! i = Some se" "fg_session s = Some i" "tk_key t = Some c" "c \<noteq> 1" "tk_wr t (ptyfd se) (of_int c) = -1"
  shows "keyboard t s = Some s"
  using assms by (simp add: keyboard_def session_putc_def)

text \<open>
  \<open>setfds\<close> passes one more than the descriptor of the last session to \<open>select\<close>, not of the greatest one.
\<close>

theorem setfds_misses_descriptors:
  assumes "\<not> serror a" "\<not> serror b" "ptyfd b < ptyfd a" "ptyfd a < FD_SETSIZE"
  shows "\<exists>fds nfds. setfds [Some a, Some b] {} (-1) = Some (fds, nfds) \<and> (\<exists>fd \<in> fds. nfds \<le> int fd)"
  using assms by simp

end
