(* ===== verification/Spec2Isabelle.thy ===== *)
theory Spec2Isabelle
  imports Mips_Main Grades_Sort Grades_Normal Grades_Round Xacto_Trans Xacto_Server Audible_Codec Spool_Main
    Snarf_Http Sf_Extend Ecran_Main
begin

text \<open>
  Verification of the programs of the repository: a MIPS assembler and disassembler
  (\<open>src/MIPS Convertor\<close>), a grade book (\<open>src/grades\<close>), an audio recoder (\<open>src/audible\<close>), a printer
  spooler (\<open>src/Printer Spooler\<close>), a document fetcher (\<open>src/snarf\<close>), a memory allocator (\<open>src/sfmm\<close>),
  a transactional key-value server (\<open>src/xacto\<close>) and a terminal multiplexer (\<open>src/imprimer\<close>). They share
  no code; what they share is C, and that is in the prelude.

  \<^bold>\<open>Shared theories.\<close> \<open>C_Prelude\<close>: integers at their width, C strings as the characters before
  the NUL, bytes of words. \<open>C_Digits\<close>: decimal and hexadecimal numbers as the argument checks
  see them. \<open>C_Strings\<close>: the functions of the C library that the programs call. \<open>C_Float\<close>: the
  conversion \<open>%f\<close> over real numbers. \<open>C_Ieee\<close>: rounding to \<open>float\<close> and \<open>double\<close>, the numbers that are
  not rounded, and sums rounded after every addition.

  \<^bold>\<open>MIPS converter.\<close> \<open>Mips_Tables\<close> holds the tables of \<open>instr_table.c\<close> row by row, \<open>Mips_Codec\<close> the
  operations \<open>encode\<close> and \<open>decode\<close> of \<open>hw1.c\<close> on 32-bit words with every early return, \<open>Mips_Args\<close>
  the string helpers and \<open>validargs\<close>, \<open>Mips_Text\<close> \<open>printf\<close> and \<open>sscanf\<close> with the formats of the
  tables, \<open>Mips_Main\<close> the two loops of \<open>main.c\<close> composed from all of these. The locale \<open>field_codec\<close> states
  what one operand encoder and its decoder owe to each other; it is interpreted for every argument source, and
  both round trips rest on it. Shown: decoding undoes encoding under the stated conditions on the operands, encoding
  gives back a decoded word with the bits that the table expects in its extra field (the jumps at the end
  of a region, bit 25 of a BREAK and branches excepted), which words are accepted, which bits of the option word
  each command line gives, and that the code of a BREAK overwrites its opcode. For the whole program: the
  assembler gives back the words that the disassembler has printed, with the extra fields of the table, for
  programs without branches, without leftover operands and without the exceptions named above; and
  it rejects the lines that have one of these.

  \<^bold>\<open>Grade book.\<close> \<open>Grades_Db\<close> holds the records of \<open>gradedb.h\<close> with the students in a store,
  \<open>Grades_Sort\<close> all of \<open>sort.c\<close>, \<open>Grades_Stats\<close> all of \<open>stats.c\<close>, \<open>Grades_Normal\<close> all of \<open>normal.c\<close>,
  \<open>Grades_Scan\<close> and \<open>Grades_Read\<close> the scanner and the parser of \<open>read.c\<close> with fatal errors as values,
  \<open>Grades_Write\<close> \<open>write.c\<close>. The
  locale \<open>comparator\<close> is the contract of the comparison functions, interpreted for \<open>strcmp\<close> and
  the three orders of the program; \<open>link_field\<close> is the contract of the accessors of the two
  roster chains, interpreted for both; \<open>student_comparator\<close> extends the first. Shown: the
  quicksort ends and sorts for every comparator, the relinked rosters hold the same students
  in order; the frequency tables and counts of the statistics are exact, the sums and moments are those of
  the tallied grades rounded as the loops round them, exact for grades in eighths of a point, and not a number for
  some classes with equal grades; the normalizations and composites return, what the quantile
  normalization gives, and that the average of like scores is 0 without weights. \<open>sorttable\<close> and the traversals of chains are
  partial functions, and the theorems prove that they return. \<open>Grades_Lines\<close> runs the scanner on lines that
  were written, and \<open>Grades_Round\<close> shows that the reader gives back every course that the writer
  wrote and whose names fit a token, and what is lost otherwise.

  \<^bold>\<open>Memory allocator.\<close> \<open>Sf_Malloc\<close> holds the memory as a map from addresses to 64-bit words, headers
  and footers as words with the fields of \<open>sfmm.h\<close>, and \<open>sf_malloc\<close> of \<open>sfmm.c\<close>; \<open>Sf_Free\<close> \<open>sf_free\<close> and
  \<open>sf_realloc\<close> with their validity checks. The functions of \<open>sfutil.o\<close>, which is not in source form, are parameters; the
  hypotheses on them in \<open>Sf_Bump\<close> are what \<open>sfmm.h\<close> documents, and the witnesses instantiate them. Shown: on the
  first page \<open>sf_malloc\<close> refines a bump allocator, with aligned blocks that neither overlap nor leave the heap
  (\<open>Sf_Bump\<close>); the size of blocks is exact; the first block of a further page is misaligned (\<open>Sf_Extend\<close>).

  \<^bold>\<open>Xacto.\<close> \<open>Xacto_Trans\<close> models \<open>transaction.c\<close> as an interleaving of threads: a step is one critical section or one
  unlocked access (taking an id, storing it and linking a new transaction; publishing a dependency and taking its
  reference; releasing a reference, testing it and unlinking), with the inductive predicate \<open>reachable\<close>. Reference
  counts have 32 bits and wrap. The steps inside a critical section are one, and the order of memory accesses is
  that of the program. \<open>Xacto_Net\<close> models the packets of \<open>protocol.c\<close> over \<open>rio_readn\<close> and \<open>rio_writen\<close> of
  \<open>csapp.c\<close>, the client registry, as the relation \<open>registry_run\<close> with its test after the unlock as a step of its
  own, and the port check; \<open>Xacto_Data\<close> the blobs, keys and versions of \<open>data.c\<close>, whose use after being freed, and a
  reference beyond \<open>INT_MAX\<close>, is undefined; \<open>Xacto_Server\<close>
  the service thread of \<open>server.c\<close>, composed from the other three, with the store as an argument. Shown:
  a transaction commits only after those it depends on, packets survive the transfer however the operating system splits it,
  a schedule of three threads that loses a wake-up for ever, which history a return of
  \<open>creg_wait_for_empty\<close> implies, the reference counts of blobs are exact for clients that follow the rules, a client
  is served to the end of its connection, a GET sends a value after giving up its reference to it, and after a
  failed reply to a commit the server uses the freed transaction.

  \<^bold>\<open>Audio recoder.\<close> \<open>Audible_Args\<close> and \<open>Audible_Codec\<close> model \<open>hw1.c\<close>, \<open>myrand.c\<close> and \<open>main.c\<close>: the command
  line, headers, annotations and frames over byte streams, and the three recodings. Shown:
  encryption with \<open>-p\<close> applied twice gives the input back, headers round trip, speeding up with \<open>-p\<close> keeps every
  n-th frame of at most four bytes, the annotation is prepended exactly, short command lines are accepted
  exactly when they are valid and long factors wrap, slowing down is undefined behaviour.

  \<^bold>\<open>Printer spooler.\<close> \<open>Spool_Conv\<close> models \<open>list.c\<close> (types, conversions and the breadth-first search),
  \<open>Spool_Main\<close> printers, jobs and all commands of \<open>main.c\<close>; a message that does not fit its buffer of 512 bytes, and an
  access outside of an array, are \<open>None\<close>. Shown: the tables stay consistent under every command file that the
  spooler gets through, no job that could start waits then, a long name overflows the message buffer, the search
  returns real conversion paths between different types, and what goes wrong with the 32nd printer and with types declared earlier.

  \<^bold>\<open>Document fetcher.\<close> \<open>Snarf_Url\<close> models \<open>url.c\<close>, \<open>Snarf_Http\<close> \<open>http.c\<close> and \<open>snarf.c\<close> after the
  arguments. The name service and the network are parameters. Shown: a run against a server
  with a well-formed response sends the request for that URL and delivers that document; a
  malformed last header makes the program use freed memory.

  \<^bold>\<open>Terminal multiplexer.\<close> \<open>Ecran_Screen\<close> models the screen buffers of \<open>vscreen.c\<close>, with the calls of ncurses
  as a list. ncurses is not part of the program: the locale \<open>terminal\<close> states what its manual says that the calls do
  to the cells and the cursor of a window and to what a refresh shows; the properties hold for every terminal with
  these laws, and the interpretation \<open>window_model\<close> shows that there is one. \<open>Ecran_Main\<close> models the sessions and the main
  loop of \<open>session.c\<close>, \<open>mainloop.c\<close> and \<open>ecran.c\<close>, with the results of the system calls as arguments. Shown: the buffers
  keep their shape and hold printing characters or nothing, an update that sends only the changed lines shows the
  whole buffer from the first column on, text with proper line ends appears in the columns where it
  belongs, and the program serves its session, with the keys that the terminal accepts, without a crash until it is
  told to quit; keys that a full terminal refuses are lost.

  \<^bold>\<open>Conventions.\<close> Loops are structural recursion, have a termination proof or are partial functions that are
  proved to return; there is no fuel. Undefined behaviour and accesses through null pointers are values of the result type.
  Floating point numbers are reals: in the statistics and the normalization of the grade book every operation is
  followed by the rounding to the type that C computes in, and what is not a number is \<open>None\<close>; the conversion of \<open>%f\<close> in
  its files is that of real numbers, without rounding. Values beyond the largest \<open>float\<close> or \<open>double\<close> are left out.
  Counters of type \<open>int\<close> that count cells of memory are unbounded. Allocation succeeds.

  \<^bold>\<open>Not modelled.\<close> The reports and the main program of the grade book; the
  argument parsing with \<open>getopt\<close>; process control in the spooler and the accept loop of the server, which are calls of the
  operating system; \<open>src/budmm\<close>, \<open>src/bavarde\<close>, \<open>src/Intro\<close>, which are stubs.
\<close>

end
